(* ===== verification/Prelude.thy ===== *)
theory Prelude
  imports "HOL-Library.Word" "HOL-Library.AList" "HOL-Library.List_Lexorder"
    "HOL-Library.Product_Lexorder" "HOL-Library.Code_Target_Numeral"
begin

text \<open>
  The vocabulary every component shares: machine words, byte strings and their ASCII
  literals, 64-bit signed arithmetic, decimal printing and parsing, and the two interfaces
  (\<open>keyed_store\<close>, \<open>keyed_map\<close>) that hashes, sets, sorted sets and the database itself
  provide to the commands that loop over their arguments.
\<close>

unbundle bit_operations_syntax

section \<open>Machine integers and byte strings\<close>

type_synonym u8 = "8 word"
type_synonym u16 = "16 word"
type_synonym u32 = "32 word"
type_synonym u64 = "64 word"

text \<open>Rust's \<open>Bytes\<close>, \<open>Vec<u8>\<close>, \<open>&[u8]\<close> and (as UTF-8) \<open>&str\<close>.\<close>

type_synonym bytes = "u8 list"

definition ascii :: "string \<Rightarrow> bytes" where
  "ascii s = map of_char s"

text \<open>CR LF.\<close>

definition crlf :: bytes where
  "crlf = [13, 10]"

named_theorems eval_simps "unfoldings that evaluate a definition on a concrete input"
named_theorems wf_intros "every operation keeps the representation invariant"
named_theorems live_simps "how an operation changes the live contents of a database"

lemma length_crlf [simp]: "length crlf = 2"
  by (simp add: crlf_def)

lemma length_ascii [simp]: "length (ascii s) = length s"
  by (simp add: ascii_def)

declare map_of_eq_Some_iff [simp del] Some_eq_map_of_iff [simp del]

section \<open>Signed 64-bit integers\<close>

text \<open>
  An \<open>i64\<close> is an \<open>int\<close> in range; an operation that the release build lets wrap is
  followed by \<open>i64\<close>, the two's complement reading of the low 64 bits.
\<close>

definition i64_ok :: "int \<Rightarrow> bool" where
  "i64_ok n \<longleftrightarrow> - (2 ^ 63) \<le> n \<and> n < 2 ^ 63"

definition i64 :: "int \<Rightarrow> int" where
  "i64 n = (n + 2 ^ 63) mod 2 ^ 64 - 2 ^ 63"

definition checked_add_i64 :: "int \<Rightarrow> int \<Rightarrow> int option" where
  "checked_add_i64 a b = (if i64_ok (a + b) then Some (a + b) else None)"

definition checked_neg_i64 :: "int \<Rightarrow> int option" where
  "checked_neg_i64 a = (if i64_ok (- a) then Some (- a) else None)"

text \<open>The casts \<open>n as u64\<close> and \<open>n as usize\<close> of an \<open>i64\<close>.\<close>

definition u64_of_i64 :: "int \<Rightarrow> u64" where
  "u64_of_i64 n = word_of_int n"

definition usize_of_i64 :: "int \<Rightarrow> nat" where
  "usize_of_i64 n = nat (n mod 2 ^ 64)"

lemma i64_id [simp]: "i64_ok n \<Longrightarrow> i64 n = n"
  by (simp add: i64_def i64_ok_def)

lemma i64_ok_i64 [simp]: "i64_ok (i64 n)"
  by (auto simp: i64_def i64_ok_def)

lemma usize_of_i64_nonneg [simp]: "0 \<le> n \<Longrightarrow> i64_ok n \<Longrightarrow> usize_of_i64 n = nat n"
  by (simp add: usize_of_i64_def i64_ok_def)

lemma usize_of_i64_wrap: "usize_of_i64 (i64 n) = nat (n mod 2 ^ 64)"
proof -
  have "((n + 2 ^ 63) mod 2 ^ 64 - 2 ^ 63) mod 2 ^ 64 = (n + 2 ^ 63 - 2 ^ 63) mod (2 ^ 64 :: int)"
    by (rule mod_diff_left_eq)
  then show ?thesis by (simp add: usize_of_i64_def i64_def)
qed

section \<open>Decimal printing and parsing\<close>

text \<open>\<open>to_string\<close> of an unsigned and a signed integer.\<close>

fun dec_nat :: "nat \<Rightarrow> bytes" where
  "dec_nat n = (if n < 10 then [of_nat (48 + n)]
                else dec_nat (n div 10) @ [of_nat (48 + n mod 10)])"

declare dec_nat.simps [simp del]

definition dec_int :: "int \<Rightarrow> bytes" where
  "dec_int n = (if n < 0 then 45 # dec_nat (nat (- n)) else dec_nat (nat n))"

definition is_digit :: "u8 \<Rightarrow> bool" where
  "is_digit b \<longleftrightarrow> 48 \<le> b \<and> b \<le> 57"

definition digit_val :: "u8 \<Rightarrow> nat" where
  "digit_val b = unat (b - 48)"

text \<open>A non-empty run of digits, as \<open>from_str_radix\<close> reads it.\<close>

fun digits_val :: "nat \<Rightarrow> bytes \<Rightarrow> nat option" where
  "digits_val acc [] = Some acc"
| "digits_val acc (b # bs) =
     (if is_digit b then digits_val (10 * acc + digit_val b) bs else None)"

definition parse_nat :: "bytes \<Rightarrow> nat option" where
  "parse_nat bs = (if bs = [] then None else digits_val 0 bs)"

text \<open>
  \<open>str::parse::<i64>\<close> and \<open>str::parse::<u64>\<close>: an optional sign (only plus for the
  unsigned type), at least one digit, and a value in range.
\<close>

definition parse_i64 :: "bytes \<Rightarrow> int option" where
  "parse_i64 bs =
     (case bs of
        [] \<Rightarrow> None
      | b # rest \<Rightarrow>
          (let v = (if b = 45 then map_option (\<lambda>n. - int n) (parse_nat rest)
                    else if b = 43 then map_option int (parse_nat rest)
                    else map_option int (parse_nat bs))
           in case v of None \<Rightarrow> None | Some n \<Rightarrow> if i64_ok n then Some n else None))"

definition parse_u64 :: "bytes \<Rightarrow> u64 option" where
  "parse_u64 bs =
     (case bs of
        [] \<Rightarrow> None
      | b # rest \<Rightarrow>
          (case parse_nat (if b = 43 then rest else bs) of
             None \<Rightarrow> None
           | Some n \<Rightarrow> if n < 2 ^ 64 then Some (of_nat n) else None))"


subsection \<open>Printing then parsing\<close>

lemma dec_nat_nonempty [simp]: "dec_nat n \<noteq> []"
  by (subst dec_nat.simps) simp

lemma digit_of_nat:
  assumes "d < 10"
  shows "is_digit (of_nat (48 + d))" and "digit_val (of_nat (48 + d)) = d"
proof -
  have u: "unat (of_nat (48 + d) :: u8) = 48 + d"
    using assms by (subst unat_of_nat) simp
  show "is_digit (of_nat (48 + d))"
    using assms u by (simp add: is_digit_def word_le_nat_alt)
  have "unat ((of_nat (48 + d) :: u8) - 48) = 48 + d - 48"
    using u by (subst unat_sub) (simp_all add: word_le_nat_alt)
  then show "digit_val (of_nat (48 + d)) = d"
    by (simp add: digit_val_def)
qed

lemma digits_val_append:
  "digits_val a (xs @ ys) = Option.bind (digits_val a xs) (\<lambda>b. digits_val b ys)"
  by (induction a xs rule: digits_val.induct) auto

lemma digits_val_dec_nat: "\<exists>m. \<forall>a. digits_val a (dec_nat n) = Some (a * 10 ^ m + n)"
proof (induction n rule: dec_nat.induct)
  case (1 n)
  show ?case
  proof (cases "n < 10")
    case True
    have "digits_val a (dec_nat n) = Some (a * 10 ^ 1 + n)" for a
      using True digit_of_nat [OF True] by (subst dec_nat.simps) simp
    then show ?thesis by blast
  next
    case False
    with "1" obtain m where m: "\<And>a. digits_val a (dec_nat (n div 10)) = Some (a * 10 ^ m + n div 10)"
      by auto
    have d: "n mod 10 < 10" by simp
    have "digits_val a (dec_nat n) = Some (a * 10 ^ Suc m + n)" for a
      using False digit_of_nat [OF d] m
      by (subst dec_nat.simps) (simp add: digits_val_append algebra_simps)
    then show ?thesis by blast
  qed
qed

lemma parse_nat_dec_nat [simp]: "parse_nat (dec_nat n) = Some n"
  using digits_val_dec_nat [of n] by (auto simp: parse_nat_def)

lemma dec_nat_digits: "b \<in> set (dec_nat n) \<Longrightarrow> is_digit b"
proof (induction n rule: dec_nat.induct)
  case (1 n)
  show ?case
  proof (cases "n < 10")
    case True
    with "1.prems" show ?thesis
      using digit_of_nat [OF True] by (subst (asm) dec_nat.simps) auto
  next
    case False
    have d: "n mod 10 < 10" by simp
    from False "1" show ?thesis
      using digit_of_nat [OF d] by (subst (asm) dec_nat.simps) auto
  qed
qed

lemma not_digit [simp]: "\<not> is_digit 43" "\<not> is_digit 45" "\<not> is_digit 10" "\<not> is_digit 13"
    "\<not> is_digit 32" "\<not> is_digit 42" "\<not> is_digit 36" "\<not> is_digit 95"
  by (simp_all add: is_digit_def)

lemma dec_nat_Cons:
  obtains b bs where "dec_nat n = b # bs" and "is_digit b"
  using dec_nat_nonempty [of n] dec_nat_digits [of _ n] by (cases "dec_nat n") auto

lemma parse_i64_dec_int [simp]:
  assumes "i64_ok n"
  shows "parse_i64 (dec_int n) = Some n"
proof (cases "n < 0")
  case True
  with assms show ?thesis
    by (simp add: dec_int_def parse_i64_def)
next
  case False
  obtain b bs where b: "dec_nat (nat n) = b # bs" "is_digit b"
    by (rule dec_nat_Cons)
  then have "b \<noteq> 45" "b \<noteq> 43" by auto
  moreover have "parse_nat (b # bs) = Some (nat n)"
    using b(1) parse_nat_dec_nat [of "nat n"] by simp
  ultimately show ?thesis
    using False assms b(1) by (simp add: dec_int_def parse_i64_def)
qed

lemma parse_u64_dec_nat [simp]:
  assumes "n < 2 ^ 64"
  shows "parse_u64 (dec_nat n) = Some (of_nat n)"
proof -
  obtain b bs where b: "dec_nat n = b # bs" "is_digit b"
    by (rule dec_nat_Cons)
  then have "b \<noteq> 43" by auto
  moreover have "parse_nat (b # bs) = Some n"
    using b(1) parse_nat_dec_nat [of n] by simp
  ultimately show ?thesis
    using assms b(1) by (simp add: parse_u64_def)
qed

lemma parse_i64_ok: "parse_i64 bs = Some n \<Longrightarrow> i64_ok n"
  by (auto simp: parse_i64_def Let_def split: list.splits option.splits if_splits)

section \<open>Loops with a success count\<close>

text \<open>
  \<open>iter().filter(|x| f(x)).count()\<close> where \<open>f\<close> changes the container and reports whether it
  took effect.
\<close>

fun count_steps :: "('k \<Rightarrow> 's \<Rightarrow> 's \<times> bool) \<Rightarrow> 'k list \<Rightarrow> 's \<Rightarrow> 's \<times> nat" where
  "count_steps f [] s = (s, 0)"
| "count_steps f (k # ks) s =
     (let (s1, b) = f k s; (s2, n) = count_steps f ks s1
      in (s2, if b then Suc n else n))"

text \<open>
  What a keyed container promises: the key set after an insertion and a removal, the flag each
  reports, and that both keep the invariant.
\<close>

locale keyed_store =
  fixes keys :: "'s \<Rightarrow> 'k set"
    and ins :: "'k \<times> 'v \<Rightarrow> 's \<Rightarrow> 's \<times> bool"
    and del :: "'k \<Rightarrow> 's \<Rightarrow> 's \<times> bool"
    and wf :: "'s \<Rightarrow> bool"
  assumes finite_keys: "wf s \<Longrightarrow> finite (keys s)"
    and keys_ins: "wf s \<Longrightarrow> keys (fst (ins (k, v) s)) = insert k (keys s)"
    and ins_new: "wf s \<Longrightarrow> snd (ins (k, v) s) \<longleftrightarrow> k \<notin> keys s"
    and wf_ins: "wf s \<Longrightarrow> wf (fst (ins (k, v) s))"
    and keys_del: "wf s \<Longrightarrow> keys (fst (del k s)) = keys s - {k}"
    and del_old: "wf s \<Longrightarrow> snd (del k s) \<longleftrightarrow> k \<in> keys s"
    and wf_del: "wf s \<Longrightarrow> wf (fst (del k s))"
begin

lemma ins_all_conj:
  "wf s \<Longrightarrow> wf (fst (count_steps ins kvs s))
     \<and> keys (fst (count_steps ins kvs s)) = keys s \<union> fst ` set kvs
     \<and> snd (count_steps ins kvs s) = card (fst ` set kvs - keys s)"
proof (induction kvs arbitrary: s)
  case Nil
  then show ?case by simp
next
  case (Cons kv kvs)
  obtain k v where kv: "kv = (k, v)" by (cases kv)
  obtain s1 b where s1: "ins kv s = (s1, b)" by (cases "ins kv s")
  obtain s2 n where s2: "count_steps ins kvs s1 = (s2, n)" by (cases "count_steps ins kvs s1")
  have w: "wf s1" using wf_ins [OF Cons.prems, of k v] s1 kv by simp
  have k1: "keys s1 = insert k (keys s)" using keys_ins [OF Cons.prems, of k v] s1 kv by simp
  have b: "b \<longleftrightarrow> k \<notin> keys s" using ins_new [OF Cons.prems, of k v] s1 kv by simp
  have n: "n = card (fst ` set kvs - insert k (keys s))"
    using Cons.IH [OF w] s2 k1 by simp
  have "card (fst ` set (kv # kvs) - keys s) = (if k \<notin> keys s then Suc n else n)"
  proof (cases "k \<in> keys s")
    case True
    then have "fst ` set (kv # kvs) - keys s = fst ` set kvs - insert k (keys s)"
      using kv by auto
    with True n show ?thesis by simp
  next
    case False
    then have "fst ` set (kv # kvs) - keys s = insert k (fst ` set kvs - insert k (keys s))"
      using kv by auto
    with False n show ?thesis by (simp add: card_insert_if)
  qed
  then show ?case using s1 s2 b Cons.IH [OF w] k1 kv by auto
qed

lemmas ins_all = ins_all_conj [THEN conjunct1] ins_all_conj [THEN conjunct2, THEN conjunct1]
  ins_all_conj [THEN conjunct2, THEN conjunct2]

lemma del_all_conj:
  "wf s \<Longrightarrow> wf (fst (count_steps del ks s))
     \<and> keys (fst (count_steps del ks s)) = keys s - set ks
     \<and> snd (count_steps del ks s) = card (set ks \<inter> keys s)"
proof (induction ks arbitrary: s)
  case Nil
  then show ?case by simp
next
  case (Cons k ks)
  obtain s1 b where s1: "del k s = (s1, b)" by (cases "del k s")
  obtain s2 n where s2: "count_steps del ks s1 = (s2, n)" by (cases "count_steps del ks s1")
  have w: "wf s1" using wf_del [OF Cons.prems, of k] s1 by simp
  have k1: "keys s1 = keys s - {k}" using keys_del [OF Cons.prems, of k] s1 by simp
  have b: "b \<longleftrightarrow> k \<in> keys s" using del_old [OF Cons.prems, of k] s1 by simp
  have n: "n = card (set ks \<inter> (keys s - {k}))"
    using Cons.IH [OF w] s2 k1 by simp
  have "card (set (k # ks) \<inter> keys s) = (if k \<in> keys s then Suc n else n)"
  proof (cases "k \<in> keys s")
    case True
    then have "set (k # ks) \<inter> keys s = insert k (set ks \<inter> (keys s - {k}))" by auto
    with True n show ?thesis by (simp add: card_insert_if)
  next
    case False
    then have "set (k # ks) \<inter> keys s = set ks \<inter> (keys s - {k})" by auto
    with False n show ?thesis by simp
  qed
  then show ?case using s1 s2 b Cons.IH [OF w] k1 by auto
qed

lemmas del_all = del_all_conj [THEN conjunct1] del_all_conj [THEN conjunct2, THEN conjunct1]
  del_all_conj [THEN conjunct2, THEN conjunct2]

end

text \<open>A map also says what a lookup returns afterwards.\<close>

locale keyed_map = keyed_store keys ins del wf
  for keys :: "'s \<Rightarrow> 'k set" and ins :: "'k \<times> 'v \<Rightarrow> 's \<Rightarrow> 's \<times> bool"
    and del :: "'k \<Rightarrow> 's \<Rightarrow> 's \<times> bool" and wf :: "'s \<Rightarrow> bool" +
  fixes look :: "'s \<Rightarrow> 'k \<Rightarrow> 'v option"
  assumes keys_look: "wf s \<Longrightarrow> keys s = dom (look s)"
    and look_ins: "wf s \<Longrightarrow> look (fst (ins (k, v) s)) = (look s)(k \<mapsto> v)"
    and look_del: "wf s \<Longrightarrow> look (fst (del k s)) = (look s)(k := None)"
begin

lemma look_ins_all:
  assumes "wf s"
  shows "look (fst (count_steps ins kvs s)) = look s ++ map_of (rev kvs)"
  using assms
proof (induction kvs arbitrary: s)
  case Nil
  then show ?case by simp
next
  case (Cons kv kvs)
  obtain k v where kv: "kv = (k, v)" by (cases kv)
  have "wf (fst (ins (k, v) s))" using Cons.prems by (rule wf_ins)
  note IH = Cons.IH [OF this]
  show ?case using IH kv look_ins [OF Cons.prems, of k v]
    by (auto simp: case_prod_unfold Let_def map_add_def fun_eq_iff split: option.splits)
qed

lemma look_del_all:
  assumes "wf s"
  shows "look (fst (count_steps del ks s)) = (look s) |` (- set ks)"
  using assms
proof (induction ks arbitrary: s)
  case Nil
  then show ?case by simp
next
  case (Cons k ks)
  have "wf (fst (del k s))" using Cons.prems by (rule wf_del)
  note IH = Cons.IH [OF this]
  show ?case using IH look_del [OF Cons.prems, of k]
    by (auto simp: case_prod_unfold Let_def restrict_map_def fun_eq_iff)
qed

end

end
