(* ===== verification/Text.thy ===== *)
theory Text
  imports Prelude
begin

text \<open>
  What the source uses of Rust's \<open>str\<close>: UTF-8 validity, the lossy conversion that replaces
  each maximal ill-formed subsequence by U+FFFD, ASCII upper-casing and trimming of Unicode white
  space. A \<open>String\<close> is its UTF-8 bytes.
\<close>

section \<open>UTF-8\<close>

definition at_or_0 :: "bytes \<Rightarrow> nat \<Rightarrow> u8" where
  "at_or_0 bs i = (if i < length bs then bs ! i else 0)"

definition is_cont :: "u8 \<Rightarrow> bool" where
  "is_cont b \<longleftrightarrow> 0x80 \<le> b \<and> b \<le> 0xBF"

text \<open>
  The first sequence of a non-empty input: its length and whether it is well formed. An
  ill-formed one is the maximal prefix of a well-formed sequence, at least one byte.
\<close>

definition utf8_step :: "bytes \<Rightarrow> nat \<times> bool" where
  "utf8_step bs =
     (let b0 = at_or_0 bs 0; b1 = at_or_0 bs 1; b2 = at_or_0 bs 2; b3 = at_or_0 bs 3 in
      if b0 < 0x80 then (1, True)
      else if 0xC2 \<le> b0 \<and> b0 \<le> 0xDF then (if is_cont b1 then (2, True) else (1, False))
      else if 0xE0 \<le> b0 \<and> b0 \<le> 0xEF then
        (if (if b0 = 0xE0 then 0xA0 \<le> b1 \<and> b1 \<le> 0xBF
             else if b0 = 0xED then 0x80 \<le> b1 \<and> b1 \<le> 0x9F else is_cont b1)
         then (if is_cont b2 then (3, True) else (2, False)) else (1, False))
      else if 0xF0 \<le> b0 \<and> b0 \<le> 0xF4 then
        (if (if b0 = 0xF0 then 0x90 \<le> b1 \<and> b1 \<le> 0xBF
             else if b0 = 0xF4 then 0x80 \<le> b1 \<and> b1 \<le> 0x8F else is_cont b1)
         then (if is_cont b2 then (if is_cont b3 then (4, True) else (3, False)) else (2, False))
         else (1, False))
      else (1, False))"

lemma utf8_step_pos [simp]: "0 < fst (utf8_step bs)"
  by (simp add: utf8_step_def Let_def)

text \<open>\<open>std::str::from_utf8\<close> succeeds on exactly these.\<close>

function utf8_valid :: "bytes \<Rightarrow> bool" where
  "utf8_valid bs =
     (if bs = [] then True
      else snd (utf8_step bs) \<and> utf8_valid (drop (fst (utf8_step bs)) bs))"
  by pat_completeness auto
termination
  by (relation "measure length") (auto simp: neq_Nil_conv)

declare utf8_valid.simps [simp del]

text \<open>\<open>String::from_utf8_lossy\<close>.\<close>

function from_utf8_lossy :: "bytes \<Rightarrow> bytes" where
  "from_utf8_lossy bs =
     (if bs = [] then []
      else let (n, ok) = utf8_step bs
           in (if ok then take n bs else [0xEF, 0xBF, 0xBD]) @ from_utf8_lossy (drop n bs))"
  by pat_completeness auto
termination
proof (relation "measure length")
  fix bs x n and ok :: bool
  assume "bs \<noteq> []" and "x = utf8_step bs" and "(n, ok) = x"
  then have "0 < n" using utf8_step_pos [of bs] by (metis fst_conv)
  with \<open>bs \<noteq> []\<close> show "(drop n bs, bs) \<in> measure length"
    by (cases bs) auto
qed simp

declare from_utf8_lossy.simps [simp del]

definition is_ascii :: "bytes \<Rightarrow> bool" where
  "is_ascii bs \<longleftrightarrow> (\<forall>b\<in>set bs. b < 0x80)"

lemma utf8_step_ascii: "b < 0x80 \<Longrightarrow> utf8_step (b # bs) = (1, True)"
  by (simp add: utf8_step_def at_or_0_def)

lemma from_utf8_lossy_Nil [simp]: "from_utf8_lossy [] = []"
  by (simp add: from_utf8_lossy.simps)

lemma from_utf8_lossy_Cons [simp]:
  "b < 0x80 \<Longrightarrow> from_utf8_lossy (b # bs) = b # from_utf8_lossy bs"
  by (subst from_utf8_lossy.simps) (simp add: utf8_step_ascii)

lemma from_utf8_lossy_ascii [simp]: "is_ascii bs \<Longrightarrow> from_utf8_lossy bs = bs"
  by (induction bs) (auto simp: is_ascii_def)

lemma utf8_valid_Nil [simp]: "utf8_valid []"
  by (simp add: utf8_valid.simps)

lemma utf8_valid_Cons [simp]: "b < 0x80 \<Longrightarrow> utf8_valid (b # bs) = utf8_valid bs"
  by (subst utf8_valid.simps) (simp add: utf8_step_ascii)

lemma utf8_valid_ascii [simp]: "is_ascii bs \<Longrightarrow> utf8_valid bs"
  by (induction bs) (auto simp: is_ascii_def)

section \<open>Letter case\<close>

definition ascii_upper_byte :: "u8 \<Rightarrow> u8" where
  "ascii_upper_byte b = (if 97 \<le> b \<and> b \<le> 122 then b - 32 else b)"

definition ascii_lower_byte :: "u8 \<Rightarrow> u8" where
  "ascii_lower_byte b = (if 65 \<le> b \<and> b \<le> 90 then b + 32 else b)"

text \<open>\<open>to_ascii_uppercase\<close>.\<close>

definition to_ascii_uppercase :: "bytes \<Rightarrow> bytes" where
  "to_ascii_uppercase = map ascii_upper_byte"

text \<open>\<open>to_lowercase\<close> on a string that is known to be ASCII.\<close>

definition to_ascii_lowercase :: "bytes \<Rightarrow> bytes" where
  "to_ascii_lowercase = map ascii_lower_byte"

section \<open>White space\<close>

text \<open>\<open>u8::is_ascii_whitespace\<close>: space, tab, line feed, form feed, carriage return.\<close>

definition is_ascii_whitespace :: "u8 \<Rightarrow> bool" where
  "is_ascii_whitespace b \<longleftrightarrow> b = 32 \<or> b = 9 \<or> b = 10 \<or> b = 12 \<or> b = 13"

text \<open>The byte length of the Unicode \<open>White_Space\<close> character at the front, 0 if none.\<close>

definition ws_at :: "bytes \<Rightarrow> nat" where
  "ws_at bs =
     (let b0 = at_or_0 bs 0; b1 = at_or_0 bs 1; b2 = at_or_0 bs 2 in
      if bs = [] then 0
      else if (9 \<le> b0 \<and> b0 \<le> 13) \<or> b0 = 32 then 1
      else if b0 = 0xC2 \<and> (b1 = 0x85 \<or> b1 = 0xA0) then 2
      else if b0 = 0xE1 \<and> b1 = 0x9A \<and> b2 = 0x80 then 3
      else if b0 = 0xE2 \<and> b1 = 0x80 \<and>
              ((0x80 \<le> b2 \<and> b2 \<le> 0x8A) \<or> b2 = 0xA8 \<or> b2 = 0xA9 \<or> b2 = 0xAF) then 3
      else if b0 = 0xE2 \<and> b1 = 0x81 \<and> b2 = 0x9F then 3
      else if b0 = 0xE3 \<and> b1 = 0x80 \<and> b2 = 0x80 then 3
      else 0)"

function trim_start :: "bytes \<Rightarrow> bytes" where
  "trim_start bs = (if bs = [] \<or> ws_at bs = 0 then bs else trim_start (drop (ws_at bs) bs))"
  by pat_completeness auto
termination
  by (relation "measure length") (auto simp: neq_Nil_conv)

declare trim_start.simps [simp del]

text \<open>The byte length of the white-space character at the end, 0 if none.\<close>

definition ws_end :: "bytes \<Rightarrow> nat" where
  "ws_end bs =
     (let n = length bs in
      if 1 \<le> n \<and> ws_at (drop (n - 1) bs) = 1 then 1
      else if 2 \<le> n \<and> ws_at (drop (n - 2) bs) = 2 then 2
      else if 3 \<le> n \<and> ws_at (drop (n - 3) bs) = 3 then 3
      else 0)"

function trim_end :: "bytes \<Rightarrow> bytes" where
  "trim_end bs = (if bs = [] \<or> ws_end bs = 0 then bs
                  else trim_end (take (length bs - ws_end bs) bs))"
  by pat_completeness auto
termination
  by (relation "measure length") (auto simp: neq_Nil_conv)

declare trim_end.simps [simp del]

text \<open>\<open>str::trim\<close>.\<close>

definition trim :: "bytes \<Rightarrow> bytes" where
  "trim bs = trim_end (trim_start bs)"

lemma ws_at_first:
  assumes "bs \<noteq> []" and "33 \<le> hd bs" and "hd bs < 0x80"
  shows "ws_at bs = 0"
proof -
  have "at_or_0 bs 0 = hd bs" using assms(1) by (simp add: at_or_0_def hd_conv_nth)
  moreover have "hd bs \<noteq> 0xC2" "hd bs \<noteq> 0xE1" "hd bs \<noteq> 0xE2" "hd bs \<noteq> 0xE3" "hd bs \<noteq> 32"
    "\<not> hd bs \<le> 13"
    using assms(2,3) by (auto simp: word_less_nat_alt word_le_nat_alt)
  ultimately show ?thesis by (simp add: ws_at_def Let_def)
qed

text \<open>A string whose bytes are printable ASCII other than the space is its own trim.\<close>

lemma trim_printable:
  assumes "\<forall>b\<in>set bs. 33 \<le> b \<and> b < 0x80"
  shows "trim bs = bs"
proof (cases "bs = []")
  case True
  then show ?thesis by (simp add: trim_def trim_start.simps trim_end.simps)
next
  case False
  have h: "33 \<le> hd (drop k bs) \<and> hd (drop k bs) < 0x80" if "k < length bs" for k
    using assms that by (simp add: hd_drop_conv_nth)
  have w: "ws_at (drop k bs) = 0" if "k < length bs" for k
    using ws_at_first [of "drop k bs"] h [OF that] that by simp
  have "ws_at bs = 0" using w [of 0] False by simp
  then have "trim_start bs = bs" by (simp add: trim_start.simps)
  moreover have "ws_end bs = 0"
    using w [of "length bs - 1"] w [of "length bs - 2"] w [of "length bs - 3"] False
    by (auto simp: ws_end_def Let_def)
  ultimately show ?thesis by (simp add: trim_def trim_end.simps)
qed

lemma digit_printable: "is_digit b \<Longrightarrow> 33 \<le> b \<and> b < 0x80"
  by (auto simp: is_digit_def word_le_nat_alt word_less_nat_alt)

lemma dec_nat_is_ascii [simp]: "is_ascii (dec_nat n)"
  using dec_nat_digits digit_printable by (auto simp: is_ascii_def)

lemma dec_int_is_ascii [simp]: "is_ascii (dec_int n)"
  using dec_nat_is_ascii by (auto simp: dec_int_def is_ascii_def)

lemma trim_dec_nat [simp]: "trim (dec_nat n) = dec_nat n"
  by (rule trim_printable) (use dec_nat_digits digit_printable in blast)

lemma dec_nat_no_nl [simp]: "10 \<notin> set (dec_nat n)" "13 \<notin> set (dec_nat n)"
  using dec_nat_digits [of 10 n] dec_nat_digits [of 13 n] by auto

end
