(* ===== verification/F64.thy ===== *)
theory F64
  imports Text
begin

text \<open>
  Rust's \<open>f64\<close> as its IEEE 754 bit pattern: classification, the partial order and the total
  order, addition with round-to-nearest-even, \<open>str::parse::<f64>\<close> and the shortest decimal that
  \<open>Display\<close> prints. A finite double is an integer number of units of \<open>2^-1074\<close>, so all of this
  is exact integer arithmetic. \<open>format_double\<close> is src/resp.rs.
\<close>

section \<open>Bit patterns\<close>

datatype f64 = F64 (f64_bits: u64)

definition f64_neg :: "f64 \<Rightarrow> bool" where
  "f64_neg d \<longleftrightarrow> 2 ^ 63 \<le> unat (f64_bits d)"

definition f64_mag :: "f64 \<Rightarrow> nat" where
  "f64_mag d = unat (f64_bits d) mod 2 ^ 63"

definition inf_mag :: nat where
  "inf_mag = 2047 * 2 ^ 52"

definition is_nan :: "f64 \<Rightarrow> bool" where
  "is_nan d \<longleftrightarrow> inf_mag < f64_mag d"

definition is_infinite :: "f64 \<Rightarrow> bool" where
  "is_infinite d \<longleftrightarrow> f64_mag d = inf_mag"

definition mk_f64 :: "bool \<Rightarrow> nat \<Rightarrow> f64" where
  "mk_f64 neg mag = F64 (of_nat ((if neg then 2 ^ 63 else 0) + mag))"

definition f64_inf :: f64 where "f64_inf = mk_f64 False inf_mag"
definition f64_neg_inf :: f64 where "f64_neg_inf = mk_f64 True inf_mag"
definition f64_nan :: f64 where "f64_nan = mk_f64 False (4095 * 2 ^ 51)"
definition f64_zero :: f64 where "f64_zero = mk_f64 False 0"

lemma f64_mag_less: "f64_mag d < 2 ^ 63"
  by (simp add: f64_mag_def)

lemma unat_f64_bits: "unat (f64_bits d) = (if f64_neg d then 2 ^ 63 else 0) + f64_mag d"
proof -
  have "unat (f64_bits d) < 2 ^ 64" using unsigned_less [of "f64_bits d"] by simp
  then show ?thesis by (auto simp: f64_neg_def f64_mag_def mod_if)
qed

lemma f64_eqI: "f64_neg a = f64_neg b \<Longrightarrow> f64_mag a = f64_mag b \<Longrightarrow> a = b"
  by (rule f64.expand) (simp add: word_unat_eq_iff unat_f64_bits)

lemma mk_f64_simps:
  assumes "m < 2 ^ 63"
  shows "f64_mag (mk_f64 s m) = m" and "f64_neg (mk_f64 s m) = s"
proof -
  have "unat (f64_bits (mk_f64 s m)) = (if s then 2 ^ 63 else 0) + m"
    unfolding mk_f64_def f64.sel using assms by (subst unat_of_nat) simp
  then show "f64_mag (mk_f64 s m) = m" and "f64_neg (mk_f64 s m) = s"
    using assms by (auto simp: f64_mag_def f64_neg_def)
qed

section \<open>Order\<close>

text \<open>\<open>total_cmp\<close>: the order of \<open>OrdF64\<close>, in which \<open>-0.0 < 0.0\<close> and NaNs have a place.\<close>

definition total_key :: "f64 \<Rightarrow> int" where
  "total_key d = (if f64_neg d then - int (f64_mag d) - 1 else int (f64_mag d))"

lemma total_key_inj: "total_key a = total_key b \<Longrightarrow> a = b"
  by (rule f64_eqI) (auto simp: total_key_def split: if_splits)

instantiation f64 :: linorder
begin

definition less_eq_f64 :: "f64 \<Rightarrow> f64 \<Rightarrow> bool" where
  "less_eq_f64 a b \<longleftrightarrow> total_key a \<le> total_key b"

definition less_f64 :: "f64 \<Rightarrow> f64 \<Rightarrow> bool" where
  "less_f64 a b \<longleftrightarrow> total_key a < total_key b"

instance
  by standard (auto simp: less_eq_f64_def less_f64_def total_key_inj)

end

text \<open>The comparison operators of \<open>f64\<close>: false on NaN, and \<open>-0.0 == 0.0\<close>.\<close>

definition ieee_key :: "f64 \<Rightarrow> int" where
  "ieee_key d = (if f64_neg d then - int (f64_mag d) else int (f64_mag d))"

definition f64_lt :: "f64 \<Rightarrow> f64 \<Rightarrow> bool" where
  "f64_lt a b \<longleftrightarrow> \<not> is_nan a \<and> \<not> is_nan b \<and> ieee_key a < ieee_key b"

definition f64_le :: "f64 \<Rightarrow> f64 \<Rightarrow> bool" where
  "f64_le a b \<longleftrightarrow> \<not> is_nan a \<and> \<not> is_nan b \<and> ieee_key a \<le> ieee_key b"

definition f64_eq :: "f64 \<Rightarrow> f64 \<Rightarrow> bool" where
  "f64_eq a b \<longleftrightarrow> \<not> is_nan a \<and> \<not> is_nan b \<and> ieee_key a = ieee_key b"

section \<open>Rounding\<close>

text \<open>The absolute value of a finite double in units of \<open>2^-1074\<close>.\<close>

definition f64_units :: "f64 \<Rightarrow> nat" where
  "f64_units d =
     (let e = f64_mag d div 2 ^ 52; m = f64_mag d mod 2 ^ 52
      in if e = 0 then m else (2 ^ 52 + m) * 2 ^ (e - 1))"

fun bit_len :: "nat \<Rightarrow> nat" where
  "bit_len n = (if n = 0 then 0 else Suc (bit_len (n div 2)))"

declare bit_len.simps [simp del]

text \<open>
  The magnitude nearest to \<open>p/q\<close> units, ties to even, overflow to infinity. With \<open>k\<close> bits
  dropped the significand \<open>m\<close> lies below \<open>2^53\<close>, and \<open>k * 2^52 + m\<close> is its encoding.
\<close>

definition round_mag :: "nat \<Rightarrow> nat \<Rightarrow> nat" where
  "round_mag p q =
     (let k = bit_len (p div q) - 53; d = q * 2 ^ k; m = p div d; r = p mod d;
          m' = (if d < 2 * r \<or> (2 * r = d \<and> odd m) then Suc m else m)
      in min (k * 2 ^ 52 + m') inf_mag)"

text \<open>Addition.\<close>

definition f64_add :: "f64 \<Rightarrow> f64 \<Rightarrow> f64" where
  "f64_add a b =
     (if is_nan a \<or> is_nan b then f64_nan
      else if is_infinite a then
        (if is_infinite b \<and> f64_neg a \<noteq> f64_neg b then f64_nan else a)
      else if is_infinite b then b
      else let s = (\<lambda>d. if f64_neg d then - int (f64_units d) else int (f64_units d));
               t = s a + s b
           in if t = 0 then mk_f64 (f64_neg a \<and> f64_neg b) 0
              else mk_f64 (t < 0) (round_mag (nat \<bar>t\<bar>) 1))"

section \<open>Parsing\<close>

text \<open>A power of ten as a numerator and a denominator.\<close>

definition scale10 :: "nat \<Rightarrow> int \<Rightarrow> nat \<times> nat" where
  "scale10 m e = (if 0 \<le> e then (m * 10 ^ nat e, 1) else (m, 10 ^ nat (- e)))"

definition decimal_mag :: "nat \<Rightarrow> int \<Rightarrow> nat" where
  "decimal_mag m e = (let (p, q) = scale10 m e in round_mag (p * 2 ^ 1074) q)"

text \<open>The optional exponent: \<open>None\<close> when it is malformed.\<close>

definition parse_exponent :: "bytes \<Rightarrow> int option" where
  "parse_exponent bs =
     (case bs of
        [] \<Rightarrow> Some 0
      | c # rest \<Rightarrow>
          if c = 101 \<or> c = 69 then
            (case rest of
               [] \<Rightarrow> None
             | s # ds \<Rightarrow>
                 if s = 45 then map_option (\<lambda>n. - int n) (parse_nat ds)
                 else if s = 43 then map_option int (parse_nat ds)
                 else map_option int (parse_nat rest))
          else None)"

definition parse_decimal :: "bytes \<Rightarrow> nat option" where
  "parse_decimal bs =
     (let ip = takeWhile is_digit bs; r1 = dropWhile is_digit bs;
          dot = (r1 \<noteq> [] \<and> hd r1 = 46);
          fp = (if dot then takeWhile is_digit (tl r1) else []);
          r2 = (if dot then dropWhile is_digit (tl r1) else r1)
      in case parse_nat (ip @ fp) of
           None \<Rightarrow> None
         | Some m \<Rightarrow> map_option (\<lambda>e. decimal_mag m (e - int (length fp))) (parse_exponent r2))"

text \<open>\<open>str::parse::<f64>\<close>.\<close>

definition parse_f64 :: "bytes \<Rightarrow> f64 option" where
  "parse_f64 bs =
     (let neg = (bs \<noteq> [] \<and> hd bs = 45);
          body = (if bs \<noteq> [] \<and> (hd bs = 45 \<or> hd bs = 43) then tl bs else bs);
          word = to_ascii_uppercase body
      in if word = ascii ''INF'' \<or> word = ascii ''INFINITY'' then Some (mk_f64 neg inf_mag)
         else if word = ascii ''NAN'' then Some (mk_f64 neg (f64_mag f64_nan))
         else map_option (mk_f64 neg) (parse_decimal body))"

section \<open>Printing\<close>

text \<open>
  The decimal exponent \<open>k\<close> of a positive value \<open>u\<close> units: \<open>10^(k-1) \<le> u * 2^-1074 < 10^k\<close>.
\<close>

definition dec_exponent :: "nat \<Rightarrow> int" where
  "dec_exponent u =
     (if 2 ^ 1074 \<le> u then int (length (dec_nat (u div 2 ^ 1074)))
      else case find (\<lambda>j. 2 ^ 1074 \<le> u * 10 ^ (j + 1)) [0..<330] of
             None \<Rightarrow> 0 | Some j \<Rightarrow> - int j)"

text \<open>
  The shortest digits that read back as the same magnitude: for each number of digits the two
  neighbouring candidates, the nearer one first.
\<close>

definition digit_candidates :: "nat \<Rightarrow> int \<Rightarrow> nat \<Rightarrow> nat list" where
  "digit_candidates u k n =
     (let (p, q) = scale10 u (int n - k); q' = q * 2 ^ 1074; lo = p div q'; r = p mod q'
      in if 2 * r < q' then [lo, Suc lo] else [Suc lo, lo])"

definition shortest_digits :: "f64 \<Rightarrow> (nat \<times> nat) option" where
  "shortest_digits d =
     (let u = f64_units d; k = dec_exponent u
      in find (\<lambda>(n, c). decimal_mag c (k - int n) = f64_mag d)
           (concat (map (\<lambda>n. map (Pair n) (digit_candidates u k n)) [1..<18])))"

text \<open>
  \<open>Display\<close>: positional notation without an exponent. A candidate of one digit more than asked
  for is a power of ten, which moves the decimal point.
\<close>

definition display_f64 :: "f64 \<Rightarrow> bytes" where
  "display_f64 d =
     (let sign = (if f64_neg d then [45] else []); k0 = dec_exponent (f64_units d)
      in if f64_mag d = 0 then sign @ [48]
         else case shortest_digits d of
           None \<Rightarrow> sign
         | Some (n, c) \<Rightarrow>
             let ds0 = dec_nat c;
                 (k, ds) = (if n < length ds0 then (k0 + 1, take n ds0) else (k0, ds0))
             in sign @ (if k \<le> 0 then [48, 46] @ replicate (nat (- k)) 48 @ ds
                        else if int (length ds) \<le> k then ds @ replicate (nat k - length ds) 48
                        else take (nat k) ds @ [46] @ drop (nat k) ds))"

text \<open>\<open>format_double\<close> of src/resp.rs: the integral values below \<open>1e17\<close> print without a point.\<close>

definition format_double :: "f64 \<Rightarrow> bytes" where
  "format_double d =
     (if is_nan d then ascii ''nan''
      else if is_infinite d then (if f64_neg d then ascii ''-inf'' else ascii ''inf'')
      else if f64_units d mod 2 ^ 1074 = 0 \<and> f64_units d < 10 ^ 17 * 2 ^ 1074 then
        dec_int ((if f64_neg d then -1 else 1) * int (f64_units d div 2 ^ 1074))
      else display_f64 d)"

end
