(* ===== verification/ZSet.thy ===== *)
theory ZSet
  imports F64
begin

text \<open>
  The sorted set of src/db.rs: a member-to-score map and an index ordered by (score, member).
  The \<open>HashMap\<close> is an association list with distinct keys (its order is the iteration order,
  which Rust leaves open), the \<open>BTreeSet\<close> a strictly sorted list, with the scores compared by
  the total order of \<open>OrdF64\<close>. The representation invariant says the two agree.
\<close>

section \<open>The type and its operations\<close>

record zset =
  z_scores :: "(bytes \<times> f64) list"
  z_sorted :: "(f64 \<times> bytes) list"

definition zset_new :: zset where
  "zset_new = \<lparr>z_scores = [], z_sorted = []\<rparr>"

definition zset_len :: "zset \<Rightarrow> nat" where
  "zset_len z = length (z_scores z)"

definition zset_is_empty :: "zset \<Rightarrow> bool" where
  "zset_is_empty z \<longleftrightarrow> z_scores z = []"

definition zset_score :: "zset \<Rightarrow> bytes \<Rightarrow> f64 option" where
  "zset_score z m = map_of (z_scores z) m"

definition zset_insert :: "bytes \<Rightarrow> f64 \<Rightarrow> zset \<Rightarrow> zset \<times> bool" where
  "zset_insert m score z =
     (case map_of (z_scores z) m of
        Some old \<Rightarrow>
          (\<lparr>z_scores = AList.update m score (z_scores z),
            z_sorted = insort_insert (score, m) (remove1 (old, m) (z_sorted z))\<rparr>, False)
      | None \<Rightarrow>
          (\<lparr>z_scores = AList.update m score (z_scores z),
            z_sorted = insort_insert (score, m) (z_sorted z)\<rparr>, True))"

definition zset_remove :: "bytes \<Rightarrow> zset \<Rightarrow> zset \<times> bool" where
  "zset_remove m z =
     (case map_of (z_scores z) m of
        Some score \<Rightarrow>
          (\<lparr>z_scores = AList.delete m (z_scores z),
            z_sorted = remove1 (score, m) (z_sorted z)\<rparr>, True)
      | None \<Rightarrow> (z, False))"

definition zset_iter_asc :: "zset \<Rightarrow> (bytes \<times> f64) list" where
  "zset_iter_asc z = map (\<lambda>(s, m). (m, s)) (z_sorted z)"

text \<open>The rank compares with the derived \<open>==\<close> of \<open>OrdF64\<close>, which is the IEEE one.\<close>

definition zset_rank :: "zset \<Rightarrow> bytes \<Rightarrow> nat option" where
  "zset_rank z m =
     (case map_of (z_scores z) m of
        None \<Rightarrow> None
      | Some score \<Rightarrow>
          Some (length (takeWhile (\<lambda>(s', m'). \<not> (f64_eq s' score \<and> m' = m)) (z_sorted z))))"

section \<open>The representation invariant\<close>

definition zset_wf :: "zset \<Rightarrow> bool" where
  "zset_wf z \<longleftrightarrow> distinct (map fst (z_scores z)) \<and> sorted (z_sorted z) \<and> distinct (z_sorted z)
     \<and> set (z_sorted z) = (\<lambda>(m, s). (s, m)) ` set (z_scores z)"

lemma distinct_mapD: "distinct (map fst kvs) \<Longrightarrow> distinct kvs"
  by (simp add: distinct_map)

lemma zset_wf_new [wf_intros]: "zset_wf zset_new"
  by (simp add: zset_wf_def zset_new_def)

lemma zset_in_sorted:
  assumes "zset_wf z"
  shows "(s, m) \<in> set (z_sorted z) \<longleftrightarrow> map_of (z_scores z) m = Some s"
  using assms by (auto simp: zset_wf_def image_iff map_of_eq_Some_iff intro: bexI [of _ "(m, s)"])

lemma zset_wfI:
  assumes "distinct (map fst (z_scores z))" and "sorted (z_sorted z)" and "distinct (z_sorted z)"
    and "\<And>s m. (s, m) \<in> set (z_sorted z) \<longleftrightarrow> map_of (z_scores z) m = Some s"
  shows "zset_wf z"
  using assms by (auto simp: zset_wf_def image_iff map_of_eq_Some_iff)

lemma zset_wf_parts:
  assumes "zset_wf z"
  shows "distinct (map fst (z_scores z))" and "sorted (z_sorted z)" and "distinct (z_sorted z)"
  using assms by (simp_all add: zset_wf_def)

lemma zset_wf_insert [wf_intros]: "zset_wf z \<Longrightarrow> zset_wf (fst (zset_insert m s z))"
  by (rule zset_wfI)
    (auto simp: zset_insert_def zset_in_sorted zset_wf_parts update_conv' distinct_update
      sorted_insort_insert sorted_remove1 distinct_insort_insert set_insort_insert
      split: option.splits)

lemma zset_wf_remove [wf_intros]: "zset_wf z \<Longrightarrow> zset_wf (fst (zset_remove m z))"
  by (rule zset_wfI)
    (auto simp: zset_remove_def zset_in_sorted zset_wf_parts delete_conv' distinct_delete
      sorted_remove1 split: option.splits)

lemma z_scores_insert [simp]: "z_scores (fst (zset_insert m s z)) = AList.update m s (z_scores z)"
  by (simp add: zset_insert_def split: option.splits)

lemma z_scores_remove [simp]: "z_scores (fst (zset_remove m z)) = AList.delete m (z_scores z)"
  by (auto simp: zset_remove_def map_of_eq_None_iff delete_id split: option.splits)

lemma zset_insert_flag [simp]: "snd (zset_insert m s z) \<longleftrightarrow> m \<notin> dom (map_of (z_scores z))"
  by (auto simp: zset_insert_def split: option.splits)

lemma zset_remove_flag [simp]: "snd (zset_remove m z) \<longleftrightarrow> m \<in> dom (map_of (z_scores z))"
  by (auto simp: zset_remove_def split: option.splits)

text \<open>The sorted set provides the map interface.\<close>

interpretation zset: keyed_map "\<lambda>z. dom (zset_score z)" "\<lambda>(m, s). zset_insert m s" zset_remove
  zset_wf zset_score
  by unfold_locales
    (auto simp: zset_score_def [abs_def] update_conv' delete_conv' zset_wf_insert zset_wf_remove
      finite_dom_map_of)

section \<open>Rank and order\<close>

lemma length_takeWhile_sorted:
  fixes x :: "'a :: linorder"
  assumes "sorted xs" and "distinct xs" and "x \<in> set xs"
  shows "length (takeWhile (\<lambda>e. e \<noteq> x) xs) = card {y \<in> set xs. y < x}"
  using assms
proof (induction xs)
  case Nil
  then show ?case by simp
next
  case (Cons y ys)
  show ?case
  proof (cases "y = x")
    case True
    then have "{z \<in> set (y # ys). z < x} = {}" using Cons.prems by (auto simp: not_less)
    with True show ?thesis by simp
  next
    case False
    with Cons.prems have "y < x" "x \<in> set ys" by (auto simp: le_less)
    then have "{z \<in> set (y # ys). z < x} = insert y {z \<in> set ys. z < x}" by auto
    moreover have "y \<notin> {z \<in> set ys. z < x}" using Cons.prems by auto
    ultimately show ?thesis using False Cons \<open>x \<in> set ys\<close> by simp
  qed
qed

lemma zset_rank_aux:
  assumes "zset_wf z" and "zset_score z m = Some s" and "\<not> is_nan s"
  shows "zset_rank z m = Some (card {e \<in> set (z_sorted z). e < (s, m)})"
proof -
  have i: "(s, m) \<in> set (z_sorted z)" using assms by (simp add: zset_in_sorted zset_score_def)
  have "takeWhile (\<lambda>(s', m'). \<not> (f64_eq s' s \<and> m' = m)) (z_sorted z)
      = takeWhile (\<lambda>e. e \<noteq> (s, m)) (z_sorted z)"
    using assms by (intro takeWhile_cong)
      (auto simp: zset_in_sorted zset_score_def f64_eq_def)
  with length_takeWhile_sorted [OF zset_wf_parts(2,3) [OF assms(1)] i] assms(2)
  show ?thesis by (simp add: zset_rank_def zset_score_def)
qed

lemma zset_len_sorted: "zset_wf z \<Longrightarrow> length (z_sorted z) = zset_len z"
proof -
  assume wf: "zset_wf z"
  have i: "inj_on (\<lambda>(m, s). (s, m)) (set (z_scores z))" by (auto intro: inj_onI)
  have "length (z_sorted z) = card (set (z_sorted z))"
    using zset_wf_parts(3) [OF wf] by (simp add: distinct_card)
  also have "\<dots> = card (set (z_scores z))"
    using wf i by (simp add: zset_wf_def card_image)
  also have "\<dots> = zset_len z"
    using zset_wf_parts(1) [OF wf] by (simp add: distinct_mapD distinct_card zset_len_def)
  finally show ?thesis .
qed

end
