(* ===== verification/Glob.thy ===== *)
theory Glob
  imports Prelude
begin

text \<open>
  Redis glob patterns (\<open>glob_match\<close>, \<open>glob_inner\<close> and \<open>match_class\<close> of src/db.rs): the
  iterative matcher that backtracks to its last star, a declarative meaning of a pattern as a
  list of tokens, and the proof that the two agree on every input.
\<close>

section \<open>The matcher\<close>

text \<open>
  The loop of \<open>match_class\<close>, on the rest of the class: \<open>first\<close> and \<open>matched\<close> are its
  variables. \<open>None\<close> is an unterminated class.
\<close>

function class_loop :: "bytes \<Rightarrow> bool \<Rightarrow> u8 option \<Rightarrow> bool \<Rightarrow> bool \<Rightarrow> (bool \<times> bytes) option" where
  "class_loop [] negate ch first matched = None"
| "class_loop (c # rest) negate ch first matched =
     (if c = 93 \<and> \<not> first then Some (ch \<noteq> None \<and> matched \<noteq> negate, rest)
      else if c = 92 \<and> rest \<noteq> [] then
        class_loop (tl rest) negate ch False (matched \<or> ch = Some (hd rest))
      else if 2 \<le> length rest \<and> rest ! 0 = 45 \<and> rest ! 1 \<noteq> 93 then
        (let lo = min c (rest ! 1); hi = max c (rest ! 1)
         in class_loop (drop 2 rest) negate ch False
              (matched \<or> (case ch of None \<Rightarrow> False | Some x \<Rightarrow> lo \<le> x \<and> x \<le> hi)))
      else class_loop rest negate ch False (matched \<or> ch = Some c))"
  by pat_completeness auto
termination
  by (relation "measure (\<lambda>(c, _). length c)") auto

definition match_class :: "bytes \<Rightarrow> u8 option \<Rightarrow> (bool \<times> bytes) option" where
  "match_class cls ch =
     (let negate = (cls \<noteq> [] \<and> hd cls = 94)
      in class_loop (if negate then tl cls else cls) negate ch True False)"

definition first_byte :: "bytes \<Rightarrow> u8 option" where
  "first_byte s = (case s of [] \<Rightarrow> None | b # _ \<Rightarrow> Some b)"

text \<open>
  One pattern element other than a star against the front of the subject: the rest of both
  when it matches (the \<open>continue\<close>s of the loop), \<open>None\<close> when control falls through to the
  backtracking code.
\<close>

definition glob_one :: "u8 \<Rightarrow> bytes \<Rightarrow> bytes \<Rightarrow> (bytes \<times> bytes) option" where
  "glob_one pc prest s =
     (if pc = 63 then (if s \<noteq> [] then Some (prest, tl s) else None)
      else if pc = 91 then
        (case match_class prest (first_byte s) of
           Some (matched, prest2) \<Rightarrow> if matched then Some (prest2, tl s) else None
         | None \<Rightarrow> if first_byte s = Some 91 then Some (prest, tl s) else None)
      else if pc = 92 \<and> prest \<noteq> [] then
        (if first_byte s = Some (hd prest) then Some (tl prest, tl s) else None)
      else if first_byte s = Some pc then Some (prest, tl s) else None)"

lemma class_loop_length:
  "class_loop c neg ch fst1 m = Some (b, r) \<Longrightarrow> length r < length c"
proof (induction c neg ch fst1 m rule: class_loop.induct)
  case (2 c rest negate ch first matched)
  then show ?case
    by (auto simp: Let_def split: if_splits) fastforce+
qed simp

lemma match_class_length: "match_class c ch = Some (b, r) \<Longrightarrow> length r < length c"
  by (auto simp: match_class_def Let_def neq_Nil_conv dest!: class_loop_length split: if_splits)

lemma glob_one_length: "glob_one pc prest s = Some (p', s') \<Longrightarrow> length p' \<le> length prest"
  by (auto simp: glob_one_def neq_Nil_conv dest: match_class_length split: if_splits option.splits)

text \<open>
  \<open>glob_inner\<close>: the pattern, the subject and the last star's backtrack point (\<open>star_p\<close>,
  \<open>star_s\<close>).
\<close>

function glob_inner :: "bytes \<Rightarrow> bytes \<Rightarrow> (bytes \<times> bytes) option \<Rightarrow> bool" where
  "glob_inner p s star =
     (case p of
           [] \<Rightarrow> if s = [] then True
                 else (case star of None \<Rightarrow> False
                       | Some (sp, ss) \<Rightarrow> if ss = [] then False
                           else glob_inner sp (tl ss) (Some (sp, tl ss)))
         | pc # prest \<Rightarrow>
             if pc = 42 then glob_inner prest s (Some (prest, s))
             else (case glob_one pc prest s of
                     Some (p', s') \<Rightarrow> glob_inner p' s' star
                   | None \<Rightarrow>
                       (case star of None \<Rightarrow> False
                        | Some (sp, ss) \<Rightarrow> if ss = [] then False
                            else glob_inner sp (tl ss) (Some (sp, tl ss)))))"
  by pat_completeness auto
termination
  by (relation "measures [\<lambda>(p, s, star). max (length p) (case star of None \<Rightarrow> 0 | Some (sp, ss) \<Rightarrow> length sp),
        \<lambda>(p, s, star). (case star of None \<Rightarrow> 0 | Some (sp, ss) \<Rightarrow> length ss),
        \<lambda>(p, s, star). length p]")
     (auto dest!: glob_one_length split: option.splits simp: less_max_iff_disj max_def)

declare glob_inner.simps [simp del]

definition glob_match :: "bytes \<Rightarrow> bytes \<Rightarrow> bool" where
  "glob_match pattern s = glob_inner pattern s None"

section \<open>The meaning of a pattern\<close>

text \<open>
  A class is a list of single bytes and ranges; a pattern is a list of tokens, each either a
  star or a test of one byte.
\<close>

datatype class_item = CByte u8 | CRange u8 u8

fun in_item :: "u8 \<Rightarrow> class_item \<Rightarrow> bool" where
  "in_item x (CByte c) = (x = c)"
| "in_item x (CRange lo hi) = (min lo hi \<le> x \<and> x \<le> max lo hi)"

function class_items :: "bytes \<Rightarrow> bool \<Rightarrow> (class_item list \<times> bytes) option" where
  "class_items [] first = None"
| "class_items (c # rest) first =
     (if c = 93 \<and> \<not> first then Some ([], rest)
      else if c = 92 \<and> rest \<noteq> [] then
        map_option (map_prod (Cons (CByte (hd rest))) id) (class_items (tl rest) False)
      else if 2 \<le> length rest \<and> rest ! 0 = 45 \<and> rest ! 1 \<noteq> 93 then
        map_option (map_prod (Cons (CRange c (rest ! 1))) id) (class_items (drop 2 rest) False)
      else map_option (map_prod (Cons (CByte c)) id) (class_items rest False))"
  by pat_completeness auto
termination
  by (relation "measure (\<lambda>(c, _). length c)") auto

lemma class_loop_items:
  "class_loop cls negate ch first matched =
     map_option (\<lambda>(items, r).
        (ch \<noteq> None \<and> (matched \<or> (\<exists>i\<in>set items. \<exists>x. ch = Some x \<and> in_item x i)) \<noteq> negate, r))
       (class_items cls first)"
proof (induction cls negate ch first matched rule: class_loop.induct)
  case (1 negate ch first matched)
  then show ?case by simp
next
  case (2 c rest negate ch first matched)
  consider (close) "c = 93" "\<not> first"
    | (esc) "\<not> (c = 93 \<and> \<not> first)" "c = 92" "rest \<noteq> []"
    | (range) "\<not> (c = 93 \<and> \<not> first)" "\<not> (c = 92 \<and> rest \<noteq> [])"
        "2 \<le> length rest" "rest ! 0 = 45" "rest ! 1 \<noteq> 93"
    | (lit) "\<not> (c = 93 \<and> \<not> first)" "\<not> (c = 92 \<and> rest \<noteq> [])"
        "\<not> (2 \<le> length rest \<and> rest ! 0 = 45 \<and> rest ! 1 \<noteq> 93)"
    by blast
  then show ?case
  proof cases
    case close
    then show ?thesis by simp
  next
    case esc
    with "2.IH"(1) show ?thesis
      by (auto simp: option.map_comp o_def intro!: map_option_cong split: prod.splits)
  next
    case range
    with "2.IH"(2) show ?thesis
      by (cases ch)
        (auto simp: Let_def option.map_comp o_def intro!: map_option_cong split: prod.splits)
  next
    case lit
    with "2.IH"(3) show ?thesis
      by (auto simp: option.map_comp o_def intro!: map_option_cong split: prod.splits)
  qed
qed

datatype glob_token = Star | One "u8 \<Rightarrow> bool"

text \<open>The first token other than a star and the rest of the pattern.\<close>

definition one_token :: "u8 \<Rightarrow> bytes \<Rightarrow> (u8 \<Rightarrow> bool) \<times> bytes" where
  "one_token pc prest =
     (if pc = 63 then (\<lambda>_. True, prest)
      else if pc = 91 then
        (let negate = (prest \<noteq> [] \<and> hd prest = 94)
         in case class_items (if negate then tl prest else prest) True of
              Some (items, rest) \<Rightarrow> (\<lambda>x. (\<exists>i\<in>set items. in_item x i) \<noteq> negate, rest)
            | None \<Rightarrow> (\<lambda>x. x = 91, prest))
      else if pc = 92 \<and> prest \<noteq> [] then (\<lambda>x. x = hd prest, tl prest)
      else (\<lambda>x. x = pc, prest))"

lemma glob_one_token:
  "glob_one pc prest s =
     (case s of [] \<Rightarrow> None
      | x # s' \<Rightarrow> if fst (one_token pc prest) x then Some (snd (one_token pc prest), s') else None)"
  by (cases s)
    (auto simp: glob_one_def one_token_def match_class_def first_byte_def class_loop_items Let_def
      split: option.splits)

lemma class_items_length: "class_items c fst1 = Some (i, r) \<Longrightarrow> length r < length c"
  using class_loop_length [of c True None fst1 True False r] by (simp add: class_loop_items)

lemma one_token_length: "length (snd (one_token pc prest)) \<le> length prest"
  by (auto simp: one_token_def Let_def neq_Nil_conv dest!: class_items_length split: option.splits)

function tokens :: "bytes \<Rightarrow> glob_token list" where
  "tokens [] = []"
| "tokens (pc # prest) =
     (if pc = 42 then Star # tokens prest
      else One (fst (one_token pc prest)) # tokens (snd (one_token pc prest)))"
  by pat_completeness auto
termination
  by (relation "measure length") (use one_token_length in \<open>auto simp: le_imp_less_Suc\<close>)

fun matches :: "glob_token list \<Rightarrow> bytes \<Rightarrow> bool" where
  "matches [] s \<longleftrightarrow> s = []"
| "matches (One f # ts) s \<longleftrightarrow> (\<exists>x s'. s = x # s' \<and> f x \<and> matches ts s')"
| "matches (Star # ts) s \<longleftrightarrow> (\<exists>k\<le>length s. matches ts (drop k s))"

section \<open>The matcher implements the meaning\<close>

text \<open>What the backtrack point still allows: a match of its pattern at a later position.\<close>

definition later :: "(bytes \<times> bytes) option \<Rightarrow> bool" where
  "later star \<longleftrightarrow> (case star of None \<Rightarrow> False
     | Some (sp, ss) \<Rightarrow> \<exists>k. 1 \<le> k \<and> k \<le> length ss \<and> matches (tokens sp) (drop k ss))"

text \<open>
  The loop invariant: between the backtrack point and the current position lies a run of
  single-byte tokens that have consumed exactly as many bytes.
\<close>

definition star_inv :: "bytes \<Rightarrow> bytes \<Rightarrow> (bytes \<times> bytes) option \<Rightarrow> bool" where
  "star_inv p s star \<longleftrightarrow> (case star of None \<Rightarrow> True
     | Some (sp, ss) \<Rightarrow> \<exists>fs. tokens sp = map One fs @ tokens p \<and> length fs \<le> length ss
                           \<and> s = drop (length fs) ss)"

lemma matches_ones:
  "matches (map One fs @ ts) s \<Longrightarrow> length fs \<le> length s \<and> matches ts (drop (length fs) s)"
  by (induction fs arbitrary: s) auto

lemma later_step:
  "later (Some (sp, ss)) \<longleftrightarrow>
     ss \<noteq> [] \<and> (matches (tokens sp) (tl ss) \<or> later (Some (sp, tl ss)))"
proof (cases ss)
  case Nil
  then show ?thesis by (auto simp: later_def)
next
  case (Cons x ss')
  have "(\<exists>k\<ge>1. k \<le> length ss \<and> matches (tokens sp) (drop k ss))
     \<longleftrightarrow> (\<exists>k\<le>length ss'. matches (tokens sp) (drop k ss'))"
  proof
    assume "\<exists>k\<ge>1. k \<le> length ss \<and> matches (tokens sp) (drop k ss)"
    then obtain k where "1 \<le> k" "k \<le> length ss" "matches (tokens sp) (drop k ss)" by blast
    then show "\<exists>k\<le>length ss'. matches (tokens sp) (drop k ss')"
      using Cons by (intro exI [of _ "k - 1"]) (cases k, auto)
  next
    assume "\<exists>k\<le>length ss'. matches (tokens sp) (drop k ss')"
    then obtain k where "k \<le> length ss'" "matches (tokens sp) (drop k ss')" by blast
    then show "\<exists>k\<ge>1. k \<le> length ss \<and> matches (tokens sp) (drop k ss)"
      using Cons by (intro exI [of _ "Suc k"]) auto
  qed
  also have "\<dots> \<longleftrightarrow> matches (tokens sp) ss' \<or>
      (\<exists>k\<ge>1. k \<le> length ss' \<and> matches (tokens sp) (drop k ss'))"
    by (metis drop0 le0 less_one not_less)
  finally show ?thesis using Cons by (simp add: later_def)
qed

text \<open>A later match of the old backtrack point is also a match after a newer star.\<close>

lemma later_superseded:
  assumes "star_inv (42 # prest) s star" and "later star"
  shows "matches (Star # tokens prest) s"
proof -
  from assms(2) obtain sp ss k where st: "star = Some (sp, ss)"
    and k: "1 \<le> k" "k \<le> length ss" "matches (tokens sp) (drop k ss)"
    by (auto simp: later_def split: option.splits)
  with assms(1) obtain fs where fs: "tokens sp = map One fs @ Star # tokens prest"
    and s: "s = drop (length fs) ss"
    by (auto simp: star_inv_def)
  from matches_ones [OF k(3) [unfolded fs]] obtain j
    where l: "length fs \<le> length ss - k"
      and j: "j \<le> length ss - (length fs + k)" "matches (tokens prest) (drop (j + (length fs + k)) ss)"
    by (auto simp: add.commute)
  have "drop (j + k) s = drop (j + (length fs + k)) ss" by (simp add: s add_ac)
  moreover have "j + k \<le> length s" using l j(1) k(2) by (simp add: s)
  ultimately show ?thesis using j(2) by auto
qed

lemma star_inv_consume:
  assumes "star_inv p s star" and "tokens p = One f # tokens p'" and "s \<noteq> []"
  shows "star_inv p' (tl s) star"
proof (cases star)
  case None
  then show ?thesis by (simp add: star_inv_def)
next
  case (Some st)
  then obtain sp ss where st: "star = Some (sp, ss)" by (cases st) auto
  with assms(1) obtain fs where "tokens sp = map One fs @ tokens p" "length fs \<le> length ss"
    "s = drop (length fs) ss" by (auto simp: star_inv_def)
  with assms(2,3) have "tokens sp = map One (fs @ [f]) @ tokens p'"
    "length (fs @ [f]) \<le> length ss" "tl s = drop (length (fs @ [f])) ss"
    by (auto simp: tl_drop drop_Suc)
  then show ?thesis by (auto simp: star_inv_def st intro!: exI [of _ "fs @ [f]"])
qed

lemma backtrack_correct:
  assumes IH: "\<And>sp ss. star = Some (sp, ss) \<Longrightarrow> ss \<noteq> [] \<Longrightarrow> star_inv sp (tl ss) (Some (sp, tl ss)) \<Longrightarrow>
       glob_inner sp (tl ss) (Some (sp, tl ss)) \<longleftrightarrow>
       matches (tokens sp) (tl ss) \<or> later (Some (sp, tl ss))"
  shows "(case star of None \<Rightarrow> False
       | Some (sp, ss) \<Rightarrow> if ss = [] then False else glob_inner sp (tl ss) (Some (sp, tl ss)))
     \<longleftrightarrow> later star"
proof (cases star)
  case None
  then show ?thesis by (simp add: later_def)
next
  case (Some st)
  then obtain sp ss where st: "star = Some (sp, ss)" by (cases st) auto
  have "star_inv sp (tl ss) (Some (sp, tl ss))" by (auto simp: star_inv_def)
  then show ?thesis using IH [OF st] later_step [of sp ss] st by simp
qed

lemma glob_inner_correct:
  "star_inv p s star \<Longrightarrow> glob_inner p s star \<longleftrightarrow> matches (tokens p) s \<or> later star"
proof (induction p s star rule: glob_inner.induct)
  case (1 p s star)
  show ?case
  proof (cases p)
    case Nil
    show ?thesis
    proof (cases "s = []")
      case True
      with Nil show ?thesis by (subst glob_inner.simps) simp
    next
      case False
      have "glob_inner p s star = (case star of None \<Rightarrow> False
         | Some (sp, ss) \<Rightarrow> if ss = [] then False else glob_inner sp (tl ss) (Some (sp, tl ss)))"
        using Nil False by (subst glob_inner.simps) simp
      also have "\<dots> \<longleftrightarrow> later star" using "1.IH"(1) Nil False by (intro backtrack_correct) blast
      finally show ?thesis using Nil False by simp
    qed
  next
    case (Cons pc prest)
    consider (star) "pc = 42" | (hit) p' s' where "pc \<noteq> 42" "glob_one pc prest s = Some (p', s')"
      | (miss) "pc \<noteq> 42" "glob_one pc prest s = None"
      by (cases "glob_one pc prest s") auto
    then show ?thesis
    proof cases
      case star
      have inv: "star_inv prest s (Some (prest, s))" by (auto simp: star_inv_def)
      have "glob_inner p s star = glob_inner prest s (Some (prest, s))"
        using Cons star by (subst glob_inner.simps) simp
      also have "\<dots> \<longleftrightarrow> matches (tokens prest) s \<or> later (Some (prest, s))"
        using "1.IH"(2) [OF Cons star inv] .
      also have "\<dots> \<longleftrightarrow> matches (Star # tokens prest) s"
        by (auto simp: later_def intro: exI [of _ 0]) (metis One_nat_def Suc_leI drop0 neq0_conv)
      also have "\<dots> \<longleftrightarrow> matches (tokens p) s \<or> later star"
        using later_superseded "1.prems" Cons star by auto
      finally show ?thesis .
    next
      case hit
      from hit(2) obtain x where s: "s = x # s'" and f: "fst (one_token pc prest) x"
        and p': "p' = snd (one_token pc prest)"
        by (auto simp: glob_one_token split: list.splits if_splits)
      have "tokens p = One (fst (one_token pc prest)) # tokens p'"
        using Cons hit(1) p' by simp
      moreover from this have "star_inv p' s' star"
        using star_inv_consume [OF "1.prems"] s by simp
      moreover have "glob_inner p s star = glob_inner p' s' star"
        using Cons hit by (subst glob_inner.simps) simp
      ultimately show ?thesis
        using "1.IH"(4) [OF Cons hit(1,2) refl] s f by simp
    next
      case miss
      have "\<not> matches (tokens p) s"
        using miss Cons by (auto simp: glob_one_token split: if_splits)
      moreover have "glob_inner p s star = (case star of None \<Rightarrow> False
         | Some (sp, ss) \<Rightarrow> if ss = [] then False else glob_inner sp (tl ss) (Some (sp, tl ss)))"
        using Cons miss by (subst glob_inner.simps) simp
      moreover have "\<dots> \<longleftrightarrow> later star" using "1.IH"(3) Cons miss by (intro backtrack_correct) blast
      ultimately show ?thesis by simp
    qed
  qed
qed

lemma glob_match_matches: "glob_match pattern s \<longleftrightarrow> matches (tokens pattern) s"
  using glob_inner_correct [of pattern s None]
  by (simp add: glob_match_def star_inv_def later_def)

text \<open>
  C25: The iterative matcher, which keeps a single backtracking point, accepts exactly the strings
  that the pattern describes, read as a list of one-byte tests and stars.
\<close>

theorem glob_match_correct: "glob_match pattern s \<longleftrightarrow> matches (tokens pattern) s"
  by (rule glob_match_matches)

end
