(* ===== verification/Db_Spec.thy ===== *)
theory Db_Spec
  imports Db
begin

text \<open>
  What the keyspace promises: the abstract map of live keys and how every operation acts on it
  (\<open>live_simps\<close>), the invariant of the stored values and its preservation (\<open>wf_intros\<close>), the
  read-modify-write pattern of the typed accessors, and the map interface the commands use.
\<close>

section \<open>The abstract map\<close>

definition stale :: "u64 \<Rightarrow> u64 option \<Rightarrow> bool" where
  "stale now at \<longleftrightarrow> (case at of Some at \<Rightarrow> at \<le> now | None \<Rightarrow> False)"

definition entry_pair :: "entry \<Rightarrow> val \<times> u64 option" where
  "entry_pair e = (e_value e, e_expire_at e)"

definition live :: "u64 \<Rightarrow> db \<Rightarrow> bytes \<Rightarrow> (val \<times> u64 option) option" where
  "live now db key =
     (case map_of db key of
        Some e \<Rightarrow> if expired now e then None else Some (entry_pair e)
      | None \<Rightarrow> None)"

text \<open>The expiry of a live key.\<close>

definition live_ttl :: "u64 \<Rightarrow> db \<Rightarrow> bytes \<Rightarrow> u64 option" where
  "live_ttl now db key = Option.bind (live now db key) snd"

lemma expired_stale: "expired now e = stale now (e_expire_at e)"
  by (simp add: expired_def stale_def)

lemma stale_None [simp]: "\<not> stale now None"
  by (simp add: stale_def)

lemma entry_pair_sel [simp]: "fst (entry_pair e) = e_value e" "snd (entry_pair e) = e_expire_at e"
  by (simp_all add: entry_pair_def)

lemma live_not_stale: "live now db k = Some (v, t) \<Longrightarrow> \<not> stale now t"
  by (auto simp: live_def entry_pair_def expired_stale split: option.splits if_splits)

lemma live_purge [simp]: "live now (purge_if_expired now k db) = live now db"
  by (auto simp: fun_eq_iff live_def purge_if_expired_def delete_conv' split: option.splits)

lemma map_of_purge:
  "map_of (purge_if_expired now k db) k' =
     (if k' = k \<and> (\<exists>e. map_of db k = Some e \<and> expired now e) then None else map_of db k')"
  by (auto simp: purge_if_expired_def delete_conv' split: option.splits)

lemma purged_entry:
  "map_option entry_pair (map_of (purge_if_expired now k db) k) = live now db k"
  by (auto simp: live_def map_of_purge split: option.splits)

lemma purged_None:
  "map_of (purge_if_expired now k db) k = None \<longleftrightarrow> live now db k = None"
  by (metis option.map_disc_iff purged_entry)

lemma purged_Some:
  assumes "map_of (purge_if_expired now k db) k = Some e"
  shows "live now db k = Some (e_value e, e_expire_at e)"
  using purged_entry [of now k db] assms by (simp add: entry_pair_def)

lemma purge_cases:
  obtains (absent) "map_of (purge_if_expired now k db) k = None" and "live now db k = None"
    | (present) e where "map_of (purge_if_expired now k db) k = Some e"
        and "live now db k = Some (e_value e, e_expire_at e)" and "\<not> expired now e"
        and "\<not> stale now (e_expire_at e)"
proof (cases "map_of (purge_if_expired now k db) k")
  case None
  then show ?thesis using absent by (simp add: purged_None)
next
  case (Some e)
  from purged_Some [OF this] have "live now db k = Some (e_value e, e_expire_at e)" .
  with Some show ?thesis
    using present [of e] live_not_stale [of now db k] by (simp add: expired_stale)
qed

lemma db_get_live [live_simps]:
  "fst (db_get now k db) = map_option fst (live now db k)"
  "live now (snd (db_get now k db)) = live now db"
  by (simp_all add: db_get_def Let_def purged_entry [symmetric] option.map_comp comp_def)

lemma db_contains_live [live_simps]:
  "fst (db_contains now k db) \<longleftrightarrow> k \<in> dom (live now db)"
  "live now (snd (db_contains now k db)) = live now db"
  by (cases rule: purge_cases [of now k db]; auto simp: db_contains_def Let_def)+

lemma live_put [live_simps]:
  "live now (db_put k v t db) = (live now db)(k := if stale now t then None else Some (v, t))"
  by (auto simp: fun_eq_iff live_def db_put_def update_conv' expired_stale entry_pair_def)

lemma live_set [live_simps]: "live now (db_set k v db) = (live now db)(k \<mapsto> (v, None))"
  by (simp add: db_set_def live_put)

text \<open>No entry that has expired is stored at the key, as after any lookup of it.\<close>

definition fresh :: "u64 \<Rightarrow> bytes \<Rightarrow> db \<Rightarrow> bool" where
  "fresh now k db \<longleftrightarrow> (\<forall>e. map_of db k = Some e \<longrightarrow> \<not> expired now e)"

lemma fresh_purge [simp]: "fresh now k (purge_if_expired now k db)"
  by (auto simp: fresh_def map_of_purge)

lemma fresh_contains [simp]: "fresh now k (snd (db_contains now k db))"
  by (simp add: db_contains_def Let_def)

lemma live_set_keep_ttl [live_simps]:
  assumes "fresh now k db"
  shows "live now (db_set_keep_ttl k v db) = (live now db)(k \<mapsto> (v, live_ttl now db k))"
  using assms by (auto simp: fresh_def db_set_keep_ttl_def live_put live_ttl_def live_def expired_stale
      entry_pair_def split: option.splits)

lemma live_write [live_simps]:
  "live now (db_write k v db) = (live now db)(k := map_option (\<lambda>(_, t). (v, t)) (live now db k))"
  by (auto simp: fun_eq_iff live_def db_write_def update_conv' expired_stale entry_pair_def
      split: option.splits)

lemma live_delete [live_simps]: "live now (AList.delete k db) = (live now db)(k := None)"
  by (auto simp: fun_eq_iff live_def delete_conv')

lemma db_remove_live [live_simps]:
  "live now (fst (db_remove now k db)) = (live now db)(k := None)"
  "snd (db_remove now k db) \<longleftrightarrow> k \<in> dom (live now db)"
  by (cases rule: purge_cases [of now k db]; auto simp: db_remove_def Let_def live_delete)+

lemma live_remove_if_empty [live_simps]:
  "live now (db_remove_if_empty k db) =
     (live now db)(k := (case live now db k of
        Some (v, t) \<Rightarrow> if is_empty_container v then None else Some (v, t) | None \<Rightarrow> None))"
  by (auto simp: fun_eq_iff live_def db_remove_if_empty_def delete_conv' entry_pair_def
      split: option.splits)

lemma db_expire_at_live [live_simps]:
  "fst (db_expire_at now k db) = live_ttl now db k"
  "live now (snd (db_expire_at now k db)) = live now db"
  by (cases rule: purge_cases [of now k db];
      simp add: db_expire_at_def Let_def live_ttl_def entry_pair_def)+

lemma live_update_entry:
  "live now (AList.update k e db) = (live now db)(k := if expired now e then None else Some (entry_pair e))"
  by (auto simp: fun_eq_iff live_def update_conv')

lemma db_set_expire_live [live_simps]:
  "fst (db_set_expire now k at db) \<longleftrightarrow> k \<in> dom (live now db)"
  "live now (snd (db_set_expire now k at db)) =
     (live now db)(k := (case live now db k of
        Some (v, t) \<Rightarrow> if at \<le> now then None else Some (v, Some at) | None \<Rightarrow> None))"
  by (cases rule: purge_cases [of now k db];
      auto simp: db_set_expire_def Let_def live_update_entry expired_def entry_pair_def fun_eq_iff)+

lemma db_persist_live [live_simps]:
  "fst (db_persist now k db) \<longleftrightarrow> live_ttl now db k \<noteq> None"
  "live now (snd (db_persist now k db)) =
     (live now db)(k := map_option (\<lambda>(v, t). (v, None)) (live now db k))"
  by (cases rule: purge_cases [of now k db];
      auto simp: db_persist_def Let_def live_update_entry expired_def entry_pair_def live_ttl_def
        fun_eq_iff)+

lemma db_rename_live [live_simps]:
  "fst (db_rename now src dst db) \<longleftrightarrow> src \<in> dom (live now db)"
  "live now (snd (db_rename now src dst db)) =
     (case live now db src of
        Some x \<Rightarrow> (live now db)(src := None, dst \<mapsto> x)
      | None \<Rightarrow> live now db)"
  by (cases rule: purge_cases [of now src db];
      auto simp: db_rename_def Let_def live_update_entry live_delete entry_pair_def)+

lemma db_take_live [live_simps]:
  "fst (db_take now k db) = live now db k"
  "live now (snd (db_take now k db)) = (live now db)(k := None)"
  using purged_entry [of now k db]
  by (simp_all add: db_take_def Let_def live_delete entry_pair_def [abs_def])

lemma live_clear [live_simps]: "live now (db_clear db) = Map.empty"
  by (auto simp: db_clear_def live_def)

section \<open>The invariant of stored values\<close>

definition stream_wf :: "stream \<Rightarrow> bool" where
  "stream_wf s \<longleftrightarrow> sorted_wrt (<) (map fst (s_entries s)) \<and> (\<forall>i\<in>fst ` set (s_entries s). i \<le> s_last_id s)"

fun val_shape :: "val \<Rightarrow> bool" where
  "val_shape (StringV s) = True"
| "val_shape (ListV l) = True"
| "val_shape (SetV s) = distinct s"
| "val_shape (HashV h) = distinct (map fst h)"
| "val_shape (ZSetV z) = zset_wf z"
| "val_shape (StreamV s) = stream_wf s"

definition val_ok :: "val \<Rightarrow> bool" where
  "val_ok v \<longleftrightarrow> val_shape v \<and> \<not> is_empty_container v"

text \<open>All values are in order, except perhaps the ones of the keys in \<open>ks\<close>.\<close>

definition db_ok_but :: "bytes set \<Rightarrow> db \<Rightarrow> bool" where
  "db_ok_but ks db \<longleftrightarrow> distinct (map fst db) \<and>
     (\<forall>k e. map_of db k = Some e \<longrightarrow> k \<notin> ks \<longrightarrow> val_ok (e_value e))"

definition db_ok :: "db \<Rightarrow> bool" where
  "db_ok db \<longleftrightarrow> distinct (map fst db) \<and> (\<forall>(k, e)\<in>set db. val_ok (e_value e))"

lemma val_ok_simps [simp]:
  "val_ok (StringV s)"
  "val_ok (ListV l) \<longleftrightarrow> l \<noteq> []"
  "val_ok (SetV st) \<longleftrightarrow> distinct st \<and> st \<noteq> []"
  "val_ok (HashV h) \<longleftrightarrow> distinct (map fst h) \<and> h \<noteq> []"
  "val_ok (ZSetV z) \<longleftrightarrow> zset_wf z \<and> \<not> zset_is_empty z"
  "val_ok (StreamV sm) \<longleftrightarrow> stream_wf sm"
  by (auto simp: val_ok_def)

lemma db_ok_alt: "db_ok db \<longleftrightarrow> db_ok_but {} db"
  by (auto simp: db_ok_def db_ok_but_def map_of_eq_Some_iff)

lemma db_ok_but_mono: "db_ok_but ks db \<Longrightarrow> ks \<subseteq> ks' \<Longrightarrow> db_ok_but ks' db"
  by (auto simp: db_ok_but_def)

lemma db_ok_but_any: "db_ok db \<Longrightarrow> db_ok_but ks db"
  by (auto simp: db_ok_alt intro: db_ok_but_mono)

lemma db_ok_Nil [simp]: "db_ok []"
  by (simp add: db_ok_def)

lemma db_ok_but_delete [wf_intros]: "db_ok_but ks db \<Longrightarrow> db_ok_but (ks - {k}) (AList.delete k db)"
  by (auto simp: db_ok_but_def delete_conv' distinct_delete)

lemma db_ok_delete [wf_intros]: "db_ok db \<Longrightarrow> db_ok (AList.delete k db)"
  using db_ok_but_delete [of "{}" db k] by (simp add: db_ok_alt)

lemma db_ok_delete_but [wf_intros]: "db_ok_but {k} db \<Longrightarrow> db_ok (AList.delete k db)"
  using db_ok_but_delete [of "{k}" db k] by (simp add: db_ok_alt)

lemma db_ok_but_update:
  "db_ok_but ks db \<Longrightarrow> val_ok (e_value e) \<Longrightarrow> db_ok_but (ks - {k}) (AList.update k e db)"
  by (auto simp: db_ok_but_def update_conv' distinct_update)

lemma db_ok_update: "db_ok_but {k} db \<Longrightarrow> val_ok (e_value e) \<Longrightarrow> db_ok (AList.update k e db)"
  using db_ok_but_update [of "{k}" db e k] by (simp add: db_ok_alt)

lemma db_ok_purge [wf_intros]: "db_ok db \<Longrightarrow> db_ok (purge_if_expired now k db)"
  by (auto simp: purge_if_expired_def db_ok_delete split: option.splits)

lemma db_ok_purge_but [wf_intros]: "db_ok_but ks db \<Longrightarrow> db_ok_but ks (purge_if_expired now k db)"
  using db_ok_but_mono [OF db_ok_but_delete [of ks db k], of ks]
  by (auto simp: purge_if_expired_def split: option.splits)

lemma db_ok_get [wf_intros]: "db_ok db \<Longrightarrow> db_ok (snd (db_get now k db))"
  by (simp add: db_get_def Let_def db_ok_purge)

lemma db_ok_contains [wf_intros]: "db_ok db \<Longrightarrow> db_ok (snd (db_contains now k db))"
  by (simp add: db_contains_def Let_def db_ok_purge)

lemma db_ok_but_absent: "db_ok_but {k} db \<Longrightarrow> map_of db k = None \<Longrightarrow> db_ok db"
  by (metis db_ok_alt db_ok_but_def option.distinct(1) singletonD)

lemma db_ok_put [wf_intros]: "db_ok db \<Longrightarrow> val_ok v \<Longrightarrow> db_ok (db_put k v t db)"
  by (simp add: db_put_def db_ok_update db_ok_but_any)

lemma db_ok_but_put: "db_ok_but ks db \<Longrightarrow> k \<in> ks \<Longrightarrow> db_ok_but ks (db_put k v t db)"
  by (auto simp: db_ok_but_def db_put_def update_conv' distinct_update)

lemma db_ok_set [wf_intros]: "db_ok db \<Longrightarrow> val_ok v \<Longrightarrow> db_ok (db_set k v db)"
  by (simp add: db_set_def db_ok_put)

lemma db_ok_set_keep_ttl [wf_intros]: "db_ok db \<Longrightarrow> val_ok v \<Longrightarrow> db_ok (db_set_keep_ttl k v db)"
  by (simp add: db_set_keep_ttl_def db_ok_put)

lemma db_ok_write_but: "db_ok_but {k} db \<Longrightarrow> val_ok v \<Longrightarrow> db_ok (db_write k v db)"
proof -
  assume a: "db_ok_but {k} db" "val_ok v"
  show ?thesis
  proof (cases "map_of db k")
    case None
    with a show ?thesis by (simp add: db_write_def db_ok_but_absent)
  next
    case (Some e)
    with a show ?thesis by (simp add: db_write_def db_ok_update)
  qed
qed

lemma db_ok_write [wf_intros]: "db_ok db \<Longrightarrow> val_ok v \<Longrightarrow> db_ok (db_write k v db)"
  by (simp add: db_ok_write_but db_ok_but_any)

lemma map_of_write:
  "map_of (db_write k v db) k' =
     (if k' = k then map_option (\<lambda>e. e\<lparr>e_value := v\<rparr>) (map_of db k) else map_of db k')"
  by (auto simp: db_write_def update_conv' split: option.splits)

lemma db_ok_but_write: "db_ok_but {k} db \<Longrightarrow> db_ok_but {k} (db_write k v db)"
  by (auto simp: db_ok_but_def map_of_write) (auto simp: db_write_def distinct_update split: option.splits)

lemma db_ok_remove [wf_intros]: "db_ok db \<Longrightarrow> db_ok (fst (db_remove now k db))"
  by (simp add: db_remove_def Let_def db_ok_purge db_ok_delete)

lemma db_ok_remove_but [wf_intros]: "db_ok_but {k} db \<Longrightarrow> db_ok (fst (db_remove now k db))"
  by (simp add: db_remove_def Let_def db_ok_purge_but db_ok_delete_but)

lemma db_ok_remove_if_empty [wf_intros]: "db_ok db \<Longrightarrow> db_ok (db_remove_if_empty k db)"
  by (auto simp: db_remove_if_empty_def db_ok_delete split: option.splits)

text \<open>The pattern of a command that shrinks a container: write, then drop the key if empty.\<close>

lemma db_ok_write_remove [wf_intros]:
  assumes "db_ok_but {k} db" and "val_shape v"
  shows "db_ok (db_remove_if_empty k (db_write k v db))"
proof (cases "map_of db k")
  case None
  then show ?thesis using db_ok_but_absent [OF assms(1)]
    by (simp add: db_remove_if_empty_def map_of_write db_write_def)
next
  case (Some e)
  show ?thesis
  proof (cases "is_empty_container v")
    case True
    then show ?thesis using Some db_ok_but_write [OF assms(1), of v]
      by (simp add: db_remove_if_empty_def map_of_write db_ok_delete_but)
  next
    case False
    then show ?thesis using Some assms
      by (simp add: db_remove_if_empty_def map_of_write db_ok_write_but val_ok_def)
  qed
qed

lemma db_ok_entry: "db_ok db \<Longrightarrow> map_of db k = Some e \<Longrightarrow> val_ok (e_value e)"
  by (auto simp: db_ok_alt db_ok_but_def)

lemma db_ok_live: "db_ok db \<Longrightarrow> live now db k = Some (v, t) \<Longrightarrow> val_ok v"
  by (auto simp: live_def entry_pair_def split: option.splits if_splits dest: db_ok_entry)

lemma db_ok_expire_at [wf_intros]: "db_ok db \<Longrightarrow> db_ok (snd (db_expire_at now k db))"
  by (simp add: db_expire_at_def Let_def db_ok_purge)

lemma db_ok_set_expire [wf_intros]: "db_ok db \<Longrightarrow> db_ok (snd (db_set_expire now k at db))"
  by (auto simp: db_set_expire_def Let_def db_ok_purge db_ok_but_any intro!: db_ok_update
      dest: db_ok_entry [OF db_ok_purge] split: option.splits)

lemma db_ok_persist [wf_intros]: "db_ok db \<Longrightarrow> db_ok (snd (db_persist now k db))"
  by (auto simp: db_persist_def Let_def db_ok_purge db_ok_but_any intro!: db_ok_update
      dest: db_ok_entry [OF db_ok_purge] split: option.splits)

lemma db_ok_rename [wf_intros]: "db_ok db \<Longrightarrow> db_ok (snd (db_rename now src dst db))"
  by (auto simp: db_rename_def Let_def db_ok_purge db_ok_delete db_ok_but_any intro!: db_ok_update
      dest: db_ok_entry [OF db_ok_purge] split: option.splits)

lemma db_ok_take [wf_intros]: "db_ok db \<Longrightarrow> db_ok (snd (db_take now k db))"
  by (simp add: db_take_def Let_def db_ok_purge db_ok_delete)

lemma db_ok_sweep [wf_intros]: "db_ok db \<Longrightarrow> db_ok (db_sweep_expired now db)"
  by (auto simp: db_ok_def db_sweep_expired_def distinct_map_filter)

section \<open>Enumeration and sweeping\<close>

lemma map_of_filter_distinct:
  "distinct (map fst kvs) \<Longrightarrow>
   map_of (filter P kvs) k = (case map_of kvs k of Some v \<Rightarrow> if P (k, v) then Some v else None | None \<Rightarrow> None)"
  by (induction kvs) (auto simp: map_of_eq_None_iff image_iff split: option.splits)

lemma live_sweep [live_simps]:
  "db_ok db \<Longrightarrow> now \<le> now' \<Longrightarrow> live now' (db_sweep_expired now db) = live now' db"
  by (auto simp: fun_eq_iff live_def db_sweep_expired_def db_ok_def map_of_filter_distinct
      expired_def split: option.splits)

lemma live_dom:
  "db_ok db \<Longrightarrow> dom (live now db) = fst ` set (filter (\<lambda>(k, e). \<not> expired now e) db)"
  by (auto simp: live_def db_ok_def dom_def image_iff split: option.splits if_splits)
    (metis map_of_eq_Some_iff option.inject map_of_eq_None_iff option.distinct(1))+

lemma finite_live: "finite (dom (live now db))"
proof -
  have "dom (live now db) \<subseteq> dom (map_of db)" by (auto simp: live_def split: option.splits)
  then show ?thesis using finite_dom_map_of by (rule finite_subset)
qed

lemma db_len_aux: "db_ok db \<Longrightarrow> db_len now db = card (dom (live now db))"
proof -
  assume a: "db_ok db"
  then have "distinct (map fst (filter (\<lambda>(k, e). \<not> expired now e) db))"
    by (simp add: db_ok_def distinct_map_filter)
  from distinct_card [OF this] show ?thesis by (simp add: db_len_def live_dom [OF a])
qed

lemma set_keys_matching:
  "db_ok db \<Longrightarrow> set (db_keys_matching now p db) =
     {k \<in> dom (live now db). case p of None \<Rightarrow> True | Some p \<Rightarrow> glob_match p k}"
  by (auto simp: db_keys_matching_def live_dom image_iff split: option.splits)

lemma distinct_keys_matching: "db_ok db \<Longrightarrow> distinct (db_keys_matching now p db)"
  by (simp add: db_keys_matching_def db_ok_def distinct_map_filter)

lemma map_of_entries:
  "map_of (map (\<lambda>(k, e). (k, e_value e, e_expire_at e)) xs) k = map_option entry_pair (map_of xs k)"
  by (induction xs) (auto simp: entry_pair_def)

lemma map_of_iter_live: "db_ok db \<Longrightarrow> map_of (db_iter_live now db) = live now db"
  by (auto simp: fun_eq_iff db_iter_live_def live_def db_ok_def map_of_filter_distinct map_of_entries
      split: option.splits)

section \<open>Typed accessors\<close>

text \<open>
  What the accessors of one container type promise to the commands: how a read classifies a key,
  and that a read-modify-write through \<open>get_or_create_*\<close> changes the value at the key only and
  keeps its expiry.
\<close>

locale container =
  fixes as :: "val \<Rightarrow> 'a option" and mk :: "'a \<Rightarrow> val" and new :: 'a
  assumes as_mk: "as (mk x) = Some x"
    and as_Some: "as v = Some x \<Longrightarrow> v = mk x"
begin

lemma get_cases:
  obtains (absent) db' where "get_as as now k db = (Inr None, db')" and "live now db k = None"
      and "live now db' = live now db" and "db_ok db \<longrightarrow> db_ok db'" and "fresh now k db'"
    | (wrong) v t db' where "get_as as now k db = (Inl WrongType, db')"
      and "live now db k = Some (v, t)" and "as v = None"
      and "live now db' = live now db" and "db_ok db \<longrightarrow> db_ok db'"
    | (present) x t db' where "get_as as now k db = (Inr (Some x), db')"
      and "live now db k = Some (mk x, t)"
      and "live now db' = live now db" and "db_ok db \<longrightarrow> db_ok db'" and "fresh now k db'"
proof (cases rule: purge_cases [of now k db])
  case absent
  then show ?thesis using that(1) [of "purge_if_expired now k db"]
    by (simp add: get_as_def db_get_def db_ok_purge)
next
  case (present e)
  show ?thesis
  proof (cases "as (e_value e)")
    case None
    then show ?thesis using that(2) [of "purge_if_expired now k db" "e_value e" "e_expire_at e"] present
      by (simp add: get_as_def db_get_def db_ok_purge)
  next
    case (Some x)
    then show ?thesis using that(3) [of x "purge_if_expired now k db" "e_expire_at e"] present
      as_Some [OF Some]
      by (simp add: get_as_def db_get_def db_ok_purge)
  qed
qed

lemma create_cases:
  obtains (wrong) v t db' where "get_or_create_as as (mk new) now k db = (Inl WrongType, db')"
      and "live now db k = Some (v, t)" and "as v = None"
      and "live now db' = live now db" and "db_ok db \<longrightarrow> db_ok db'"
    | (created) db' where "get_or_create_as as (mk new) now k db = (Inr new, db')"
      and "live now db k = None"
      and "live now db' = (live now db)(k \<mapsto> (mk new, None))" and "db_ok db \<longrightarrow> db_ok_but {k} db'"
    | (present) x t db' where "get_or_create_as as (mk new) now k db = (Inr x, db')"
      and "live now db k = Some (mk x, t)"
      and "live now db' = live now db" and "db_ok db \<longrightarrow> db_ok db'"
proof (cases rule: purge_cases [of now k db])
  case absent
  have "db_ok db \<longrightarrow> db_ok_but {k} (db_put k (mk new) None (purge_if_expired now k db))"
    by (simp add: db_ok_but_put db_ok_but_any db_ok_purge)
  with absent show ?thesis using that(2) [of "db_put k (mk new) None (purge_if_expired now k db)"]
    by (simp add: get_or_create_as_def Let_def db_put_def update_conv' as_mk live_put [unfolded db_put_def])
next
  case (present e)
  show ?thesis
  proof (cases "as (e_value e)")
    case None
    then show ?thesis using that(1) [of "purge_if_expired now k db" "e_value e" "e_expire_at e"] present
      by (simp add: get_or_create_as_def db_ok_purge)
  next
    case (Some x)
    then show ?thesis using that(3) [of x "purge_if_expired now k db" "e_expire_at e"] present
      as_Some [OF Some]
      by (simp add: get_or_create_as_def db_ok_purge)
  qed
qed

end

interpretation strings: container as_string StringV "[]"
proof
  show "v = StringV x" if "as_string v = Some x" for v x using that by (cases v) auto
qed simp

interpretation lists: container as_list ListV "[]"
proof
  show "v = ListV x" if "as_list v = Some x" for v x using that by (cases v) auto
qed simp

interpretation sets: container as_set SetV "[]"
proof
  show "v = SetV x" if "as_set v = Some x" for v x using that by (cases v) auto
qed simp

interpretation hashes: container as_hash HashV "[]"
proof
  show "v = HashV x" if "as_hash v = Some x" for v x using that by (cases v) auto
qed simp

interpretation zsets: container as_zset ZSetV zset_new
proof
  show "v = ZSetV x" if "as_zset v = Some x" for v x using that by (cases v) auto
qed simp

interpretation streams: container as_stream StreamV stream_default
proof
  show "v = StreamV x" if "as_stream v = Some x" for v x using that by (cases v) auto
qed simp

lemmas get_cases = strings.get_cases lists.get_cases sets.get_cases hashes.get_cases
  zsets.get_cases streams.get_cases

text \<open>The live view as a map: \<open>SET\<close>-like insertion and \<open>DEL\<close>-like removal.\<close>

interpretation live_db: keyed_map "\<lambda>db. dom (live now db)"
  "\<lambda>(k, v) db. (db_set k v db, k \<notin> dom (live now db))" "db_remove now"
  "\<lambda>db. True" "\<lambda>db k. map_option fst (live now db k)" for now
  by unfold_locales (auto simp: live_simps finite_live fun_eq_iff)

section \<open>Properties\<close>


lemma live_expire_later:
  assumes "live now db k = Some (v, t)" and "now < at" and "now \<le> now'"
  shows "live now' (snd (db_set_expire now k at db)) k = (if at \<le> now' then None else Some (v, Some at))"
proof (cases rule: purge_cases [of now k db])
  case absent
  with assms(1) show ?thesis by simp
next
  case (present e)
  with assms show ?thesis
    by (auto simp: db_set_expire_def Let_def live_update_entry expired_def entry_pair_def)
qed

text \<open>
  Expiry is passive and final: once the clock reaches the deadline given to \<open>set_expire\<close> the key
  reads as absent, before that it keeps its value, and as time passes live keys only disappear.
\<close>

theorem expiry_final:
  assumes "live now db k = Some (v, t)" and "now < at" and "now \<le> now'"
  shows "fst (db_get now' k (snd (db_set_expire now k at db))) = (if at \<le> now' then None else Some v)
    \<and> live now' db \<subseteq>\<^sub>m live now db"
proof -
  have "live now' db \<subseteq>\<^sub>m live now db"
    using assms(3) by (auto simp: map_le_def live_def expired_def dom_def split: option.splits if_splits)
  then show ?thesis using live_expire_later [OF assms] by (simp add: live_simps)
qed

theorem expiry_final_witness:
  "fst (db_get 9 [7] (snd (db_set_expire 5 [7] 8 [([7], \<lparr>e_value = StringV [1], e_expire_at = None\<rparr>)]))) = None"
  using expiry_final [of 5 "[([7], \<lparr>e_value = StringV [1], e_expire_at = None\<rparr>)]" "[7]" "StringV [1]" None 8 9]
  by (simp add: live_def expired_def entry_pair_def)

text \<open>
  C5: The periodic sweep is invisible: at any later time the live contents are the same as without
  it, while the entries it leaves are exactly the live ones.
\<close>

theorem sweep_invisible:
  assumes "db_ok db" and "now \<le> now'"
  shows "live now' (db_sweep_expired now db) = live now' db
    \<and> dom (map_of (db_sweep_expired now db)) = dom (live now db)
    \<and> db_ok (db_sweep_expired now db)"
  using live_sweep [OF assms] live_dom [OF assms(1), of now] db_ok_sweep [OF assms(1), of now]
  by (simp add: db_sweep_expired_def dom_map_of_conv_image_fst)

theorem sweep_invisible_witness:
  "db_ok (db_sweep_expired 5 [([7], \<lparr>e_value = StringV [1], e_expire_at = Some 3\<rparr>)])"
  using sweep_invisible [of "[([7], \<lparr>e_value = StringV [1], e_expire_at = Some 3\<rparr>)]" 5 6]
  by (simp add: db_ok_def)

text \<open>
  \<open>DBSIZE\<close> is the number of live keys, and the enumeration a snapshot is written from lists
  each of them once with its value and expiry.
\<close>

theorem enumeration_complete:
  assumes "db_ok db"
  shows "db_len now db = card (dom (live now db))
    \<and> map_of (db_iter_live now db) = live now db
    \<and> distinct (map fst (db_iter_live now db))"
proof -
  have "map fst (db_iter_live now db) = map fst (filter (\<lambda>(k, e). \<not> expired now e) db)"
    by (simp add: db_iter_live_def case_prod_unfold comp_def)
  moreover have "distinct (map fst (filter (\<lambda>(k, e). \<not> expired now e) db))"
    using assms by (simp add: db_ok_def distinct_map_filter)
  ultimately show ?thesis using assms by (simp add: db_len_aux map_of_iter_live)
qed

theorem enumeration_complete_witness:
  "db_len 5 [([7], \<lparr>e_value = StringV [1], e_expire_at = Some 3\<rparr>)] =
     card (dom (live 5 [([7], \<lparr>e_value = StringV [1], e_expire_at = Some 3\<rparr>)]))"
  using enumeration_complete [of "[([7], \<lparr>e_value = StringV [1], e_expire_at = Some 3\<rparr>)]" 5]
  by (simp add: db_ok_def)

end
