(* ===== verification/Resp.thy ===== *)
theory Resp
  imports F64
begin

text \<open>
  The wire protocol (src/resp.rs): reply frames and their RESP2 and RESP3 encodings, and the
  incremental parser for requests, either an array of bulk strings or an inline line. A buffer is
  a byte list; \<open>encode\<close> returns the bytes the code appends to \<open>out\<close>, and \<open>parse_command\<close>
  returns the result and the buffer that is left. Allocation is taken to succeed, so
  \<open>Vec::with_capacity\<close> has no effect here.
\<close>

section \<open>Frames\<close>

datatype frame =
    Simple bytes
  | ErrorF bytes
  | Integer int
  | Bulk bytes
  | Null
  | NullArray
  | Array "frame list"
  | MapF "(frame \<times> frame) list"
  | SetF "frame list"
  | Double f64
  | Pairs "(frame \<times> frame) list"
  | Push "frame list"
  | XReadReply "(frame \<times> frame) list"

definition frame_ok :: frame where
  "frame_ok = Simple (ascii ''OK'')"

definition frame_err :: "bytes \<Rightarrow> frame" where
  "frame_err msg = ErrorF (ascii ''ERR '' @ msg)"

definition wrongtype :: frame where
  "wrongtype = ErrorF (ascii ''WRONGTYPE Operation against a key holding the wrong kind of value'')"

fun is_error :: "frame \<Rightarrow> bool" where
  "is_error (ErrorF _) = True" | "is_error _ = False"

lemma is_error_frames [simp]: "is_error (frame_err m)" "is_error wrongtype"
  by (simp_all add: frame_err_def wrongtype_def)

definition encode_header :: "u8 \<Rightarrow> nat \<Rightarrow> bytes" where
  "encode_header marker len = marker # dec_nat len @ crlf"

definition encode_bulk :: "bytes \<Rightarrow> bytes" where
  "encode_bulk data = 36 # dec_nat (length data) @ crlf @ data @ crlf"

definition encode_double :: "f64 \<Rightarrow> bool \<Rightarrow> bytes" where
  "encode_double d resp3 =
     (if resp3 then 44 # format_double d @ crlf else encode_bulk (format_double d))"

fun encode :: "bool \<Rightarrow> frame \<Rightarrow> bytes" where
  "encode resp3 (Simple s) = 43 # s @ crlf"
| "encode resp3 (ErrorF s) = 45 # s @ crlf"
| "encode resp3 (Integer n) = 58 # dec_int n @ crlf"
| "encode resp3 (Bulk data) = encode_bulk data"
| "encode resp3 Null = (if resp3 then 95 # crlf else [36, 45, 49] @ crlf)"
| "encode resp3 NullArray = (if resp3 then 95 # crlf else [42, 45, 49] @ crlf)"
| "encode resp3 (Array items) =
     encode_header 42 (length items) @ concat (map (encode resp3) items)"
| "encode resp3 (SetF items) =
     encode_header (if resp3 then 126 else 42) (length items) @ concat (map (encode resp3) items)"
| "encode resp3 (Push items) =
     encode_header (if resp3 then 62 else 42) (length items) @ concat (map (encode resp3) items)"
| "encode resp3 (MapF pairs) =
     (if resp3 then encode_header 37 (length pairs) else encode_header 42 (length pairs * 2)) @
     concat (map (\<lambda>(k, v). encode resp3 k @ encode resp3 v) pairs)"
| "encode resp3 (Double d) = encode_double d resp3"
| "encode resp3 (XReadReply pairs) =
     (if resp3 then encode_header 37 (length pairs) @
        concat (map (\<lambda>(k, v). encode resp3 k @ encode resp3 v) pairs)
      else encode_header 42 (length pairs) @
        concat (map (\<lambda>(k, v). [42, 50] @ crlf @ encode resp3 k @ encode resp3 v) pairs))"
| "encode resp3 (Pairs pairs) =
     (if resp3 then encode_header 42 (length pairs) @
        concat (map (\<lambda>(a, b). [42, 50] @ crlf @ encode resp3 a @ encode resp3 b) pairs)
      else encode_header 42 (length pairs * 2) @
        concat (map (\<lambda>(a, b). encode resp3 a @ encode resp3 b) pairs))"

section \<open>Requests\<close>

datatype parse_error = Incomplete | Protocol bytes

definition find_newline :: "bytes \<Rightarrow> nat \<Rightarrow> nat option" where
  "find_newline buf start =
     (let n = length (takeWhile (\<lambda>b. b \<noteq> 10) (drop start buf))
      in if start + n < length buf then Some (start + n) else None)"

definition trim_cr :: "bytes \<Rightarrow> bytes" where
  "trim_cr line = (if line \<noteq> [] \<and> last line = 13 then butlast line else line)"

definition parse_len :: "bytes \<Rightarrow> parse_error + int" where
  "parse_len b =
     (if utf8_valid b then
        (case parse_i64 (trim b) of Some n \<Rightarrow> Inr n
         | None \<Rightarrow> Inl (Protocol (ascii ''invalid multibulk length'')))
      else Inl (Protocol (ascii ''invalid multibulk length'')))"

text \<open>A slice \<open>buf[from..to]\<close>.\<close>

definition slice :: "bytes \<Rightarrow> nat \<Rightarrow> nat \<Rightarrow> bytes" where
  "slice buf from to = take (to - from) (drop from buf)"

text \<open>The UTF-8 form of \<open>b as char\<close>.\<close>

definition byte_char :: "u8 \<Rightarrow> bytes" where
  "byte_char b = (if b < 0x80 then [b] else [0xC0 OR drop_bit 6 b, 0x80 OR (b AND 0x3F)])"

definition expected_dollar :: "u8 \<Rightarrow> bytes" where
  "expected_dollar b = ascii ''expected '' @ [39, 36, 39] @ ascii '', got '' @ [39] @ byte_char b @ [39]"

text \<open>The loop of \<open>parse_array\<close>: arguments still to read, position, arguments so far.\<close>

fun parse_args :: "bytes \<Rightarrow> nat \<Rightarrow> nat \<Rightarrow> bytes list \<Rightarrow> parse_error + (bytes list \<times> nat)" where
  "parse_args buf 0 pos args = Inr (args, pos)"
| "parse_args buf (Suc n) pos args =
     (if length buf \<le> pos then Inl Incomplete
      else if buf ! pos \<noteq> 36 then Inl (Protocol (expected_dollar (buf ! pos)))
      else case find_newline buf pos of
        None \<Rightarrow> Inl Incomplete
      | Some nl \<Rightarrow>
          (case parse_len (trim_cr (slice buf (pos + 1) nl)) of
             Inl e \<Rightarrow> Inl e
           | Inr len \<Rightarrow>
               let pos = nl + 1 in
               if len < 0 then parse_args buf n pos (args @ [[]])
               else let len = nat len in
               if length buf < pos + len + 2 then Inl Incomplete
               else if slice buf (pos + len) (pos + len + 2) \<noteq> crlf then
                 Inl (Protocol (ascii ''expected CRLF after bulk string''))
               else parse_args buf n (pos + len + 2) (args @ [slice buf pos (pos + len)])))"

definition parse_array :: "bytes \<Rightarrow> parse_error + (bytes list \<times> nat)" where
  "parse_array buf =
     (case find_newline buf 0 of
        None \<Rightarrow> Inl Incomplete
      | Some nl \<Rightarrow>
          (case parse_len (trim_cr (slice buf 1 nl)) of
             Inl e \<Rightarrow> Inl e
           | Inr count \<Rightarrow>
               if count \<le> 0 then Inr ([], nl + 1)
               else parse_args buf (nat count) (nl + 1) []))"

subsection \<open>Inline requests\<close>

definition unescape :: "u8 \<Rightarrow> u8" where
  "unescape b = (if b = 110 then 10 else if b = 114 then 13 else if b = 116 then 9
                 else if b = 98 then 8 else if b = 97 then 7 else b)"

definition unbalanced :: parse_error where
  "unbalanced = Protocol (ascii ''unbalanced quotes'')"

text \<open>The loops inside double and single quotes, on the rest of the line.\<close>

fun double_quoted :: "bytes \<Rightarrow> bytes \<Rightarrow> parse_error + (bytes \<times> bytes)" where
  "double_quoted [] cur = Inl unbalanced"
| "double_quoted (c # rest) cur =
     (if c = 34 then Inr (cur, rest)
      else if c = 92 then
        (case rest of [] \<Rightarrow> double_quoted rest (cur @ [c])
         | e # rest' \<Rightarrow> double_quoted rest' (cur @ [unescape e]))
      else double_quoted rest (cur @ [c]))"

fun single_quoted :: "bytes \<Rightarrow> bytes \<Rightarrow> parse_error + (bytes \<times> bytes)" where
  "single_quoted [] cur = Inl unbalanced"
| "single_quoted (c # rest) cur =
     (if c = 39 then Inr (cur, rest)
      else if c = 92 then
        (case rest of [] \<Rightarrow> single_quoted rest (cur @ [c])
         | e # rest' \<Rightarrow> if e = 39 then single_quoted rest' (cur @ [39])
                        else single_quoted rest (cur @ [c]))
      else single_quoted rest (cur @ [c]))"

text \<open>One argument starting at a byte that is not white space.\<close>

definition inline_arg :: "bytes \<Rightarrow> parse_error + (bytes \<times> bytes)" where
  "inline_arg line =
     (case line of
        [] \<Rightarrow> Inr ([], [])
      | c # rest \<Rightarrow>
          if c = 34 then double_quoted rest []
          else if c = 39 then single_quoted rest []
          else Inr (takeWhile (\<lambda>b. \<not> is_ascii_whitespace b) line,
                    dropWhile (\<lambda>b. \<not> is_ascii_whitespace b) line))"

lemma double_quoted_length: "double_quoted r cur = Inr (a, r') \<Longrightarrow> length r' < length r"
  by (induction r cur rule: double_quoted.induct) (auto split: if_splits list.splits)

lemma single_quoted_length: "single_quoted r cur = Inr (a, r') \<Longrightarrow> length r' < length r"
  by (induction r cur rule: single_quoted.induct) (auto split: if_splits list.splits)

lemma inline_arg_length:
  assumes "inline_arg l = Inr (a, r)" and "l \<noteq> []" and "\<not> is_ascii_whitespace (hd l)"
  shows "length r < length l"
  using assms
  by (auto simp: inline_arg_def le_imp_less_Suc length_dropWhile_le split: list.splits if_splits
      dest: double_quoted_length single_quoted_length)

function split_inline :: "bytes \<Rightarrow> parse_error + bytes list" where
  "split_inline line =
     (let l = dropWhile is_ascii_whitespace line
      in if l = [] then Inr []
         else case inline_arg l of
           Inl e \<Rightarrow> Inl e
         | Inr (a, r) \<Rightarrow> (case split_inline r of Inl e \<Rightarrow> Inl e | Inr args \<Rightarrow> Inr (a # args)))"
  by pat_completeness auto
termination
proof (relation "measure length")
  fix line l x a r
  assume l: "l = dropWhile is_ascii_whitespace line" and "l \<noteq> []"
    and "inline_arg l = Inr x" and "(a, r) = x"
  then have "length r < length l"
    using inline_arg_length [of l a r] hd_dropWhile [of is_ascii_whitespace line] by auto
  also have "\<dots> \<le> length line" by (simp add: l length_dropWhile_le)
  finally show "(r, line) \<in> measure length" by simp
qed simp

declare split_inline.simps [simp del]

definition parse_inline :: "bytes \<Rightarrow> parse_error + (bytes list \<times> nat)" where
  "parse_inline buf =
     (case find_newline buf 0 of
        None \<Rightarrow> Inl Incomplete
      | Some nl \<Rightarrow>
          (case split_inline (trim_cr (slice buf 0 nl)) of
             Inl e \<Rightarrow> Inl e
           | Inr args \<Rightarrow> Inr (args, nl + 1)))"

definition parse_command :: "bytes \<Rightarrow> (parse_error + bytes list option) \<times> bytes" where
  "parse_command buf =
     (if buf = [] then (Inr None, buf)
      else case (if hd buf = 42 then parse_array buf else parse_inline buf) of
             Inr (args, consumed) \<Rightarrow> (Inr (Some args), drop consumed buf)
           | Inl Incomplete \<Rightarrow> (Inr None, buf)
           | Inl e \<Rightarrow> (Inl e, buf))"

section \<open>Incremental parsing\<close>

lemma find_newline_Some:
  assumes "find_newline buf start = Some nl"
  shows "start \<le> nl" and "nl < length buf" and "buf ! nl = 10"
proof -
  let ?n = "length (takeWhile (\<lambda>b. b \<noteq> 10) (drop start buf))"
  from assms have nl: "nl = start + ?n" and l: "start + ?n < length buf"
    by (auto simp: find_newline_def Let_def split: if_splits)
  then show "start \<le> nl" and "nl < length buf" by auto
  have "?n < length (drop start buf)" using l by simp
  then have "drop start buf ! ?n = 10" using nth_length_takeWhile by fastforce
  then show "buf ! nl = 10" using l nl by simp
qed

lemma find_newline_layout:
  assumes "drop start buf = xs @ 10 # ys" and "10 \<notin> set xs"
  shows "find_newline buf start = Some (start + length xs)"
proof -
  have "takeWhile (\<lambda>b. b \<noteq> 10) (drop start buf) = xs"
    using assms by (auto simp: takeWhile_append2 intro!: takeWhile_append2 [THEN trans])
  moreover have "start + length xs < length buf"
    using arg_cong [OF assms(1), of length] by simp
  ultimately show ?thesis by (simp add: find_newline_def)
qed

lemma find_newline_append [simp]:
  assumes "find_newline buf start = Some nl"
  shows "find_newline (buf @ more) start = Some nl"
proof -
  let ?w = "takeWhile (\<lambda>b. b \<noteq> 10) (drop start buf)"
  from assms have nl: "nl = start + length ?w" and l: "start + length ?w < length buf"
    by (auto simp: find_newline_def Let_def split: if_splits)
  define w where "w = ?w"
  have lw: "length w < length (drop start buf)" using l by (simp add: w_def)
  then have "drop start buf ! length w = 10"
    using nth_length_takeWhile [of "\<lambda>b. b \<noteq> 10" "drop start buf"] by (simp add: w_def)
  moreover have "take (length w) (drop start buf) = w"
    by (metis append_eq_conv_conj takeWhile_dropWhile_id w_def)
  ultimately have "drop start buf = ?w @ 10 # drop (Suc (length w)) (drop start buf)"
    using id_take_nth_drop [OF lw] by (simp add: w_def)
  then obtain ys where "drop start buf = ?w @ 10 # ys" by blast
  then have "drop start (buf @ more) = ?w @ 10 # (ys @ more)" using l by simp
  then show ?thesis using find_newline_layout [of start "buf @ more" ?w "ys @ more"] nl
    by (auto dest: set_takeWhileD)
qed

lemma slice_append [simp]: "to \<le> length buf \<Longrightarrow> slice (buf @ more) from to = slice buf from to"
  by (cases "from \<le> length buf") (auto simp: slice_def)

text \<open>Bytes that arrive later never change a result that is already there.\<close>

lemma parse_args_stable:
  "parse_args buf n pos args \<noteq> Inl Incomplete \<Longrightarrow>
   parse_args (buf @ more) n pos args = parse_args buf n pos args"
proof (induction n arbitrary: pos args)
  case 0
  then show ?case by simp
next
  case (Suc n)
  show ?case
  proof (cases "length buf \<le> pos \<or> buf ! pos \<noteq> 36 \<or> find_newline buf pos = None")
    case True
    with Suc.prems show ?thesis by (auto simp: nth_append split: if_splits)
  next
    case False
    then obtain nl where nl: "find_newline buf pos = Some nl" by auto
    have b: "nl < length buf" using find_newline_Some [OF nl] by simp
    with False nl Suc show ?thesis
      by (auto simp: nth_append Let_def split: sum.splits)
  qed
qed

lemma parse_args_consumed:
  "parse_args buf n pos args = Inr (out, c) \<Longrightarrow> pos \<le> length buf \<Longrightarrow> pos \<le> c \<and> c \<le> length buf"
proof (induction n arbitrary: pos args)
  case 0
  then show ?case by simp
next
  case (Suc n)
  then obtain nl where p: "pos < length buf" "buf ! pos = 36" and nl: "find_newline buf pos = Some nl"
    by (auto split: if_splits option.splits)
  note b = find_newline_Some [OF nl]
  from Suc.prems p nl obtain len where len: "parse_len (trim_cr (slice buf (pos + 1) nl)) = Inr len"
    by (auto split: sum.splits)
  show ?case
  proof (cases "len < 0")
    case True
    then have "parse_args buf n (nl + 1) (args @ [[]]) = Inr (out, c)"
      using Suc.prems p nl len by (simp add: Let_def)
    from Suc.IH [OF this] b show ?thesis by simp
  next
    case False
    then have "nl + 1 + nat len + 2 \<le> length buf"
      "parse_args buf n (nl + 1 + nat len + 2) (args @ [slice buf (nl + 1) (nl + 1 + nat len)]) = Inr (out, c)"
      using Suc.prems p nl len by (auto simp: Let_def split: if_splits)
    from Suc.IH [OF this(2)] this(1) b show ?thesis by simp
  qed
qed

lemma parse_array_stable:
  "parse_array buf \<noteq> Inl Incomplete \<Longrightarrow> parse_array (buf @ more) = parse_array buf"
  by (auto simp: parse_array_def parse_args_stable find_newline_Some(2) less_imp_le_nat
      split: option.splits sum.splits)

lemma parse_inline_stable:
  "parse_inline buf \<noteq> Inl Incomplete \<Longrightarrow> parse_inline (buf @ more) = parse_inline buf"
  by (auto simp: parse_inline_def find_newline_Some(2) less_imp_le_nat
      split: option.splits sum.splits)

lemma parse_array_consumed: "parse_array buf = Inr (args, c) \<Longrightarrow> 0 < c \<and> c \<le> length buf"
  by (auto simp: parse_array_def split: option.splits sum.splits if_splits
      dest!: parse_args_consumed find_newline_Some(2))

lemma parse_inline_consumed: "parse_inline buf = Inr (args, c) \<Longrightarrow> 0 < c \<and> c \<le> length buf"
  by (auto simp: parse_inline_def split: option.splits sum.splits dest!: find_newline_Some(2))

lemma parse_command_stable_aux:
  assumes "fst (parse_command buf) \<noteq> Inr None"
  shows "parse_command (buf @ more) = (fst (parse_command buf), snd (parse_command buf) @ more)"
proof -
  have ne: "buf \<noteq> []" using assms by (auto simp: parse_command_def)
  let ?p = "\<lambda>b. if hd b = 42 then parse_array b else parse_inline b"
  have "?p buf \<noteq> Inl Incomplete" using assms by (auto simp: parse_command_def split: if_splits)
  then have "?p (buf @ more) = ?p buf"
    using ne by (auto simp: parse_array_stable parse_inline_stable)
  moreover have "c \<le> length buf" if "?p buf = Inr (a, c)" for a c
    using that parse_array_consumed parse_inline_consumed by (auto split: if_splits)
  ultimately show ?thesis using ne
    by (auto simp: parse_command_def split: sum.splits parse_error.splits)
qed

section \<open>Round trip of requests\<close>

lemma trim_cr_snoc [simp]: "trim_cr (xs @ [13]) = xs"
  by (simp add: trim_cr_def)

lemma parse_len_dec [simp]: "n < 2 ^ 63 \<Longrightarrow> parse_len (dec_nat n) = Inr (int n)"
  using parse_i64_dec_int [of "int n"] by (simp add: parse_len_def dec_int_def i64_ok_def)

lemma header_newline:
  assumes "drop pos buf = m # dec_nat n @ crlf @ tl1" and "m \<noteq> 10"
  shows "find_newline buf pos = Some (pos + length (dec_nat n) + 2)"
    and "trim_cr (slice buf (pos + 1) (pos + length (dec_nat n) + 2)) = dec_nat n"
proof -
  have "drop pos buf = (m # dec_nat n @ [13]) @ 10 # tl1"
    using assms(1) by (simp add: crlf_def)
  from find_newline_layout [OF this] assms(2)
  show "find_newline buf pos = Some (pos + length (dec_nat n) + 2)"
    by simp
  have "drop (pos + 1) buf = dec_nat n @ crlf @ tl1"
    using assms(1) by (metis Suc_eq_plus1 drop_Suc list.sel(3) tl_drop)
  then show "trim_cr (slice buf (pos + 1) (pos + length (dec_nat n) + 2)) = dec_nat n"
    by (simp add: slice_def crlf_def)
qed

lemma parse_args_encode:
  assumes "\<forall>x\<in>set xs. length x < 2 ^ 63"
    and "drop pos buf = concat (map encode_bulk xs) @ rest" and "pos \<le> length buf"
  shows "parse_args buf (length xs) pos args
       = Inr (args @ xs, pos + length (concat (map encode_bulk xs)))"
  using assms
proof (induction xs arbitrary: pos args)
  case Nil
  then show ?case by simp
next
  case (Cons x xs)
  let ?d = "dec_nat (length x)" and ?tl = "concat (map encode_bulk xs) @ rest"
  let ?nl = "pos + length ?d + 2"
  have lay: "drop pos buf = 36 # ?d @ crlf @ (x @ crlf @ ?tl)"
    using Cons.prems(2) by (simp add: encode_bulk_def [of x])
  have pos: "pos < length buf" "buf ! pos = 36"
  proof -
    have "length (drop pos buf) > 0" unfolding lay by simp
    then show p: "pos < length buf" by simp
    then have "buf ! pos = hd (drop pos buf)" by (simp add: hd_drop_conv_nth)
    then show "buf ! pos = 36" unfolding lay by simp
  qed
  note hdr = header_newline [OF lay]
  have body: "drop (?nl + 1) buf = x @ crlf @ ?tl"
  proof -
    have "drop (?nl + 1) buf = drop (length ?d + 3) (drop pos buf)"
      by (simp add: add_ac numeral_3_eq_3)
    then show ?thesis unfolding lay by (simp add: crlf_def numeral_3_eq_3)
  qed
  have len: "length buf = ?nl + 1 + length x + 2 + length ?tl"
    using arg_cong [OF lay, of length] pos(1) by simp
  have s1: "slice buf (?nl + 1) (?nl + 1 + length x) = x"
    using body by (simp add: slice_def)
  have s2: "slice buf (?nl + 1 + length x) (?nl + 1 + length x + 2) = crlf"
  proof -
    have "drop (?nl + 1 + length x) buf = drop (length x) (drop (?nl + 1) buf)"
      by (simp add: add_ac)
    then show ?thesis unfolding slice_def body by simp
  qed
  have nxt: "drop (?nl + 1 + length x + 2) buf = ?tl"
  proof -
    have "drop (?nl + 1 + length x + 2) buf = drop (length x + 2) (drop (?nl + 1) buf)"
      by (simp add: add_ac)
    then show ?thesis unfolding body by (simp add: crlf_def)
  qed
  have IH: "parse_args buf (length xs) (?nl + 1 + length x + 2) (args @ [x])
       = Inr (args @ x # xs, ?nl + 1 + length x + 2 + length (concat (map encode_bulk xs)))"
    using Cons.IH [OF _ nxt, of "args @ [x]"] Cons.prems(1) len by simp
  have "parse_args buf (length (x # xs)) pos args
      = parse_args buf (length xs) (?nl + 1 + length x + 2) (args @ [x])"
    using pos hdr s1 s2 len Cons.prems(1) by (simp add: Let_def)
  then show ?case using IH by (simp add: encode_bulk_def [of x] add_ac crlf_def)
qed

lemma parse_array_encode:
  assumes "\<forall>x\<in>set args. length x < 2 ^ 63" and "length args < 2 ^ 63"
  shows "parse_array (encode r3 (Array (map Bulk args)) @ rest)
       = Inr (args, length (encode r3 (Array (map Bulk args))))"
proof -
  let ?body = "concat (map encode_bulk args)" and ?d = "dec_nat (length args)"
  have enc: "encode r3 (Array (map Bulk args)) = 42 # ?d @ crlf @ ?body"
    by (simp add: encode_header_def comp_def)
  let ?buf = "42 # ?d @ crlf @ ?body @ rest"
  have lay: "drop 0 ?buf = 42 # ?d @ crlf @ (?body @ rest)" by simp
  have h1: "find_newline ?buf 0 = Some (length ?d + 2)"
    and h2: "trim_cr (slice ?buf 1 (length ?d + 2)) = ?d"
    using header_newline [OF lay] by simp_all
  have nxt: "drop (length ?d + 3) ?buf = ?body @ rest"
    by (simp add: crlf_def numeral_3_eq_3)
  have l: "length ?buf = length ?d + 3 + length (?body @ rest)" by simp
  show ?thesis
  proof (cases "args = []")
    case True
    then show ?thesis using h1 h2 assms(2)
      by (simp add: parse_array_def encode_header_def crlf_def)
  next
    case False
    then show ?thesis
      using h1 h2 assms(2) parse_args_encode [OF assms(1) nxt, of "[]"] l
      by (simp add: parse_array_def encode_header_def crlf_def comp_def numeral_3_eq_3)
  qed
qed

lemma parse_command_encode_aux:
  assumes "\<forall>x\<in>set args. length x < 2 ^ 63" and "length args < 2 ^ 63"
  shows "parse_command (encode r3 (Array (map Bulk args)) @ rest) = (Inr (Some args), rest)"
proof -
  have "encode r3 (Array (map Bulk args)) \<noteq> []"
    and "hd (encode r3 (Array (map Bulk args)) @ rest) = 42"
    by (simp_all add: encode_header_def)
  then show ?thesis using parse_array_encode [OF assms, of r3 rest]
    by (simp add: parse_command_def)
qed

section \<open>Properties\<close>

text \<open>
  A request written as an array of bulk strings and followed by any further bytes parses back to
  exactly its arguments, and exactly the further bytes stay in the buffer.
\<close>

theorem parse_command_roundtrip:
  assumes "\<forall>x\<in>set args. length x < 2 ^ 63" and "length args < 2 ^ 63"
  shows "parse_command (encode r3 (Array (map Bulk args)) @ rest) = (Inr (Some args), rest)"
  using assms by (rule parse_command_encode_aux)

theorem parse_command_roundtrip_witness:
  "parse_command (encode False (Array (map Bulk [ascii ''GET'', [13, 10]])) @ [42])
     = (Inr (Some [ascii ''GET'', [13, 10]]), [42])"
  using parse_command_roundtrip [of "[ascii ''GET'', [13, 10]]" False "[42]"] by simp

text \<open>
  Parsing is independent of how the network splits the stream: once a buffer yields a command
  or a protocol error, bytes that arrive later change neither, and they queue up behind the rest.
\<close>

theorem parse_command_chunking:
  assumes "fst (parse_command buf) \<noteq> Inr None"
  shows "parse_command (buf @ more) = (fst (parse_command buf), snd (parse_command buf) @ more)"
  using assms by (rule parse_command_stable_aux)

theorem parse_command_chunking_witness:
  "fst (parse_command (encode False (Array (map Bulk [ascii ''PING''])) @ [1, 2])) = Inr (Some [ascii ''PING''])"
  using parse_command_chunking [of "encode False (Array (map Bulk [ascii ''PING'']))" "[1, 2]"]
    parse_command_encode_aux [of "[ascii ''PING'']" False "[]"] by simp

text \<open>
  Every proper prefix of a request is recognised as incomplete: no command is produced and no
  byte is consumed.
\<close>

theorem parse_command_incomplete:
  assumes "\<forall>x\<in>set args. length x < 2 ^ 63" and "length args < 2 ^ 63"
    and "encode r3 (Array (map Bulk args)) = buf @ more" and "more \<noteq> []"
  shows "parse_command buf = (Inr None, buf)"
proof (cases "fst (parse_command buf) = Inr None")
  case True
  then show ?thesis
    by (auto simp: parse_command_def split: if_splits sum.splits parse_error.splits)
next
  case False
  have "parse_command (buf @ more) = (Inr (Some args), [])"
    using parse_command_encode_aux [OF assms(1,2), of r3 "[]"] assms(3) by simp
  with parse_command_stable_aux [OF False, of more] assms(4) show ?thesis by simp
qed

theorem parse_command_incomplete_witness:
  "parse_command [42, 49, 13, 10, 36] = (Inr None, [42, 49, 13, 10, 36])"
proof (rule parse_command_incomplete)
  show "encode False (Array (map Bulk [[65]])) = [42, 49, 13, 10, 36] @ [49, 13, 10, 65, 13, 10]"
    by (simp add: encode_header_def encode_bulk_def crlf_def dec_nat.simps)
qed simp_all

text \<open>
  Whenever a command is returned the buffer has become strictly shorter, by dropping a prefix,
  so the connection loop that drains the buffer ends.
\<close>

theorem parse_command_progress:
  assumes "parse_command buf = (Inr (Some args), rest)"
  shows "\<exists>n. 0 < n \<and> n \<le> length buf \<and> rest = drop n buf"
  using assms
  by (auto simp: parse_command_def split: if_splits sum.splits parse_error.splits
      dest: parse_array_consumed parse_inline_consumed)

theorem parse_command_progress_witness:
  "\<exists>n. 0 < n \<and> n \<le> 3 \<and> [7 :: u8] = drop n [65, 10, 7]"
proof -
  have "parse_command [65, 10, 7] = (Inr (Some [[65]]), [7])"
    by (simp add: parse_command_def parse_inline_def find_newline_def slice_def trim_cr_def
        split_inline.simps inline_arg_def is_ascii_whitespace_def)
  from parse_command_progress [OF this] show ?thesis by (simp add: numeral_3_eq_3)
qed

definition plain_word :: "bytes \<Rightarrow> bool" where
  "plain_word w \<longleftrightarrow> w \<noteq> [] \<and> (\<forall>b\<in>set w. \<not> is_ascii_whitespace b) \<and> hd w \<noteq> 34 \<and> hd w \<noteq> 39"

fun join_words :: "bytes list \<Rightarrow> bytes" where
  "join_words [] = []"
| "join_words [w] = w"
| "join_words (w # ws) = w @ 32 # join_words ws"

lemma inline_arg_word:
  assumes "plain_word w" and "rest = [] \<or> is_ascii_whitespace (hd rest)"
  shows "inline_arg (w @ rest) = Inr (w, rest)"
proof -
  obtain c cs where w: "w = c # cs" using assms(1) by (cases w) (auto simp: plain_word_def)
  have "takeWhile (\<lambda>b. \<not> is_ascii_whitespace b) (w @ rest) = w"
    "dropWhile (\<lambda>b. \<not> is_ascii_whitespace b) (w @ rest) = rest"
    using assms by (cases rest; auto simp: plain_word_def takeWhile_append2 dropWhile_append2
        intro!: takeWhile_eq_all_conv [THEN iffD2])+
  with assms(1) show ?thesis by (simp add: inline_arg_def w plain_word_def)
qed

lemma split_inline_join: "list_all plain_word ws \<Longrightarrow> split_inline (join_words ws) = Inr ws"
proof (induction ws rule: join_words.induct)
  case 1
  then show ?case by (simp add: split_inline.simps)
next
  case (2 w)
  then have "dropWhile is_ascii_whitespace w = w" "w \<noteq> []"
    by (cases w; simp add: plain_word_def)+
  moreover have "inline_arg w = Inr (w, [])" using inline_arg_word [of w "[]"] 2 by simp
  ultimately show ?case by (simp add: split_inline.simps [of w] split_inline.simps [of "[]"])
next
  case (3 w v vs)
  let ?rest = "32 # join_words (v # vs)"
  have d: "dropWhile is_ascii_whitespace (w @ ?rest) = w @ ?rest" "w \<noteq> []"
    using 3(2) by (cases w; simp add: plain_word_def)+
  have i: "inline_arg (w @ ?rest) = Inr (w, ?rest)"
    using inline_arg_word [of w ?rest] 3(2) by (simp add: is_ascii_whitespace_def)
  have "split_inline ?rest = split_inline (join_words (v # vs))"
    by (subst (1 2) split_inline.simps) (simp add: is_ascii_whitespace_def)
  with 3 d i show ?case by (simp add: split_inline.simps [of "w @ ?rest"])
qed

text \<open>
  A line of words without white space or quotes, separated by single spaces, is split into
  exactly those words.
\<close>

theorem inline_words:
  assumes "list_all plain_word ws" and "\<forall>w\<in>set ws. 10 \<notin> set w" and "ws \<noteq> []" and "hd (hd ws) \<noteq> 42"
  shows "parse_command (join_words ws @ crlf @ rest) = (Inr (Some ws), rest)"
proof -
  have nn: "10 \<notin> set (join_words ws)"
    using assms(2) by (induction ws rule: join_words.induct) auto
  have hd: "join_words ws \<noteq> []" "hd (join_words ws) \<noteq> 42"
    using assms(1,3,4) by (induction ws rule: join_words.induct) (auto simp: plain_word_def hd_append)
  let ?buf = "join_words ws @ crlf @ rest"
  have nl: "find_newline ?buf 0 = Some (length (join_words ws) + 1)"
    using find_newline_layout [of 0 ?buf "join_words ws @ [13]" rest] nn by (simp add: crlf_def)
  have "slice ?buf 0 (length (join_words ws) + 1) = join_words ws @ [13]"
    by (simp add: slice_def crlf_def)
  then show ?thesis using nl hd split_inline_join [OF assms(1)]
    by (simp add: parse_command_def parse_inline_def crlf_def)
qed

theorem inline_words_witness:
  "parse_command (join_words [ascii ''SET'', ascii ''k'', ascii ''v''] @ crlf @ []) =
     (Inr (Some [ascii ''SET'', ascii ''k'', ascii ''v'']), [])"
  by (rule inline_words) (simp_all add: plain_word_def ascii_def is_ascii_whitespace_def)

end
