(* ===== verification/Cmd.thy ===== *)
theory Cmd
  imports Db_Spec Resp
begin

text \<open>
  The helpers shared by the command modules (the end of src/commands/mod.rs). A handler takes the
  reading of the clock, the arguments and the database and returns the reply and the database; a
  \<open>Result<T, Frame>\<close> is a sum with the error frame on the left. The generator \<open>rand_u64\<close> is
  thread-local state, passed explicitly; \<open>nanos\<close> is the clock reading that seeds it.
\<close>

definition wrong_args :: "string \<Rightarrow> frame" where
  "wrong_args name =
     ErrorF (ascii ''ERR wrong number of arguments for '' @ [39] @ ascii name @ [39] @ ascii '' command'')"

definition syntax_error :: frame where
  "syntax_error = frame_err (ascii ''syntax error'')"

definition not_int_error :: frame where
  "not_int_error = frame_err (ascii ''value is not an integer or out of range'')"

text \<open>\<open>from_utf8(b).ok().and_then(|s| s.parse::<i64>().ok())\<close>.\<close>

definition int_of_bytes :: "bytes \<Rightarrow> int option" where
  "int_of_bytes b = (if utf8_valid b then parse_i64 b else None)"

definition parse_int :: "bytes \<Rightarrow> frame + int" where
  "parse_int b = (case int_of_bytes b of Some n \<Rightarrow> Inr n | None \<Rightarrow> Inl not_int_error)"

definition float_error :: frame where
  "float_error = frame_err (ascii ''value is not a valid float'')"

definition parse_float :: "bytes \<Rightarrow> frame + f64" where
  "parse_float b =
     (let s = (if utf8_valid b then trim b else [])
      in if s = [] then Inl float_error
         else case parse_f64 s of
                Some f \<Rightarrow> if is_nan f then Inl float_error else Inr f
              | None \<Rightarrow> Inl float_error)"

text \<open>Two index arguments, the error of the first one reported first.\<close>

definition parse_two :: "bytes \<Rightarrow> bytes \<Rightarrow> frame + int \<times> int" where
  "parse_two a b =
     (case parse_int a of
        Inl e \<Rightarrow> Inl e
      | Inr m \<Rightarrow> (case parse_int b of Inl e \<Rightarrow> Inl e | Inr n \<Rightarrow> Inr (m, n)))"

definition norm_index :: "int \<Rightarrow> nat \<Rightarrow> int" where
  "norm_index idx len = (if idx < 0 then i64 (idx + int len) else idx)"

definition upper :: "bytes \<Rightarrow> bytes" where
  "upper b = to_ascii_uppercase (from_utf8_lossy b)"

definition bool_int :: "bool \<Rightarrow> int" where
  "bool_int b = (if b then 1 else 0)"

definition bulk_or_null :: "bytes option \<Rightarrow> frame" where
  "bulk_or_null v = (case v of Some b \<Rightarrow> Bulk b | None \<Rightarrow> Null)"

text \<open>Arguments taken two at a time; a last odd one is ignored.\<close>

fun pairs_of :: "'a list \<Rightarrow> ('a \<times> 'a) list" where
  "pairs_of (a # b # rest) = (a, b) # pairs_of rest"
| "pairs_of _ = []"

text \<open>The \<open>MATCH\<close> option of the scans.\<close>

definition matches_opt :: "bytes option \<Rightarrow> bytes \<Rightarrow> bool" where
  "matches_opt pattern k = (case pattern of None \<Rightarrow> True | Some p \<Rightarrow> glob_match p k)"

section \<open>The random generator\<close>

type_synonym rng = u64

definition xorshift :: "u64 \<Rightarrow> u64" where
  "xorshift x0 =
     (let x1 = x0 XOR push_bit 13 x0;
          x2 = x1 XOR drop_bit 7 x1
      in x2 XOR push_bit 17 x2)"

definition rand_u64 :: "u64 \<Rightarrow> rng \<Rightarrow> u64 \<times> rng" where
  "rand_u64 nanos st =
     (let x = xorshift (if st = 0 then nanos OR 1 else st) in (x, x))"

definition rand_index :: "u64 \<Rightarrow> nat \<Rightarrow> rng \<Rightarrow> nat \<times> rng" where
  "rand_index nanos n st = (let (r, st) = rand_u64 nanos st in (unat r mod n, st))"

text \<open>The partial Fisher-Yates shuffle: the steps \<open>i..<i+k\<close> on the index list.\<close>

fun shuffle :: "u64 \<Rightarrow> nat \<Rightarrow> nat \<Rightarrow> nat list \<Rightarrow> rng \<Rightarrow> nat list \<times> rng" where
  "shuffle nanos i 0 idx st = (idx, st)"
| "shuffle nanos i (Suc k) idx st =
     (let (r, st) = rand_index nanos (length idx - i) st;
          j = i + r
      in shuffle nanos (Suc i) k (idx[i := idx ! j, j := idx ! i]) st)"

text \<open>\<open>distinct_sample\<close> of set.rs, and the positive case of \<open>pick\<close> of hash.rs.\<close>

definition distinct_sample :: "u64 \<Rightarrow> 'a list \<Rightarrow> nat \<Rightarrow> rng \<Rightarrow> 'a list \<times> rng" where
  "distinct_sample nanos members n st =
     (let n = min n (length members);
          (idx, st) = shuffle nanos 0 n [0..<length members] st
      in (map (\<lambda>i. members ! i) (take n idx), st))"

text \<open>\<open>n\<close> independent draws.\<close>

fun repeat_sample :: "u64 \<Rightarrow> 'a list \<Rightarrow> nat \<Rightarrow> rng \<Rightarrow> 'a list \<times> rng" where
  "repeat_sample nanos members 0 st = ([], st)"
| "repeat_sample nanos members (Suc n) st =
     (let (i, st) = rand_index nanos (length members) st;
          (xs, st) = repeat_sample nanos members n st
      in (members ! i # xs, st))"

section \<open>Facts about the helpers\<close>

lemma is_error_helpers [simp]: "is_error (wrong_args name)" "is_error syntax_error"
  "is_error not_int_error" "is_error float_error"
  by (simp_all add: wrong_args_def syntax_error_def not_int_error_def float_error_def)

lemma parse_int_error [simp]: "parse_int b = Inl e \<Longrightarrow> is_error e"
  by (auto simp: parse_int_def split: option.splits)

lemma parse_float_error [simp]: "parse_float b = Inl e \<Longrightarrow> is_error e"
  by (auto simp: parse_float_def Let_def split: option.splits if_splits)

lemma parse_int_ok: "parse_int b = Inr n \<Longrightarrow> i64_ok n"
  by (auto simp: parse_int_def int_of_bytes_def dest: parse_i64_ok split: option.splits if_splits)

lemma parse_two_ok:
  assumes "parse_two a b = Inr (m, n)"
  shows "i64_ok m" and "i64_ok n"
  using assms by (auto simp: parse_two_def dest: parse_int_ok split: sum.splits)

lemma parse_two_error [simp]: "parse_two a b = Inl e \<Longrightarrow> is_error e"
  by (auto simp: parse_two_def split: sum.splits)

lemma int_of_bytes_dec_int [simp]: "i64_ok n \<Longrightarrow> int_of_bytes (dec_int n) = Some n"
  by (simp add: int_of_bytes_def)

lemma parse_int_dec_int [simp]: "i64_ok n \<Longrightarrow> parse_int (dec_int n) = Inr n"
  by (simp add: parse_int_def)

lemma parse_int_cases:
  obtains (err) e where "parse_int b = Inl e" | (ok) n where "parse_int b = Inr n" and "i64_ok n"
  by (cases "parse_int b") (auto dest: parse_int_ok)

subsection \<open>The xorshift state never becomes zero\<close>

lemma xor_eq_0D:
  fixes x y :: "'a :: len word"
  assumes "x XOR y = 0"
  shows "x = y"
proof -
  have "(x XOR y) XOR y = y" using assms by simp
  then show ?thesis by (simp add: xor.assoc)
qed

lemma xor_self_shift_right:
  fixes x :: "'a :: len word"
  assumes "x XOR drop_bit n x = 0" and "0 < n"
  shows "x = 0"
proof -
  have "x = drop_bit n x" using assms(1) by (rule xor_eq_0D)
  then have s: "bit x i = bit x (n + i)" for i by (metis bit_drop_bit_eq comp_apply)
  have "\<not> bit x i" for i
  proof (induction "LENGTH('a) - i" arbitrary: i rule: less_induct)
    case less
    show ?case
    proof (cases "i < LENGTH('a)")
      case True
      then have "LENGTH('a) - (n + i) < LENGTH('a) - i" using assms(2) by simp
      from less [OF this] show ?thesis using s by blast
    next
      case False
      then show ?thesis using bit_imp_le_length [of x i] by auto
    qed
  qed
  then show ?thesis by (simp add: bit_eq_iff)
qed

lemma xor_self_shift_left:
  fixes x :: "'a :: len word"
  assumes "x XOR push_bit n x = 0" and "0 < n"
  shows "x = 0"
proof -
  have e: "x = push_bit n x" using assms(1) by (rule xor_eq_0D)
  have s: "n \<le> i \<and> bit x (i - n)" if "bit x i" for i
    using that by (subst (asm) e) (simp add: bit_push_bit_iff)
  have "\<not> bit x i" for i
  proof (induction i rule: less_induct)
    case (less i)
    show ?case using s [of i] less [of "i - n"] assms(2) by fastforce
  qed
  then show ?thesis by (simp add: bit_eq_iff)
qed

lemma xorshift_nonzero:
  assumes "x \<noteq> 0"
  shows "xorshift x \<noteq> 0"
proof -
  define x1 where "x1 = x XOR push_bit 13 x"
  define x2 where "x2 = x1 XOR drop_bit 7 x1"
  have "x1 \<noteq> 0" using assms xor_self_shift_left [of x 13] by (auto simp: x1_def)
  then have "x2 \<noteq> 0" using xor_self_shift_right [of x1 7] by (auto simp: x2_def)
  then have "x2 XOR push_bit 17 x2 \<noteq> 0" using xor_self_shift_left [of x2 17] by auto
  then show ?thesis by (simp add: xorshift_def Let_def x1_def x2_def)
qed

lemma or_1_nonzero: "(x :: u64) OR 1 \<noteq> 0"
proof
  assume "x OR 1 = 0"
  then have "bit (x OR 1) 0 = bit (0 :: u64) 0" by simp
  then show False by (simp add: bit_simps)
qed

lemma rand_u64_nonzero_aux: "snd (rand_u64 nanos st) \<noteq> 0"
  by (auto simp: rand_u64_def Let_def xorshift_nonzero or_1_nonzero)

subsection \<open>Samples\<close>

lemma swap_invariants:
  assumes "i < length xs" and "j < length xs"
  shows "length (xs[i := xs ! j, j := xs ! i]) = length xs"
    and "set (xs[i := xs ! j, j := xs ! i]) = set xs"
    and "distinct (xs[i := xs ! j, j := xs ! i]) = distinct xs"
  using assms by (simp_all add: set_swap distinct_swap)

lemma shuffle_invariants:
  "i + k \<le> length idx \<Longrightarrow>
   length (fst (shuffle nanos i k idx st)) = length idx \<and>
   set (fst (shuffle nanos i k idx st)) = set idx \<and>
   distinct (fst (shuffle nanos i k idx st)) = distinct idx"
proof (induction nanos i k idx st rule: shuffle.induct)
  case (1 nanos i idx st)
  then show ?case by simp
next
  case (2 nanos i k idx st)
  obtain r st' where r: "rand_index nanos (length idx - i) st = (r, st')"
    by (cases "rand_index nanos (length idx - i) st")
  have "r < length idx - i"
    using r "2.prems" by (auto simp: rand_index_def case_prod_unfold Let_def)
  then have b: "i < length idx" "i + r < length idx" using "2.prems" by auto
  from "2.IH" [OF r [symmetric] refl, of "i + r"] "2.prems" swap_invariants [OF b] r
  show ?case by (simp add: Let_def)
qed

lemma distinct_sample_spec:
  assumes "distinct members"
  shows "distinct (fst (distinct_sample nanos members n st))"
    and "set (fst (distinct_sample nanos members n st)) \<subseteq> set members"
    and "length (fst (distinct_sample nanos members n st)) = min n (length members)"
proof -
  let ?n = "min n (length members)"
  let ?idx = "fst (shuffle nanos 0 ?n [0..<length members] st)"
  have inv: "length ?idx = length members" "set ?idx = {0..<length members}" "distinct ?idx"
    using shuffle_invariants [of 0 ?n "[0..<length members]" nanos st] by simp_all
  have e: "fst (distinct_sample nanos members n st) = map (\<lambda>i. members ! i) (take ?n ?idx)"
    by (simp add: distinct_sample_def Let_def case_prod_unfold)
  have sub: "set (take ?n ?idx) \<subseteq> {0..<length members}"
    using set_take_subset [of ?n ?idx] unfolding inv(2) .
  show "distinct (fst (distinct_sample nanos members n st))"
    unfolding e distinct_map using inv(3) sub assms by (auto intro!: inj_on_nth)
  show "set (fst (distinct_sample nanos members n st)) \<subseteq> set members"
    unfolding e using sub by auto
  show "length (fst (distinct_sample nanos members n st)) = ?n"
    unfolding e using inv(1) by simp
qed

lemma length_repeat_sample: "length (fst (repeat_sample nanos members n st)) = n"
  by (induction n arbitrary: st) (simp_all add: case_prod_unfold Let_def)

lemma set_repeat_sample:
  "members \<noteq> [] \<Longrightarrow> set (fst (repeat_sample nanos members n st)) \<subseteq> set members"
proof (induction n arbitrary: st)
  case 0
  then show ?case by simp
next
  case (Suc n)
  then show ?case by (auto simp: case_prod_unfold Let_def rand_index_def dest!: subsetD)
qed

subsection \<open>Index ranges\<close>

text \<open>What an inclusive range with negative indexes from the end selects.\<close>

definition from_end :: "int \<Rightarrow> nat \<Rightarrow> int" where
  "from_end i n = (if i < 0 then i + int n else i)"

definition in_range :: "int \<Rightarrow> int \<Rightarrow> 'a list \<Rightarrow> 'a list" where
  "in_range start stop l =
     map (\<lambda>i. l ! i) (filter (\<lambda>i. from_end start (length l) \<le> int i \<and> int i \<le> from_end stop (length l))
       [0..<length l])"

lemma filter_upt_range:
  "filter (\<lambda>i. a \<le> int i \<and> int i \<le> b) [0..<n] = [nat (max a 0)..<min n (nat (b + 1))]"
  by (rule sorted_distinct_set_unique) (auto simp: sorted_wrt_filter)

lemma map_nth_upt: "map (\<lambda>i. l ! i) [a..<min (length l) b] = drop a (take b l)"
  by (rule nth_equalityI) (auto simp: min_def split: if_splits)

lemma in_range_take_drop:
  "in_range start stop l =
     drop (nat (max (from_end start (length l)) 0)) (take (nat (from_end stop (length l) + 1)) l)"
  (is "_ = drop ?a (take ?b l)")
proof -
  have "in_range start stop l = map (\<lambda>i. l ! i) [?a..<min (length l) ?b]"
    by (simp add: in_range_def filter_upt_range)
  also have "\<dots> = drop ?a (take ?b l)" by (rule map_nth_upt)
  finally show ?thesis .
qed

lemma norm_index_from_end:
  "i64_ok i \<Longrightarrow> length l < 2 ^ 63 \<Longrightarrow> norm_index i (length l) = from_end i (length l)"
  by (auto simp: norm_index_def from_end_def i64_ok_def)

lemma concat_nth_upt:
  "b \<le> length l \<Longrightarrow> concat (map (\<lambda>i. if i < length l then [f (l ! i)] else []) [a..<b])
     = map f (drop a (take b l))"
proof -
  assume b: "b \<le> length l"
  have "concat (map (\<lambda>i. if i < length l then [f (l ! i)] else []) [a..<b])
      = concat (map (\<lambda>i. [f (l ! i)]) [a..<b])"
    using b by (intro arg_cong [where f = concat] map_cong) auto
  also have "\<dots> = map f (drop a (take b l))"
    using b by (intro nth_equalityI) (auto simp: concat_map_singleton)
  finally show ?thesis .
qed

lemma in_range_bounds:
  assumes "s = max (from_end start (length l)) 0" and "e = from_end stop (length l)"
    and "e' = (if int (length l) \<le> e then int (length l) - 1 else e)"
  shows "e' < s \<or> int (length l) \<le> s \<Longrightarrow> in_range start stop l = []"
    and "\<not> (e' < s \<or> int (length l) \<le> s) \<Longrightarrow> in_range start stop l = drop (nat s) (take (nat e' + 1) l)"
    and "\<not> (e' < s \<or> int (length l) \<le> s) \<Longrightarrow> nat e' + 1 \<le> length l"
proof -
  show "in_range start stop l = []" if "e' < s \<or> int (length l) \<le> s"
    using that assms by (auto simp: in_range_take_drop nat_le_iff split: if_splits)
  show "in_range start stop l = drop (nat s) (take (nat e' + 1) l)" if "\<not> (e' < s \<or> int (length l) \<le> s)"
    using that assms by (auto simp: in_range_take_drop nat_add_distrib split: if_splits)
  show "nat e' + 1 \<le> length l" if "\<not> (e' < s \<or> int (length l) \<le> s)"
    using that assms by (auto split: if_splits)
qed

end
