(* ===== verification/Pubsub.thy ===== *)
theory Pubsub
  imports Cmd
begin

text \<open>
  The publish/subscribe registry (src/pubsub.rs). A \<open>HashMap\<close> is its association list in iteration
  order; a \<open>Subscriber\<close> is the id of its connection, because its sender is the clone of that
  connection's sender. The unbounded channels are explicit: \<open>mailboxes\<close> holds the queue of every
  receiver that is still open, and \<open>send\<close> fails exactly when the receiver is gone.
\<close>

section \<open>Mailboxes\<close>

type_synonym mailboxes = "(u64 \<times> frame list) list"

definition send :: "u64 \<Rightarrow> frame \<Rightarrow> mailboxes \<Rightarrow> bool \<times> mailboxes" where
  "send i f mb =
     (case map_of mb i of
        None \<Rightarrow> (False, mb)
      | Some q \<Rightarrow> (True, AList.update i (q @ [f]) mb))"

section \<open>The registry\<close>

type_synonym registry = "(bytes \<times> u64 list) list"

record pubsub =
  ps_channels :: registry
  ps_patterns :: registry

definition pubsub_default :: pubsub where
  "pubsub_default = \<lparr>ps_channels = [], ps_patterns = []\<rparr>"

text \<open>The bodies that the channel and the pattern form share.\<close>

definition reg_add :: "bytes \<Rightarrow> u64 \<Rightarrow> registry \<Rightarrow> registry" where
  "reg_add target i r =
     (let subs = (case map_of r target of Some subs \<Rightarrow> subs | None \<Rightarrow> [])
      in AList.update target (if i \<in> set subs then subs else subs @ [i]) r)"

definition reg_del :: "bytes \<Rightarrow> u64 \<Rightarrow> registry \<Rightarrow> registry" where
  "reg_del target i r =
     (case map_of r target of
        None \<Rightarrow> r
      | Some subs \<Rightarrow>
          let subs = filter (\<lambda>s. s \<noteq> i) subs
          in if subs = [] then AList.delete target r else AList.update target subs r)"

definition reg_drop :: "u64 \<Rightarrow> registry \<Rightarrow> registry" where
  "reg_drop i r =
     filter (\<lambda>(_, subs). subs \<noteq> []) (map (\<lambda>(t, subs). (t, filter (\<lambda>s. s \<noteq> i) subs)) r)"

definition ps_subscribe :: "bytes \<Rightarrow> u64 \<Rightarrow> pubsub \<Rightarrow> pubsub" where
  "ps_subscribe channel i ps = ps\<lparr>ps_channels := reg_add channel i (ps_channels ps)\<rparr>"

definition ps_unsubscribe :: "bytes \<Rightarrow> u64 \<Rightarrow> pubsub \<Rightarrow> pubsub" where
  "ps_unsubscribe channel i ps = ps\<lparr>ps_channels := reg_del channel i (ps_channels ps)\<rparr>"

definition ps_psubscribe :: "bytes \<Rightarrow> u64 \<Rightarrow> pubsub \<Rightarrow> pubsub" where
  "ps_psubscribe pattern i ps = ps\<lparr>ps_patterns := reg_add pattern i (ps_patterns ps)\<rparr>"

definition ps_punsubscribe :: "bytes \<Rightarrow> u64 \<Rightarrow> pubsub \<Rightarrow> pubsub" where
  "ps_punsubscribe pattern i ps = ps\<lparr>ps_patterns := reg_del pattern i (ps_patterns ps)\<rparr>"

definition ps_remove_client :: "u64 \<Rightarrow> pubsub \<Rightarrow> pubsub" where
  "ps_remove_client i ps =
     ps\<lparr>ps_channels := reg_drop i (ps_channels ps), ps_patterns := reg_drop i (ps_patterns ps)\<rparr>"

section \<open>Publishing\<close>

definition message_frame :: "bytes \<Rightarrow> bytes \<Rightarrow> frame" where
  "message_frame channel payload = Push [Bulk (ascii ''message''), Bulk channel, Bulk payload]"

definition pmessage_frame :: "bytes \<Rightarrow> bytes \<Rightarrow> bytes \<Rightarrow> frame" where
  "pmessage_frame pattern channel payload =
     Push [Bulk (ascii ''pmessage''), Bulk pattern, Bulk channel, Bulk payload]"

text \<open>The loop over the subscribers of one target.\<close>

fun send_all :: "frame \<Rightarrow> u64 list \<Rightarrow> int \<Rightarrow> mailboxes \<Rightarrow> int \<times> mailboxes" where
  "send_all msg [] count mb = (count, mb)"
| "send_all msg (s # subs) count mb =
     (let (sent, mb) = send s msg mb in send_all msg subs (if sent then count + 1 else count) mb)"

fun publish_patterns :: "bytes \<Rightarrow> bytes \<Rightarrow> registry \<Rightarrow> int \<Rightarrow> mailboxes \<Rightarrow> int \<times> mailboxes" where
  "publish_patterns channel payload [] count mb = (count, mb)"
| "publish_patterns channel payload ((pattern, subs) # r) count mb =
     (let (count, mb) =
        (if glob_match pattern channel then send_all (pmessage_frame pattern channel payload) subs count mb
         else (count, mb))
      in publish_patterns channel payload r count mb)"

definition ps_publish :: "bytes \<Rightarrow> bytes \<Rightarrow> pubsub \<Rightarrow> mailboxes \<Rightarrow> int \<times> mailboxes" where
  "ps_publish channel payload ps mb =
     (let (count, mb) =
        (case map_of (ps_channels ps) channel of
           Some subs \<Rightarrow> send_all (message_frame channel payload) subs 0 mb
         | None \<Rightarrow> (0, mb))
      in publish_patterns channel payload (ps_patterns ps) count mb)"

definition ps_channels_matching :: "bytes option \<Rightarrow> pubsub \<Rightarrow> bytes list" where
  "ps_channels_matching pattern ps = filter (matches_opt pattern) (map fst (ps_channels ps))"

definition ps_numsub :: "bytes \<Rightarrow> pubsub \<Rightarrow> int" where
  "ps_numsub channel ps =
     (case map_of (ps_channels ps) channel of None \<Rightarrow> 0 | Some subs \<Rightarrow> int (length subs))"

definition ps_numpat :: "pubsub \<Rightarrow> int" where
  "ps_numpat ps = int (length (ps_patterns ps))"

section \<open>The registry as a relation\<close>

definition reg_wf :: "registry \<Rightarrow> bool" where
  "reg_wf r \<longleftrightarrow> distinct (map fst r) \<and> (\<forall>(t, subs)\<in>set r. subs \<noteq> [] \<and> distinct subs)"

definition reg_pairs :: "registry \<Rightarrow> (bytes \<times> u64) set" where
  "reg_pairs r = {(t, i). \<exists>subs. map_of r t = Some subs \<and> i \<in> set subs}"

definition pubsub_wf :: "pubsub \<Rightarrow> bool" where
  "pubsub_wf ps \<longleftrightarrow> reg_wf (ps_channels ps) \<and> reg_wf (ps_patterns ps)"

lemma reg_wfD:
  "reg_wf r \<Longrightarrow> distinct (map fst r)"
  "reg_wf r \<Longrightarrow> map_of r t = Some subs \<Longrightarrow> subs \<noteq> [] \<and> distinct subs"
  by (auto simp: reg_wf_def dest: map_of_SomeD)

lemma reg_wf_iff:
  "reg_wf r \<longleftrightarrow> distinct (map fst r) \<and> (\<forall>t subs. map_of r t = Some subs \<longrightarrow> subs \<noteq> [] \<and> distinct subs)"
  unfolding reg_wf_def by (rule conj_cong) (simp, simp add: map_of_eq_Some_iff split_beta, auto)

lemma reg_wf_update:
  assumes "reg_wf r" and "subs \<noteq> []" and "distinct subs"
  shows "reg_wf (AList.update t subs r)"
  using assms by (auto simp: reg_wf_iff distinct_update update_conv')

lemma reg_wf_delete: "reg_wf r \<Longrightarrow> reg_wf (AList.delete t r)"
  by (auto simp: reg_wf_iff distinct_delete delete_conv')

lemma reg_wf_add: "reg_wf r \<Longrightarrow> reg_wf (reg_add t i r)"
  unfolding reg_add_def Let_def
  by (rule reg_wf_update) (auto split: option.splits dest: reg_wfD(2))

lemma reg_wf_del: "reg_wf r \<Longrightarrow> reg_wf (reg_del t i r)"
  by (auto simp: reg_del_def Let_def reg_wf_delete intro!: reg_wf_update
      split: option.splits dest: reg_wfD(2))

lemma reg_wf_drop: "reg_wf r \<Longrightarrow> reg_wf (reg_drop i r)"
proof (induction r)
  case Nil
  then show ?case by (simp add: reg_wf_def reg_drop_def)
next
  case (Cons x r)
  obtain t subs where x: "x = (t, subs)" by (cases x)
  have "reg_wf (reg_drop i r)" using Cons by (auto simp: reg_wf_def)
  moreover have "fst ` set (reg_drop i r) \<subseteq> fst ` set r" by (force simp: reg_drop_def)
  ultimately show ?case using Cons.prems x
    by (auto simp: reg_wf_def reg_drop_def)
qed

lemma reg_pairs_add: "reg_pairs (reg_add t i r) = insert (t, i) (reg_pairs r)"
  by (auto simp: reg_pairs_def reg_add_def Let_def update_conv' split: option.splits if_splits)

lemma reg_pairs_del: "reg_wf r \<Longrightarrow> reg_pairs (reg_del t i r) = reg_pairs r - {(t, i)}"
  by (auto simp: reg_pairs_def reg_del_def Let_def update_conv' delete_conv' filter_empty_conv
      split: option.splits if_splits)

lemma map_of_reg_drop:
  "distinct (map fst r) \<Longrightarrow> map_of (reg_drop i r) t =
     (case map_of r t of None \<Rightarrow> None
      | Some subs \<Rightarrow> if filter (\<lambda>s. s \<noteq> i) subs = [] then None else Some (filter (\<lambda>s. s \<noteq> i) subs))"
proof (induction r)
  case Nil
  then show ?case by (simp add: reg_drop_def)
next
  case (Cons x r)
  obtain t' subs where x: "x = (t', subs)" by (cases x)
  have "map_of (reg_drop i r) t' = None" if "t' \<notin> fst ` set r"
    using that by (force simp: reg_drop_def map_of_eq_None_iff)
  then show ?case using Cons x by (auto simp: reg_drop_def)
qed

lemma reg_pairs_drop: "reg_wf r \<Longrightarrow> reg_pairs (reg_drop i r) = reg_pairs r - UNIV \<times> {i}"
  by (auto simp: reg_pairs_def map_of_reg_drop reg_wfD filter_empty_conv split: option.splits if_splits)

lemma finite_reg_pairs: "finite (reg_pairs r)"
proof (rule finite_subset)
  show "reg_pairs r \<subseteq> (\<Union>(t, subs)\<in>set r. {t} \<times> set subs)"
    by (force simp: reg_pairs_def dest: map_of_SomeD)
qed auto

section \<open>The subscription table as an interface\<close>

text \<open>
  What a table of subscriptions promises the connection commands: it is a relation between targets
  and clients that adding, removing and dropping a client change by exactly the pairs they name.
\<close>

locale subscription_table =
  fixes pairs :: "'s \<Rightarrow> (bytes \<times> u64) set"
    and add :: "bytes \<Rightarrow> u64 \<Rightarrow> 's \<Rightarrow> 's"
    and del :: "bytes \<Rightarrow> u64 \<Rightarrow> 's \<Rightarrow> 's"
    and wf :: "'s \<Rightarrow> bool"
  assumes pairs_add: "wf s \<Longrightarrow> pairs (add t i s) = insert (t, i) (pairs s)"
    and pairs_del: "wf s \<Longrightarrow> pairs (del t i s) = pairs s - {(t, i)}"
    and wf_add: "wf s \<Longrightarrow> wf (add t i s)"
    and wf_del: "wf s \<Longrightarrow> wf (del t i s)"
begin

lemma add_all:
  assumes "wf s"
  shows "wf (fold (\<lambda>t. add t i) ts s) \<and> pairs (fold (\<lambda>t. add t i) ts s) = pairs s \<union> set ts \<times> {i}"
  using assms by (induction ts arbitrary: s) (auto simp: wf_add pairs_add)

lemma del_all:
  assumes "wf s"
  shows "wf (fold (\<lambda>t. del t i) ts s) \<and> pairs (fold (\<lambda>t. del t i) ts s) = pairs s - set ts \<times> {i}"
  using assms by (induction ts arbitrary: s) (auto simp: wf_del pairs_del)

text \<open>The targets of one client, as the connection mirrors them.\<close>

lemma targets_add: "wf s \<Longrightarrow> {t. (t, j) \<in> pairs (add u i s)} = (if i = j then insert u else id) {t. (t, j) \<in> pairs s}"
  by (auto simp: pairs_add)

lemma targets_del: "wf s \<Longrightarrow> {t. (t, j) \<in> pairs (del u i s)} = {t. (t, j) \<in> pairs s} - (if i = j then {u} else {})"
  by (auto simp: pairs_del)

end

definition chan_pairs :: "pubsub \<Rightarrow> (bytes \<times> u64) set" where
  "chan_pairs ps = reg_pairs (ps_channels ps)"

definition pat_pairs :: "pubsub \<Rightarrow> (bytes \<times> u64) set" where
  "pat_pairs ps = reg_pairs (ps_patterns ps)"

lemma pubsub_wf_ops [wf_intros]:
  "pubsub_wf pubsub_default"
  "pubsub_wf ps \<Longrightarrow> pubsub_wf (ps_subscribe t i ps)" "pubsub_wf ps \<Longrightarrow> pubsub_wf (ps_unsubscribe t i ps)"
  "pubsub_wf ps \<Longrightarrow> pubsub_wf (ps_psubscribe t i ps)" "pubsub_wf ps \<Longrightarrow> pubsub_wf (ps_punsubscribe t i ps)"
  "pubsub_wf ps \<Longrightarrow> pubsub_wf (ps_remove_client i ps)"
  by (simp_all add: pubsub_wf_def ps_subscribe_def ps_unsubscribe_def ps_psubscribe_def
      ps_punsubscribe_def ps_remove_client_def reg_wf_add reg_wf_del reg_wf_drop pubsub_default_def)
    (simp add: reg_wf_def)

lemma pairs_other [simp]:
  "pat_pairs (ps_subscribe t i ps) = pat_pairs ps" "pat_pairs (ps_unsubscribe t i ps) = pat_pairs ps"
  "chan_pairs (ps_psubscribe t i ps) = chan_pairs ps" "chan_pairs (ps_punsubscribe t i ps) = chan_pairs ps"
  "chan_pairs pubsub_default = {}" "pat_pairs pubsub_default = {}"
  by (simp_all add: chan_pairs_def pat_pairs_def ps_subscribe_def ps_unsubscribe_def ps_psubscribe_def
      ps_punsubscribe_def pubsub_default_def reg_pairs_def)

lemma pairs_remove_client [simp]:
  assumes "pubsub_wf ps"
  shows "chan_pairs (ps_remove_client i ps) = chan_pairs ps - UNIV \<times> {i}"
    and "pat_pairs (ps_remove_client i ps) = pat_pairs ps - UNIV \<times> {i}"
  using assms by (simp_all add: chan_pairs_def pat_pairs_def ps_remove_client_def pubsub_wf_def reg_pairs_drop)

interpretation chans: subscription_table chan_pairs ps_subscribe ps_unsubscribe pubsub_wf
  by unfold_locales
    (simp_all add: wf_intros chan_pairs_def ps_subscribe_def ps_unsubscribe_def pubsub_wf_def
      reg_pairs_add reg_pairs_del reg_wf_add reg_wf_del)

interpretation pats: subscription_table pat_pairs ps_psubscribe ps_punsubscribe pubsub_wf
  by unfold_locales
    (simp_all add: wf_intros pat_pairs_def ps_psubscribe_def ps_punsubscribe_def pubsub_wf_def
      reg_pairs_add reg_pairs_del reg_wf_add reg_wf_del)

section \<open>Delivery\<close>

definition mail_count :: "mailboxes \<Rightarrow> int" where
  "mail_count mb = (\<Sum>i\<in>dom (map_of mb). int (length (the (map_of mb i))))"

lemma finite_dom_mail [simp]: "finite (dom (map_of mb))"
  by (rule finite_dom_map_of)

lemma send_dom: "dom (map_of (snd (send i f mb))) = dom (map_of mb)"
  by (auto simp: send_def update_conv' split: option.splits)

lemma send_mail: "map_of (snd (send i f mb)) j =
    (if i = j then map_option (\<lambda>q. q @ [f]) (map_of mb i) else map_of mb j)"
  by (auto simp: send_def update_conv' split: option.splits)

lemma send_count: "mail_count (snd (send i f mb)) = mail_count mb + (if fst (send i f mb) then 1 else 0)"
proof (cases "map_of mb i")
  case None
  then show ?thesis by (simp add: send_def)
next
  case (Some q)
  have d: "dom (map_of (snd (send i f mb))) = insert i (dom (map_of mb) - {i})"
    using send_dom [of i f mb] Some by auto
  have "mail_count (snd (send i f mb))
      = int (length (the (map_of (snd (send i f mb)) i)))
        + (\<Sum>j\<in>dom (map_of mb) - {i}. int (length (the (map_of (snd (send i f mb)) j))))"
    unfolding mail_count_def d by (subst sum.insert) (auto simp: finite_dom_mail)
  also have "(\<Sum>j\<in>dom (map_of mb) - {i}. int (length (the (map_of (snd (send i f mb)) j))))
      = (\<Sum>j\<in>dom (map_of mb) - {i}. int (length (the (map_of mb j))))"
    by (rule sum.cong) (auto simp: send_mail)
  also have "\<dots> = mail_count mb - int (length q)"
    unfolding mail_count_def using Some by (subst (2) sum.remove [of _ i]) (auto simp: finite_dom_mail)
  finally show ?thesis using Some by (simp add: send_mail) (simp add: send_def)
qed

text \<open>The three facts every sending loop shares.\<close>

definition delivers :: "(u64 \<Rightarrow> frame list) \<Rightarrow> int \<Rightarrow> mailboxes \<Rightarrow> int \<times> mailboxes \<Rightarrow> bool" where
  "delivers msgs count mb res \<longleftrightarrow>
     (\<forall>j. map_of (snd res) j = map_option (\<lambda>q. q @ msgs j) (map_of mb j))
     \<and> fst res - count = mail_count (snd res) - mail_count mb"

lemma delivers_refl: "delivers (\<lambda>_. []) count mb (count, mb)"
  by (simp add: delivers_def option.map_ident_strong)

lemma delivers_trans:
  assumes "delivers m1 count mb r1" and "delivers m2 (fst r1) (snd r1) r2"
  shows "delivers (\<lambda>j. m1 j @ m2 j) count mb r2"
  using assms by (auto simp: delivers_def option.map_comp comp_def)

lemma delivers_send:
  "delivers (\<lambda>j. if j = i then [f] else []) count mb
     (if fst (send i f mb) then count + 1 else count, snd (send i f mb))"
  using send_count [of i f mb] by (auto simp: delivers_def send_mail option.map_ident_strong)

lemma delivers_send_all:
  "distinct subs \<Longrightarrow> delivers (\<lambda>j. if j \<in> set subs then [msg] else []) count mb (send_all msg subs count mb)"
proof (induction subs arbitrary: count mb)
  case Nil
  then show ?case by (simp add: delivers_refl)
next
  case (Cons s subs)
  let ?c = "if fst (send s msg mb) then count + 1 else count"
  have e: "send_all msg (s # subs) count mb = send_all msg subs ?c (snd (send s msg mb))"
    by (simp add: case_prod_unfold Let_def)
  have "delivers (\<lambda>j. (if j = s then [msg] else []) @ (if j \<in> set subs then [msg] else [])) count mb
      (send_all msg (s # subs) count mb)"
    unfolding e using delivers_trans [OF delivers_send [of s msg count mb]] Cons by simp
  moreover have "(\<lambda>j. (if j = s then [msg] else []) @ (if j \<in> set subs then [msg] else []))
      = (\<lambda>j. if j \<in> set (s # subs) then [msg] else [])" using Cons.prems by auto
  ultimately show ?case by simp
qed

text \<open>What client \<open>i\<close> receives of one \<open>PUBLISH\<close>: once for the channel, once per matching pattern.\<close>

definition messages :: "bytes \<Rightarrow> bytes \<Rightarrow> pubsub \<Rightarrow> u64 \<Rightarrow> frame list" where
  "messages channel payload ps i =
     (if (channel, i) \<in> chan_pairs ps then [message_frame channel payload] else []) @
     map (\<lambda>p. pmessage_frame p channel payload)
       (filter (\<lambda>p. glob_match p channel \<and> (p, i) \<in> pat_pairs ps) (map fst (ps_patterns ps)))"

definition pattern_messages :: "bytes \<Rightarrow> bytes \<Rightarrow> registry \<Rightarrow> u64 \<Rightarrow> frame list" where
  "pattern_messages channel payload r i =
     map (\<lambda>(p, _). pmessage_frame p channel payload)
       (filter (\<lambda>(p, subs). glob_match p channel \<and> i \<in> set subs) r)"

lemma delivers_patterns:
  "reg_wf r \<Longrightarrow> delivers (pattern_messages channel payload r) count mb (publish_patterns channel payload r count mb)"
proof (induction r arbitrary: count mb)
  case Nil
  then show ?case by (simp add: delivers_refl pattern_messages_def [abs_def])
next
  case (Cons x r)
  obtain p subs where x: "x = (p, subs)" by (cases x)
  let ?r1 = "if glob_match p channel then send_all (pmessage_frame p channel payload) subs count mb else (count, mb)"
  have w: "reg_wf r" and d: "distinct subs" using Cons.prems x by (auto simp: reg_wf_def)
  have e: "publish_patterns channel payload (x # r) count mb = publish_patterns channel payload r (fst ?r1) (snd ?r1)"
    by (simp add: x case_prod_unfold Let_def)
  have "delivers (\<lambda>j. if glob_match p channel \<and> j \<in> set subs then [pmessage_frame p channel payload] else []) count mb ?r1"
    using delivers_send_all [OF d] by (auto simp: delivers_refl)
  from delivers_trans [OF this Cons.IH [OF w]]
  have "delivers (\<lambda>j. (if glob_match p channel \<and> j \<in> set subs then [pmessage_frame p channel payload] else [])
      @ pattern_messages channel payload r j) count mb (publish_patterns channel payload (x # r) count mb)"
    unfolding e .
  moreover have "(\<lambda>j. (if glob_match p channel \<and> j \<in> set subs then [pmessage_frame p channel payload] else [])
      @ pattern_messages channel payload r j) = pattern_messages channel payload (x # r)"
    by (rule ext) (simp add: pattern_messages_def x)
  ultimately show ?case by simp
qed

lemma pattern_messages_eq:
  assumes "reg_wf r"
  shows "pattern_messages channel payload r i = map (\<lambda>p. pmessage_frame p channel payload)
    (filter (\<lambda>p. glob_match p channel \<and> (p, i) \<in> reg_pairs r) (map fst r))"
proof -
  have "i \<in> set subs \<longleftrightarrow> (p, i) \<in> reg_pairs r" if "(p, subs) \<in> set r" for p subs
    using that assms by (auto simp: reg_pairs_def reg_wfD(1) map_of_is_SomeI)
  then show ?thesis
    by (auto simp: pattern_messages_def filter_map comp_def case_prod_unfold intro!: map_cong filter_cong)
qed

lemma delivers_publish:
  assumes "pubsub_wf ps"
  shows "delivers (messages channel payload ps) 0 mb (ps_publish channel payload ps mb)"
proof -
  let ?r1 = "case map_of (ps_channels ps) channel of
     Some subs \<Rightarrow> send_all (message_frame channel payload) subs 0 mb | None \<Rightarrow> (0, mb)"
  have "delivers (\<lambda>j. if (channel, j) \<in> chan_pairs ps then [message_frame channel payload] else []) 0 mb ?r1"
  proof (cases "map_of (ps_channels ps) channel")
    case None
    then show ?thesis by (simp add: chan_pairs_def reg_pairs_def delivers_refl)
  next
    case (Some subs)
    then have "distinct subs" using assms reg_wfD(2) by (auto simp: pubsub_wf_def)
    from delivers_send_all [OF this] Some show ?thesis by (simp add: chan_pairs_def reg_pairs_def)
  qed
  from delivers_trans [OF this delivers_patterns, of "ps_patterns ps" channel payload] assms
  show ?thesis
    by (simp add: ps_publish_def case_prod_unfold Let_def pubsub_wf_def pattern_messages_eq messages_def [abs_def] pat_pairs_def)
qed

section \<open>Properties\<close>

definition pubsub_demo :: pubsub where
  "pubsub_demo = \<lparr>ps_channels = [(ascii ''news'', [1, 2])], ps_patterns = [(ascii ''n*'', [2]), (ascii ''x*'', [1])]\<rparr>"

lemma pubsub_demo_wf: "pubsub_wf pubsub_demo"
  by (simp add: pubsub_demo_def pubsub_wf_def reg_wf_def ascii_def)

lemma delivers_count:
  assumes "delivers msgs 0 mb (count, mb')"
  shows "count = (\<Sum>i\<in>dom (map_of mb). int (length (msgs i)))"
proof -
  have m: "map_of mb' i = map_option (\<lambda>q. q @ msgs i) (map_of mb i)" for i
    using assms by (simp add: delivers_def)
  then have "dom (map_of mb') = dom (map_of mb)" by (auto simp: dom_def)
  then have "count = (\<Sum>i\<in>dom (map_of mb). int (length (the (map_of mb' i))) - int (length (the (map_of mb i))))"
    using assms by (simp add: delivers_def mail_count_def sum_subtractf)
  also have "\<dots> = (\<Sum>i\<in>dom (map_of mb). int (length (msgs i)))"
    using m by (intro sum.cong) auto
  finally show ?thesis .
qed

text \<open>
  \<open>PUBLISH\<close> appends to the mailbox of every client that is still there exactly its messages, one
  for a subscription of the channel itself and one for each of its matching patterns, leaves every
  mailbox otherwise unchanged, and returns the number of messages that were delivered.\<close>

theorem publish_correct:
  assumes "pubsub_wf ps" and "ps_publish channel payload ps mb = (count, mb')"
  shows "(\<forall>i. map_of mb' i = map_option (\<lambda>q. q @ messages channel payload ps i) (map_of mb i))
    \<and> count = (\<Sum>i\<in>dom (map_of mb). int (length (messages channel payload ps i)))"
  using delivers_publish [OF assms(1), of channel payload mb] delivers_count assms(2)
  by (auto simp: delivers_def)

theorem publish_correct_witness:
  "map_of (snd (ps_publish (ascii ''news'') [7] pubsub_demo [(1, []), (2, [])])) 2
     = Some [message_frame (ascii ''news'') [7], pmessage_frame (ascii ''n*'') (ascii ''news'') [7]]"
proof -
  have "ps_publish (ascii ''news'') [7] pubsub_demo [(1, []), (2, [])] =
      (fst (ps_publish (ascii ''news'') [7] pubsub_demo [(1, []), (2, [])]),
       snd (ps_publish (ascii ''news'') [7] pubsub_demo [(1, []), (2, [])]))" by simp
  from publish_correct [OF pubsub_demo_wf this] have
    "map_of (snd (ps_publish (ascii ''news'') [7] pubsub_demo [(1, []), (2, [])])) 2
      = Some (messages (ascii ''news'') [7] pubsub_demo 2)" by simp
  moreover have "glob_match (ascii ''n*'') (ascii ''news'')" "\<not> glob_match (ascii ''x*'') (ascii ''news'')"
    by code_simp+
  then have "messages (ascii ''news'') [7] pubsub_demo 2
      = [message_frame (ascii ''news'') [7], pmessage_frame (ascii ''n*'') (ascii ''news'') [7]]"
    by (auto simp: messages_def pubsub_demo_def chan_pairs_def pat_pairs_def reg_pairs_def)
  ultimately show ?thesis by simp
qed

text \<open>
  C24: the registry refines a relation between targets and clients: each operation changes the two
  relations by exactly the pairs it names, and keeps the representation (each target once, with a
  non-empty list of distinct subscribers).\<close>

theorem registry_refines_relation:
  assumes "pubsub_wf ps"
  shows "pubsub_wf (ps_subscribe t i ps) \<and> chan_pairs (ps_subscribe t i ps) = insert (t, i) (chan_pairs ps)
      \<and> pat_pairs (ps_subscribe t i ps) = pat_pairs ps
    \<and> pubsub_wf (ps_unsubscribe t i ps) \<and> chan_pairs (ps_unsubscribe t i ps) = chan_pairs ps - {(t, i)}
      \<and> pat_pairs (ps_unsubscribe t i ps) = pat_pairs ps
    \<and> pubsub_wf (ps_psubscribe t i ps) \<and> pat_pairs (ps_psubscribe t i ps) = insert (t, i) (pat_pairs ps)
      \<and> chan_pairs (ps_psubscribe t i ps) = chan_pairs ps
    \<and> pubsub_wf (ps_punsubscribe t i ps) \<and> pat_pairs (ps_punsubscribe t i ps) = pat_pairs ps - {(t, i)}
      \<and> chan_pairs (ps_punsubscribe t i ps) = chan_pairs ps
    \<and> pubsub_wf (ps_remove_client i ps) \<and> chan_pairs (ps_remove_client i ps) = chan_pairs ps - UNIV \<times> {i}
      \<and> pat_pairs (ps_remove_client i ps) = pat_pairs ps - UNIV \<times> {i}"
  using assms by (simp add: wf_intros chans.pairs_add chans.pairs_del pats.pairs_add pats.pairs_del)

theorem registry_refines_relation_witness:
  "chan_pairs (ps_unsubscribe (ascii ''news'') 1 pubsub_demo) = chan_pairs pubsub_demo - {(ascii ''news'', 1)}"
  using registry_refines_relation [OF pubsub_demo_wf, of "ascii ''news''" 1] by simp

lemma reg_pairs_targets: "reg_wf r \<Longrightarrow> fst ` set r = fst ` reg_pairs r"
  by (force simp: reg_pairs_def reg_wf_iff image_iff map_of_eq_Some_iff neq_Nil_conv dest: map_of_SomeD)

lemma reg_subscribers:
  assumes "reg_wf r"
  shows "(case map_of r t of None \<Rightarrow> 0 | Some subs \<Rightarrow> int (length subs)) = int (card {i. (t, i) \<in> reg_pairs r})"
  using reg_wfD(2) [OF assms, of t] by (auto simp: reg_pairs_def distinct_card split: option.splits)

text \<open>
  \<open>PUBSUB CHANNELS\<close> lists each channel that has a subscriber and matches the pattern once,
  \<open>NUMSUB\<close> is the number of subscribers of a channel and \<open>NUMPAT\<close> the number of patterns in use.\<close>

theorem pubsub_reports:
  assumes "pubsub_wf ps"
  shows "set (ps_channels_matching pattern ps) = {t. matches_opt pattern t \<and> (\<exists>i. (t, i) \<in> chan_pairs ps)}
    \<and> distinct (ps_channels_matching pattern ps)
    \<and> ps_numsub t ps = int (card {i. (t, i) \<in> chan_pairs ps})
    \<and> ps_numpat ps = int (card (fst ` pat_pairs ps))"
proof -
  have w: "reg_wf (ps_channels ps)" "reg_wf (ps_patterns ps)" using assms by (simp_all add: pubsub_wf_def)
  have "length (ps_patterns ps) = card (fst ` set (ps_patterns ps))"
    using reg_wfD(1) [OF w(2)] distinct_card [of "map fst (ps_patterns ps)"] by simp
  moreover have "t \<in> fst ` reg_pairs r \<longleftrightarrow> (\<exists>i. (t, i) \<in> reg_pairs r)" for t r by force
  ultimately show ?thesis
    using w reg_pairs_targets [OF w(1)] reg_pairs_targets [OF w(2)] reg_wfD(1) [OF w(1)]
    by (auto simp: ps_channels_matching_def ps_numsub_def ps_numpat_def chan_pairs_def pat_pairs_def reg_subscribers)
qed

theorem pubsub_reports_witness:
  "ps_numsub (ascii ''news'') pubsub_demo = int (card {i. (ascii ''news'', i) \<in> chan_pairs pubsub_demo})"
  using pubsub_reports [OF pubsub_demo_wf, where t = "ascii ''news''"] by simp

end
