(* ===== verification/Cmd_Generic.thy ===== *)
theory Cmd_Generic
  imports Cmd
begin

text \<open>
  The generic keyspace commands (src/commands/generic.rs). The commands that span databases take
  the keyspace and the index of the connection's database; an index out of range would panic in
  the code and is \<open>None\<close> here. An \<open>i128\<close> is an \<open>int\<close>, large enough for every sum the code forms.
\<close>

section \<open>One database\<close>

definition del :: "u64 \<Rightarrow> bytes list \<Rightarrow> db \<Rightarrow> frame \<times> db" where
  "del now args db =
     (if length args < 2 then (wrong_args ''del'', db)
      else let (db, n) = count_steps (db_remove now) (drop 1 args) db in (Integer (int n), db))"

definition exists_cmd :: "u64 \<Rightarrow> bytes list \<Rightarrow> db \<Rightarrow> frame \<times> db" where
  "exists_cmd now args db =
     (if length args < 2 then (wrong_args ''exists'', db)
      else let (db, n) = count_steps (\<lambda>k db. let (p, db) = db_contains now k db in (db, p))
                           (drop 1 args) db
           in (Integer (int n), db))"

record expire_options =
  eo_nx :: bool
  eo_xx :: bool
  eo_gt :: bool
  eo_lt :: bool

fun expire_opts :: "bytes list \<Rightarrow> expire_options \<Rightarrow> frame + expire_options" where
  "expire_opts [] eo = Inr eo"
| "expire_opts (a # rest) eo =
     (let opt = upper a in
      if opt = ascii ''NX'' then expire_opts rest (eo\<lparr>eo_nx := True\<rparr>)
      else if opt = ascii ''XX'' then expire_opts rest (eo\<lparr>eo_xx := True\<rparr>)
      else if opt = ascii ''GT'' then expire_opts rest (eo\<lparr>eo_gt := True\<rparr>)
      else if opt = ascii ''LT'' then expire_opts rest (eo\<lparr>eo_lt := True\<rparr>)
      else Inl (frame_err (ascii ''Unsupported option'')))"

definition expire_options_start :: expire_options where
  "expire_options_start = \<lparr>eo_nx = False, eo_xx = False, eo_gt = False, eo_lt = False\<rparr>"

definition expire_applies :: "expire_options \<Rightarrow> int option \<Rightarrow> int \<Rightarrow> bool" where
  "expire_applies eo current at =
     (if eo_nx eo then current = None
      else if eo_xx eo then current \<noteq> None
      else if eo_gt eo then (case current of Some c \<Rightarrow> c < at | None \<Rightarrow> False)
      else if eo_lt eo then (case current of Some c \<Rightarrow> at < c | None \<Rightarrow> True)
      else True)"

definition expire :: "u64 \<Rightarrow> bytes list \<Rightarrow> int \<Rightarrow> bool \<Rightarrow> db \<Rightarrow> frame \<times> db" where
  "expire now args unit_ms relative db =
     (if length args < 3 then (wrong_args ''expire'', db)
      else case parse_int (args ! 2) of
        Inl e \<Rightarrow> (e, db)
      | Inr n \<Rightarrow>
          (case expire_opts (drop 3 args) expire_options_start of
             Inl e \<Rightarrow> (e, db)
           | Inr eo \<Rightarrow>
               if (eo_nx eo \<and> (eo_xx eo \<or> eo_gt eo \<or> eo_lt eo)) \<or> (eo_gt eo \<and> eo_lt eo) then
                 (frame_err (ascii ''NX and XX, GT or LT options at the same time are not compatible''), db)
               else
                 let (present, db) = db_contains now (args ! 1) db in
                 if \<not> present then (Integer 0, db)
                 else
                   let at = (if relative then uint now + n * unit_ms else n * unit_ms);
                       (current, db) = db_expire_at now (args ! 1) db in
                   if \<not> expire_applies eo (map_option uint current) at then (Integer 0, db)
                   else if at \<le> uint now then (Integer 1, fst (db_remove now (args ! 1) db))
                   else (Integer 1,
                     snd (db_set_expire now (args ! 1) (word_of_int (min at (2 ^ 64 - 1))) db))))"

definition ttl :: "u64 \<Rightarrow> bytes list \<Rightarrow> bool \<Rightarrow> db \<Rightarrow> frame \<times> db" where
  "ttl now args seconds db =
     (if length args \<noteq> 2 then (wrong_args ''ttl'', db)
      else let (present, db) = db_contains now (args ! 1) db in
      if \<not> present then (Integer (- 2), db)
      else let (at, db) = db_expire_at now (args ! 1) db in
      case at of
        None \<Rightarrow> (Integer (- 1), db)
      | Some at \<Rightarrow>
          let remaining = (if at \<le> now then 0 else at - now)
          in (Integer (i64 (uint (if seconds then (remaining + 500) div 1000 else remaining))), db))"

definition expiretime :: "u64 \<Rightarrow> bytes list \<Rightarrow> bool \<Rightarrow> db \<Rightarrow> frame \<times> db" where
  "expiretime now args seconds db =
     (if length args \<noteq> 2 then (wrong_args ''expiretime'', db)
      else let (present, db) = db_contains now (args ! 1) db in
      if \<not> present then (Integer (- 2), db)
      else let (at, db) = db_expire_at now (args ! 1) db in
      case at of
        None \<Rightarrow> (Integer (- 1), db)
      | Some at \<Rightarrow> (Integer (i64 (uint (if seconds then at div 1000 else at))), db))"

definition persist :: "u64 \<Rightarrow> bytes list \<Rightarrow> db \<Rightarrow> frame \<times> db" where
  "persist now args db =
     (if length args \<noteq> 2 then (wrong_args ''persist'', db)
      else let (b, db) = db_persist now (args ! 1) db in (Integer (bool_int b), db))"

definition keys_cmd :: "u64 \<Rightarrow> bytes list \<Rightarrow> db \<Rightarrow> frame \<times> db" where
  "keys_cmd now args db =
     (if length args \<noteq> 2 then (wrong_args ''keys'', db)
      else (Array (map Bulk (db_keys_matching now (Some (args ! 1)) db)), db))"

text \<open>
  The options of \<open>SCAN\<close>: pattern and type. The type name is lower-cased; a non-ASCII character
  never lower-cases into a type name, so the ASCII mapping decides the comparison.
\<close>

fun scan_opts :: "bytes list \<Rightarrow> bytes option \<Rightarrow> bytes option \<Rightarrow> frame + bytes option \<times> bytes option" where
  "scan_opts [] pattern type_filter = Inr (pattern, type_filter)"
| "scan_opts [a] pattern type_filter = Inl syntax_error"
| "scan_opts (a # b # rest) pattern type_filter =
     (if upper a = ascii ''MATCH'' then scan_opts rest (Some b) type_filter
      else if upper a = ascii ''COUNT'' then
        (case parse_int b of
           Inl _ \<Rightarrow> Inl not_int_error
         | Inr _ \<Rightarrow> scan_opts rest pattern type_filter)
      else if upper a = ascii ''TYPE'' then
        scan_opts rest pattern (Some (to_ascii_lowercase (upper b)))
      else Inl syntax_error)"

fun retain_type :: "u64 \<Rightarrow> bytes \<Rightarrow> bytes list \<Rightarrow> db \<Rightarrow> bytes list \<times> db" where
  "retain_type now t [] db = ([], db)"
| "retain_type now t (k # ks) db =
     (let (v, db) = db_get now k db;
          (rest, db) = retain_type now t ks db
      in (if map_option type_name v = Some t then k # rest else rest, db))"

definition scan :: "u64 \<Rightarrow> bytes list \<Rightarrow> db \<Rightarrow> frame \<times> db" where
  "scan now args db =
     (if length args < 2 then (wrong_args ''scan'', db)
      else case scan_opts (drop 2 args) None None of
        Inl e \<Rightarrow> (e, db)
      | Inr (pattern, type_filter) \<Rightarrow>
          let keys = db_keys_matching now pattern db;
              (keys, db) = (case type_filter of
                              Some t \<Rightarrow> retain_type now t keys db
                            | None \<Rightarrow> (keys, db))
          in (Array [Bulk (ascii ''0''), Array (map Bulk keys)], db))"

definition type_cmd :: "u64 \<Rightarrow> bytes list \<Rightarrow> db \<Rightarrow> frame \<times> db" where
  "type_cmd now args db =
     (if length args \<noteq> 2 then (wrong_args ''type'', db)
      else let (v, db) = db_get now (args ! 1) db
           in (Simple (case v of Some v \<Rightarrow> type_name v | None \<Rightarrow> ascii ''none''), db))"

definition rename :: "u64 \<Rightarrow> bytes list \<Rightarrow> bool \<Rightarrow> db \<Rightarrow> frame \<times> db" where
  "rename now args nx db =
     (if length args \<noteq> 3 then (wrong_args (if nx then ''renamenx'' else ''rename''), db)
      else let (present, db) = db_contains now (args ! 1) db in
      if \<not> present then (frame_err (ascii ''no such key''), db)
      else let (taken, db) = (if nx then db_contains now (args ! 2) db else (False, db)) in
      if taken then (Integer 0, db)
      else (if nx then Integer 1 else frame_ok, snd (db_rename now (args ! 1) (args ! 2) db)))"

definition randomkey :: "u64 \<Rightarrow> u64 \<Rightarrow> bytes list \<Rightarrow> db \<Rightarrow> rng \<Rightarrow> frame \<times> db \<times> rng" where
  "randomkey now nanos args db st =
     (if length args \<noteq> 1 then (wrong_args ''randomkey'', db, st)
      else let keys = db_all_keys now db in
      if keys = [] then (Null, db, st)
      else let (i, st) = rand_index nanos (length keys) st in (Bulk (keys ! i), db, st))"

section \<open>Several databases\<close>

definition same_object_error :: frame where
  "same_object_error = frame_err (ascii ''source and destination objects are the same'')"

definition db_range_error :: frame where
  "db_range_error = frame_err (ascii ''DB index is out of range'')"

fun copy_opts :: "keyspace \<Rightarrow> bytes list \<Rightarrow> bool \<Rightarrow> nat \<Rightarrow> frame + bool \<times> nat" where
  "copy_opts ks [] replace dst_db = Inr (replace, dst_db)"
| "copy_opts ks (a # rest) replace dst_db =
     (if upper a = ascii ''REPLACE'' then copy_opts ks rest True dst_db
      else if upper a = ascii ''DB'' then
        (case rest of
           [] \<Rightarrow> Inl syntax_error
         | b # rest' \<Rightarrow>
             (case parse_int b of
                Inl e \<Rightarrow> Inl e
              | Inr n \<Rightarrow> if ks_is_valid n ks then copy_opts ks rest' replace (nat n)
                         else Inl db_range_error))
      else Inl syntax_error)"

definition copy :: "u64 \<Rightarrow> nat \<Rightarrow> bytes list \<Rightarrow> keyspace \<Rightarrow> (frame \<times> keyspace) option" where
  "copy now db_index args ks =
     (if length args < 3 then Some (wrong_args ''copy'', ks)
      else case copy_opts ks (drop 3 args) False db_index of
        Inl e \<Rightarrow> Some (e, ks)
      | Inr (replace, dst_db) \<Rightarrow>
          let src_key = args ! 1; dst_key = args ! 2 in
          if dst_db = db_index \<and> src_key = dst_key then Some (same_object_error, ks)
          else case ks_db db_index ks of
            None \<Rightarrow> None
          | Some src \<Rightarrow>
              (case db_get now src_key src of
                 (None, src) \<Rightarrow> Some (Integer 0, ks[db_index := src])
               | (Some v, src) \<Rightarrow>
                   let (t, src) = db_expire_at now src_key src;
                       ks = ks[db_index := src] in
                   (case ks_db dst_db ks of
                      None \<Rightarrow> None
                    | Some dst \<Rightarrow>
                        let (present, dst) = db_contains now dst_key dst in
                        if present \<and> \<not> replace then Some (Integer 0, ks[dst_db := dst])
                        else Some (Integer 1, ks[dst_db := db_put dst_key v t dst]))))"

definition move_key :: "u64 \<Rightarrow> nat \<Rightarrow> bytes list \<Rightarrow> keyspace \<Rightarrow> (frame \<times> keyspace) option" where
  "move_key now db_index args ks =
     (if length args \<noteq> 3 then Some (wrong_args ''move'', ks)
      else case parse_int (args ! 2) of
        Inl e \<Rightarrow> Some (e, ks)
      | Inr n \<Rightarrow>
          if \<not> ks_is_valid n ks then Some (db_range_error, ks)
          else let dst_db = nat n in
          if dst_db = db_index then Some (same_object_error, ks)
          else case ks_pair db_index dst_db ks of
            None \<Rightarrow> None
          | Some (src, dst) \<Rightarrow>
              let (present, dst) = db_contains now (args ! 1) dst in
              if present then Some (Integer 0, ks[db_index := src, dst_db := dst])
              else (case db_take now (args ! 1) src of
                (Some (v, t), src) \<Rightarrow>
                  Some (Integer 1, ks[db_index := src, dst_db := db_put (args ! 1) v t dst])
              | (None, src) \<Rightarrow> Some (Integer 0, ks[db_index := src, dst_db := dst])))"

definition swapdb :: "bytes list \<Rightarrow> keyspace \<Rightarrow> (frame \<times> keyspace) option" where
  "swapdb args ks =
     (if length args \<noteq> 3 then Some (wrong_args ''swapdb'', ks)
      else case parse_int (args ! 1) of
        Inl _ \<Rightarrow> Some (frame_err (ascii ''invalid first DB index''), ks)
      | Inr a \<Rightarrow>
          (case parse_int (args ! 2) of
             Inl _ \<Rightarrow> Some (frame_err (ascii ''invalid second DB index''), ks)
           | Inr b \<Rightarrow>
               if \<not> ks_is_valid a ks \<or> \<not> ks_is_valid b ks then Some (db_range_error, ks)
               else map_option (Pair frame_ok) (ks_swap (nat a) (nat b) ks)))"

section \<open>Correctness\<close>

lemma remove_all_live:
  "live now (fst (count_steps (db_remove now) ks db)) = live now db |` (- set ks)"
proof (induction ks arbitrary: db)
  case Nil
  then show ?case by simp
next
  case (Cons k ks)
  have "live now (fst (count_steps (db_remove now) (k # ks) db)) =
      live now (fst (db_remove now k db)) |` (- set ks)"
    using Cons.IH by (simp add: case_prod_unfold Let_def)
  then show ?case by (auto simp: live_simps restrict_map_def fun_eq_iff)
qed

text \<open>
  \<open>DEL\<close> removes exactly the listed keys from the live contents and replies with the number of
  them that existed, each counted once.
\<close>

theorem del_correct:
  assumes "2 \<le> length args"
  shows "fst (del now args db) = Integer (int (card (set (drop 1 args) \<inter> dom (live now db))))
    \<and> live now (snd (del now args db)) = live now db |` (- set (drop 1 args))"
  using assms live_db.del_all(3) [where now = now and s = db and ks = "drop 1 args"]
    remove_all_live [of now "drop 1 args" db]
  by (simp add: del_def case_prod_unfold Let_def)

theorem del_correct_witness:
  "fst (del 5 [ascii ''del'', [1], [2], [1]]
     [([1], \<lparr>e_value = StringV [], e_expire_at = None\<rparr>), ([2], \<lparr>e_value = StringV [], e_expire_at = Some 3\<rparr>)])
     = Integer 1"
proof -
  let ?db = "[([1], \<lparr>e_value = StringV [], e_expire_at = None\<rparr>), ([2], \<lparr>e_value = StringV [], e_expire_at = Some 3\<rparr>)]"
  have "set (drop 1 [ascii ''del'', [1], [2], [1]]) \<inter> dom (live 5 ?db) = {[1]}"
    by (auto simp: live_def expired_def dom_def split: if_splits)
  then show ?thesis using del_correct [of "[ascii ''del'', [1], [2], [1]]" 5 ?db] by simp
qed

text \<open>
  \<open>KEYS\<close> lists every live key that matches the pattern, in the sense of the declarative
  glob matcher, exactly once.
\<close>

theorem keys_correct:
  assumes "db_ok db" and "length args = 2"
  shows "\<exists>ks. fst (keys_cmd now args db) = Array (map Bulk ks) \<and> distinct ks
    \<and> set ks = {k \<in> dom (live now db). matches (tokens (args ! 1)) k}"
  using assms set_keys_matching [OF assms(1), of now "Some (args ! 1)"]
    distinct_keys_matching [OF assms(1), of now "Some (args ! 1)"]
  by (auto simp: keys_cmd_def glob_match_matches)

theorem keys_correct_witness:
  "\<exists>ks. fst (keys_cmd 5 [ascii ''keys'', ascii ''*''] []) = Array (map Bulk ks) \<and> distinct ks
     \<and> set ks = {k \<in> dom (live 5 []). matches (tokens (ascii ''*'')) k}"
  using keys_correct [of "[]" "[ascii ''keys'', ascii ''*'']" 5] by simp

lemma clipped_deadline:
  assumes "now \<noteq> (- 1 :: u64)" and "\<not> at \<le> uint now"
  shows "\<not> word_of_int (min at (2 ^ 64 - 1)) \<le> now"
proof -
  have "now < - 1" using assms(1) by (simp add: word_order.not_eq_extremum)
  then have u: "uint now < 2 ^ 64 - 1" 
    by (simp add: word_less_def unsigned_minus_1_eq_mask mask_eq_exp_minus_1)
  have "0 \<le> uint now" by simp
  with assms(2) have "0 < at" by linarith
  then have "uint (word_of_int (min at (2 ^ 64 - 1)) :: u64) = min at (2 ^ 64 - 1)"
    by (simp add: uint_word_of_int)
  then show ?thesis using assms(2) u by (auto simp: word_le_def)
qed

text \<open>What \<open>EXPIRE\<close> and its variants do to an existing key once the options are parsed.\<close>

lemma expire_aux:
  assumes "3 \<le> length args" and "parse_int (args ! 2) = Inr n"
    and "expire_opts (drop 3 args) expire_options_start = Inr eo"
    and "\<not> ((eo_nx eo \<and> (eo_xx eo \<or> eo_gt eo \<or> eo_lt eo)) \<or> (eo_gt eo \<and> eo_lt eo))"
    and "live now db (args ! 1) = Some (v, t)"
    and "at = (if relative then uint now + n * unit_ms else n * unit_ms)" and "now \<noteq> - 1"
  shows "if expire_applies eo (map_option uint t) at
    then fst (expire now args unit_ms relative db) = Integer 1
      \<and> live now (snd (expire now args unit_ms relative db)) = (live now db)(args ! 1 :=
          (if at \<le> uint now then None else Some (v, Some (word_of_int (min at (2 ^ 64 - 1))))))
    else fst (expire now args unit_ms relative db) = Integer 0
      \<and> live now (snd (expire now args unit_ms relative db)) = live now db"
proof -
  obtain db1 where c: "db_contains now (args ! 1) db = (True, db1)" and l1: "live now db1 = live now db"
    using db_contains_live [of now "args ! 1" db] assms(5) by (cases "db_contains now (args ! 1) db") auto
  obtain db2 where e: "db_expire_at now (args ! 1) db1 = (t, db2)" and l2: "live now db2 = live now db"
    using db_expire_at_live [of now "args ! 1" db1] assms(5) l1
    by (cases "db_expire_at now (args ! 1) db1") (auto simp: live_ttl_def)
  let ?at = "word_of_int (min at (2 ^ 64 - 1)) :: u64"
  have gt: "\<not> at \<le> uint now \<Longrightarrow> \<not> ?at \<le> now" using assms(7) by (rule clipped_deadline)
  have s: "live now (snd (db_set_expire now (args ! 1) ?at db2)) =
      (live now db)(args ! 1 := (if ?at \<le> now then None else Some (v, Some ?at)))"
    using assms(5) l2 by (simp only: live_simps option.case prod.case)
  have r: "live now (fst (db_remove now (args ! 1) db2)) = (live now db)(args ! 1 := None)"
    using l2 by (simp only: live_simps)
  have e: "expire now args unit_ms relative db =
      (if \<not> expire_applies eo (map_option uint t) at then (Integer 0, db2)
       else if at \<le> uint now then (Integer 1, fst (db_remove now (args ! 1) db2))
       else (Integer 1, snd (db_set_expire now (args ! 1) ?at db2)))"
  proof -
    have "(length args < 3) = False" using assms(1) by simp
    moreover have "((eo_nx eo \<and> (eo_xx eo \<or> eo_gt eo \<or> eo_lt eo)) \<or> (eo_gt eo \<and> eo_lt eo)) = False"
      using assms(4) by simp
    ultimately show ?thesis
      by (simp only: expire_def Let_def assms(2,3,6) sum.case c e prod.case if_False not_True_eq_False)
  qed
  show ?thesis unfolding e using r s gt l2 by simp
qed

lemma uint_sub_of_sum:
  fixes a b :: u64
  assumes "uint a = uint b + n" and "0 \<le> n"
  shows "uint (a - b) = n"
proof -
  have "uint a < 2 ^ 64" "0 \<le> uint b" using unsigned_less [of a] by simp_all
  then have "n < 2 ^ 64" using assms(1) by linarith
  have "uint (a - b) = (uint a - uint b) mod 2 ^ 64" by (simp add: uint_word_ariths)
  then show ?thesis using assms \<open>n < 2 ^ 64\<close> by simp
qed

text \<open>
  \<open>PEXPIRE\<close> without options on a live key: a positive time sets the deadline \<open>now + n\<close>, which
  \<open>PTTL\<close> then reports as \<open>n\<close>; a time that is not positive removes the key. The reply is 1.
\<close>

theorem pexpire_pttl:
  assumes "live now db k = Some (v, t)" and "parse_int a = Inr n" and "uint now < 2 ^ 63" and "uint now + n < 2 ^ 63"
  defines "db' \<equiv> snd (expire now [ascii ''pexpire'', k, a] 1 True db)"
  shows "fst (expire now [ascii ''pexpire'', k, a] 1 True db) = Integer 1
    \<and> fst (ttl now [ascii ''pttl'', k] False db') = (if 0 < n then Integer n else Integer (- 2))"
proof -
  let ?args = "[ascii ''pexpire'', k, a]" and ?at = "word_of_int (min (uint now + n) (2 ^ 64 - 1)) :: u64"
  have nz: "now \<noteq> - 1"
  proof
    assume "now = - 1"
    then have "uint now = 2 ^ 64 - 1" by (simp add: unsigned_minus_1_eq_mask mask_eq_exp_minus_1)
    with assms(3) show False by simp
  qed
  have "expire_opts (drop 3 ?args) expire_options_start = Inr expire_options_start" by simp
  note ex = expire_aux [OF _ _ this _ _ refl nz, where v = v and t = t and n = n and db = db and relative = True and unit_ms = 1]
  have r: "fst (expire now ?args 1 True db) = Integer 1"
    and l: "live now db' = (live now db)(k := (if n \<le> 0 then None else Some (v, Some ?at)))"
    using ex assms(1,2) by (simp_all add: db'_def expire_applies_def expire_options_start_def)
  show ?thesis
  proof (cases "n \<le> 0")
    case True
    then have "k \<notin> dom (live now db')" using l by auto
    then have "fst (ttl now [ascii ''pttl'', k] False db') = Integer (- 2)"
      using db_contains_live(1) [of now k db'] by (auto simp: ttl_def case_prod_unfold Let_def)
    with r True show ?thesis by simp
  next
    case False
    have u0: "0 \<le> uint now" by simp
    have at: "uint ?at = uint now + n"
    proof -
      have "min (uint now + n) (2 ^ 64 - 1) = uint now + n" using assms(4) by simp
      moreover have "(uint now + n) mod 2 ^ LENGTH(64) = uint now + n"
        using False assms(4) u0 by (intro mod_pos_pos_trivial) auto
      ultimately show ?thesis by (simp only: uint_word_of_int)
    qed
    have diff: "uint (?at - now) = n" using uint_sub_of_sum [OF at] False by simp
    obtain db1 where c: "db_contains now k db' = (True, db1)" and l1: "live now db1 = live now db'"
      using db_contains_live [of now k db'] l False by (cases "db_contains now k db'") auto
    obtain db2 where e: "db_expire_at now k db1 = (Some ?at, db2)"
      using db_expire_at_live(1) [of now k db1] l l1 False
      by (cases "db_expire_at now k db1") (auto simp: live_ttl_def)
    have gt: "\<not> ?at \<le> now" using clipped_deadline [OF nz] False by simp
    have "i64 n = n" using parse_int_ok [OF assms(2)] by simp
    then have "fst (ttl now [ascii ''pttl'', k] False db') = Integer n"
      using c e gt diff by (simp add: ttl_def)
    with r False show ?thesis by simp
  qed
qed

theorem pexpire_pttl_witness:
  "fst (expire 5 [ascii ''pexpire'', [7], dec_int 20] 1 True
     [([7], \<lparr>e_value = StringV [], e_expire_at = None\<rparr>)]) = Integer 1"
  using pexpire_pttl [of 5 "[([7], \<lparr>e_value = StringV [], e_expire_at = None\<rparr>)]" "[7]" "StringV []" None
      "dec_int 20" 20]
  by (simp add: live_def expired_def entry_pair_def i64_ok_def)

text \<open>
  The options \<open>XX\<close> and \<open>GT\<close> (or \<open>LT\<close>) together are accepted, but only \<open>XX\<close> is obeyed: a deadline
  that is not later than the current one is set all the same.
\<close>

theorem expire_xx_ignores_gt:
  assumes "live now db (args ! 1) = Some (v, Some t)" and "3 \<le> length args"
    and "parse_int (args ! 2) = Inr n"
    and "expire_opts (drop 3 args) expire_options_start = Inr eo"
    and "eo_xx eo \<and> eo_gt eo \<and> \<not> eo_nx eo \<and> \<not> eo_lt eo"
    and "uint now < n" and "n < uint t"
  shows "live now (snd (expire now args 1 False db)) (args ! 1) = Some (v, Some (word_of_int n))"
proof -
  have t: "uint t < 2 ^ 64" using unsigned_less [of t] by simp
  have nz: "now \<noteq> - 1"
  proof
    assume "now = - 1"
    then have "uint now = 2 ^ 64 - 1" by (simp add: unsigned_minus_1_eq_mask mask_eq_exp_minus_1)
    with assms(6,7) t show False by simp
  qed
  have m: "min n (2 ^ 64 - 1) = n" using assms(7) t by simp
  have ap: "expire_applies eo x n = (x \<noteq> None)" for x using assms(5) by (simp add: expire_applies_def)
  have c: "\<not> ((eo_nx eo \<and> (eo_xx eo \<or> eo_gt eo \<or> eo_lt eo)) \<or> (eo_gt eo \<and> eo_lt eo))"
    using assms(5) by simp
  have "expire_applies eo (map_option uint (Some t)) n" by (simp add: ap)
  with expire_aux [OF assms(2,3,4) c assms(1) _ nz, of n False 1] m assms(6) show ?thesis by simp
qed

theorem expire_xx_ignores_gt_witness:
  "live 5 (snd (expire 5 [ascii ''pexpireat'', [7], dec_int 8, ascii ''XX'', ascii ''GT''] 1 False
     [([7], \<lparr>e_value = StringV [], e_expire_at = Some 99\<rparr>)])) [7] = Some (StringV [], Some 8)"
proof -
  have "expire_opts (drop 3 [ascii ''pexpireat'', [7], dec_int 8, ascii ''XX'', ascii ''GT'']) expire_options_start
      = Inr \<lparr>eo_nx = False, eo_xx = True, eo_gt = True, eo_lt = False\<rparr>"
    by code_simp
  then show ?thesis
    using expire_xx_ignores_gt [of 5 "[([7], \<lparr>e_value = StringV [], e_expire_at = Some 99\<rparr>)]"
        "[ascii ''pexpireat'', [7], dec_int 8, ascii ''XX'', ascii ''GT'']" "StringV []" 99 8
        "\<lparr>eo_nx = False, eo_xx = True, eo_gt = True, eo_lt = False\<rparr>"]
    by (simp add: live_def expired_def entry_pair_def i64_ok_def del: expire_opts.simps)
qed

text \<open>
  \<open>RENAME\<close> moves the value and its expiry to the new name, which it replaces, and frees the old
  one; \<open>RENAMENX\<close> does so only if the new name is not in use, and otherwise changes nothing.
\<close>

theorem rename_correct:
  assumes "length args = 3" and "live now db (args ! 1) = Some x"
  shows "live now (snd (rename now args nx db)) =
      (if nx \<and> args ! 2 \<in> dom (live now db) then live now db
       else (live now db)(args ! 1 := None, args ! 2 \<mapsto> x))
    \<and> fst (rename now args nx db) =
      (if nx then Integer (if args ! 2 \<in> dom (live now db) then 0 else 1) else frame_ok)"
proof -
  obtain db1 where c1: "db_contains now (args ! 1) db = (True, db1)" and l1: "live now db1 = live now db"
    using db_contains_live [of now "args ! 1" db] assms(2) by (cases "db_contains now (args ! 1) db") auto
  obtain p db2 where c2: "db_contains now (args ! 2) db1 = (p, db2)"
    and p: "p \<longleftrightarrow> args ! 2 \<in> dom (live now db)" and l2: "live now db2 = live now db"
    using db_contains_live [of now "args ! 2" db1] l1 by (cases "db_contains now (args ! 2) db1") auto
  show ?thesis using assms c1 c2 p l1 l2
    by (cases nx) (auto simp: rename_def db_rename_live)
qed

theorem rename_correct_witness:
  "live 5 (snd (rename 5 [ascii ''rename'', [1], [2]] False
     [([1], \<lparr>e_value = StringV [9], e_expire_at = Some 8\<rparr>)])) [2] = Some (StringV [9], Some 8)"
  using rename_correct [of "[ascii ''rename'', [1], [2]]" 5 "[([1], \<lparr>e_value = StringV [9], e_expire_at = Some 8\<rparr>)]"
      "(StringV [9], Some 8)" False]
  by (simp add: live_def expired_def entry_pair_def)

subsection \<open>Across databases\<close>

lemma ks_pair_nth:
  "a < length ks \<Longrightarrow> b < length ks \<Longrightarrow> a \<noteq> b \<Longrightarrow> ks_pair a b ks = Some (ks ! a, ks ! b)"
  by (auto simp: ks_pair_def Let_def hd_drop_conv_nth)

lemma ks_is_valid_iff: "ks_is_valid n ks \<longleftrightarrow> 0 \<le> n \<and> nat n < length ks"
  by (auto simp: ks_is_valid_def)

text \<open>
  \<open>MOVE\<close> of a live key to another database where the name is free: the key, with its value and
  its expiry, leaves the one and appears in the other, and nothing else changes.
\<close>

theorem move_correct:
  assumes "length args = 3" and "parse_int (args ! 2) = Inr n" and "ks_is_valid n ks"
    and "i < length ks" and "nat n \<noteq> i"
    and "live now (ks ! i) (args ! 1) = Some (v, t)" and "live now (ks ! nat n) (args ! 1) = None"
  shows "\<exists>ks'. move_key now i args ks = Some (Integer 1, ks') \<and> length ks' = length ks
    \<and> live now (ks' ! i) = (live now (ks ! i))(args ! 1 := None)
    \<and> live now (ks' ! nat n) = (live now (ks ! nat n))(args ! 1 \<mapsto> (v, t))
    \<and> (\<forall>j. j \<noteq> i \<longrightarrow> j \<noteq> nat n \<longrightarrow> ks' ! j = ks ! j)"
proof -
  have n: "nat n < length ks" using assms(3) by (simp add: ks_is_valid_iff)
  obtain dst where c: "db_contains now (args ! 1) (ks ! nat n) = (False, dst)"
    and ld: "live now dst = live now (ks ! nat n)"
    using db_contains_live [of now "args ! 1" "ks ! nat n"] assms(7)
    by (cases "db_contains now (args ! 1) (ks ! nat n)") auto
  obtain src where t: "db_take now (args ! 1) (ks ! i) = (Some (v, t), src)"
    and ls: "live now src = (live now (ks ! i))(args ! 1 := None)"
    using db_take_live [of now "args ! 1" "ks ! i"] assms(6)
    by (cases "db_take now (args ! 1) (ks ! i)") auto
  have st: "\<not> stale now t" using live_not_stale [OF assms(6)] .
  let ?ks = "ks[i := src, nat n := db_put (args ! 1) v t dst]"
  have "move_key now i args ks = Some (Integer 1, ?ks)"
    using assms(1-5) ks_pair_nth [OF assms(4) n] c t by (simp add: move_key_def Let_def)
  moreover have "?ks ! i = src" "?ks ! nat n = db_put (args ! 1) v t dst"
    using n assms(4,5) by simp_all
  ultimately show ?thesis using ls ld st by (intro exI [of _ ?ks]) (simp add: live_put)
qed

theorem move_correct_witness:
  "\<exists>ks'. move_key 5 0 [ascii ''move'', [7], dec_int 1]
     [[([7], \<lparr>e_value = StringV [1], e_expire_at = Some 9\<rparr>)], []] = Some (Integer 1, ks')
     \<and> live 5 (ks' ! 1) [7] = Some (StringV [1], Some 9)"
proof -
  let ?ks = "[[([7], \<lparr>e_value = StringV [1], e_expire_at = Some 9\<rparr>)], []] :: keyspace"
  let ?args = "[ascii ''move'', [7], dec_int 1]"
  have l: "live 5 (?ks ! 0) (?args ! 1) = Some (StringV [1], Some 9)" "live 5 (?ks ! nat 1) (?args ! 1) = None"
    by (simp_all add: live_def expired_def entry_pair_def)
  have "parse_int (?args ! 2) = Inr 1" "ks_is_valid 1 ?ks" by (simp_all add: i64_ok_def ks_is_valid_def)
  then obtain ks' where "move_key 5 0 ?args ?ks = Some (Integer 1, ks')"
    and "live 5 (ks' ! nat 1) = (live 5 (?ks ! nat 1))(?args ! 1 \<mapsto> (StringV [1], Some 9))"
    using move_correct [OF _ _ _ _ _ l] by auto
  then show ?thesis by simp
qed

text \<open>
  \<open>COPY\<close> of a live key to another database, with \<open>REPLACE\<close> or onto a free name, duplicates the
  value and the expiry and leaves the source as it is.
\<close>

theorem copy_correct:
  assumes "3 \<le> length args" and "copy_opts ks (drop 3 args) False i = Inr (replace, d)"
    and "i < length ks" and "d < length ks" and "d \<noteq> i"
    and "live now (ks ! i) (args ! 1) = Some (v, t)"
    and "replace \<or> live now (ks ! d) (args ! 2) = None"
  shows "\<exists>ks'. copy now i args ks = Some (Integer 1, ks') \<and> length ks' = length ks
    \<and> live now (ks' ! i) = live now (ks ! i)
    \<and> live now (ks' ! d) = (live now (ks ! d))(args ! 2 \<mapsto> (v, t))
    \<and> (\<forall>j. j \<noteq> i \<longrightarrow> j \<noteq> d \<longrightarrow> ks' ! j = ks ! j)"
proof -
  obtain src1 where g: "db_get now (args ! 1) (ks ! i) = (Some v, src1)"
    and l1: "live now src1 = live now (ks ! i)"
    using db_get_live [of now "args ! 1" "ks ! i"] assms(6)
    by (cases "db_get now (args ! 1) (ks ! i)") auto
  obtain src2 where e: "db_expire_at now (args ! 1) src1 = (t, src2)"
    and l2: "live now src2 = live now (ks ! i)"
    using db_expire_at_live [of now "args ! 1" src1] assms(6) l1
    by (cases "db_expire_at now (args ! 1) src1") (auto simp: live_ttl_def)
  obtain p dst where c: "db_contains now (args ! 2) (ks ! d) = (p, dst)"
    and p: "p \<longleftrightarrow> args ! 2 \<in> dom (live now (ks ! d))" and ld: "live now dst = live now (ks ! d)"
    using db_contains_live [of now "args ! 2" "ks ! d"]
    by (cases "db_contains now (args ! 2) (ks ! d)") auto
  have st: "\<not> stale now t" using live_not_stale [OF assms(6)] .
  let ?ks = "ks[i := src2, d := db_put (args ! 2) v t dst]"
  have pr: "\<not> (p \<and> \<not> replace)" using p assms(7) by auto
  have "copy now i args ks = Some (Integer 1, ?ks)"
    using assms(1-5) g e c pr by (auto simp: copy_def Let_def ks_db_def)
  moreover have "?ks ! i = src2" "?ks ! d = db_put (args ! 2) v t dst"
    using assms(3,4,5) by simp_all
  ultimately show ?thesis using l2 ld st by (intro exI [of _ ?ks]) (simp add: live_put)
qed

theorem copy_correct_witness:
  "\<exists>ks'. copy 5 0 [ascii ''copy'', [7], [8], ascii ''DB'', ascii ''1'']
     [[([7], \<lparr>e_value = StringV [1], e_expire_at = Some 9\<rparr>)], []] = Some (Integer 1, ks')
     \<and> live 5 (ks' ! 1) [8] = Some (StringV [1], Some 9)"
proof -
  let ?ks = "[[([7], \<lparr>e_value = StringV [1], e_expire_at = Some 9\<rparr>)], []] :: keyspace"
  let ?args = "[ascii ''copy'', [7], [8], ascii ''DB'', ascii ''1'']"
  have "upper (ascii ''DB'') = ascii ''DB''" by code_simp
  moreover have "parse_int (ascii ''1'') = Inr 1" by code_simp
  moreover have "ascii ''DB'' \<noteq> ascii ''REPLACE''" by (simp add: ascii_def)
  ultimately have o: "copy_opts ?ks (drop 3 ?args) False 0 = Inr (False, 1)"
    by (simp add: ks_is_valid_def)
  have l: "live 5 (?ks ! 0) (?args ! 1) = Some (StringV [1], Some 9)" "live 5 (?ks ! 1) (?args ! 2) = None"
    by (simp_all add: live_def expired_def entry_pair_def)
  then obtain ks' where "copy 5 0 ?args ?ks = Some (Integer 1, ks')"
    and "live 5 (ks' ! 1) = (live 5 (?ks ! 1))(?args ! 2 \<mapsto> (StringV [1], Some 9))"
    using copy_correct [OF _ o _ _ _ l(1)] by auto
  then show ?thesis by simp
qed

lemma copy_opts_valid: "copy_opts ks as r d = Inr (r', d') \<Longrightarrow> d < length ks \<Longrightarrow> d' < length ks"
  by (induction ks as r d rule: copy_opts.induct)
    (auto simp: ks_is_valid_iff split: if_splits list.splits sum.splits)

lemma nth_update_ok: "\<forall>db\<in>set ks. P db \<Longrightarrow> P db' \<Longrightarrow> \<forall>db\<in>set (ks[i := db']). P db"
  by (metis insert_iff set_update_subset_insert subset_iff)

lemma set_update_cases: "x \<in> set (ks[i := d]) \<Longrightarrow> x = d \<or> x \<in> set ks"
  using set_update_subset_insert [of ks i d] by auto

lemma db_ok_live_put: "db_ok db \<Longrightarrow> db_ok d \<Longrightarrow> live now d k = Some (v, t) \<Longrightarrow> db_ok (db_put k' v t' db)"
  by (simp add: db_ok_put db_ok_live)

lemma move_key_ok:
  assumes "i < length ks" and "\<forall>db\<in>set ks. db_ok db"
  shows "\<exists>f ks'. move_key now i args ks = Some (f, ks') \<and> length ks' = length ks \<and> (\<forall>db\<in>set ks'. db_ok db)"
proof (cases "length args = 3 \<and> (\<exists>n. parse_int (args ! 2) = Inr n \<and> ks_is_valid n ks \<and> nat n \<noteq> i)")
  case False
  with assms(2) show ?thesis by (auto simp: move_key_def Let_def split: sum.splits)
next
  case True
  then obtain n where n: "length args = 3" "parse_int (args ! 2) = Inr n" "ks_is_valid n ks" "nat n \<noteq> i"
    by auto
  then have j: "nat n < length ks" by (simp add: ks_is_valid_iff)
  have ok: "db_ok (ks ! i)" "db_ok (ks ! nat n)" using assms j by auto
  obtain p dst where c: "db_contains now (args ! 1) (ks ! nat n) = (p, dst)" and d: "db_ok dst"
    using db_ok_contains [OF ok(2), of now "args ! 1"]
    by (cases "db_contains now (args ! 1) (ks ! nat n)") auto
  obtain r src where t: "db_take now (args ! 1) (ks ! i) = (r, src)" and s: "db_ok src"
    and r: "r = live now (ks ! i) (args ! 1)"
    using db_ok_take [OF ok(1), of now "args ! 1"] db_take_live(1) [of now "args ! 1" "ks ! i"]
    by (cases "db_take now (args ! 1) (ks ! i)") auto
  have put: "db_ok (db_put (args ! 1) v t dst)" if "r = Some (v, t)" for v t
    using db_ok_live_put [OF d ok(1)] r that by metis
  show ?thesis
    using n ks_pair_nth [OF assms(1) j] c t put d s ok assms(2)
    by (auto simp: move_key_def Let_def dest!: set_update_cases split: option.splits)
qed

lemma copy_ok:
  assumes "i < length ks" and "\<forall>db\<in>set ks. db_ok db"
  shows "\<exists>f ks'. copy now i args ks = Some (f, ks') \<and> length ks' = length ks \<and> (\<forall>db\<in>set ks'. db_ok db)"
proof (cases "3 \<le> length args \<and> (\<exists>r d. copy_opts ks (drop 3 args) False i = Inr (r, d)
    \<and> \<not> (d = i \<and> args ! 1 = args ! 2))")
  case False
  with assms(2) show ?thesis by (auto simp: copy_def Let_def split: sum.splits)
next
  case True
  then obtain replace d where o: "3 \<le> length args" "copy_opts ks (drop 3 args) False i = Inr (replace, d)"
    and ne: "\<not> (d = i \<and> args ! 1 = args ! 2)" by auto
  have dl: "d < length ks" using copy_opts_valid [OF o(2) assms(1)] .
  have ok: "db_ok (ks ! i)" using assms by auto
  obtain r s1 where g: "db_get now (args ! 1) (ks ! i) = (r, s1)" and o1: "db_ok s1"
    and r: "r = map_option fst (live now (ks ! i) (args ! 1))"
    using db_ok_get [OF ok, of now "args ! 1"] db_get_live(1) [of now "args ! 1" "ks ! i"]
    by (cases "db_get now (args ! 1) (ks ! i)") auto
  obtain t s2 where e: "db_expire_at now (args ! 1) s1 = (t, s2)" and o2: "db_ok s2"
    using db_ok_expire_at [OF o1, of now "args ! 1"] by (cases "db_expire_at now (args ! 1) s1") auto
  have ok2: "\<forall>db\<in>set (ks[i := s2]). db_ok db" using nth_update_ok [OF assms(2) o2] .
  then have "db_ok (ks[i := s2] ! d)" using dl by (metis length_list_update nth_mem)
  then obtain p dst where c: "db_contains now (args ! 2) (ks[i := s2] ! d) = (p, dst)" and o3: "db_ok dst"
    using db_ok_contains [of "ks[i := s2] ! d" now "args ! 2"]
    by (cases "db_contains now (args ! 2) (ks[i := s2] ! d)") auto
  have put: "db_ok (db_put (args ! 2) v t dst)" if "r = Some v" for v
    using that r db_ok_live [OF ok, of now "args ! 1"] o3 by (auto intro: db_ok_put)
  show ?thesis
  proof (cases r)
    case None
    then show ?thesis using o ne assms g o1 nth_update_ok [OF assms(2) o1]
      by (auto simp: copy_def Let_def ks_db_def)
  next
    case (Some v)
    then show ?thesis using o ne assms dl g e c put nth_update_ok [OF ok2 o3] nth_update_ok [OF ok2 put]
      by (auto simp: copy_def Let_def ks_db_def)
  qed
qed

lemma swapdb_ok:
  assumes "\<forall>db\<in>set ks. db_ok db"
  shows "\<exists>f ks'. swapdb args ks = Some (f, ks') \<and> length ks' = length ks \<and> (\<forall>db\<in>set ks'. db_ok db)"
  using assms
  by (auto simp: swapdb_def ks_swap_def ks_is_valid_iff set_swap split: sum.splits)

text \<open>
  \<open>MOVE\<close>, \<open>COPY\<close> and \<open>SWAPDB\<close> never hit a panic, whatever the arguments, on a connection whose
  database exists, and they keep the number of databases and the invariant of each.
\<close>

theorem cross_database_total:
  assumes "i < length ks" and "\<forall>db\<in>set ks. db_ok db"
    and "r \<in> {move_key now i args ks, copy now i args ks, swapdb args ks}"
  shows "\<exists>f ks'. r = Some (f, ks') \<and> length ks' = length ks \<and> (\<forall>db\<in>set ks'. db_ok db)"
  using assms move_key_ok [OF assms(1,2)] copy_ok [OF assms(1,2)] swapdb_ok [OF assms(2)] by blast

theorem cross_database_total_witness:
  "\<exists>f ks'. swapdb [ascii ''swapdb'', [48], [49]] (ks_new 2) = Some (f, ks') \<and> length ks' = 2"
  using cross_database_total [of 0 "ks_new 2" "swapdb [ascii ''swapdb'', [48], [49]] (ks_new 2)" 5
      "[ascii ''swapdb'', [48], [49]]"]
  by (auto simp: ks_new_def)

end
