(* ===== verification/Server.thy ===== *)
theory Server
  imports Pubsub Cmd_Generic
begin

text \<open>
  The state shared by all connections and the state of one connection (src/server.rs), and the
  connection commands (src/commands/clientcmd.rs). The server is single-threaded, so the mutexes
  and atomics are plain fields: the thread-local generator \<open>sh_rng\<close> and the channels \<open>sh_mail\<close>
  are fields as well. \<open>sh_poisoned\<close> says that a handler panicked while it held the keyspace lock,
  after which every \<open>lock().unwrap()\<close> panics.

  \<open>env\<close> is what one command reads of its surroundings: clocks, process facts, and the library code
  outside the repository (\<open>DefaultHasher\<close>, the Unicode tables of \<open>to_lowercase\<close>), and the file
  system through src/rdb: \<open>env_save\<close> writes a snapshot (\<open>None\<close> when that succeeded, the error text
  otherwise) and \<open>env_reload\<close> encodes and decodes the keyspace.
\<close>

record env =
  env_now :: u64
  env_nanos :: u64
  env_secs :: nat
  env_micros :: nat
  env_uptime :: nat
  env_os :: bytes
  env_pid :: nat
  env_hash :: "bytes \<Rightarrow> u64"
  env_lower :: "bytes \<Rightarrow> bytes"
  env_save :: "bytes \<Rightarrow> keyspace \<Rightarrow> bytes option"
  env_reload :: "keyspace \<Rightarrow> bytes + keyspace"

section \<open>Shared and connection state\<close>

record client_info =
  ci_id :: u64
  ci_addr :: bytes
  ci_name :: bytes
  ci_resp3 :: bool
  ci_db :: nat

record shared =
  sh_ks :: keyspace
  sh_poisoned :: bool
  sh_pubsub :: pubsub
  sh_mail :: mailboxes
  sh_rng :: rng
  sh_requirepass :: "bytes option"
  sh_config :: "(bytes \<times> bytes) list"
  sh_scripts :: "(bytes \<times> bytes) list"
  sh_clients :: "(u64 \<times> client_info) list"
  sh_run_id :: bytes
  sh_commands_processed :: u64
  sh_connections_received :: u64
  sh_next_client_id :: u64
  sh_verbose :: bool
  sh_dumpfile :: "bytes option"
  sh_last_save :: u64
  sh_port :: nat
  sh_maxclients :: nat

record conn_state =
  c_id :: u64
  c_addr :: bytes
  c_name :: bytes
  c_resp3 :: bool
  c_db_index :: nat
  c_authenticated :: bool
  c_channels :: "bytes list"
  c_patterns :: "bytes list"
  c_in_multi :: bool
  c_multi_queue :: "bytes list list"
  c_multi_error :: bool
  c_watched :: "((nat \<times> bytes) \<times> (bool \<times> u64)) list"

definition subscription_count :: "conn_state \<Rightarrow> nat" where
  "subscription_count conn = length (c_channels conn) + length (c_patterns conn)"

text \<open>
  What came of running something: a result, a panic of the task, or the end of the process.
\<close>

datatype 'a outcome = Done 'a | Panicked | Exited

fun outcome_bind :: "'a outcome \<Rightarrow> ('a \<Rightarrow> 'b outcome) \<Rightarrow> 'b outcome" where
  "outcome_bind (Done x) f = f x"
| "outcome_bind Panicked f = Panicked"
| "outcome_bind Exited f = Exited"

fun outcome_of :: "'a option \<Rightarrow> 'a outcome" where
  "outcome_of (Some x) = Done x"
| "outcome_of None = Panicked"

type_synonym step_result = "(frame \<times> shared \<times> conn_state) outcome"

section \<open>The client registry\<close>

text \<open>\<open>clients.lock().get_mut(&id)\<close> followed by an assignment.\<close>

definition registry_update :: "u64 \<Rightarrow> (client_info \<Rightarrow> client_info) \<Rightarrow> shared \<Rightarrow> shared" where
  "registry_update i f sh =
     (case map_of (sh_clients sh) i of
        None \<Rightarrow> sh
      | Some info \<Rightarrow> sh\<lparr>sh_clients := AList.update i (f info) (sh_clients sh)\<rparr>)"

definition update_registry_name :: "shared \<Rightarrow> conn_state \<Rightarrow> shared" where
  "update_registry_name sh conn =
     registry_update (c_id conn) (\<lambda>info. info\<lparr>ci_name := from_utf8_lossy (c_name conn)\<rparr>) sh"

definition sync_registry_db :: "shared \<Rightarrow> conn_state \<Rightarrow> shared" where
  "sync_registry_db sh conn =
     registry_update (c_id conn) (\<lambda>info. info\<lparr>ci_db := c_db_index conn\<rparr>) sh"

definition format_client_line :: "client_info \<Rightarrow> bytes" where
  "format_client_line c =
     (let laddr = (if take 1 (ci_addr c) = [47] then ci_addr c else ascii ''127.0.0.1:0'')
      in ascii ''id='' @ dec_nat (unat (ci_id c)) @ ascii '' addr='' @ ci_addr c
         @ ascii '' laddr='' @ laddr @ ascii '' fd=8 name='' @ ci_name c
         @ ascii '' age=0 idle=0 flags=N db='' @ dec_nat (ci_db c)
         @ ascii '' sub=0 psub=0 ssub=0 multi=-1 watch=0 qbuf=0 qbuf-free=0 argv-mem=0 multi-mem=0''
         @ ascii '' tot-net-in=0 tot-net-out=0 rbs=1024 rbp=0 obl=0 oll=0 omem=0 tot-mem=0 events=r''
         @ ascii '' cmd=client|info user=default redir=-1 resp='' @ (if ci_resp3 c then [51] else [50])
         @ ascii '' lib-name= lib-ver='')"

section \<open>Connection commands\<close>

definition ping :: "bytes list \<Rightarrow> frame" where
  "ping args =
     (if length args = 1 then Simple (ascii ''PONG'')
      else if length args = 2 then Bulk (args ! 1)
      else wrong_args ''ping'')"

definition echo :: "bytes list \<Rightarrow> frame" where
  "echo args = (if length args \<noteq> 2 then wrong_args ''echo'' else Bulk (args ! 1))"

definition select :: "bytes list \<Rightarrow> shared \<Rightarrow> conn_state \<Rightarrow> frame \<times> shared \<times> conn_state" where
  "select args sh conn =
     (if length args \<noteq> 2 then (wrong_args ''select'', sh, conn)
      else case parse_int (args ! 1) of
        Inr n \<Rightarrow>
          if ks_is_valid n (sh_ks sh) then
            let conn = conn\<lparr>c_db_index := usize_of_i64 n\<rparr>
            in (frame_ok, sync_registry_db sh conn, conn)
          else (db_range_error, sh, conn)
      | Inl _ \<Rightarrow> (not_int_error, sh, conn))"

definition no_password_error :: frame where
  "no_password_error =
     frame_err (ascii ''Client sent AUTH, but no password is set. Did you mean AUTH <username> <password>?'')"

definition wrongpass_error :: frame where
  "wrongpass_error = ErrorF (ascii ''WRONGPASS invalid username-password pair or user is disabled.'')"

definition auth :: "bytes list \<Rightarrow> shared \<Rightarrow> conn_state \<Rightarrow> frame \<times> conn_state" where
  "auth args sh conn =
     (if length args < 2 \<or> 3 < length args then (wrong_args ''auth'', conn)
      else case sh_requirepass sh of
        None \<Rightarrow> (no_password_error, conn)
      | Some pass \<Rightarrow>
          if last args = pass then (frame_ok, conn\<lparr>c_authenticated := True\<rparr>)
          else (wrongpass_error, conn))"

text \<open>The options of \<open>HELLO\<close>; on an error the connection keeps what was done so far.\<close>

function hello_opts ::
    "bytes option \<Rightarrow> bytes list \<Rightarrow> bytes option \<Rightarrow> bool \<Rightarrow> conn_state
      \<Rightarrow> (frame + bytes option \<times> bool) \<times> conn_state" where
  "hello_opts requirepass as pending authed conn =
     (case as of
        [] \<Rightarrow> (Inr (pending, authed), conn)
      | a # rest \<Rightarrow>
          if upper a = ascii ''AUTH'' \<and> 2 \<le> length rest then
            (case requirepass of
               None \<Rightarrow> (Inl no_password_error, conn)
             | Some pass \<Rightarrow>
                 if rest ! 1 = pass then
                   hello_opts requirepass (drop 2 rest) pending True (conn\<lparr>c_authenticated := True\<rparr>)
                 else (Inl wrongpass_error, conn))
          else if upper a = ascii ''SETNAME'' \<and> 1 \<le> length rest then
            hello_opts requirepass (drop 1 rest) (Some (rest ! 0)) authed conn
          else (Inl (frame_err (ascii ''syntax error in HELLO'')), conn))"
  by pat_completeness auto
termination
  by (relation "measure (\<lambda>(_, as, _). length as)") auto

declare hello_opts.simps [simp del]

definition noproto_error :: frame where
  "noproto_error = ErrorF (ascii ''NOPROTO unsupported protocol version'')"

definition hello_noauth_error :: frame where
  "hello_noauth_error = ErrorF (ascii ''NOAUTH HELLO must be called with the client already authenticated, otherwise the HELLO <proto> AUTH <user> <pass> option can be used to authenticate the client and select the RESP protocol version at the same time'')"

definition hello_reply :: "conn_state \<Rightarrow> frame" where
  "hello_reply conn =
     MapF [(Bulk (ascii ''server''), Bulk (ascii ''redis'')),
          (Bulk (ascii ''version''), Bulk (ascii ''7.4.0'')),
          (Bulk (ascii ''proto''), Integer (if c_resp3 conn then 3 else 2)),
          (Bulk (ascii ''id''), Integer (sint (c_id conn))),
          (Bulk (ascii ''mode''), Bulk (ascii ''standalone'')),
          (Bulk (ascii ''role''), Bulk (ascii ''master'')),
          (Bulk (ascii ''modules''), Array [])]"

text \<open>The part after the protocol version.\<close>

definition hello_finish :: "bytes list \<Rightarrow> shared \<Rightarrow> conn_state \<Rightarrow> frame \<times> shared \<times> conn_state" where
  "hello_finish as sh conn =
     (case hello_opts (sh_requirepass sh) as None False conn of
        (Inl e, conn) \<Rightarrow> (e, sh, conn)
      | (Inr (pending, authed_here), conn) \<Rightarrow>
          if sh_requirepass sh \<noteq> None \<and> \<not> c_authenticated conn \<and> \<not> authed_here
          then (hello_noauth_error, sh, conn)
          else
            let (sh, conn) =
                  (case pending of
                     None \<Rightarrow> (sh, conn)
                   | Some name \<Rightarrow>
                       let conn = conn\<lparr>c_name := name\<rparr> in (update_registry_name sh conn, conn));
                sh = registry_update (c_id conn) (\<lambda>info. info\<lparr>ci_resp3 := c_resp3 conn\<rparr>) sh
            in (hello_reply conn, sh, conn))"

definition hello :: "bytes list \<Rightarrow> shared \<Rightarrow> conn_state \<Rightarrow> frame \<times> shared \<times> conn_state" where
  "hello args sh conn =
     (if 1 < length args then
        (case parse_int (args ! 1) of
           Inr n \<Rightarrow>
             if n = 2 then hello_finish (drop 2 args) sh (conn\<lparr>c_resp3 := False\<rparr>)
             else if n = 3 then hello_finish (drop 2 args) sh (conn\<lparr>c_resp3 := True\<rparr>)
             else (noproto_error, sh, conn)
         | Inl _ \<Rightarrow> (noproto_error, sh, conn))
      else hello_finish [] sh conn)"

definition client :: "env \<Rightarrow> bytes list \<Rightarrow> shared \<Rightarrow> conn_state \<Rightarrow> frame \<times> shared \<times> conn_state" where
  "client e args sh conn =
     (if length args < 2 then (wrong_args ''client'', sh, conn)
      else
        let sub = upper (args ! 1) in
        if sub = ascii ''ID'' then (Integer (sint (c_id conn)), sh, conn)
        else if sub = ascii ''GETNAME'' then (Bulk (c_name conn), sh, conn)
        else if sub = ascii ''SETNAME'' then
          if length args \<noteq> 3 then (wrong_args ''client|setname'', sh, conn)
          else if list_ex (\<lambda>b. b = 32 \<or> b = 10) (args ! 2) then
            (frame_err (ascii ''Client names cannot contain spaces, newlines or special characters.''), sh, conn)
          else
            let conn = conn\<lparr>c_name := args ! 2\<rparr>
            in (frame_ok, update_registry_name sh conn, conn)
        else if sub = ascii ''SETINFO'' then (frame_ok, sh, conn)
        else if sub = ascii ''LIST'' then
          (Bulk (concat (map (\<lambda>c. format_client_line c @ [10])
             (sort_key ci_id (map snd (sh_clients sh))))), sh, conn)
        else if sub = ascii ''INFO'' then
          (Bulk (format_client_line \<lparr>ci_id = c_id conn, ci_addr = c_addr conn,
             ci_name = from_utf8_lossy (c_name conn), ci_resp3 = c_resp3 conn, ci_db = c_db_index conn\<rparr>), sh, conn)
        else if sub \<in> set (map ascii [''NO-EVICT'', ''NO-TOUCH'', ''UNPAUSE'', ''PAUSE'', ''REPLY''])
        then (frame_ok, sh, conn)
        else (frame_err (ascii ''Unknown CLIENT subcommand or wrong number of arguments for '' @ [39]
               @ env_lower e sub @ [39]), sh, conn))"

end
