(* ===== verification/Admin.thy ===== *)
theory Admin
  imports Server
begin

text \<open>
  The server commands (src/commands/admin.rs). Writing the snapshot and reloading the keyspace from
  its own image go through src/rdb, here the parameters \<open>save_rdb\<close> (\<open>None\<close> when the file was written,
  the error text otherwise) and \<open>reload_rdb\<close>.
\<close>

definition command :: "bytes list \<Rightarrow> frame" where
  "command args =
     (let sub = (if 1 < length args then upper (args ! 1) else []) in
      if sub = ascii ''COUNT'' then Integer 220
      else if sub = ascii ''DOCS'' then Array []
      else if sub = ascii ''INFO'' then Array (map (\<lambda>_. NullArray) (drop 2 args))
      else if sub = ascii ''LIST'' then Array []
      else if sub = ascii ''GETKEYS'' then frame_err (ascii ''The command has no key arguments'')
      else Array [])"

section \<open>CONFIG\<close>

definition level_is_verbose :: "bytes \<Rightarrow> bool option" where
  "level_is_verbose level =
     (let l = to_ascii_lowercase level in
      if l = ascii ''debug'' \<or> l = ascii ''verbose'' then Some True
      else if l = ascii ''notice'' \<or> l = ascii ''warning'' \<or> l = ascii ''nothing'' then Some False
      else None)"

definition apply_loglevel :: "bytes \<Rightarrow> shared \<Rightarrow> shared" where
  "apply_loglevel v sh =
     (case level_is_verbose v of
        Some on \<Rightarrow> if on \<noteq> sh_verbose sh then sh\<lparr>sh_verbose := on\<rparr> else sh
      | None \<Rightarrow> sh)"

definition config_get :: "bytes list \<Rightarrow> (bytes \<times> bytes) list \<Rightarrow> (frame \<times> frame) list" where
  "config_get pats cfg =
     concat (map (\<lambda>pat. map (\<lambda>(k, v). (Bulk k, Bulk v)) (filter (\<lambda>(k, v). glob_match pat k) cfg)) pats)"

fun config_set :: "bytes list \<Rightarrow> shared \<Rightarrow> shared" where
  "config_set (k # v # rest) sh =
     (let key = from_utf8_lossy k; val = from_utf8_lossy v;
          sh = (if to_ascii_lowercase key = ascii ''loglevel'' then apply_loglevel val sh else sh)
      in config_set rest (sh\<lparr>sh_config := AList.update key val (sh_config sh)\<rparr>))"
| "config_set _ sh = sh"

definition config :: "env \<Rightarrow> bytes list \<Rightarrow> shared \<Rightarrow> frame \<times> shared" where
  "config e args sh =
     (if length args < 2 then (wrong_args ''config'', sh)
      else
        let sub = upper (args ! 1) in
        if sub = ascii ''GET'' then
          if length args < 3 then (wrong_args ''config|get'', sh)
          else (MapF (config_get (drop 2 args) (sh_config sh)), sh)
        else if sub = ascii ''SET'' then
          if length args < 4 \<or> length args mod 2 \<noteq> 0 then (wrong_args ''config|set'', sh)
          else (frame_ok, config_set (drop 2 args) sh)
        else if sub = ascii ''RESETSTAT'' \<or> sub = ascii ''REWRITE'' then (frame_ok, sh)
        else (frame_err (ascii ''Unknown CONFIG subcommand '' @ [39] @ env_lower e sub @ [39]), sh))"

section \<open>Reports\<close>

definition time_cmd :: "env \<Rightarrow> frame" where
  "time_cmd e = Array [Bulk (dec_nat (env_secs e)), Bulk (dec_nat (env_micros e))]"

definition info_line :: "string \<Rightarrow> bytes" where
  "info_line s = ascii s @ crlf"

definition info_field :: "string \<Rightarrow> bytes \<Rightarrow> bytes" where
  "info_field name v = ascii name @ [58] @ v @ crlf"

definition info_keyspace :: "u64 \<Rightarrow> keyspace \<Rightarrow> bytes" where
  "info_keyspace now ks =
     concat (map (\<lambda>i.
       let db = ks ! i; keys = db_len now db in
       if 0 < keys then
         ascii ''db'' @ dec_nat i @ ascii '':keys='' @ dec_nat keys @ ascii '',expires=''
           @ dec_nat (db_expires_count now db) @ ascii '',avg_ttl=0'' @ crlf
       else []) [0..<length ks])"

definition info_server :: "env \<Rightarrow> shared \<Rightarrow> bytes" where
  "info_server e sh =
     info_line ''# Server'' @ info_line ''redis_version:7.4.0'' @ info_line ''redis_git_sha1:00000000''
     @ info_line ''redis_git_dirty:0'' @ info_line ''redis_build_id:meebis'' @ info_line ''redis_mode:standalone''
     @ info_field ''os'' (env_os e) @ info_line ''arch_bits:64'' @ info_field ''process_id'' (dec_nat (env_pid e))
     @ info_field ''run_id'' (sh_run_id sh) @ info_field ''tcp_port'' (dec_nat (sh_port sh))
     @ info_field ''uptime_in_seconds'' (dec_nat (env_uptime e))
     @ info_field ''uptime_in_days'' (dec_nat (env_uptime e div 86400))"

definition info_clients :: "shared \<Rightarrow> bytes" where
  "info_clients sh =
     crlf @ info_line ''# Clients'' @ info_field ''connected_clients'' (dec_nat (max (length (sh_clients sh)) 1))
     @ info_line ''cluster_connections:0'' @ info_line ''blocked_clients:0''
     @ crlf @ info_line ''# Memory'' @ info_line ''used_memory:1048576'' @ info_line ''used_memory_human:1.00M''
     @ info_line ''used_memory_rss:1048576'' @ info_line ''maxmemory:0'' @ info_line ''maxmemory_policy:noeviction''
     @ info_line ''mem_fragmentation_ratio:1.0''"

definition info_rest :: "shared \<Rightarrow> bytes" where
  "info_rest sh =
     crlf @ info_line ''# Persistence'' @ info_line ''loading:0'' @ info_line ''rdb_changes_since_last_save:0''
     @ info_line ''rdb_bgsave_in_progress:0'' @ info_field ''rdb_last_save_time'' (dec_nat (unat (sh_last_save sh)))
     @ info_line ''rdb_last_bgsave_status:ok'' @ info_line ''aof_enabled:0'' @ info_line ''aof_last_bgrewrite_status:ok''
     @ crlf @ info_line ''# Stats''
     @ info_field ''total_connections_received'' (dec_nat (unat (sh_connections_received sh)))
     @ info_field ''total_commands_processed'' (dec_nat (unat (sh_commands_processed sh)))
     @ info_line ''instantaneous_ops_per_sec:0'' @ info_line ''expired_keys:0'' @ info_line ''evicted_keys:0''
     @ info_line ''keyspace_hits:0'' @ info_line ''keyspace_misses:0''
     @ crlf @ info_line ''# Replication'' @ info_line ''role:master'' @ info_line ''connected_slaves:0''
     @ info_line ''master_failover_state:no-failover''
     @ crlf @ info_line ''# CPU'' @ info_line ''used_cpu_sys:0.0'' @ info_line ''used_cpu_user:0.0''
     @ crlf @ info_line ''# Cluster'' @ info_line ''cluster_enabled:0''"

definition info :: "env \<Rightarrow> shared \<Rightarrow> frame" where
  "info e sh =
     Bulk (info_server e sh @ info_clients sh @ info_rest sh
       @ crlf @ info_line ''# Keyspace'' @ info_keyspace (env_now e) (sh_ks sh))"

fun encoding_of :: "val \<Rightarrow> bytes" where
  "encoding_of (StringV s) =
     (if int_of_bytes s \<noteq> None then ascii ''int''
      else if length s \<le> 44 then ascii ''embstr'' else ascii ''raw'')"
| "encoding_of (ListV l) = ascii ''listpack''"
| "encoding_of (SetV s) =
     (if list_all (\<lambda>m. int_of_bytes m \<noteq> None) s \<and> length s \<le> 512 then ascii ''intset''
      else if length s \<le> 128 then ascii ''listpack'' else ascii ''hashtable'')"
| "encoding_of (HashV h) = (if length h \<le> 128 then ascii ''listpack'' else ascii ''hashtable'')"
| "encoding_of (ZSetV z) = (if zset_len z \<le> 128 then ascii ''listpack'' else ascii ''skiplist'')"
| "encoding_of (StreamV s) = ascii ''stream''"

fun estimate_body :: "val \<Rightarrow> nat" where
  "estimate_body (StringV s) = length s"
| "estimate_body (ListV l) = sum_list (map (\<lambda>e. length e + 16) l)"
| "estimate_body (SetV s) = sum_list (map (\<lambda>e. length e + 16) s)"
| "estimate_body (HashV h) = sum_list (map (\<lambda>(k, v). length k + length v + 32) h)"
| "estimate_body (ZSetV z) = sum_list (map (\<lambda>(m, _). length m + 24) (zset_iter_asc z))"
| "estimate_body (StreamV s) =
     sum_list (map (\<lambda>(_, fs). sum_list (map (\<lambda>(f, v). length f + length v + 32) fs) + 48) (s_entries s))"

definition estimate_size :: "val \<Rightarrow> nat" where
  "estimate_size v = estimate_body v + 64"

text \<open>The three subcommands that only ask whether the key exists.\<close>

definition object_present :: "u64 \<Rightarrow> int \<Rightarrow> bytes list \<Rightarrow> db \<Rightarrow> frame \<times> db" where
  "object_present now n args db =
     (if length args \<le> 2 then (wrong_args ''object'', db)
      else let (b, db) = db_contains now (args ! 2) db in (if b then Integer n else Null, db))"

definition object :: "env \<Rightarrow> bytes list \<Rightarrow> db \<Rightarrow> frame \<times> db" where
  "object e args db =
     (if length args < 2 then (wrong_args ''object'', db)
      else
        let sub = upper (args ! 1) in
        if sub = ascii ''ENCODING'' then
          if length args \<noteq> 3 then (wrong_args ''object|encoding'', db)
          else (let (v, db) = db_get (env_now e) (args ! 2) db
                in (case v of Some v \<Rightarrow> Bulk (encoding_of v) | None \<Rightarrow> Null, db))
        else if sub = ascii ''REFCOUNT'' \<or> sub = ascii ''FREQ'' then object_present (env_now e) 1 args db
        else if sub = ascii ''IDLETIME'' then object_present (env_now e) 0 args db
        else if sub = ascii ''HELP'' then (Array [Bulk (ascii ''OBJECT ENCODING|REFCOUNT|IDLETIME|FREQ <key>'')], db)
        else (frame_err (ascii ''Unknown OBJECT subcommand '' @ [39] @ env_lower e sub @ [39]), db))"

definition memory :: "env \<Rightarrow> bytes list \<Rightarrow> db \<Rightarrow> frame \<times> db" where
  "memory e args db =
     (if length args < 2 then (wrong_args ''memory'', db)
      else
        let sub = upper (args ! 1) in
        if sub = ascii ''USAGE'' then
          if length args \<le> 2 then (wrong_args ''memory|usage'', db)
          else (let (v, db) = db_get (env_now e) (args ! 2) db
                in (case v of Some v \<Rightarrow> Integer (int (estimate_size v)) | None \<Rightarrow> Null, db))
        else if sub = ascii ''DOCTOR'' then
          (Bulk (ascii ''Sam, I can't find any memory issue in your instance. I can only account for what occurs on this base.'' @ [10]), db)
        else if sub = ascii ''PURGE'' then (frame_ok, db)
        else if sub = ascii ''STATS'' then
          (MapF [(Bulk (ascii ''peak.allocated''), Integer 1048576),
                 (Bulk (ascii ''total.allocated''), Integer 1048576),
                 (Bulk (ascii ''keys.count''), Integer (int (db_len (env_now e) db)))], db)
        else (frame_err (ascii ''Unknown MEMORY subcommand '' @ [39] @ env_lower e sub @ [39]), db))"

section \<open>Persistence and process control\<close>

definition save_dump ::
    "(bytes \<Rightarrow> keyspace \<Rightarrow> bytes option) \<Rightarrow> u64 \<Rightarrow> shared \<Rightarrow> bytes option option \<times> shared" where
  "save_dump save_rdb now sh =
     (case sh_dumpfile sh of
        None \<Rightarrow> (None, sh)
      | Some path \<Rightarrow>
          (case save_rdb path (sh_ks sh) of
             None \<Rightarrow> (Some None, sh\<lparr>sh_last_save := now div 1000\<rparr>)
           | Some err \<Rightarrow> (Some (Some err), sh)))"

definition save ::
    "(bytes \<Rightarrow> keyspace \<Rightarrow> bytes option) \<Rightarrow> u64 \<Rightarrow> bool \<Rightarrow> shared \<Rightarrow> frame \<times> shared" where
  "save save_rdb now background sh =
     (case save_dump save_rdb now sh of
        (Some (Some err), sh) \<Rightarrow> (frame_err (ascii ''failed to save: '' @ err), sh)
      | (_, sh) \<Rightarrow> (if background then Simple (ascii ''Background saving started'') else frame_ok, sh))"

text \<open>\<open>SHUTDOWN\<close> ends the process unless a save was wanted and failed.\<close>

definition shutdown ::
    "(bytes \<Rightarrow> keyspace \<Rightarrow> bytes option) \<Rightarrow> u64 \<Rightarrow> bytes list \<Rightarrow> shared \<Rightarrow> (frame \<times> shared) outcome" where
  "shutdown save_rdb now args sh =
     (let nosave = list_ex (\<lambda>a. upper a = ascii ''NOSAVE'') (drop 1 args) in
      if nosave then Exited
      else case save_dump save_rdb now sh of
        (Some (Some err), sh) \<Rightarrow>
          Done (frame_err (ascii ''Errors trying to SHUTDOWN. Check logs. ('' @ err @ ascii '')''), sh)
      | _ \<Rightarrow> Exited)"

definition debug ::
    "(keyspace \<Rightarrow> bytes + keyspace) \<Rightarrow> u64 \<Rightarrow> nat \<Rightarrow> bytes list \<Rightarrow> keyspace \<Rightarrow> (frame \<times> keyspace) option" where
  "debug reload_rdb now db_index args ks =
     (if length args < 2 then Some (wrong_args ''debug'', ks)
      else
        let sub = upper (args ! 1) in
        if sub = ascii ''OBJECT'' then
          if length args < 3 then Some (wrong_args ''debug'', ks)
          else
            case ks_db db_index ks of
              None \<Rightarrow> None
            | Some db \<Rightarrow>
                let (v, db) = db_get now (args ! 2) db
                in Some (case v of
                     Some v \<Rightarrow> Simple (ascii ''Value at:0x0 refcount:1 encoding:'' @ encoding_of v
                       @ ascii '' serializedlength:8 lru:0 lru_seconds_idle:0'')
                   | None \<Rightarrow> frame_err (ascii ''no such key''), ks[db_index := db])
        else if sub = ascii ''RELOAD'' then
          (case reload_rdb ks of
             Inr loaded \<Rightarrow> Some (frame_ok, loaded)
           | Inl err \<Rightarrow> Some (frame_err (ascii ''DEBUG RELOAD failed: '' @ err), ks))
        else Some (frame_ok, ks))"

end
