(* ===== verification/Sha1.thy ===== *)
theory Sha1
  imports Text
begin

text \<open>
  SHA-1 (src/sha1.rs), the content address of cached scripts. The code is translated with its
  arrays as lists and its loops as folds; the reference is the definition of FIPS 180-4, with the
  message schedule as a recursive function and the round functions in their standard form.
\<close>

section \<open>The code\<close>

definition rotate_left :: "nat \<Rightarrow> u32 \<Rightarrow> u32" where
  "rotate_left n x = push_bit n x OR drop_bit (32 - n) x"

definition u32_from_be :: "u8 \<Rightarrow> u8 \<Rightarrow> u8 \<Rightarrow> u8 \<Rightarrow> u32" where
  "u32_from_be a b c d =
     push_bit 24 (ucast a) OR push_bit 16 (ucast b) OR push_bit 8 (ucast c) OR ucast d"

definition u32_to_be :: "u32 \<Rightarrow> bytes" where
  "u32_to_be x = [ucast (drop_bit 24 x), ucast (drop_bit 16 x), ucast (drop_bit 8 x), ucast x]"

definition u64_to_be :: "u64 \<Rightarrow> bytes" where
  "u64_to_be x = map (\<lambda>i. ucast (drop_bit (8 * (7 - i)) x)) [0..<8]"

text \<open>\<open>while msg.len() % 64 != 56 { msg.push(0) }\<close>.\<close>

definition zeros_left :: "nat \<Rightarrow> nat" where
  "zeros_left n = (120 - n mod 64) mod 64"

lemma zeros_left_Suc:
  assumes "n mod 64 \<noteq> 56"
  shows "zeros_left n = Suc (zeros_left (Suc n))"
proof -
  define m where "m = n mod 64"
  have m: "m < 64" "m \<noteq> 56" using assms by (simp_all add: m_def)
  have s: "Suc n mod 64 = (if m = 63 then 0 else Suc m)" by (simp add: m_def mod_Suc)
  consider "m < 56" | "56 < m" "m < 63" | "m = 63" using m by linarith
  then show ?thesis
  proof cases
    case 1
    then have "120 - m = 64 + (56 - m)" "120 - Suc m = 64 + (55 - m)" by simp_all
    moreover have "(64 + (56 - m)) mod 64 = 56 - m" "(64 + (55 - m)) mod 64 = 55 - m"
      by (simp_all only: mod_add_self1) simp_all
    ultimately show ?thesis using 1 s by (simp add: zeros_left_def m_def [symmetric])
  next
    case 2
    then show ?thesis using s by (simp add: zeros_left_def m_def [symmetric])
  next
    case 3
    then show ?thesis using s by (simp add: zeros_left_def m_def [symmetric])
  qed
qed

function push_zeros :: "bytes \<Rightarrow> bytes" where
  "push_zeros msg = (if length msg mod 64 = 56 then msg else push_zeros (msg @ [0]))"
  by pat_completeness auto
termination
  by (relation "measure (\<lambda>msg. zeros_left (length msg))") (auto simp: zeros_left_Suc)

declare push_zeros.simps [simp del]

definition sha1_pad :: "bytes \<Rightarrow> bytes" where
  "sha1_pad data = push_zeros (data @ [0x80]) @ u64_to_be (of_nat (length data) * 8)"

text \<open>\<open>chunks_exact(64)\<close>.\<close>

function chunks64 :: "bytes \<Rightarrow> bytes list" where
  "chunks64 msg = (if length msg < 64 then [] else take 64 msg # chunks64 (drop 64 msg))"
  by pat_completeness auto
termination
  by (relation "measure length") auto

declare chunks64.simps [simp del]

definition block_words :: "bytes \<Rightarrow> u32 list" where
  "block_words block =
     map (\<lambda>i. u32_from_be (block ! (4 * i)) (block ! (4 * i + 1)) (block ! (4 * i + 2)) (block ! (4 * i + 3)))
       [0..<16]"

text \<open>The loop \<open>for i in 16..80\<close>, on the part of the array that is already filled.\<close>

definition extend_word :: "nat \<Rightarrow> u32 list \<Rightarrow> u32 list" where
  "extend_word i w = w @ [rotate_left 1 (w ! (i - 3) XOR w ! (i - 8) XOR w ! (i - 14) XOR w ! (i - 16))]"

definition schedule :: "bytes \<Rightarrow> u32 list" where
  "schedule block = fold extend_word [16..<80] (block_words block)"

datatype regs = Regs u32 u32 u32 u32 u32

definition round_fk :: "nat \<Rightarrow> u32 \<Rightarrow> u32 \<Rightarrow> u32 \<Rightarrow> u32 \<times> u32" where
  "round_fk i b c d =
     (if i \<le> 19 then ((b AND c) OR (NOT b AND d), 0x5A827999)
      else if i \<le> 39 then (b XOR c XOR d, 0x6ED9EBA1)
      else if i \<le> 59 then ((b AND c) OR (b AND d) OR (c AND d), 0x8F1BBCDC)
      else (b XOR c XOR d, 0xCA62C1D6))"

fun sha1_round :: "nat \<times> u32 \<Rightarrow> regs \<Rightarrow> regs" where
  "sha1_round (i, wi) (Regs a b c d e) =
     (let (f, k) = round_fk i b c d;
          tmp = rotate_left 5 a + f + e + k + wi
      in Regs tmp a (rotate_left 30 b) c d)"

fun add_regs :: "regs \<Rightarrow> regs \<Rightarrow> regs" where
  "add_regs (Regs a b c d e) (Regs a' b' c' d' e') = Regs (a + a') (b + b') (c + c') (d + d') (e + e')"

definition sha1_block :: "bytes \<Rightarrow> regs \<Rightarrow> regs" where
  "sha1_block block h = add_regs h (fold sha1_round (enumerate 0 (schedule block)) h)"

definition sha1_init :: regs where
  "sha1_init = Regs 0x67452301 0xEFCDAB89 0x98BADCFE 0x10325476 0xC3D2E1F0"

fun digest_bytes :: "regs \<Rightarrow> bytes" where
  "digest_bytes (Regs a b c d e) = u32_to_be a @ u32_to_be b @ u32_to_be c @ u32_to_be d @ u32_to_be e"

definition sha1 :: "bytes \<Rightarrow> bytes" where
  "sha1 data = digest_bytes (fold sha1_block (chunks64 (sha1_pad data)) sha1_init)"

text \<open>\<open>char::from_digit(n, 16)\<close>.\<close>

definition hex_digit :: "u8 \<Rightarrow> u8" where
  "hex_digit n = (if n < 10 then 48 + n else 87 + n)"

definition sha1_hex :: "bytes \<Rightarrow> bytes" where
  "sha1_hex data = concat (map (\<lambda>b. [hex_digit (drop_bit 4 b), hex_digit (b AND 0x0F)]) (sha1 data))"

section \<open>The standard\<close>

definition fips_ch :: "u32 \<Rightarrow> u32 \<Rightarrow> u32 \<Rightarrow> u32" where
  "fips_ch x y z = (x AND y) XOR (NOT x AND z)"

definition fips_maj :: "u32 \<Rightarrow> u32 \<Rightarrow> u32 \<Rightarrow> u32" where
  "fips_maj x y z = (x AND y) XOR (x AND z) XOR (y AND z)"

definition fips_f :: "nat \<Rightarrow> u32 \<Rightarrow> u32 \<Rightarrow> u32 \<Rightarrow> u32" where
  "fips_f t x y z =
     (if t < 20 then fips_ch x y z else if t < 40 then x XOR y XOR z
      else if t < 60 then fips_maj x y z else x XOR y XOR z)"

definition fips_k :: "nat \<Rightarrow> u32" where
  "fips_k t = (if t < 20 then 0x5A827999 else if t < 40 then 0x6ED9EBA1
     else if t < 60 then 0x8F1BBCDC else 0xCA62C1D6)"

function fips_w :: "bytes \<Rightarrow> nat \<Rightarrow> u32" where
  "fips_w m t =
     (if t < 16 then u32_from_be (m ! (4 * t)) (m ! (4 * t + 1)) (m ! (4 * t + 2)) (m ! (4 * t + 3))
      else word_rotl 1 (fips_w m (t - 3) XOR fips_w m (t - 8) XOR fips_w m (t - 14) XOR fips_w m (t - 16)))"
  by pat_completeness auto
termination
  by (relation "measure snd") auto

declare fips_w.simps [simp del]

fun fips_rounds :: "bytes \<Rightarrow> nat \<Rightarrow> regs \<Rightarrow> regs" where
  "fips_rounds m 0 r = r"
| "fips_rounds m (Suc t) r =
     (case fips_rounds m t r of
        Regs a b c d e \<Rightarrow>
          Regs (word_rotl 5 a + fips_f t b c d + e + fips_k t + fips_w m t) a (word_rotl 30 b) c d)"

text \<open>
  The padded message of the standard: a one bit, the least number of zero bits that leaves room for
  the length, and the length in bits.
\<close>

definition fips_pad :: "bytes \<Rightarrow> bytes" where
  "fips_pad data =
     data @ [0x80] @ replicate ((119 - length data mod 64) mod 64) 0 @ u64_to_be (of_nat (8 * length data))"

fun fips_blocks :: "bytes \<Rightarrow> nat \<Rightarrow> regs \<Rightarrow> regs" where
  "fips_blocks msg 0 h = h"
| "fips_blocks msg (Suc n) h =
     (let h = fips_blocks msg n h in add_regs h (fips_rounds (take 64 (drop (64 * n) msg)) 80 h))"

definition fips_sha1 :: "bytes \<Rightarrow> bytes" where
  "fips_sha1 data =
     (let msg = fips_pad data in digest_bytes (fips_blocks msg (length msg div 64) sha1_init))"

section \<open>Equivalence\<close>

lemma push_zeros_eq: "push_zeros msg = msg @ replicate (zeros_left (length msg)) 0"
proof (induction msg rule: push_zeros.induct)
  case (1 msg)
  show ?case
  proof (cases "length msg mod 64 = 56")
    case True
    then show ?thesis by (subst push_zeros.simps) (simp add: zeros_left_def)
  next
    case False
    then show ?thesis using 1 zeros_left_Suc [of "length msg"]
      by (subst push_zeros.simps) (simp add: replicate_app_Cons_same)
  qed
qed

lemma zeros_left_pad: "zeros_left (Suc n) = (119 - n mod 64) mod 64"
proof (cases "n mod 64 = 63")
  case True
  then show ?thesis by (simp add: zeros_left_def mod_Suc)
next
  case False
  then show ?thesis by (simp add: zeros_left_def mod_Suc)
qed

lemma sha1_pad_eq: "sha1_pad data = fips_pad data"
  by (simp add: sha1_pad_def fips_pad_def push_zeros_eq zeros_left_pad mult.commute)

lemma rotate_left_eq:
  assumes "n < 32"
  shows "rotate_left n x = word_rotl n x"
proof (rule bit_eqI)
  fix i
  assume "possible_bit TYPE(u32) i"
  then have i: "i < 32" by (simp add: possible_bit_word)
  have out: "\<not> bit x j" if "32 \<le> j" for j using that bit_imp_le_length [of x j] by auto
  show "bit (rotate_left n x) i = bit (word_rotl n x) i"
  proof (cases "n \<le> i")
    case True
    then have "(i + 32 - n) mod 32 = i - n" using i by (simp add: mod_if)
    with True i show ?thesis using out [of "32 + i - n"]
      by (simp add: rotate_left_def bit_simps)
  next
    case False
    then have "(i + 32 - n) mod 32 = 32 + i - n" using i assms by simp
    with False i assms show ?thesis by (simp add: rotate_left_def bit_simps)
  qed
qed

lemma length_schedule_aux: "length (fold extend_word is w) = length w + length is"
  by (induction "is" arbitrary: w) (simp_all add: extend_word_def)

lemma schedule_nth:
  assumes "16 \<le> n" and "n \<le> 80"
  shows "\<forall>t<n. fold extend_word [16..<n] (block_words m) ! t = fips_w m t"
  using assms
proof (induction n rule: dec_induct)
  case base
  show ?case
  proof (intro allI impI)
    fix t :: nat
    assume "t < 16"
    then show "fold extend_word [16..<16] (block_words m) ! t = fips_w m t"
      by (subst fips_w.simps) (simp add: block_words_def)
  qed
next
  case (step n)
  let ?w = "fold extend_word [16..<n] (block_words m)"
  have len: "length ?w = n" using step by (simp add: length_schedule_aux block_words_def)
  have e: "fold extend_word [16..<Suc n] (block_words m) = extend_word n ?w"
    using step(1) by simp
  have IH: "?w ! t = fips_w m t" if "t < n" for t using step that by simp
  show ?case
  proof (intro allI impI)
    fix t :: nat
    assume "t < Suc n"
    then consider "t < n" | "t = n" by linarith
    then show "fold extend_word [16..<Suc n] (block_words m) ! t = fips_w m t"
    proof cases
      case 1
      then show ?thesis unfolding e using IH len by (simp add: extend_word_def nth_append)
    next
      case 2
      show ?thesis unfolding e 2 using step(1) len
        by (subst fips_w.simps) (simp add: extend_word_def nth_append IH rotate_left_eq)
    qed
  qed
qed

lemma length_schedule: "length (schedule m) = 80"
  unfolding schedule_def length_schedule_aux by (simp add: block_words_def)

lemma schedule_eq: "t < 80 \<Longrightarrow> schedule m ! t = fips_w m t"
  using schedule_nth [of 80 m] by (simp add: schedule_def)

lemma round_f_eq: "fst (round_fk t b c d) = fips_f t b c d" "snd (round_fk t b c d) = fips_k t"
proof -
  have "(b AND c) OR (NOT b AND d) = fips_ch b c d"
    by (intro bit_eqI) (auto simp: fips_ch_def bit_simps)
  moreover have "(b AND c) OR (b AND d) OR (c AND d) = fips_maj b c d"
    by (intro bit_eqI) (auto simp: fips_maj_def bit_simps)
  ultimately show "fst (round_fk t b c d) = fips_f t b c d" "snd (round_fk t b c d) = fips_k t"
    by (simp_all add: round_fk_def fips_f_def fips_k_def)
qed

lemma sha1_round_eq:
  "sha1_round (t, w) (Regs a b c d e)
     = Regs (word_rotl 5 a + fips_f t b c d + e + fips_k t + w) a (word_rotl 30 b) c d"
  using round_f_eq [of t b c d] by (simp add: case_prod_unfold rotate_left_eq)

lemma sha1_rounds_eq:
  assumes "n \<le> 80"
  shows "fold sha1_round (enumerate 0 (take n (schedule m))) h = fips_rounds m n h"
  using assms
proof (induction n)
  case 0
  then show ?case by simp
next
  case (Suc n)
  have t: "take (Suc n) (schedule m) = take n (schedule m) @ [fips_w m n]"
    using Suc.prems by (simp add: take_Suc_conv_app_nth length_schedule schedule_eq)
  have en: "enumerate 0 (take (Suc n) (schedule m)) = enumerate 0 (take n (schedule m)) @ [(n, fips_w m n)]"
    unfolding t using Suc.prems by (simp add: enumerate_append_eq length_schedule)
  from Suc show ?case unfolding en
    by (simp del: sha1_round.simps add: sha1_round_eq split: regs.split)
qed

lemma sha1_block_eq: "sha1_block m h = add_regs h (fips_rounds m 80 h)"
  using sha1_rounds_eq [of 80 m h] by (simp add: sha1_block_def length_schedule)

lemma chunks64_nth: "chunks64 msg = map (\<lambda>i. take 64 (drop (64 * i) msg)) [0..<length msg div 64]"
proof (induction msg rule: chunks64.induct)
  case (1 msg)
  show ?case
  proof (cases "length msg < 64")
    case True
    then show ?thesis by (subst chunks64.simps) simp
  next
    case False
    then have d: "length msg div 64 = Suc ((length msg - 64) div 64)" by (simp add: le_div_geq)
    have "[0..<length msg div 64] = 0 # map Suc [0..<(length msg - 64) div 64]"
      unfolding d by (simp add: upt_conv_Cons map_Suc_upt del: upt_Suc)
    with False 1 show ?thesis
      by (subst chunks64.simps) (simp add: comp_def add.commute)
  qed
qed

lemma fips_blocks_fold:
  "fips_blocks msg n h = fold sha1_block (map (\<lambda>i. take 64 (drop (64 * i) msg)) [0..<n]) h"
  by (induction n) (simp_all add: sha1_block_eq Let_def)

text \<open>
  C34: the implementation of SHA-1 computes the function of FIPS 180-4 on every message: its padding
  loop, message schedule, round functions and chaining agree with the standard's.\<close>

theorem sha1_fips: "sha1 data = fips_sha1 data"
  by (simp add: sha1_def fips_sha1_def Let_def sha1_pad_eq chunks64_nth fips_blocks_fold)

end
