(* ===== verification/Lua.thy ===== *)
theory Lua
  imports Server Sha1
begin

text \<open>
  What src/commands/scripting/mod.rs does around the Lua interpreter: the conversions between reply
  frames and Lua values, the errors a script may raise, and the \<open>SCRIPT\<close> command with its cache.

  The interpreter itself is a library outside the repository. It is the parameter \<open>lua_impl\<close>: how a
  body compiles, and how it runs, as the tree of the \<open>redis.pcall\<close>s it makes, each followed by
  what the script does with the answer. Only scripts that come to an end are such trees. A table is
  its integer and string keys, without a metatable.
\<close>

section \<open>Lua values\<close>

datatype lua_key = KInt int | KStr bytes

datatype lua =
    LNil
  | LBool bool
  | LInteger int
  | LNumber f64
  | LString bytes
  | LTable "(lua_key \<times> lua) list"
  | LOther

text \<open>\<open>t.set(1, ..)\<close>, \<open>t.set(2, ..)\<close>, and so on.\<close>

definition lua_array :: "lua list \<Rightarrow> lua" where
  "lua_array vs = LTable (zip (map (\<lambda>i. KInt (int i + 1)) [0..<length vs]) vs)"

fun frame_to_lua :: "frame \<Rightarrow> lua" where
  "frame_to_lua (Integer n) = LInteger n"
| "frame_to_lua (Simple s) = LTable [(KStr (ascii ''ok''), LString s)]"
| "frame_to_lua (ErrorF s) = LTable [(KStr (ascii ''err''), LString s)]"
| "frame_to_lua (Bulk b) = LString b"
| "frame_to_lua Null = LBool False"
| "frame_to_lua NullArray = LBool False"
| "frame_to_lua (Double d) = LString (format_double d)"
| "frame_to_lua (Array items) = lua_array (map frame_to_lua items)"
| "frame_to_lua (SetF items) = lua_array (map frame_to_lua items)"
| "frame_to_lua (Push items) = lua_array (map frame_to_lua items)"
| "frame_to_lua (MapF pairs) = lua_array (concat (map (\<lambda>(k, v). [frame_to_lua k, frame_to_lua v]) pairs))"
| "frame_to_lua (Pairs pairs) = lua_array (concat (map (\<lambda>(k, v). [frame_to_lua k, frame_to_lua v]) pairs))"
| "frame_to_lua (XReadReply pairs) =
     lua_array (map (\<lambda>(k, v). lua_array [frame_to_lua k, frame_to_lua v]) pairs)"

text \<open>The cast \<open>n as i64\<close> of a float: towards zero, saturating, NaN to 0.\<close>

definition f64_to_i64 :: "f64 \<Rightarrow> int" where
  "f64_to_i64 d =
     (if is_nan d then 0
      else let m = (if is_infinite d then 2 ^ 64 else int (f64_units d div 2 ^ 1074))
           in max (- (2 ^ 63)) (min (2 ^ 63 - 1) (if f64_neg d then - m else m)))"

text \<open>
  \<open>table_to_frame\<close>, given the table and the frames of its values: the error or status it stands for,
  or the array of its values at 1, 2, \<dots> up to the first nil. A table of \<open>n\<close> keys has its first
  nil at \<open>n + 1\<close> at the latest.
\<close>

definition table_frame :: "(lua_key \<times> lua) list \<Rightarrow> (lua_key \<times> frame) list \<Rightarrow> frame" where
  "table_frame kvs frames =
     (case map_of kvs (KStr (ascii ''err'')) of
        Some (LString e) \<Rightarrow> ErrorF (from_utf8_lossy e)
      | _ \<Rightarrow>
          (case map_of kvs (KStr (ascii ''ok'')) of
             Some (LString s) \<Rightarrow> Simple (from_utf8_lossy s)
           | _ \<Rightarrow>
               Array (map (\<lambda>i. the (map_of frames (KInt i)))
                 (takeWhile (\<lambda>i. map_of kvs (KInt i) \<notin> {None, Some LNil})
                   (map int [1..<length kvs + 1])))))"

fun lua_to_frame :: "lua \<Rightarrow> frame" where
  "lua_to_frame LNil = Null"
| "lua_to_frame (LBool b) = (if b then Integer 1 else Null)"
| "lua_to_frame (LInteger i) = Integer i"
| "lua_to_frame (LNumber n) = Integer (f64_to_i64 n)"
| "lua_to_frame (LString s) = Bulk s"
| "lua_to_frame (LTable kvs) = table_frame kvs (map (\<lambda>(k, v). (k, lua_to_frame v)) kvs)"
| "lua_to_frame LOther = Null"

definition has_error_code :: "bytes \<Rightarrow> bool" where
  "has_error_code msg =
     (let first = takeWhile (\<lambda>c. c \<noteq> 32) msg
      in first \<noteq> [] \<and> list_all (\<lambda>c. 65 \<le> c \<and> c \<le> 90) first)"

definition error_value_to_frame :: "lua \<Rightarrow> frame" where
  "error_value_to_frame v =
     (case v of
        LTable kvs \<Rightarrow>
          (case map_of kvs (KStr (ascii ''err'')) of
             Some (LString e) \<Rightarrow> ErrorF (from_utf8_lossy e)
           | _ \<Rightarrow> frame_err (ascii ''script raised a table without an 'err' field''))
      | LString s \<Rightarrow>
          (let msg = from_utf8_lossy s in if has_error_code msg then ErrorF msg else frame_err msg)
      | _ \<Rightarrow> frame_err (ascii ''script raised a non-string error''))"

section \<open>The arguments of a call\<close>

definition number_to_arg :: "f64 \<Rightarrow> bytes" where
  "number_to_arg n =
     (if \<not> is_nan n \<and> \<not> is_infinite n \<and> f64_units n mod 2 ^ 1074 = 0 \<and> f64_units n < 10 ^ 15 * 2 ^ 1074
      then dec_int (f64_to_i64 n)
      else if is_nan n then ascii ''NaN''
      else if is_infinite n then (if f64_neg n then ascii ''-inf'' else ascii ''inf'')
      else display_f64 n)"

fun value_to_arg :: "lua \<Rightarrow> bytes option" where
  "value_to_arg (LString s) = Some s"
| "value_to_arg (LInteger i) = Some (dec_int i)"
| "value_to_arg (LNumber n) = Some (number_to_arg n)"
| "value_to_arg _ = None"

fun lua_args :: "lua list \<Rightarrow> bytes list option" where
  "lua_args [] = Some []"
| "lua_args (v # vs) =
     (case value_to_arg v of
        None \<Rightarrow> None
      | Some b \<Rightarrow> (case lua_args vs of None \<Rightarrow> None | Some bs \<Rightarrow> Some (b # bs)))"

definition blocked_names :: "bytes list" where
  "blocked_names = map ascii
     [''EVAL'', ''EVAL_RO'', ''EVALSHA'', ''EVALSHA_RO'', ''SCRIPT'', ''FUNCTION'', ''FCALL'', ''FCALL_RO'',
      ''MULTI'', ''EXEC'', ''DISCARD'', ''WATCH'', ''UNWATCH'', ''SUBSCRIBE'', ''UNSUBSCRIBE'',
      ''PSUBSCRIBE'', ''PUNSUBSCRIBE'', ''SSUBSCRIBE'', ''SUNSUBSCRIBE'']"

definition is_blocked :: "bytes \<Rightarrow> bool" where
  "is_blocked name \<longleftrightarrow> name \<in> set blocked_names"

section \<open>The interpreter and the script cache\<close>

text \<open>
  A run either ends, with the flag and the value of the outer \<open>pcall\<close> or with an error of the
  interpreter itself (a body that does not compile), or it calls \<open>redis.pcall\<close> and goes on with
  the error that raised or the value that returned.
\<close>

datatype lua_run =
    Finish bool lua
  | Broken bytes
  | Pcall "lua list" "bytes + lua \<Rightarrow> lua_run"

record lua_impl =
  lua_compile :: "bytes \<Rightarrow> bytes option"
  lua_start :: "bytes \<Rightarrow> bytes list \<Rightarrow> bytes list \<Rightarrow> lua_run"

definition unknown_subcommand :: "bytes \<Rightarrow> frame" where
  "unknown_subcommand sub =
     frame_err (ascii ''Unknown SCRIPT subcommand or wrong number of arguments for '' @ [39] @ sub @ [39])"

definition script :: "lua_impl \<Rightarrow> env \<Rightarrow> bytes list \<Rightarrow> shared \<Rightarrow> frame \<times> shared" where
  "script lua e args sh =
     (if length args < 2 then (wrong_args ''script'', sh)
      else
        let sub = upper (args ! 1) in
        if sub = ascii ''LOAD'' then
          if length args \<noteq> 3 then (unknown_subcommand (ascii ''load''), sh)
          else case lua_compile lua (args ! 2) of
            Some err \<Rightarrow> (frame_err (ascii ''Error compiling script (new function): '' @ err), sh)
          | None \<Rightarrow>
              let sha = sha1_hex (args ! 2)
              in (Bulk sha, sh\<lparr>sh_scripts := AList.update sha (args ! 2) (sh_scripts sh)\<rparr>)
        else if sub = ascii ''EXISTS'' then
          (Array (map (\<lambda>a. Integer (bool_int
             (map_of (sh_scripts sh) (to_ascii_lowercase (from_utf8_lossy a)) \<noteq> None))) (drop 2 args)), sh)
        else if sub = ascii ''FLUSH'' then (frame_ok, sh\<lparr>sh_scripts := []\<rparr>)
        else (unknown_subcommand (env_lower e sub), sh))"

section \<open>Conversions and round trips\<close>

lemma map_of_zip_ints:
  "map_of (zip (map (\<lambda>i. KInt (int i + 1)) [0..<length vs]) vs) (KInt j) =
     (if 1 \<le> j \<and> j \<le> int (length vs) then Some (vs ! nat (j - 1)) else None)"
proof (induction vs rule: rev_induct)
  case (snoc v vs)
  have "map_of (zip (map (\<lambda>i. KInt (int i + 1)) [0..<length vs]) vs @ [(KInt (int (length vs) + 1), v)]) (KInt j)
      = (if 1 \<le> j \<and> j \<le> int (length vs) + 1 then Some ((vs @ [v]) ! nat (j - 1)) else None)"
    using snoc by (auto simp: map_add_def nth_append)
  then show ?case by simp
qed simp

lemma map_of_zip_strs:
  "map_of (zip (map (\<lambda>i. KInt (int i + 1)) [0..<length vs]) vs) (KStr s) = None"
  by (auto simp: map_of_eq_None_iff in_set_zip)

lemma map_of_map_snd: "map_of (map (\<lambda>(k, v). (k, f v)) kvs) k = map_option f (map_of kvs k)"
  by (induction kvs) auto

lemma lua_to_frame_array:
  assumes "LNil \<notin> set vs"
  shows "lua_to_frame (lua_array vs) = Array (map lua_to_frame vs)"
proof -
  let ?kvs = "zip (map (\<lambda>i. KInt (int i + 1)) [0..<length vs]) vs"
  have t: "takeWhile (\<lambda>i. map_of ?kvs (KInt i) \<notin> {None, Some LNil}) (map int [1..<length vs + 1])
      = map int [1..<length vs + 1]"
    using assms by (auto simp: takeWhile_eq_all_conv map_of_zip_ints in_set_conv_nth)
  have m: "map (\<lambda>i. the (map_of (map (\<lambda>(k, v). (k, lua_to_frame v)) ?kvs) (KInt i))) (map int [1..<length vs + 1])
      = map lua_to_frame vs"
    by (rule nth_equalityI) (simp_all add: map_of_map_snd map_of_zip_ints del: upt_Suc)
  have l: "length ?kvs = length vs" by simp
  show ?thesis
    unfolding lua_array_def lua_to_frame.simps table_frame_def map_of_zip_strs option.case l t
    by (simp only: m)
qed

text \<open>What a script that returns a reply unchanged hands back: the RESP2 view of the reply.\<close>

fun resp2_view :: "frame \<Rightarrow> frame" where
  "resp2_view (Simple s) = Simple (from_utf8_lossy s)"
| "resp2_view (ErrorF s) = ErrorF (from_utf8_lossy s)"
| "resp2_view (Integer n) = Integer n"
| "resp2_view (Bulk b) = Bulk b"
| "resp2_view Null = Null"
| "resp2_view NullArray = Null"
| "resp2_view (Double d) = Bulk (format_double d)"
| "resp2_view (Array items) = Array (map resp2_view items)"
| "resp2_view (SetF items) = Array (map resp2_view items)"
| "resp2_view (Push items) = Array (map resp2_view items)"
| "resp2_view (MapF pairs) = Array (concat (map (\<lambda>(k, v). [resp2_view k, resp2_view v]) pairs))"
| "resp2_view (Pairs pairs) = Array (concat (map (\<lambda>(k, v). [resp2_view k, resp2_view v]) pairs))"
| "resp2_view (XReadReply pairs) = Array (map (\<lambda>(k, v). Array [resp2_view k, resp2_view v]) pairs)"

lemma frame_to_lua_not_nil [simp]: "frame_to_lua f \<noteq> LNil" "LNil \<noteq> frame_to_lua f"
  by (cases f; simp add: lua_array_def)+

lemma lua_array_not_nil [simp]: "lua_array vs \<noteq> LNil" "LNil \<noteq> lua_array vs"
  by (simp_all add: lua_array_def)


end
