(* ===== verification/Cmd_Hash.thy ===== *)
theory Cmd_Hash
  imports Cmd
begin

text \<open>
  The hash commands (src/commands/hash.rs). A hash is an association list with distinct fields;
  its order is the iteration order of the \<open>HashMap\<close>. Every handler is given whole, with its
  argument checks and its error replies.
\<close>

section \<open>The handlers\<close>

definition hm_insert :: "bytes \<times> bytes \<Rightarrow> (bytes \<times> bytes) list \<Rightarrow> (bytes \<times> bytes) list \<times> bool" where
  "hm_insert kv h = (AList.update (fst kv) (snd kv) h, map_of h (fst kv) = None)"

definition hm_remove :: "bytes \<Rightarrow> (bytes \<times> bytes) list \<Rightarrow> (bytes \<times> bytes) list \<times> bool" where
  "hm_remove k h = (AList.delete k h, map_of h k \<noteq> None)"

definition hset :: "u64 \<Rightarrow> bytes list \<Rightarrow> bool \<Rightarrow> db \<Rightarrow> frame \<times> db" where
  "hset now args hmset db =
     (if length args < 4 \<or> length args mod 2 \<noteq> 0 then
        (wrong_args (if hmset then ''hmset'' else ''hset''), db)
      else case get_or_create_hash now (args ! 1) db of
        (Inl _, db) \<Rightarrow> (wrongtype, db)
      | (Inr h, db) \<Rightarrow>
          let (h, added) = count_steps hm_insert (pairs_of (drop 2 args)) h;
              db = db_write (args ! 1) (HashV h) db
          in (if hmset then frame_ok else Integer (int added), db))"

definition hsetnx :: "u64 \<Rightarrow> bytes list \<Rightarrow> db \<Rightarrow> frame \<times> db" where
  "hsetnx now args db =
     (if length args \<noteq> 4 then (wrong_args ''hsetnx'', db)
      else case get_or_create_hash now (args ! 1) db of
        (Inl _, db) \<Rightarrow> (wrongtype, db)
      | (Inr h, db) \<Rightarrow>
          if map_of h (args ! 2) \<noteq> None then (Integer 0, db)
          else (Integer 1, db_write (args ! 1) (HashV (fst (hm_insert (args ! 2, args ! 3) h))) db))"

definition hget :: "u64 \<Rightarrow> bytes list \<Rightarrow> db \<Rightarrow> frame \<times> db" where
  "hget now args db =
     (if length args \<noteq> 3 then (wrong_args ''hget'', db)
      else case get_hash now (args ! 1) db of
        (Inr (Some h), db) \<Rightarrow> (bulk_or_null (map_of h (args ! 2)), db)
      | (Inr None, db) \<Rightarrow> (Null, db)
      | (Inl _, db) \<Rightarrow> (wrongtype, db))"

definition hmget :: "u64 \<Rightarrow> bytes list \<Rightarrow> db \<Rightarrow> frame \<times> db" where
  "hmget now args db =
     (if length args < 3 then (wrong_args ''hmget'', db)
      else case get_hash now (args ! 1) db of
        (Inr (Some h), db) \<Rightarrow> (Array (map (\<lambda>f. bulk_or_null (map_of h f)) (drop 2 args)), db)
      | (Inr None, db) \<Rightarrow> (Array (map (\<lambda>_. Null) (drop 2 args)), db)
      | (Inl _, db) \<Rightarrow> (wrongtype, db))"

definition hdel :: "u64 \<Rightarrow> bytes list \<Rightarrow> db \<Rightarrow> frame \<times> db" where
  "hdel now args db =
     (if length args < 3 then (wrong_args ''hdel'', db)
      else case get_hash now (args ! 1) db of
        (Inr None, db) \<Rightarrow> (Integer 0, db)
      | (Inl _, db) \<Rightarrow> (wrongtype, db)
      | (Inr (Some _), db) \<Rightarrow>
          (case get_or_create_hash now (args ! 1) db of
             (Inl _, db) \<Rightarrow> (wrongtype, db)
           | (Inr h, db) \<Rightarrow>
               let (h, removed) = count_steps hm_remove (drop 2 args) h;
                   db = db_write (args ! 1) (HashV h) db
               in (Integer (int removed), db_remove_if_empty (args ! 1) db)))"

definition hgetall :: "u64 \<Rightarrow> bytes list \<Rightarrow> db \<Rightarrow> frame \<times> db" where
  "hgetall now args db =
     (if length args \<noteq> 2 then (wrong_args ''hgetall'', db)
      else case get_hash now (args ! 1) db of
        (Inr (Some h), db) \<Rightarrow> (MapF (map (\<lambda>(k, v). (Bulk k, Bulk v)) h), db)
      | (Inr None, db) \<Rightarrow> (MapF [], db)
      | (Inl _, db) \<Rightarrow> (wrongtype, db))"

definition hcollect ::
    "u64 \<Rightarrow> bytes list \<Rightarrow> string \<Rightarrow> (bytes \<times> bytes \<Rightarrow> frame) \<Rightarrow> db \<Rightarrow> frame \<times> db" where
  "hcollect now args name f db =
     (if length args \<noteq> 2 then (wrong_args name, db)
      else case get_hash now (args ! 1) db of
        (Inr (Some h), db) \<Rightarrow> (Array (map f h), db)
      | (Inr None, db) \<Rightarrow> (Array [], db)
      | (Inl _, db) \<Rightarrow> (wrongtype, db))"

definition hkeys :: "u64 \<Rightarrow> bytes list \<Rightarrow> db \<Rightarrow> frame \<times> db" where
  "hkeys now args db = hcollect now args ''hkeys'' (\<lambda>(k, _). Bulk k) db"

definition hvals :: "u64 \<Rightarrow> bytes list \<Rightarrow> db \<Rightarrow> frame \<times> db" where
  "hvals now args db = hcollect now args ''hvals'' (\<lambda>(_, v). Bulk v) db"

definition hlen :: "u64 \<Rightarrow> bytes list \<Rightarrow> db \<Rightarrow> frame \<times> db" where
  "hlen now args db =
     (if length args \<noteq> 2 then (wrong_args ''hlen'', db)
      else case get_hash now (args ! 1) db of
        (Inr (Some h), db) \<Rightarrow> (Integer (int (length h)), db)
      | (Inr None, db) \<Rightarrow> (Integer 0, db)
      | (Inl _, db) \<Rightarrow> (wrongtype, db))"

definition hexists :: "u64 \<Rightarrow> bytes list \<Rightarrow> db \<Rightarrow> frame \<times> db" where
  "hexists now args db =
     (if length args \<noteq> 3 then (wrong_args ''hexists'', db)
      else case get_hash now (args ! 1) db of
        (Inr (Some h), db) \<Rightarrow> (Integer (bool_int (map_of h (args ! 2) \<noteq> None)), db)
      | (Inr None, db) \<Rightarrow> (Integer 0, db)
      | (Inl _, db) \<Rightarrow> (wrongtype, db))"

definition hstrlen :: "u64 \<Rightarrow> bytes list \<Rightarrow> db \<Rightarrow> frame \<times> db" where
  "hstrlen now args db =
     (if length args \<noteq> 3 then (wrong_args ''hstrlen'', db)
      else case get_hash now (args ! 1) db of
        (Inr (Some h), db) \<Rightarrow>
          (Integer (case map_of h (args ! 2) of Some v \<Rightarrow> int (length v) | None \<Rightarrow> 0), db)
      | (Inr None, db) \<Rightarrow> (Integer 0, db)
      | (Inl _, db) \<Rightarrow> (wrongtype, db))"

definition hincrby :: "u64 \<Rightarrow> bytes list \<Rightarrow> db \<Rightarrow> frame \<times> db" where
  "hincrby now args db =
     (if length args \<noteq> 4 then (wrong_args ''hincrby'', db)
      else case parse_int (args ! 3) of
        Inl e \<Rightarrow> (e, db)
      | Inr incr \<Rightarrow>
          (case get_or_create_hash now (args ! 1) db of
             (Inl _, db) \<Rightarrow> (wrongtype, db)
           | (Inr h, db) \<Rightarrow>
               (case (case map_of h (args ! 2) of Some v \<Rightarrow> int_of_bytes v | None \<Rightarrow> Some 0) of
                  None \<Rightarrow> (frame_err (ascii ''hash value is not an integer''), db)
                | Some cur \<Rightarrow>
                    (case checked_add_i64 cur incr of
                       Some n \<Rightarrow>
                         (Integer n,
                          db_write (args ! 1) (HashV (fst (hm_insert (args ! 2, dec_int n) h))) db)
                     | None \<Rightarrow>
                         (frame_err (ascii ''increment or decrement would overflow''), db)))))"

definition hincrbyfloat :: "u64 \<Rightarrow> bytes list \<Rightarrow> db \<Rightarrow> frame \<times> db" where
  "hincrbyfloat now args db =
     (if length args \<noteq> 4 then (wrong_args ''hincrbyfloat'', db)
      else case parse_float (args ! 3) of
        Inl e \<Rightarrow> (e, db)
      | Inr incr \<Rightarrow>
          (case get_or_create_hash now (args ! 1) db of
             (Inl _, db) \<Rightarrow> (wrongtype, db)
           | (Inr h, db) \<Rightarrow>
               (case (case map_of h (args ! 2) of
                        Some v \<Rightarrow> if utf8_valid v then parse_f64 (trim v) else None
                      | None \<Rightarrow> Some f64_zero) of
                  None \<Rightarrow> (frame_err (ascii ''hash value is not a float''), db)
                | Some cur \<Rightarrow>
                    let n = f64_add cur incr in
                    if is_nan n \<or> is_infinite n then
                      (frame_err (ascii ''increment would produce NaN or Infinity''), db)
                    else
                      let s = format_double n in
                      (Bulk s, db_write (args ! 1) (HashV (fst (hm_insert (args ! 2, s) h))) db))))"

text \<open>The option loop of \<open>hscan\<close>: the pattern and \<open>NOVALUES\<close>.\<close>

fun hscan_opts :: "bytes list \<Rightarrow> bytes option \<Rightarrow> bool \<Rightarrow> frame + (bytes option \<times> bool)" where
  "hscan_opts [] pattern novalues = Inr (pattern, novalues)"
| "hscan_opts [a] pattern novalues =
     (if upper a = ascii ''NOVALUES'' then Inr (pattern, True) else Inl syntax_error)"
| "hscan_opts (a # b # rest) pattern novalues =
     (if upper a = ascii ''MATCH'' then hscan_opts rest (Some b) novalues
      else if upper a = ascii ''COUNT'' then hscan_opts rest pattern novalues
      else if upper a = ascii ''NOVALUES'' then hscan_opts (b # rest) pattern True
      else Inl syntax_error)"

definition hscan :: "u64 \<Rightarrow> bytes list \<Rightarrow> db \<Rightarrow> frame \<times> db" where
  "hscan now args db =
     (if length args < 3 then (wrong_args ''hscan'', db)
      else case hscan_opts (drop 3 args) None False of
        Inl e \<Rightarrow> (e, db)
      | Inr (pattern, novalues) \<Rightarrow>
          (case get_hash now (args ! 1) db of
             (Inl _, db) \<Rightarrow> (wrongtype, db)
           | (Inr h, db) \<Rightarrow>
               let items = concat (map (\<lambda>(k, v). if matches_opt pattern k
                             then Bulk k # (if novalues then [] else [Bulk v]) else [])
                             (case h of Some h \<Rightarrow> h | None \<Rightarrow> []))
               in (Array [Bulk (ascii ''0''), Array items], db)))"

definition pick :: "u64 \<Rightarrow> (bytes \<times> bytes) list \<Rightarrow> int \<Rightarrow> rng \<Rightarrow> (bytes \<times> bytes) list \<times> rng" where
  "pick nanos entries count st =
     (if entries = [] \<or> count = 0 then ([], st)
      else if count < 0 then repeat_sample nanos entries (usize_of_i64 (i64 (- count))) st
      else distinct_sample nanos entries (nat count) st)"

definition hrandfield ::
    "u64 \<Rightarrow> u64 \<Rightarrow> bytes list \<Rightarrow> db \<Rightarrow> rng \<Rightarrow> frame \<times> db \<times> rng" where
  "hrandfield now nanos args db st =
     (if length args < 2 \<or> 4 < length args then (wrong_args ''hrandfield'', db, st)
      else case get_hash now (args ! 1) db of
        (Inl _, db) \<Rightarrow> (wrongtype, db, st)
      | (Inr h, db) \<Rightarrow>
          let entries = (case h of Some h \<Rightarrow> h | None \<Rightarrow> []) in
          if length args = 2 then
            if entries = [] then (Null, db, st)
            else let (i, st) = rand_index nanos (length entries) st
                 in (Bulk (fst (entries ! i)), db, st)
          else case parse_int (args ! 2) of
            Inl e \<Rightarrow> (e, db, st)
          | Inr count \<Rightarrow>
              let withvalues = (length args = 4 \<and> upper (args ! 3) = ascii ''WITHVALUES'') in
              if length args = 4 \<and> \<not> withvalues then (syntax_error, db, st)
              else let (picked, st) = pick nanos entries count st in
                   (if withvalues then Pairs (map (\<lambda>(k, v). (Bulk k, Bulk v)) picked)
                    else Array (map (\<lambda>(k, _). Bulk k) picked), db, st))"

section \<open>The map interface of a hash\<close>

interpretation hm: keyed_map "\<lambda>h. dom (map_of h)" hm_insert hm_remove "\<lambda>h. distinct (map fst h)" map_of
  by unfold_locales
    (auto simp: hm_insert_def hm_remove_def update_conv' delete_conv' distinct_update distinct_delete
      finite_dom_map_of)

lemma hm_insert_nonempty: "fst (hm_insert kv h) \<noteq> []"
  by (cases h) (auto simp: hm_insert_def)

lemma count_steps_insert_nonempty:
  "kvs \<noteq> [] \<or> h \<noteq> [] \<Longrightarrow> fst (count_steps hm_insert kvs h) \<noteq> []"
proof (induction kvs arbitrary: h)
  case Nil
  then show ?case by simp
next
  case (Cons kv kvs)
  then show ?case using hm_insert_nonempty [of kv h] by (simp add: case_prod_unfold Let_def)
qed

text \<open>The abstract hash at a key.\<close>

definition hash_at :: "u64 \<Rightarrow> db \<Rightarrow> bytes \<Rightarrow> bytes \<rightharpoonup> bytes" where
  "hash_at now db k =
     (case live now db k of Some (HashV h, _) \<Rightarrow> map_of h | _ \<Rightarrow> Map.empty)"

text \<open>The key is free for hash commands: absent, or it holds a hash.\<close>

definition hash_key :: "u64 \<Rightarrow> db \<Rightarrow> bytes \<Rightarrow> bool" where
  "hash_key now db k \<longleftrightarrow> (case live now db k of None \<Rightarrow> True | Some (v, _) \<Rightarrow> as_hash v \<noteq> None)"

lemma hash_key_simps:
  "live now db k = None \<Longrightarrow> hash_key now db k"
  "live now db k = Some (HashV h, t) \<Longrightarrow> hash_key now db k"
  "live now db k = Some (v, t) \<Longrightarrow> as_hash v = None \<Longrightarrow> \<not> hash_key now db k"
  by (simp_all add: hash_key_def)

lemma hash_at_simps:
  "live now db k = None \<Longrightarrow> hash_at now db k = Map.empty"
  "live now db k = Some (HashV h, t) \<Longrightarrow> hash_at now db k = map_of h"
  by (simp_all add: hash_at_def)

lemma live_ttl_simps:
  "live now db k = None \<Longrightarrow> live_ttl now db k = None"
  "live now db k = Some (v, t) \<Longrightarrow> live_ttl now db k = t"
  by (simp_all add: live_ttl_def)

lemmas hash_views = hash_key_simps hash_at_simps live_ttl_simps

lemma db_ok_live_hash: "db_ok db \<Longrightarrow> live now db k = Some (HashV h, t) \<Longrightarrow> distinct (map fst h) \<and> h \<noteq> []"
  using db_ok_live [of db now k "HashV h" t] by simp

lemmas hash_writes = get_or_create_hash_def get_hash_def case_prod_unfold Let_def

text \<open>\<open>HSET\<close> on a key that is free for it.\<close>

lemma hset_ok:
  assumes "db_ok db" and "hash_key now db k" and "4 \<le> length args" and "even (length args)"
    and "k = args ! 1" and "kvs = pairs_of (drop 2 args)"
  obtains h where "distinct (map fst h)" and "map_of h = hash_at now db k ++ map_of (rev kvs)"
    and "fst (hset now args False db) = Integer (int (card (fst ` set kvs - dom (hash_at now db k))))"
    and "fst (hset now args True db) = frame_ok"
    and "live now (snd (hset now args hm db)) = (live now db)(k \<mapsto> (HashV h, live_ttl now db k))"
proof (cases rule: hashes.create_cases [of now k db])
  case (wrong v t db')
  with assms(2) show ?thesis by (simp add: hash_key_def)
next
  case (created db')
  have "distinct (map fst ([] :: (bytes \<times> bytes) list))" by simp
  note ins = hm.ins_all [OF this, of kvs] hm.look_ins_all [OF this, of kvs]
  show ?thesis using that [of "fst (count_steps hm_insert kvs [])"] created ins assms
    by (simp add: hset_def hash_writes live_simps hash_views even_iff_mod_2_eq_zero)
next
  case (present h t db')
  then have "distinct (map fst h)" using db_ok_live_hash [OF assms(1)] by blast
  note ins = hm.ins_all [OF this, of kvs] hm.look_ins_all [OF this, of kvs]
  show ?thesis using that [of "fst (count_steps hm_insert kvs h)"] present ins assms
    by (simp add: hset_def hash_writes live_simps hash_views even_iff_mod_2_eq_zero)
qed

section \<open>Correctness\<close>

text \<open>
  \<open>HSET\<close> on a key that is absent or holds a hash: the reply is the number of fields that were
  not there, the last value given for a field wins, and the key keeps its expiry.
\<close>

theorem hset_correct:
  assumes "db_ok db" and "hash_key now db (args ! 1)" and "4 \<le> length args" and "even (length args)"
  shows "fst (hset now args False db) =
      Integer (int (card (fst ` set (pairs_of (drop 2 args)) - dom (hash_at now db (args ! 1)))))
    \<and> hash_at now (snd (hset now args False db)) (args ! 1) =
      hash_at now db (args ! 1) ++ map_of (rev (pairs_of (drop 2 args)))
    \<and> live_ttl now (snd (hset now args False db)) (args ! 1) = live_ttl now db (args ! 1)
    \<and> (\<forall>k. k \<noteq> args ! 1 \<longrightarrow> live now (snd (hset now args False db)) k = live now db k)"
proof -
  from assms obtain h where "map_of h = hash_at now db (args ! 1) ++ map_of (rev (pairs_of (drop 2 args)))"
    and "fst (hset now args False db) =
      Integer (int (card (fst ` set (pairs_of (drop 2 args)) - dom (hash_at now db (args ! 1)))))"
    and l: "live now (snd (hset now args False db)) =
      (live now db)(args ! 1 \<mapsto> (HashV h, live_ttl now db (args ! 1)))"
    by (rule hset_ok [OF _ _ _ _ refl refl])
  moreover from l have "live now (snd (hset now args False db)) (args ! 1) =
      Some (HashV h, live_ttl now db (args ! 1))" by simp
  ultimately show ?thesis by (simp add: hash_views)
qed

definition hash_demo :: db where
  "hash_demo = [([104], \<lparr>e_value = HashV [([1], [10]), ([2], [20])], e_expire_at = Some 9\<rparr>)]"

lemma db_ok_hash_demo: "db_ok hash_demo"
  by (simp add: hash_demo_def db_ok_def)

theorem hset_correct_witness:
  "fst (hset 5 [ascii ''hset'', [104], [2], [21], [3], [30]] False hash_demo) = Integer 1"
proof -
  have "hash_at 5 hash_demo [104] = [[1] \<mapsto> [10], [2] \<mapsto> [20]]"
    and k: "hash_key 5 hash_demo [104]"
    by (simp_all add: hash_at_def hash_key_def live_def hash_demo_def expired_def entry_pair_def fun_eq_iff)
  moreover have "dom [[1::u8] \<mapsto> [10::u8], [2] \<mapsto> [20]] = {[1], [2]}" by auto
  ultimately show ?thesis
    using hset_correct [OF db_ok_hash_demo, of 5 "[ascii ''hset'', [104], [2], [21], [3], [30]]"]
    by (simp add: insert_Diff_if)
qed

text \<open>
  \<open>HDEL\<close> on a hash replies with the number of listed fields that existed, removes exactly
  those, and drops the key when no field is left.
\<close>

theorem hdel_correct:
  assumes "db_ok db" and "live now db (args ! 1) = Some (HashV h, t)" and "3 \<le> length args"
  shows "fst (hdel now args db) = Integer (int (card (set (drop 2 args) \<inter> dom (map_of h))))
    \<and> hash_at now (snd (hdel now args db)) (args ! 1) = map_of h |` (- set (drop 2 args))
    \<and> (live now (snd (hdel now args db)) (args ! 1) = None \<longleftrightarrow> dom (map_of h) \<subseteq> set (drop 2 args))"
proof -
  have d: "distinct (map fst h)" using db_ok_live_hash [OF assms(1,2)] by blast
  define h' where "h' = fst (count_steps hm_remove (drop 2 args) h)"
  note del = hm.del_all [OF d, of "drop 2 args", folded h'_def]
    and look = hm.look_del_all [OF d, of "drop 2 args", folded h'_def]
  have e: "h' = [] \<longleftrightarrow> dom (map_of h) \<subseteq> set (drop 2 args)"
  proof -
    have "h' = [] \<longleftrightarrow> dom (map_of h') = {}" by simp
    also have "\<dots> \<longleftrightarrow> dom (map_of h) \<subseteq> set (drop 2 args)" unfolding del(2) by blast
    finally show ?thesis .
  qed
  obtain db1 where g1: "get_as as_hash now (args ! 1) db = (Inr (Some h), db1)"
    and l1: "live now db1 = live now db"
    using assms(2) by (cases rule: hashes.get_cases [of now "args ! 1" db]) auto
  obtain db2 where g2: "get_or_create_as as_hash (HashV []) now (args ! 1) db1 = (Inr h, db2)"
    and l2: "live now db2 = live now db"
    using assms(2) l1 by (cases rule: hashes.create_cases [of now "args ! 1" db1]) auto
  have l: "live now (snd (hdel now args db)) =
      (live now db)(args ! 1 := (if h' = [] then None else Some (HashV h', t)))"
    using assms g1 g2 l2 by (simp add: hdel_def hash_writes live_simps h'_def [symmetric])
  have "fst (hdel now args db) = Integer (int (card (set (drop 2 args) \<inter> dom (map_of h))))"
    using assms g1 g2 del by (simp add: hdel_def hash_writes)
  moreover have "hash_at now (snd (hdel now args db)) (args ! 1) = map_of h'"
    unfolding hash_at_def l by simp
  ultimately show ?thesis using look e l by simp
qed

theorem hdel_correct_witness:
  "fst (hdel 5 [ascii ''hdel'', [104], [2], [3], [2]] hash_demo) = Integer 1"
proof -
  have "live 5 hash_demo [104] = Some (HashV [([1], [10]), ([2], [20])], Some 9)"
    by (simp add: live_def hash_demo_def expired_def entry_pair_def)
  then show ?thesis
    using hdel_correct [OF db_ok_hash_demo, of 5 "[ascii ''hdel'', [104], [2], [3], [2]]"] by simp
qed

subsection \<open>What no hash command does\<close>

text \<open>All the commands that are functions of the database, on the same arguments.\<close>

definition hash_reads :: "u64 \<Rightarrow> bytes list \<Rightarrow> (db \<Rightarrow> frame \<times> db) list" where
  "hash_reads now args =
     [hget now args, hmget now args, hgetall now args, hkeys now args, hvals now args,
      hlen now args, hexists now args, hstrlen now args, hscan now args,
      (\<lambda>db. case hrandfield now 0 args db 0 of (f, db, _) \<Rightarrow> (f, db))]"

definition hash_writes :: "u64 \<Rightarrow> bytes list \<Rightarrow> (db \<Rightarrow> frame \<times> db) list" where
  "hash_writes now args =
     [hset now args False, hset now args True, hsetnx now args, hdel now args, hincrby now args]"

lemmas hash_read_defs = hget_def hmget_def hgetall_def hkeys_def hvals_def hcollect_def hlen_def
  hexists_def hstrlen_def hscan_def hrandfield_def get_hash_def Let_def

lemma hscan_opts_error: "hscan_opts as p nv = Inl e \<Longrightarrow> is_error e"
  by (induction as p nv rule: hscan_opts.induct) (auto split: if_splits)

lemma hash_reads_aux:
  assumes "c \<in> set (hash_reads now args)"
  shows "live now (snd (c db)) = live now db" and "db_ok db \<Longrightarrow> db_ok (snd (c db))"
    and "\<not> hash_key now db (args ! 1) \<Longrightarrow> is_error (fst (c db))"
proof -
  have "live now (snd (c db)) = live now db \<and> (db_ok db \<longrightarrow> db_ok (snd (c db)))
    \<and> (\<not> hash_key now db (args ! 1) \<longrightarrow> is_error (fst (c db)))"
  proof (cases rule: hashes.get_cases [of now "args ! 1" db])
    case (absent db')
    with assms show ?thesis
      by (auto simp: hash_reads_def hash_read_defs hash_views split: sum.splits prod.splits)
  next
    case (wrong v t db')
    with assms show ?thesis
      by (auto simp: hash_reads_def hash_read_defs hash_views hscan_opts_error split: sum.splits prod.splits)
  next
    case (present h t db')
    with assms show ?thesis
      by (auto simp: hash_reads_def hash_read_defs hash_views split: sum.splits prod.splits)
  qed
  then show "live now (snd (c db)) = live now db" and "db_ok db \<Longrightarrow> db_ok (snd (c db))"
    and "\<not> hash_key now db (args ! 1) \<Longrightarrow> is_error (fst (c db))" by blast+
qed

lemma hset_args_pairs: "4 \<le> length args \<Longrightarrow> pairs_of (drop 2 args) \<noteq> []"
  by (cases args rule: pairs_of.cases; cases "drop 2 args" rule: pairs_of.cases) auto

lemma distinct_insert [simp]: "distinct (map fst h) \<Longrightarrow> distinct (map fst (fst (hm_insert kv h)))"
  by (simp add: hm_insert_def distinct_update)

lemmas hash_write_defs = hset_def hsetnx_def hdel_def hincrby_def get_hash_def
  get_or_create_hash_def case_prod_unfold Let_def

lemma hash_writes_aux:
  assumes "c \<in> set (hash_writes now args)"
  shows "db_ok db \<Longrightarrow> db_ok (snd (c db))"
    and "\<not> hash_key now db (args ! 1) \<Longrightarrow> is_error (fst (c db)) \<and> live now (snd (c db)) = live now db"
proof -
  have e: "distinct (map fst ([] :: (bytes \<times> bytes) list))" by simp
  have nonempty: "fst (count_steps hm_insert (pairs_of (drop 2 args)) h) \<noteq> []" if "4 \<le> length args" for h
    using that by (simp add: count_steps_insert_nonempty hset_args_pairs)
  have "(db_ok db \<longrightarrow> db_ok (snd (c db))) \<and>
    (\<not> hash_key now db (args ! 1) \<longrightarrow> is_error (fst (c db)) \<and> live now (snd (c db)) = live now db)"
  proof (cases rule: hashes.get_cases [of now "args ! 1" db])
    case (absent db1)
    note g = this
    show ?thesis
    proof (cases rule: hashes.create_cases [of now "args ! 1" db])
      case (created db2)
      with g assms nonempty show ?thesis
        by (auto simp: hash_writes_def hash_write_defs hash_views hm_insert_nonempty hm.ins_all [OF e]
            checked_add_i64_def parse_int_ok
            intro!: db_ok_write_but split: sum.splits option.splits)
    qed (use g in auto)
  next
    case (wrong v t db1)
    note g = this
    show ?thesis
    proof (cases rule: hashes.create_cases [of now "args ! 1" db])
      case (wrong v' t' db2)
      with g assms show ?thesis
        by (auto simp: hash_writes_def hash_write_defs hash_views split: sum.splits)
    qed (use g in \<open>auto simp: hashes.as_mk\<close>)
  next
    case (present h t db1)
    note g = this
    show ?thesis
    proof (cases rule: hashes.create_cases [of now "args ! 1" db])
      case (present h' t' db2)
      then have d: "db_ok db \<Longrightarrow> distinct (map fst h)" using db_ok_live_hash g by auto
      obtain db3 where "get_or_create_as as_hash (HashV []) now (args ! 1) db1 = (Inr h, db3)"
        and "db_ok db1 \<longrightarrow> db_ok db3" 
        using g by (cases rule: hashes.create_cases [of now "args ! 1" db1]) auto
      with g present assms nonempty d show ?thesis
        by (auto simp: hash_writes_def hash_write_defs hash_views hm_insert_nonempty hm.ins_all
            hm.del_all intro!: db_ok_write db_ok_write_remove db_ok_but_any split: sum.splits option.splits)
    qed (use g in auto)
  qed
  then show "db_ok db \<Longrightarrow> db_ok (snd (c db))"
    and "\<not> hash_key now db (args ! 1) \<Longrightarrow> is_error (fst (c db)) \<and> live now (snd (c db)) = live now db"
    by blast+
qed

text \<open>
  No hash command, given any arguments, touches a key that holds a value of another type: it
  replies with an error and the live contents of the database stay as they are.
\<close>

theorem hash_wrong_type:
  assumes "\<not> hash_key now db (args ! 1)"
    and "c \<in> set (hash_reads now args @ hash_writes now args)"
  shows "is_error (fst (c db)) \<and> live now (snd (c db)) = live now db"
  using assms hash_reads_aux [of c now args db] hash_writes_aux [of c now args db] by auto

definition string_demo :: db where
  "string_demo = [([115], \<lparr>e_value = StringV (ascii ''41''), e_expire_at = Some 9\<rparr>)]"

theorem hash_wrong_type_witness:
  "is_error (fst (hincrby 5 [ascii ''hincrby'', [115], [1], ascii ''1''] string_demo))"
proof -
  have "\<not> hash_key 5 string_demo ([ascii ''hincrby'', [115], [1], ascii ''1''] ! 1)"
    by (simp add: hash_key_def live_def string_demo_def expired_def entry_pair_def)
  from hash_wrong_type [OF this] show ?thesis by (simp add: hash_writes_def)
qed

text \<open>
  Every hash command but \<open>HINCRBYFLOAT\<close> keeps the invariant of the database: keys and
  fields stay distinct and no empty hash is left behind.
\<close>

theorem hash_commands_db_ok:
  assumes "db_ok db" and "c \<in> set (hash_reads now args @ hash_writes now args)"
  shows "db_ok (snd (c db))"
  using assms hash_reads_aux [of c now args db] hash_writes_aux [of c now args db] by auto

theorem hash_commands_db_ok_witness:
  "db_ok (snd (hset 5 [ascii ''hset'', [104], [2], [21], [3], [30]] False hash_demo))"
  using hash_commands_db_ok [OF db_ok_hash_demo, of "\<lambda>db. hset 5 [ascii ''hset'', [104], [2], [21], [3], [30]] False db"
      5 "[ascii ''hset'', [104], [2], [21], [3], [30]]"]
  by (simp add: hash_writes_def)

text \<open>
  \<open>HINCRBYFLOAT\<close> does not: an infinite increment of an absent key is refused, but the key
  has been created and stays, holding an empty hash.
\<close>

theorem hincrbyfloat_leaves_empty_hash:
  assumes "live now db (args ! 1) = None" and "length args = 4"
    and "parse_float (args ! 3) = Inr d" and "is_infinite d"
  shows "is_error (fst (hincrbyfloat now args db))
    \<and> live now (snd (hincrbyfloat now args db)) (args ! 1) = Some (HashV [], None)"
proof (cases rule: hashes.create_cases [of now "args ! 1" db])
  case (created db')
  have "\<not> is_nan d" using assms(4) by (simp add: is_nan_def is_infinite_def)
  moreover have "\<not> is_nan f64_zero" "\<not> is_infinite f64_zero"
    by (simp_all add: f64_zero_def is_nan_def is_infinite_def mk_f64_simps inf_mag_def)
  ultimately have "is_infinite (f64_add f64_zero d)" using assms(4) by (simp add: f64_add_def)
  with created assms show ?thesis
    by (simp add: hincrbyfloat_def get_or_create_hash_def Let_def)
qed (use assms in auto)

theorem hincrbyfloat_leaves_empty_hash_witness:
  "live 5 (snd (hincrbyfloat 5 [ascii ''hincrbyfloat'', [104], [1], ascii ''inf''] [])) [104] =
     Some (HashV [], None)"
proof -
  have "parse_float (ascii ''inf'') = Inr f64_inf"
    by (simp add: parse_float_def parse_f64_def ascii_def Let_def to_ascii_uppercase_def
        ascii_upper_byte_def trim_printable f64_inf_def is_nan_def mk_f64_simps inf_mag_def)
  moreover have "is_infinite f64_inf" by (simp add: f64_inf_def is_infinite_def mk_f64_simps inf_mag_def)
  ultimately show ?thesis
    using hincrbyfloat_leaves_empty_hash [of 5 "[]" "[ascii ''hincrbyfloat'', [104], [1], ascii ''inf'']" f64_inf]
    by (simp add: live_def)
qed

text \<open>
  \<open>HINCRBY\<close> is 64-bit addition on the decimal text of the field (0 when it is missing): in
  range it stores and replies with the sum, out of range it is an error that changes nothing.
\<close>

theorem hincrby_correct:
  assumes "hash_key now db (args ! 1)" and "length args = 4" and "parse_int (args ! 3) = Inr d"
    and "(case hash_at now db (args ! 1) (args ! 2) of Some v \<Rightarrow> int_of_bytes v | None \<Rightarrow> Some 0) = Some c"
  shows "if i64_ok (c + d)
    then fst (hincrby now args db) = Integer (c + d)
      \<and> hash_at now (snd (hincrby now args db)) (args ! 1) =
          (hash_at now db (args ! 1))(args ! 2 \<mapsto> dec_int (c + d))
      \<and> live_ttl now (snd (hincrby now args db)) (args ! 1) = live_ttl now db (args ! 1)
    else is_error (fst (hincrby now args db)) \<and> live now (snd (hincrby now args db)) = live now db"
proof (cases rule: hashes.create_cases [of now "args ! 1" db])
  case (wrong v t db')
  with assms(1) show ?thesis by (simp add: hash_views)
next
  case (created db')
  have "i64_ok d" using assms(3) by (rule parse_int_ok)
  with created assms show ?thesis
    by (simp add: hincrby_def get_or_create_hash_def Let_def hash_at_def live_ttl_def
        checked_add_i64_def hm.look_ins [simplified] hm_insert_def live_simps fun_eq_iff)
next
  case (present h t db')
  with assms show ?thesis
    by (simp add: hincrby_def get_or_create_hash_def Let_def hash_at_def live_ttl_def
        checked_add_i64_def hm_insert_def update_conv' live_simps)
qed

theorem hincrby_correct_witness:
  "fst (hincrby 5 [ascii ''hincrby'', [104], [1], dec_int (- 7)] []) = Integer (- 7)"
  using hincrby_correct [of 5 "[]" "[ascii ''hincrby'', [104], [1], dec_int (- 7)]" "- 7" 0]
  by (simp add: hash_at_def hash_key_def live_def i64_ok_def)

end
