(* ===== verification/Cmd_Set.thy ===== *)
theory Cmd_Set
  imports Cmd
begin

text \<open>
  The set commands (src/commands/set.rs). A \<open>HashSet\<close> is a list without repetitions in iteration
  order. The commands that draw members at random take and return the state of the generator;
  they index the member list only where it is not empty, which \<open>db_ok\<close> guarantees for a stored
  set.
\<close>

section \<open>The handlers\<close>

definition hs_insert :: "bytes \<Rightarrow> bytes list \<Rightarrow> bytes list \<times> bool" where
  "hs_insert m s = (if m \<in> set s then (s, False) else (s @ [m], True))"

definition hs_remove :: "bytes \<Rightarrow> bytes list \<Rightarrow> bytes list \<times> bool" where
  "hs_remove m s = (remove1 m s, m \<in> set s)"

definition sadd :: "u64 \<Rightarrow> bytes list \<Rightarrow> db \<Rightarrow> frame \<times> db" where
  "sadd now args db =
     (if length args < 3 then (wrong_args ''sadd'', db)
      else case get_or_create_set now (args ! 1) db of
        (Inl _, db) \<Rightarrow> (wrongtype, db)
      | (Inr s, db) \<Rightarrow>
          let (s, added) = count_steps hs_insert (drop 2 args) s
          in (Integer (int added), db_write (args ! 1) (SetV s) db))"

definition srem :: "u64 \<Rightarrow> bytes list \<Rightarrow> db \<Rightarrow> frame \<times> db" where
  "srem now args db =
     (if length args < 3 then (wrong_args ''srem'', db)
      else case get_set now (args ! 1) db of
        (Inr None, db) \<Rightarrow> (Integer 0, db)
      | (Inl _, db) \<Rightarrow> (wrongtype, db)
      | (Inr (Some _), db) \<Rightarrow>
          (case get_or_create_set now (args ! 1) db of
             (Inl _, db) \<Rightarrow> (wrongtype, db)
           | (Inr s, db) \<Rightarrow>
               let (s, removed) = count_steps hs_remove (drop 2 args) s;
                   db = db_write (args ! 1) (SetV s) db
               in (Integer (int removed), db_remove_if_empty (args ! 1) db)))"

definition smembers :: "u64 \<Rightarrow> bytes list \<Rightarrow> db \<Rightarrow> frame \<times> db" where
  "smembers now args db =
     (if length args \<noteq> 2 then (wrong_args ''smembers'', db)
      else case get_set now (args ! 1) db of
        (Inr (Some s), db) \<Rightarrow> (SetF (map Bulk s), db)
      | (Inr None, db) \<Rightarrow> (SetF [], db)
      | (Inl _, db) \<Rightarrow> (wrongtype, db))"

definition sismember :: "u64 \<Rightarrow> bytes list \<Rightarrow> db \<Rightarrow> frame \<times> db" where
  "sismember now args db =
     (if length args \<noteq> 3 then (wrong_args ''sismember'', db)
      else case get_set now (args ! 1) db of
        (Inr (Some s), db) \<Rightarrow> (Integer (bool_int (args ! 2 \<in> set s)), db)
      | (Inr None, db) \<Rightarrow> (Integer 0, db)
      | (Inl _, db) \<Rightarrow> (wrongtype, db))"

definition smismember :: "u64 \<Rightarrow> bytes list \<Rightarrow> db \<Rightarrow> frame \<times> db" where
  "smismember now args db =
     (if length args < 3 then (wrong_args ''smismember'', db)
      else case get_set now (args ! 1) db of
        (Inr (Some s), db) \<Rightarrow> (Array (map (\<lambda>m. Integer (bool_int (m \<in> set s))) (drop 2 args)), db)
      | (Inr None, db) \<Rightarrow> (Array (map (\<lambda>_. Integer 0) (drop 2 args)), db)
      | (Inl _, db) \<Rightarrow> (wrongtype, db))"

definition scard :: "u64 \<Rightarrow> bytes list \<Rightarrow> db \<Rightarrow> frame \<times> db" where
  "scard now args db =
     (if length args \<noteq> 2 then (wrong_args ''scard'', db)
      else case get_set now (args ! 1) db of
        (Inr (Some s), db) \<Rightarrow> (Integer (int (length s)), db)
      | (Inr None, db) \<Rightarrow> (Integer 0, db)
      | (Inl _, db) \<Rightarrow> (wrongtype, db))"

text \<open>The optional count argument of \<open>SPOP\<close>.\<close>

definition spop_count :: "bytes list \<Rightarrow> frame + nat option" where
  "spop_count args =
     (if length args = 3 then
        (case parse_int (args ! 2) of
           Inl e \<Rightarrow> Inl e
         | Inr n \<Rightarrow> if 0 \<le> n then Inr (Some (nat n))
                    else Inl (frame_err (ascii ''value is out of range, must be positive'')))
      else Inr None)"

definition spop :: "u64 \<Rightarrow> u64 \<Rightarrow> bytes list \<Rightarrow> db \<Rightarrow> rng \<Rightarrow> frame \<times> db \<times> rng" where
  "spop now nanos args db st =
     (if length args < 2 \<or> 3 < length args then (wrong_args ''spop'', db, st)
      else case spop_count args of
        Inl e \<Rightarrow> (e, db, st)
      | Inr count \<Rightarrow>
          (case get_set now (args ! 1) db of
             (Inl _, db) \<Rightarrow> (wrongtype, db, st)
           | (Inr None, db) \<Rightarrow> (if count \<noteq> None then SetF [] else Null, db, st)
           | (Inr (Some members), db) \<Rightarrow>
               if count = None \<and> members = [] then (Null, db, st)
               else
                 let (chosen, st) =
                       (case count of
                          None \<Rightarrow> (let (i, st) = rand_index nanos (length members) st
                                   in ([members ! i], st))
                        | Some n \<Rightarrow> distinct_sample nanos members n st);
                     db = (case get_or_create_set now (args ! 1) db of
                             (Inr s, db) \<Rightarrow>
                               db_write (args ! 1) (SetV (fst (count_steps hs_remove chosen s))) db
                           | (Inl _, db) \<Rightarrow> db);
                     db = db_remove_if_empty (args ! 1) db
                 in (if count = None then Bulk (hd chosen) else SetF (map Bulk chosen), db, st)))"

definition srandmember :: "u64 \<Rightarrow> u64 \<Rightarrow> bytes list \<Rightarrow> db \<Rightarrow> rng \<Rightarrow> frame \<times> db \<times> rng" where
  "srandmember now nanos args db st =
     (if length args < 2 \<or> 3 < length args then (wrong_args ''srandmember'', db, st)
      else case get_set now (args ! 1) db of
        (Inl _, db) \<Rightarrow> (wrongtype, db, st)
      | (Inr None, db) \<Rightarrow> (if length args = 3 then Array [] else Null, db, st)
      | (Inr (Some members), db) \<Rightarrow>
          if length args = 2 then
            if members = [] then (Null, db, st)
            else let (i, st) = rand_index nanos (length members) st in (Bulk (members ! i), db, st)
          else case parse_int (args ! 2) of
            Inl e \<Rightarrow> (e, db, st)
          | Inr count \<Rightarrow>
              let (picks, st) =
                (if count < 0 then repeat_sample nanos members (usize_of_i64 (i64 (- count))) st
                 else distinct_sample nanos members (nat count) st)
              in (Array (map Bulk picks), db, st))"

definition smove :: "u64 \<Rightarrow> bytes list \<Rightarrow> db \<Rightarrow> frame \<times> db" where
  "smove now args db =
     (if length args \<noteq> 4 then (wrong_args ''smove'', db)
      else let src = args ! 1; dst = args ! 2; member = args ! 3 in
      case get_set now dst db of
        (Inl _, db) \<Rightarrow> (wrongtype, db)
      | (Inr _, db) \<Rightarrow>
          (case get_set now src db of
             (Inl _, db) \<Rightarrow> (wrongtype, db)
           | (Inr s, db) \<Rightarrow>
               if (case s of Some s \<Rightarrow> member \<notin> set s | None \<Rightarrow> True) then (Integer 0, db)
               else
                 let db = (case get_or_create_set now src db of
                             (Inr s, db) \<Rightarrow> db_write src (SetV (fst (hs_remove member s))) db
                           | (Inl _, db) \<Rightarrow> db);
                     db = db_remove_if_empty src db;
                     db = (case get_or_create_set now dst db of
                             (Inr d, db) \<Rightarrow> db_write dst (SetV (fst (hs_insert member d))) db
                           | (Inl _, db) \<Rightarrow> db)
                 in (Integer 1, db)))"

datatype setop_kind = Union | Inter | Diff

fun compute_setop :: "bytes list list \<Rightarrow> setop_kind \<Rightarrow> bytes list" where
  "compute_setop sets Union = remdups (concat sets)"
| "compute_setop [] _ = []"
| "compute_setop (base # sets) Inter = filter (\<lambda>m. \<forall>s\<in>set sets. m \<in> set s) base"
| "compute_setop (base # sets) Diff = filter (\<lambda>m. \<not> (\<exists>s\<in>set sets. m \<in> set s)) base"

text \<open>Reading the operands in order; a missing key is an empty set.\<close>

fun read_sets :: "u64 \<Rightarrow> bytes list \<Rightarrow> db \<Rightarrow> (wrong_type + bytes list list) \<times> db" where
  "read_sets now [] db = (Inr [], db)"
| "read_sets now (k # ks) db =
     (case get_set now k db of
        (Inl e, db) \<Rightarrow> (Inl e, db)
      | (Inr s, db) \<Rightarrow>
          (case read_sets now ks db of
             (Inl e, db) \<Rightarrow> (Inl e, db)
           | (Inr ss, db) \<Rightarrow> (Inr ((case s of Some s \<Rightarrow> s | None \<Rightarrow> []) # ss), db)))"

definition setop :: "u64 \<Rightarrow> bytes list \<Rightarrow> setop_kind \<Rightarrow> bool \<Rightarrow> db \<Rightarrow> frame \<times> db" where
  "setop now args op store db =
     (if length args < (if store then 3 else 2) then (wrong_args ''sunion'', db)
      else case read_sets now (if store then drop 2 args else drop 1 args) db of
        (Inl _, db) \<Rightarrow> (wrongtype, db)
      | (Inr sets, db) \<Rightarrow>
          let result = compute_setop sets op in
          if store then
            (Integer (int (length result)),
             if result = [] then fst (db_remove now (args ! 1) db)
             else db_set (args ! 1) (SetV result) db)
          else (SetF (map Bulk result), db))"

fun sintercard_opts :: "bytes list \<Rightarrow> nat \<Rightarrow> frame + nat" where
  "sintercard_opts [] limit = Inr limit"
| "sintercard_opts [a] limit = Inl syntax_error"
| "sintercard_opts (a # b # rest) limit =
     (if upper a = ascii ''LIMIT'' then
        (case parse_int b of
           Inr n \<Rightarrow> if 0 \<le> n then sintercard_opts rest (nat n)
                    else Inl (frame_err (ascii ''LIMIT can'' @ [39] @ ascii ''t be negative''))
         | Inl _ \<Rightarrow> Inl (frame_err (ascii ''LIMIT can'' @ [39] @ ascii ''t be negative'')))
      else Inl syntax_error)"

text \<open>The operand loop of \<open>SINTERCARD\<close>: a missing key ends it with the reply 0.\<close>

fun read_present :: "u64 \<Rightarrow> bytes list \<Rightarrow> db \<Rightarrow> (frame + bytes list list) \<times> db" where
  "read_present now [] db = (Inr [], db)"
| "read_present now (k # ks) db =
     (case get_set now k db of
        (Inl _, db) \<Rightarrow> (Inl wrongtype, db)
      | (Inr None, db) \<Rightarrow> (Inl (Integer 0), db)
      | (Inr (Some s), db) \<Rightarrow>
          (case read_present now ks db of
             (Inl e, db) \<Rightarrow> (Inl e, db)
           | (Inr ss, db) \<Rightarrow> (Inr (s # ss), db)))"

definition numkeys_error :: frame where
  "numkeys_error = frame_err (ascii ''numkeys should be greater than 0'')"

definition sintercard :: "u64 \<Rightarrow> bytes list \<Rightarrow> db \<Rightarrow> frame \<times> db" where
  "sintercard now args db =
     (if length args < 3 then (wrong_args ''sintercard'', db)
      else case parse_int (args ! 1) of
        Inl _ \<Rightarrow> (numkeys_error, db)
      | Inr n \<Rightarrow>
          if n \<le> 0 then (numkeys_error, db)
          else if length args < 2 + nat n then
            (frame_err (ascii ''Number of keys can'' @ [39] @ ascii ''t be greater than number of args''), db)
          else case sintercard_opts (drop (2 + nat n) args) 0 of
            Inl e \<Rightarrow> (e, db)
          | Inr limit \<Rightarrow>
              (case read_present now (take (nat n) (drop 2 args)) db of
                 (Inl f, db) \<Rightarrow> (f, db)
               | (Inr sets, db) \<Rightarrow>
                   let inter = length (compute_setop sets Inter)
                   in (Integer (int (if limit = 0 then inter else min inter limit)), db)))"

fun sscan_opts :: "bytes list \<Rightarrow> bytes option \<Rightarrow> frame + bytes option" where
  "sscan_opts [] pattern = Inr pattern"
| "sscan_opts [a] pattern = Inl syntax_error"
| "sscan_opts (a # b # rest) pattern =
     (if upper a = ascii ''MATCH'' then sscan_opts rest (Some b)
      else if upper a = ascii ''COUNT'' then sscan_opts rest pattern
      else Inl syntax_error)"

definition sscan :: "u64 \<Rightarrow> bytes list \<Rightarrow> db \<Rightarrow> frame \<times> db" where
  "sscan now args db =
     (if length args < 3 then (wrong_args ''sscan'', db)
      else case sscan_opts (drop 3 args) None of
        Inl e \<Rightarrow> (e, db)
      | Inr pattern \<Rightarrow>
          (case get_set now (args ! 1) db of
             (Inl _, db) \<Rightarrow> (wrongtype, db)
           | (Inr s, db) \<Rightarrow>
               (Array [Bulk (ascii ''0''),
                       Array (map Bulk (filter (matches_opt pattern)
                         (case s of Some s \<Rightarrow> s | None \<Rightarrow> [])))], db)))"

section \<open>The interface of a set\<close>

interpretation hs: keyed_store set "\<lambda>(m, _ :: unit). hs_insert m" hs_remove distinct
  by unfold_locales (auto simp: hs_insert_def hs_remove_def)

lemma count_steps_map: "count_steps f (map g xs) s = count_steps (\<lambda>x. f (g x)) xs s"
  by (induction xs arbitrary: s) simp_all

lemma sadd_all:
  assumes "distinct s"
  shows "distinct (fst (count_steps hs_insert ms s))"
    and "set (fst (count_steps hs_insert ms s)) = set s \<union> set ms"
    and "snd (count_steps hs_insert ms s) = card (set ms - set s)"
  using hs.ins_all [OF assms, of "map (\<lambda>m. (m, ())) ms"]
  by (simp_all add: count_steps_map image_image)

text \<open>The abstract set at a key, and the keys that set commands accept.\<close>

definition set_at :: "u64 \<Rightarrow> db \<Rightarrow> bytes \<Rightarrow> bytes set" where
  "set_at now db k = (case live now db k of Some (SetV s, _) \<Rightarrow> set s | _ \<Rightarrow> {})"

definition set_key :: "u64 \<Rightarrow> db \<Rightarrow> bytes \<Rightarrow> bool" where
  "set_key now db k \<longleftrightarrow> (case live now db k of None \<Rightarrow> True | Some (v, _) \<Rightarrow> as_set v \<noteq> None)"

lemma set_views:
  "live now db k = None \<Longrightarrow> set_key now db k"
  "live now db k = Some (SetV s, t) \<Longrightarrow> set_key now db k"
  "live now db k = Some (v, t) \<Longrightarrow> as_set v = None \<Longrightarrow> \<not> set_key now db k"
  "live now db k = None \<Longrightarrow> set_at now db k = {}"
  "live now db k = Some (SetV s, t) \<Longrightarrow> set_at now db k = set s"
  "live now db k = None \<Longrightarrow> live_ttl now db k = None"
  "live now db k = Some (v, t) \<Longrightarrow> live_ttl now db k = t"
  by (simp_all add: set_key_def set_at_def live_ttl_def)

lemma db_ok_live_set: "db_ok db \<Longrightarrow> live now db k = Some (SetV s, t) \<Longrightarrow> distinct s \<and> s \<noteq> []"
  using db_ok_live [of db now k "SetV s" t] by simp

lemma nonempty_union: "ms \<noteq> [] \<Longrightarrow> set xs = A \<union> set ms \<Longrightarrow> xs \<noteq> []"
  by auto

lemma sadd_aux:
  assumes "db_ok db" and "set_key now db k" and "3 \<le> length args" and "k = args ! 1"
  obtains s where "distinct s" and "s \<noteq> []" and "set s = set_at now db k \<union> set (drop 2 args)"
    and "fst (sadd now args db) = Integer (int (card (set (drop 2 args) - set_at now db k)))"
    and "live now (snd (sadd now args db)) = (live now db)(k \<mapsto> (SetV s, live_ttl now db k))"
    and "db_ok (snd (sadd now args db))"
proof (cases rule: sets.create_cases [of now k db])
  case (wrong v t db')
  with assms(2) show ?thesis by (simp add: set_views)
next
  case (created db')
  have d: "distinct ([] :: bytes list)" by simp
  note ins = sadd_all [OF d, of "drop 2 args"]
  have ne: "fst (count_steps hs_insert (drop 2 args) []) \<noteq> []"
    using nonempty_union [OF _ ins(2)] assms(3) by simp
  show ?thesis using that [of "fst (count_steps hs_insert (drop 2 args) [])"] created ins assms ne
    by (simp add: sadd_def get_or_create_set_def case_prod_unfold Let_def live_simps set_views
        db_ok_write_but)
next
  case (present s t db')
  then have d: "distinct s" using db_ok_live_set [OF assms(1)] by blast
  note ins = sadd_all [OF d, of "drop 2 args"]
  have ne: "fst (count_steps hs_insert (drop 2 args) s) \<noteq> []"
    using nonempty_union [OF _ ins(2)] assms(3) by simp
  show ?thesis using that [of "fst (count_steps hs_insert (drop 2 args) s)"] present ins assms ne
    by (simp add: sadd_def get_or_create_set_def case_prod_unfold Let_def live_simps set_views
        db_ok_write)
qed

lemma srem_aux:
  assumes "db_ok db" and "live now db k = Some (SetV s, t)" and "3 \<le> length args" and "k = args ! 1"
  obtains s' where "distinct s'" and "set s' = set s - set (drop 2 args)"
    and "fst (srem now args db) = Integer (int (card (set (drop 2 args) \<inter> set s)))"
    and "live now (snd (srem now args db)) =
           (live now db)(k := (if s' = [] then None else Some (SetV s', t)))"
    and "db_ok (snd (srem now args db))"
proof -
  have d: "distinct s" using db_ok_live_set [OF assms(1,2)] by blast
  note del = hs.del_all [OF d, of "drop 2 args"]
  obtain db1 where g1: "get_as as_set now k db = (Inr (Some s), db1)"
    and l1: "live now db1 = live now db" and o1: "db_ok db1"
    using assms by (cases rule: sets.get_cases [of now k db]) auto
  obtain db2 where g2: "get_or_create_as as_set (SetV []) now k db1 = (Inr s, db2)"
    and l2: "live now db2 = live now db" and o2: "db_ok db2"
    using assms l1 o1 by (cases rule: sets.create_cases [of now k db1]) auto
  show ?thesis
    using that [of "fst (count_steps hs_remove (drop 2 args) s)"] del g1 g2 l2 o2 assms
    by (simp add: srem_def get_set_def get_or_create_set_def case_prod_unfold Let_def live_simps
        db_ok_write_remove db_ok_but_any)
qed

section \<open>Correctness\<close>

text \<open>
  \<open>SADD\<close> on a key that is absent or holds a set adds all the members, replies with the number
  that were new, keeps the expiry and touches no other key.
\<close>

theorem sadd_correct:
  assumes "db_ok db" and "set_key now db (args ! 1)" and "3 \<le> length args"
  shows "fst (sadd now args db) = Integer (int (card (set (drop 2 args) - set_at now db (args ! 1))))
    \<and> set_at now (snd (sadd now args db)) (args ! 1) = set_at now db (args ! 1) \<union> set (drop 2 args)
    \<and> live_ttl now (snd (sadd now args db)) (args ! 1) = live_ttl now db (args ! 1)
    \<and> (\<forall>k. k \<noteq> args ! 1 \<longrightarrow> live now (snd (sadd now args db)) k = live now db k)"
proof -
  obtain s where s: "set s = set_at now db (args ! 1) \<union> set (drop 2 args)"
    and r: "fst (sadd now args db) = Integer (int (card (set (drop 2 args) - set_at now db (args ! 1))))"
    and l: "live now (snd (sadd now args db)) =
      (live now db)(args ! 1 \<mapsto> (SetV s, live_ttl now db (args ! 1)))"
    using sadd_aux [OF assms refl] by blast
  from l have "live now (snd (sadd now args db)) (args ! 1) = Some (SetV s, live_ttl now db (args ! 1))"
    by simp
  with s r l show ?thesis by (simp add: set_views)
qed

theorem sadd_correct_witness:
  "fst (sadd 5 [ascii ''sadd'', [9], [1], [2], [1]] []) = Integer 2"
  using sadd_correct [of "[]" 5 "[ascii ''sadd'', [9], [1], [2], [1]]"]
  by (simp add: set_key_def set_at_def live_def card_insert_if)

text \<open>
  \<open>SREM\<close> on a set removes exactly the listed members, replies with the number that were
  there, and drops the key when the set becomes empty.
\<close>

theorem srem_correct:
  assumes "db_ok db" and "live now db (args ! 1) = Some (SetV s, t)" and "3 \<le> length args"
  shows "fst (srem now args db) = Integer (int (card (set (drop 2 args) \<inter> set s)))
    \<and> set_at now (snd (srem now args db)) (args ! 1) = set s - set (drop 2 args)
    \<and> (live now (snd (srem now args db)) (args ! 1) = None \<longleftrightarrow> set s \<subseteq> set (drop 2 args))"
proof -
  obtain s' where s': "set s' = set s - set (drop 2 args)"
    and r: "fst (srem now args db) = Integer (int (card (set (drop 2 args) \<inter> set s)))"
    and l: "live now (snd (srem now args db)) =
      (live now db)(args ! 1 := (if s' = [] then None else Some (SetV s', t)))"
    using srem_aux [OF assms refl] by blast
  have "s' = [] \<longleftrightarrow> set s - set (drop 2 args) = {}" unfolding s' [symmetric] by simp
  moreover have "set_at now (snd (srem now args db)) (args ! 1) = set s'"
    unfolding set_at_def l by simp
  ultimately show ?thesis using r l s' by auto
qed

definition set_demo :: db where
  "set_demo = [([115], \<lparr>e_value = SetV [[1], [2], [3]], e_expire_at = Some 9\<rparr>),
               ([116], \<lparr>e_value = SetV [[2], [4]], e_expire_at = None\<rparr>)]"

lemma db_ok_set_demo: "db_ok set_demo"
  by (simp add: set_demo_def db_ok_def)

lemma live_set_demo:
  "live 5 set_demo [115] = Some (SetV [[1], [2], [3]], Some 9)"
  "live 5 set_demo [116] = Some (SetV [[2], [4]], None)"
  by (simp_all add: live_def set_demo_def expired_def entry_pair_def)

theorem srem_correct_witness:
  "live 5 (snd (srem 5 [ascii ''srem'', [115], [2], [3], [1]] set_demo)) [115] = None"
  using srem_correct [OF db_ok_set_demo, of 5 "[ascii ''srem'', [115], [2], [3], [1]]"] live_set_demo(1)
  by simp

text \<open>
  \<open>SUNION\<close>, \<open>SINTER\<close> and \<open>SDIFF\<close> as set algebra over the operands, in order.
\<close>

fun setop_spec :: "setop_kind \<Rightarrow> bytes set list \<Rightarrow> bytes set" where
  "setop_spec Union ss = \<Union> (set ss)"
| "setop_spec _ [] = {}"
| "setop_spec Inter (s # ss) = s \<inter> \<Inter> (set ss)"
| "setop_spec Diff (s # ss) = s - \<Union> (set ss)"

lemma set_compute_setop: "set (compute_setop sets op) = setop_spec op (map set sets)"
  by (cases op; cases sets) auto

lemma distinct_compute_setop: "\<forall>s\<in>set sets. distinct s \<Longrightarrow> distinct (compute_setop sets op)"
  by (cases op; cases sets) auto

lemma read_sets_cases:
  assumes "db_ok db"
  obtains (wrong) db' k where "read_sets now ks db = (Inl WrongType, db')" and "k \<in> set ks"
      and "\<not> set_key now db k" and "live now db' = live now db" and "db_ok db'"
    | (ok) sets db' where "read_sets now ks db = (Inr sets, db')"
      and "map set sets = map (set_at now db) ks" and "\<forall>k\<in>set ks. set_key now db k"
      and "\<forall>s\<in>set sets. distinct s" and "live now db' = live now db" and "db_ok db'"
proof -
  have "(\<exists>db' k. read_sets now ks db = (Inl WrongType, db') \<and> k \<in> set ks \<and> \<not> set_key now db k
          \<and> live now db' = live now db \<and> db_ok db') \<or>
        (\<exists>sets db'. read_sets now ks db = (Inr sets, db') \<and> map set sets = map (set_at now db) ks
          \<and> (\<forall>k\<in>set ks. set_key now db k) \<and> (\<forall>s\<in>set sets. distinct s)
          \<and> live now db' = live now db \<and> db_ok db')"
    using assms
  proof (induction ks arbitrary: db)
    case Nil
    then show ?case by simp
  next
    case (Cons k ks)
    show ?case
    proof (cases rule: sets.get_cases [of now k db])
      case (absent db1)
      with Cons.IH [of db1] Cons.prems show ?thesis
        by (auto simp: get_set_def set_views set_key_def set_at_def)
    next
      case (wrong v t db1)
      with Cons.prems show ?thesis by (auto simp: get_set_def set_views)
    next
      case (present s t db1)
      then have "distinct s" using db_ok_live_set Cons.prems by blast
      with present Cons.IH [of db1] Cons.prems show ?thesis
        by (auto simp: get_set_def set_views set_key_def set_at_def)
    qed
  qed
  then show ?thesis using that by blast
qed

text \<open>
  \<open>SUNIONSTORE\<close>, \<open>SINTERSTORE\<close> and \<open>SDIFFSTORE\<close> replace the destination by the union, the
  intersection or the difference of the operands, reply with its cardinality, and drop the
  destination when it is empty.
\<close>

theorem setop_store_correct:
  assumes "db_ok db" and "3 \<le> length args" and "\<forall>k\<in>set (drop 2 args). set_key now db k"
    and "result = setop_spec op (map (set_at now db) (drop 2 args))"
  shows "fst (setop now args op True db) = Integer (int (card result))
    \<and> set_at now (snd (setop now args op True db)) (args ! 1) = result
    \<and> (live now (snd (setop now args op True db)) (args ! 1) = None \<longleftrightarrow> result = {})
    \<and> (\<forall>k. k \<noteq> args ! 1 \<longrightarrow> live now (snd (setop now args op True db)) k = live now db k)"
  using assms(1)
proof (cases rule: read_sets_cases [of db now "drop 2 args"])
  case (wrong db' k)
  with assms(3) show ?thesis by blast
next
  case (ok sets db')
  let ?r = "compute_setop sets op"
  have r: "set ?r = result" using ok(2) by (simp add: set_compute_setop assms(4))
  have "length ?r = card result"
    using distinct_card [OF distinct_compute_setop [OF ok(4), of op]] by (simp add: r)
  moreover have "?r = [] \<longleftrightarrow> result = {}" unfolding r [symmetric] by simp
  ultimately show ?thesis using ok(1,5) assms(2) r
    by (auto simp: setop_def live_simps set_at_def)
qed

theorem setop_store_correct_witness:
  "set_at 5 (snd (setop 5 [ascii ''sinterstore'', [9], [115], [116]] Inter True set_demo)) [9] = {[2]}"
proof -
  have "set_at 5 set_demo [115] = {[1], [2], [3]}" "set_at 5 set_demo [116] = {[2], [4]}"
    by (simp_all add: set_at_def live_set_demo)
  moreover have "set_key 5 set_demo [115]" "set_key 5 set_demo [116]"
    by (simp_all add: set_key_def live_set_demo)
  ultimately show ?thesis
    using setop_store_correct [OF db_ok_set_demo _ _ refl, of "[ascii ''sinterstore'', [9], [115], [116]]" 5 Inter]
    by simp
qed

text \<open>
  \<open>SPOP key n\<close> takes \<open>min n (card s)\<close> distinct members out of the set: the reply lists exactly
  the members that are gone, whatever the generator yields, and an emptied set is dropped.
\<close>

theorem spop_correct:
  assumes "db_ok db" and "live now db (args ! 1) = Some (SetV s, t)" and "length args = 3"
    and "parse_int (args ! 2) = Inr (int n)"
  shows "\<exists>chosen. fst (spop now nanos args db st) = SetF (map Bulk chosen)
    \<and> distinct chosen \<and> set chosen \<subseteq> set s \<and> length chosen = min n (card (set s))
    \<and> set_at now (fst (snd (spop now nanos args db st))) (args ! 1) = set s - set chosen
    \<and> (live now (fst (snd (spop now nanos args db st))) (args ! 1) = None \<longleftrightarrow> card (set s) \<le> n)"
proof -
  have d: "distinct s" and ne: "s \<noteq> []" using db_ok_live_set [OF assms(1,2)] by auto
  obtain chosen st' where c: "distinct_sample nanos s n st = (chosen, st')"
    by (cases "distinct_sample nanos s n st")
  have ch: "distinct chosen" "set chosen \<subseteq> set s" "length chosen = min n (length s)"
    using distinct_sample_spec [OF d, of nanos n st] c by simp_all
  obtain db1 where g1: "get_as as_set now (args ! 1) db = (Inr (Some s), db1)"
    and l1: "live now db1 = live now db"
    using assms by (cases rule: sets.get_cases [of now "args ! 1" db]) auto
  obtain db2 where g2: "get_or_create_as as_set (SetV []) now (args ! 1) db1 = (Inr s, db2)"
    and l2: "live now db2 = live now db"
    using assms l1 by (cases rule: sets.create_cases [of now "args ! 1" db1]) auto
  let ?s = "fst (count_steps hs_remove chosen s)"
  note del = hs.del_all [OF d, of chosen]
  have l: "live now (fst (snd (spop now nanos args db st))) =
      (live now db)(args ! 1 := (if ?s = [] then None else Some (SetV ?s, t)))"
    and f: "fst (spop now nanos args db st) = SetF (map Bulk chosen)"
    using assms g1 g2 l2 c
    by (simp_all add: spop_def spop_count_def get_set_def get_or_create_set_def Let_def live_simps)
  have card: "length s = card (set s)" using distinct_card [OF d] by simp
  have "?s = [] \<longleftrightarrow> set ?s = {}" by simp
  also have "\<dots> \<longleftrightarrow> set s - set chosen = {}" unfolding del(2) ..
  also have "\<dots> \<longleftrightarrow> set chosen = set s" using ch(2) by auto
  also have "\<dots> \<longleftrightarrow> card (set chosen) = card (set s)" using ch(2) card_subset_eq by fastforce
  also have "\<dots> \<longleftrightarrow> card (set s) \<le> n" using distinct_card [OF ch(1)] ch(3) card by auto
  finally have e: "?s = [] \<longleftrightarrow> card (set s) \<le> n" .
  have "set_at now (fst (snd (spop now nanos args db st))) (args ! 1) = set ?s"
    unfolding set_at_def l by simp
  then have "set_at now (fst (snd (spop now nanos args db st))) (args ! 1) = set s - set chosen"
    unfolding del(2) .
  with f ch l e card show ?thesis by auto
qed

theorem spop_correct_witness:
  "\<exists>chosen. fst (spop 5 77 [ascii ''spop'', [115], dec_int 2] set_demo 1) = SetF (map Bulk chosen)
     \<and> length chosen = 2"
  using spop_correct [OF db_ok_set_demo, of 5 "[ascii ''spop'', [115], dec_int 2]" "[[1], [2], [3]]" "Some 9" 2 77 1]
    live_set_demo(1)
  by (auto simp: i64_ok_def)

subsection \<open>Frame conditions\<close>

definition set_reads :: "u64 \<Rightarrow> bytes list \<Rightarrow> (db \<Rightarrow> frame \<times> db) list" where
  "set_reads now args =
     [smembers now args, sismember now args, smismember now args, scard now args, sscan now args,
      (\<lambda>db. case srandmember now 0 args db 0 of (f, db, _) \<Rightarrow> (f, db))]"

definition set_writes :: "u64 \<Rightarrow> bytes list \<Rightarrow> (db \<Rightarrow> frame \<times> db) list" where
  "set_writes now args = [sadd now args, srem now args]"

lemmas set_read_defs = smembers_def sismember_def smismember_def scard_def sscan_def
  srandmember_def get_set_def Let_def

lemma sscan_opts_error: "sscan_opts as p = Inl e \<Longrightarrow> is_error e"
  by (induction as p rule: sscan_opts.induct) (auto split: if_splits)

lemma set_reads_aux:
  assumes "c \<in> set (set_reads now args)"
  shows "live now (snd (c db)) = live now db" and "db_ok db \<Longrightarrow> db_ok (snd (c db))"
    and "\<not> set_key now db (args ! 1) \<Longrightarrow> is_error (fst (c db))"
proof -
  have "live now (snd (c db)) = live now db \<and> (db_ok db \<longrightarrow> db_ok (snd (c db)))
    \<and> (\<not> set_key now db (args ! 1) \<longrightarrow> is_error (fst (c db)))"
  proof (cases rule: sets.get_cases [of now "args ! 1" db])
    case (absent db')
    with assms show ?thesis
      by (auto simp: set_reads_def set_read_defs set_views split: sum.splits prod.splits)
  next
    case (wrong v t db')
    with assms show ?thesis
      by (auto simp: set_reads_def set_read_defs set_views sscan_opts_error split: sum.splits prod.splits)
  next
    case (present s t db')
    with assms show ?thesis
      by (auto simp: set_reads_def set_read_defs set_views split: sum.splits prod.splits)
  qed
  then show "live now (snd (c db)) = live now db" and "db_ok db \<Longrightarrow> db_ok (snd (c db))"
    and "\<not> set_key now db (args ! 1) \<Longrightarrow> is_error (fst (c db))" by blast+
qed

lemma set_writes_aux:
  assumes "c \<in> set (set_writes now args)"
  shows "db_ok db \<Longrightarrow> db_ok (snd (c db))"
    and "\<not> set_key now db (args ! 1) \<Longrightarrow> is_error (fst (c db)) \<and> live now (snd (c db)) = live now db"
proof -
  have len: "length args < 3 \<Longrightarrow> c db = (wrong_args ''sadd'', db) \<or> c db = (wrong_args ''srem'', db)"
    using assms by (auto simp: set_writes_def sadd_def srem_def)
  have "(db_ok db \<longrightarrow> db_ok (snd (c db))) \<and>
    (\<not> set_key now db (args ! 1) \<longrightarrow> is_error (fst (c db)) \<and> live now (snd (c db)) = live now db)"
  proof (cases "length args < 3")
    case True
    from len [OF this] show ?thesis by auto
  next
    case False
    then have l3: "3 \<le> length args" by simp
    show ?thesis
    proof (cases rule: sets.get_cases [of now "args ! 1" db])
      case (absent db1)
      then have k: "set_key now db (args ! 1)" by (simp add: set_views)
      have "db_ok (snd (sadd now args db))" if "db_ok db" using sadd_aux [OF that k l3 refl] by blast
      with absent assms k l3 show ?thesis
        by (auto simp: set_writes_def srem_def get_set_def)
    next
      case (wrong v t db1)
      note g = this
      show ?thesis
      proof (cases rule: sets.create_cases [of now "args ! 1" db])
        case (wrong v' t' db2)
        with g assms show ?thesis
          by (auto simp: set_writes_def sadd_def srem_def get_set_def get_or_create_set_def set_views)
      qed (use g in \<open>auto simp: sets.as_mk\<close>)
    next
      case (present s t db1)
      then have k: "set_key now db (args ! 1)" by (simp add: set_views)
      have "db_ok (snd (sadd now args db))" "db_ok (snd (srem now args db))" if "db_ok db"
        using sadd_aux [OF that k l3 refl] srem_aux [OF that present(2) l3 refl] by blast+
      with assms k show ?thesis by (auto simp: set_writes_def)
    qed
  qed
  then show "db_ok db \<Longrightarrow> db_ok (snd (c db))"
    and "\<not> set_key now db (args ! 1) \<Longrightarrow> is_error (fst (c db)) \<and> live now (snd (c db)) = live now db"
    by blast+
qed

lemma setop_db_ok: "db_ok db \<Longrightarrow> db_ok (snd (setop now args op store db))"
proof -
  assume a: "db_ok db"
  show ?thesis
    using a
  proof (cases rule: read_sets_cases [of db now "if store then drop 2 args else drop 1 args"])
    case (wrong db' k)
    with a show ?thesis by (auto simp: setop_def)
  next
    case (ok sets db')
    with a distinct_compute_setop [OF ok(4), of op] show ?thesis
      by (auto simp: setop_def Let_def intro!: db_ok_set db_ok_remove)
  qed
qed

lemma spop_db_ok: "db_ok db \<Longrightarrow> db_ok (fst (snd (spop now nanos args db st)))"
proof -
  assume a: "db_ok db"
  show ?thesis
  proof (cases rule: sets.get_cases [of now "args ! 1" db])
    case (absent db1)
    with a show ?thesis by (auto simp: spop_def get_set_def split: sum.splits)
  next
    case (wrong v t db1)
    with a show ?thesis by (auto simp: spop_def get_set_def split: sum.splits)
  next
    case (present s t db1)
    then have d: "distinct s" using db_ok_live_set a by blast
    obtain db2 where "get_or_create_as as_set (SetV []) now (args ! 1) db1 = (Inr s, db2)" and "db_ok db2"
      using present a by (cases rule: sets.create_cases [of now "args ! 1" db1]) auto
    with present a hs.del_all [OF d] show ?thesis
      by (auto simp: spop_def get_set_def get_or_create_set_def Let_def
          intro!: db_ok_write_remove db_ok_but_any split: sum.splits prod.splits)
  qed
qed

text \<open>One member taken out of a set in place.\<close>

lemma set_take_one:
  assumes "db_ok db" and "live now db k = Some (SetV s, t)"
  obtains db' where "get_or_create_set now k db = (Inr s, db')"
    and "db_ok (db_remove_if_empty k (db_write k (SetV (remove1 m s)) db'))"
    and "live now (db_remove_if_empty k (db_write k (SetV (remove1 m s)) db')) =
      (live now db)(k := (if remove1 m s = [] then None else Some (SetV (remove1 m s), t)))"
proof -
  have d: "distinct (remove1 m s)" using db_ok_live_set [OF assms] by (simp add: distinct_remove1)
  show ?thesis
  proof (cases rule: sets.create_cases [of now k db])
    case (present s' t' db')
    with assms d that [of db'] show ?thesis
      by (simp add: get_or_create_set_def live_simps db_ok_write_remove db_ok_but_any)
  qed (use assms in \<open>auto simp: sets.as_mk\<close>)
qed

lemma set_put_one:
  assumes "db_ok db" and "set_key now db k"
  obtains s db' where "get_or_create_set now k db = (Inr s, db')" and "set s = set_at now db k"
    and "db_ok (db_write k (SetV (fst (hs_insert m s))) db')"
    and "live now (db_write k (SetV (fst (hs_insert m s))) db') =
      (live now db)(k \<mapsto> (SetV (fst (hs_insert m s)), live_ttl now db k))"
proof (cases rule: sets.create_cases [of now k db])
  case (wrong v t db')
  with assms show ?thesis by (simp add: set_views)
next
  case (created db')
  with assms that [of "[]" db'] show ?thesis
    by (simp add: get_or_create_set_def live_simps set_views hs_insert_def db_ok_write_but)
next
  case (present s t db')
  then have "distinct s" "s \<noteq> []" using db_ok_live_set [OF assms(1)] by auto
  with present assms that [of s db'] show ?thesis
    by (cases "m \<in> set s") (auto simp: get_or_create_set_def live_simps set_views hs_insert_def db_ok_write)
qed

text \<open>
  \<open>SMOVE\<close> between two different keys moves the member: it leaves the source, it is in the
  destination, the reply is 1, and the invariant holds afterwards.
\<close>

theorem smove_correct:
  assumes "db_ok db" and "length args = 4" and "args ! 1 \<noteq> args ! 2"
    and "set_key now db (args ! 2)" and "args ! 3 \<in> set_at now db (args ! 1)"
  shows "fst (smove now args db) = Integer 1
    \<and> set_at now (snd (smove now args db)) (args ! 1) = set_at now db (args ! 1) - {args ! 3}
    \<and> set_at now (snd (smove now args db)) (args ! 2) = insert (args ! 3) (set_at now db (args ! 2))
    \<and> live_ttl now (snd (smove now args db)) (args ! 2) = live_ttl now db (args ! 2)
    \<and> db_ok (snd (smove now args db))"
proof -
  obtain s t where s: "live now db (args ! 1) = Some (SetV s, t)" "args ! 3 \<in> set s"
    using assms(5) by (auto simp: set_at_def split: option.splits val.splits)
  obtain r1 db1 where g1: "get_set now (args ! 2) db = (Inr r1, db1)"
    and l1: "live now db1 = live now db" and o1: "db_ok db1"
    using assms by (cases rule: sets.get_cases [of now "args ! 2" db]) (auto simp: get_set_def set_views)
  obtain db2 where g2: "get_set now (args ! 1) db1 = (Inr (Some s), db2)"
    and l2: "live now db2 = live now db" and o2: "db_ok db2"
    using s l1 o1 by (cases rule: sets.get_cases [of now "args ! 1" db1]) (auto simp: get_set_def)
  let ?s' = "remove1 (args ! 3) s"
  obtain db3 where g3: "get_or_create_set now (args ! 1) db2 = (Inr s, db3)"
    and o3: "db_ok (db_remove_if_empty (args ! 1) (db_write (args ! 1) (SetV ?s') db3))"
    and l3: "live now (db_remove_if_empty (args ! 1) (db_write (args ! 1) (SetV ?s') db3)) =
      (live now db)(args ! 1 := (if ?s' = [] then None else Some (SetV ?s', t)))"
    using set_take_one [OF o2, of now "args ! 1" s t "args ! 3"] s l2 by auto
  let ?db3 = "db_remove_if_empty (args ! 1) (db_write (args ! 1) (SetV ?s') db3)"
  have k3: "set_key now ?db3 (args ! 2)" and v3: "set_at now ?db3 (args ! 2) = set_at now db (args ! 2)"
    and t3: "live_ttl now ?db3 (args ! 2) = live_ttl now db (args ! 2)"
    using assms(3,4) l3 by (simp_all add: set_key_def set_at_def live_ttl_def)
  obtain d db4 where g4: "get_or_create_set now (args ! 2) ?db3 = (Inr d, db4)"
    and d: "set d = set_at now ?db3 (args ! 2)"
    and o4: "db_ok (db_write (args ! 2) (SetV (fst (hs_insert (args ! 3) d))) db4)"
    and l4: "live now (db_write (args ! 2) (SetV (fst (hs_insert (args ! 3) d))) db4) =
      (live now ?db3)(args ! 2 \<mapsto> (SetV (fst (hs_insert (args ! 3) d)), live_ttl now ?db3 (args ! 2)))"
    by (rule set_put_one [OF o3 k3])
  have e: "smove now args db =
      (Integer 1, db_write (args ! 2) (SetV (fst (hs_insert (args ! 3) d))) db4)"
    using assms(2) g1 g2 g3 g4 s(2) by (simp add: smove_def Let_def hs_remove_def)
  have "set ?s' = set s - {args ! 3}"
    using db_ok_live_set [OF assms(1) s(1)] by simp
  moreover have "set (fst (hs_insert (args ! 3) d)) = insert (args ! 3) (set_at now db (args ! 2))"
    using d v3 by (auto simp: hs_insert_def)
  ultimately show ?thesis unfolding e fst_conv snd_conv
    using o4 l4 l3 t3 assms(3) s(1) by (auto simp: set_at_def live_ttl_def)
qed

theorem smove_correct_witness:
  "fst (smove 5 [ascii ''smove'', [115], [116], [1]] set_demo) = Integer 1"
  using smove_correct [OF db_ok_set_demo, of "[ascii ''smove'', [115], [116], [1]]" 5]
  by (simp add: set_at_def set_key_def live_set_demo)

text \<open>
  \<open>SMOVE\<close> of the only member of a set onto the same key keeps the set but loses its expiry:
  the key is dropped as empty and created afresh.
\<close>

theorem smove_same_key_loses_ttl:
  assumes "db_ok db" and "length args = 4" and "args ! 1 = args ! 2"
    and "live now db (args ! 1) = Some (SetV [args ! 3], Some t)"
  shows "live now (snd (smove now args db)) (args ! 1) = Some (SetV [args ! 3], None)"
proof -
  obtain r1 db1 where g1: "get_set now (args ! 1) db = (Inr r1, db1)"
    and l1: "live now db1 = live now db" and o1: "db_ok db1"
    using assms by (cases rule: sets.get_cases [of now "args ! 1" db]) (auto simp: get_set_def)
  obtain db2 where g2: "get_set now (args ! 1) db1 = (Inr (Some [args ! 3]), db2)"
    and l2: "live now db2 = live now db" and o2: "db_ok db2"
    using assms l1 o1 by (cases rule: sets.get_cases [of now "args ! 1" db1]) (auto simp: get_set_def)
  obtain db3 where g3: "get_or_create_set now (args ! 1) db2 = (Inr [args ! 3], db3)"
    and o3: "db_ok (db_remove_if_empty (args ! 1) (db_write (args ! 1) (SetV []) db3))"
    and l3: "live now (db_remove_if_empty (args ! 1) (db_write (args ! 1) (SetV []) db3)) =
      (live now db)(args ! 1 := None)"
    using set_take_one [OF o2, of now "args ! 1" "[args ! 3]" "Some t" "args ! 3"] assms l2 by auto
  let ?db3 = "db_remove_if_empty (args ! 1) (db_write (args ! 1) (SetV []) db3)"
  have n: "live now ?db3 (args ! 1) = None" unfolding l3 by simp
  obtain db4 where "get_or_create_set now (args ! 1) ?db3 = (Inr [], db4)"
    and "live now db4 = (live now ?db3)(args ! 1 \<mapsto> (SetV [], None))"
    using n by (cases rule: sets.create_cases [of now "args ! 1" ?db3]) (auto simp: get_or_create_set_def)
  with g1 g2 g3 assms show ?thesis
    by (simp add: smove_def Let_def hs_remove_def hs_insert_def live_simps)
qed

theorem smove_same_key_loses_ttl_witness:
  "live 5 (snd (smove 5 [ascii ''smove'', [115], [115], [7]]
     [([115], \<lparr>e_value = SetV [[7]], e_expire_at = Some 9\<rparr>)])) [115] = Some (SetV [[7]], None)"
  using smove_same_key_loses_ttl [of "[([115], \<lparr>e_value = SetV [[7]], e_expire_at = Some 9\<rparr>)]"
      "[ascii ''smove'', [115], [115], [7]]" 5 9]
  by (simp add: db_ok_def live_def expired_def entry_pair_def)

lemma smove_db_ok:
  assumes "db_ok db"
  shows "db_ok (snd (smove now args db))"
proof -
  let ?src = "args ! 1" and ?dst = "args ! 2" and ?m = "args ! 3"
  obtain r1 db1 where g1: "get_set now ?dst db = (r1, db1)"
    and l1: "live now db1 = live now db" and o1: "db_ok db1"
    and k1: "r1 \<noteq> Inl WrongType \<Longrightarrow> set_key now db ?dst"
    using assms by (cases rule: sets.get_cases [of now ?dst db]) (auto simp: get_set_def set_views)
  obtain r2 db2 where g2: "get_set now ?src db1 = (r2, db2)"
    and l2: "live now db2 = live now db" and o2: "db_ok db2"
    and k2: "\<And>s. r2 = Inr (Some s) \<Longrightarrow> \<exists>t. live now db ?src = Some (SetV s, t)"
    using o1 l1 by (cases rule: sets.get_cases [of now ?src db1]) (auto simp: get_set_def)
  show ?thesis
  proof (cases "\<exists>s. r2 = Inr (Some s) \<and> r1 \<noteq> Inl WrongType \<and> ?m \<in> set s \<and> length args = 4")
    case False
    then show ?thesis using g1 g2 o1 o2 assms wrong_type.exhaust
      by (auto simp: smove_def Let_def split: sum.splits option.splits)
  next
    case True
    then obtain s t where s: "r2 = Inr (Some s)" "r1 \<noteq> Inl WrongType" "?m \<in> set s" "length args = 4"
      and l: "live now db2 ?src = Some (SetV s, t)" using k2 l2 by auto
    obtain db3 where g3: "get_or_create_set now ?src db2 = (Inr s, db3)"
      and o3: "db_ok (db_remove_if_empty ?src (db_write ?src (SetV (remove1 ?m s)) db3))"
      and l3: "live now (db_remove_if_empty ?src (db_write ?src (SetV (remove1 ?m s)) db3)) =
        (live now db2)(?src := (if remove1 ?m s = [] then None else Some (SetV (remove1 ?m s), t)))"
      by (rule set_take_one [OF o2 l])
    let ?db3 = "db_remove_if_empty ?src (db_write ?src (SetV (remove1 ?m s)) db3)"
    have k3: "set_key now ?db3 ?dst" using k1 s(2) unfolding set_key_def l3 l2 by simp
    obtain d db4 where "get_or_create_set now ?dst ?db3 = (Inr d, db4)"
      and "db_ok (db_write ?dst (SetV (fst (hs_insert ?m d))) db4)"
      by (rule set_put_one [OF o3 k3])
    with g1 g2 g3 s show ?thesis
      by (cases r1) (auto simp: smove_def Let_def hs_remove_def intro: wrong_type.exhaust)
  qed
qed

definition set_others :: "u64 \<Rightarrow> bytes list \<Rightarrow> u64 \<Rightarrow> rng \<Rightarrow> (db \<Rightarrow> db) list" where
  "set_others now args nanos st =
     [(\<lambda>db. snd (smove now args db)), (\<lambda>db. fst (snd (spop now nanos args db st))),
      (\<lambda>db. snd (setop now args Union True db)), (\<lambda>db. snd (setop now args Inter True db)),
      (\<lambda>db. snd (setop now args Diff True db))]"

text \<open>
  Every set command keeps the invariant of the database, \<open>SMOVE\<close>, \<open>SPOP\<close> and the \<open>STORE\<close>
  commands included: keys and members stay distinct and no empty set is left behind.
\<close>

theorem set_commands_db_ok:
  assumes "db_ok db" and "c \<in> set (map (\<lambda>c db. snd (c db)) (set_reads now args @ set_writes now args)
    @ set_others now args nanos st)"
  shows "db_ok (c db)"
  using assms set_reads_aux(2) set_writes_aux(1)
  by (auto simp: set_others_def smove_db_ok spop_db_ok setop_db_ok)

theorem set_commands_db_ok_witness:
  "db_ok (snd (smove 5 [ascii ''smove'', [115], [116], [1]] set_demo))"
  using set_commands_db_ok [OF db_ok_set_demo, of "\<lambda>db. snd (smove 5 [ascii ''smove'', [115], [116], [1]] db)"
      5 "[ascii ''smove'', [115], [116], [1]]" 7 7]
  by (simp add: set_others_def)

text \<open>
  No set command that works on one key touches a key of another type: it replies with an error
  and the live contents stay as they are.
\<close>

theorem set_wrong_type:
  assumes "\<not> set_key now db (args ! 1)"
    and "c \<in> set (set_reads now args @ set_writes now args)"
  shows "is_error (fst (c db)) \<and> live now (snd (c db)) = live now db"
  using assms set_reads_aux [of c now args db] set_writes_aux [of c now args db] by auto

theorem set_wrong_type_witness:
  "is_error (fst (sadd 5 [ascii ''sadd'', [115], [1]] [([115], \<lparr>e_value = StringV [], e_expire_at = None\<rparr>)]))"
proof -
  have "\<not> set_key 5 [([115], \<lparr>e_value = StringV [], e_expire_at = None\<rparr>)] ([ascii ''sadd'', [115], [1]] ! 1)"
    by (simp add: set_key_def live_def expired_def entry_pair_def)
  from set_wrong_type [OF this] show ?thesis by (simp add: set_writes_def)
qed

end
