(* ===== verification/Cmd_List.thy ===== *)
theory Cmd_List
  imports Cmd
begin

text \<open>
  The list commands (src/commands/list.rs). A \<open>VecDeque\<close> is a list with its front at the head; an
  \<open>i64\<close> index is an \<open>int\<close>, and the casts of the limits of \<open>LREM\<close> and \<open>LPOS\<close> are written out.
\<close>

section \<open>The handlers\<close>

definition list_push :: "u64 \<Rightarrow> bytes list \<Rightarrow> bool \<Rightarrow> bool \<Rightarrow> db \<Rightarrow> frame \<times> db" where
  "list_push now args left xx db =
     (if length args < 3 then (wrong_args ''lpush'', db)
      else
        let (proceed, db) =
          (if xx then
             (case get_list now (args ! 1) db of
                (Inr (Some _), db) \<Rightarrow> (None, db)
              | (Inr None, db) \<Rightarrow> (Some (Integer 0), db)
              | (Inl _, db) \<Rightarrow> (Some wrongtype, db))
           else (None, db))
        in case proceed of
          Some f \<Rightarrow> (f, db)
        | None \<Rightarrow>
            (case get_or_create_list now (args ! 1) db of
               (Inl _, db) \<Rightarrow> (wrongtype, db)
             | (Inr l, db) \<Rightarrow>
                 let l = foldl (\<lambda>l v. if left then v # l else l @ [v]) l (drop 2 args)
                 in (Integer (int (length l)), db_write (args ! 1) (ListV l) db)))"

definition pop_count :: "bytes list \<Rightarrow> frame + nat option" where
  "pop_count args =
     (if length args = 3 then
        (case parse_int (args ! 2) of
           Inl e \<Rightarrow> Inl e
         | Inr n \<Rightarrow> if 0 \<le> n then Inr (Some (nat n))
                    else Inl (frame_err (ascii ''value is out of range, must be positive'')))
      else Inr None)"

definition pop_front :: "bytes list \<Rightarrow> bytes option \<times> bytes list" where
  "pop_front l = (case l of [] \<Rightarrow> (None, []) | x # xs \<Rightarrow> (Some x, xs))"

definition pop_back :: "bytes list \<Rightarrow> bytes option \<times> bytes list" where
  "pop_back l = (if l = [] then (None, []) else (Some (last l), butlast l))"

text \<open>The loop that pops \<open>n\<close> elements.\<close>

fun pop_loop :: "bool \<Rightarrow> nat \<Rightarrow> bytes list \<Rightarrow> frame list \<times> bytes list" where
  "pop_loop left 0 l = ([], l)"
| "pop_loop left (Suc n) l =
     (let (v, l) = (if left then pop_front l else pop_back l);
          (out, l) = pop_loop left n l
      in (case v of Some v \<Rightarrow> Bulk v # out | None \<Rightarrow> out, l))"

definition list_pop :: "u64 \<Rightarrow> bytes list \<Rightarrow> bool \<Rightarrow> db \<Rightarrow> frame \<times> db" where
  "list_pop now args left db =
     (if length args < 2 \<or> 3 < length args then (wrong_args ''lpop'', db)
      else case pop_count args of
        Inl e \<Rightarrow> (e, db)
      | Inr count \<Rightarrow>
          (case get_list_mut now (args ! 1) db of
             (Inr None, db) \<Rightarrow> (if count \<noteq> None then NullArray else Null, db)
           | (Inl _, db) \<Rightarrow> (wrongtype, db)
           | (Inr (Some l), db) \<Rightarrow>
               let (result, l) =
                 (case count of
                    None \<Rightarrow> (let (v, l) = (if left then pop_front l else pop_back l)
                             in (bulk_or_null v, l))
                  | Some n \<Rightarrow> (let (out, l) = pop_loop left (min n (length l)) l in (Array out, l)))
               in (result, db_remove_if_empty (args ! 1) (db_write (args ! 1) (ListV l) db))))"

definition llen :: "u64 \<Rightarrow> bytes list \<Rightarrow> db \<Rightarrow> frame \<times> db" where
  "llen now args db =
     (if length args \<noteq> 2 then (wrong_args ''llen'', db)
      else case get_list now (args ! 1) db of
        (Inr (Some l), db) \<Rightarrow> (Integer (int (length l)), db)
      | (Inr None, db) \<Rightarrow> (Integer 0, db)
      | (Inl _, db) \<Rightarrow> (wrongtype, db))"

definition lrange :: "u64 \<Rightarrow> bytes list \<Rightarrow> db \<Rightarrow> frame \<times> db" where
  "lrange now args db =
     (if length args \<noteq> 4 then (wrong_args ''lrange'', db)
      else case parse_two (args ! 2) (args ! 3) of
        Inl e \<Rightarrow> (e, db)
      | Inr (start, stop) \<Rightarrow>
          (case get_list now (args ! 1) db of
             (Inr None, db) \<Rightarrow> (Array [], db)
           | (Inl _, db) \<Rightarrow> (wrongtype, db)
           | (Inr (Some l), db) \<Rightarrow>
               let len = int (length l);
                   start = max (norm_index start (length l)) 0;
                   stop = norm_index stop (length l);
                   stop = (if len \<le> stop then len - 1 else stop)
               in if stop < start \<or> len \<le> start then (Array [], db)
                  else let start = (if start < 0 then 0 else start)
                       in (Array (concat (map (\<lambda>i. if i < length l then [Bulk (l ! i)] else [])
                             [nat start..<nat stop + 1])), db)))"

definition lindex :: "u64 \<Rightarrow> bytes list \<Rightarrow> db \<Rightarrow> frame \<times> db" where
  "lindex now args db =
     (if length args \<noteq> 3 then (wrong_args ''lindex'', db)
      else case parse_int (args ! 2) of
        Inl e \<Rightarrow> (e, db)
      | Inr idx \<Rightarrow>
          (case get_list now (args ! 1) db of
             (Inr None, db) \<Rightarrow> (Null, db)
           | (Inl _, db) \<Rightarrow> (wrongtype, db)
           | (Inr (Some l), db) \<Rightarrow>
               let i = norm_index idx (length l)
               in (if i < 0 then Null
                   else if nat i < length l then Bulk (l ! nat i) else Null, db)))"

definition lset :: "u64 \<Rightarrow> bytes list \<Rightarrow> db \<Rightarrow> frame \<times> db" where
  "lset now args db =
     (if length args \<noteq> 4 then (wrong_args ''lset'', db)
      else case parse_int (args ! 2) of
        Inl e \<Rightarrow> (e, db)
      | Inr idx \<Rightarrow>
          (case get_list_mut now (args ! 1) db of
             (Inr None, db) \<Rightarrow> (frame_err (ascii ''no such key''), db)
           | (Inl _, db) \<Rightarrow> (wrongtype, db)
           | (Inr (Some l), db) \<Rightarrow>
               let i = norm_index idx (length l)
               in if i < 0 \<or> length l \<le> nat i then (frame_err (ascii ''index out of range''), db)
                  else (frame_ok, db_write (args ! 1) (ListV (l[nat i := args ! 3])) db)))"

text \<open>
  The removal loop on the elements still to visit; \<open>removed\<close> counts, and the loop stops when it
  reaches \<open>limit\<close>. The loop from the back is the one from the front on the reversed list.
\<close>

fun lrem_loop :: "bytes \<Rightarrow> int \<Rightarrow> int \<Rightarrow> bytes list \<Rightarrow> bytes list \<times> int" where
  "lrem_loop target limit removed [] = ([], removed)"
| "lrem_loop target limit removed (x # xs) =
     (if removed < limit then
        if x = target then lrem_loop target limit (removed + 1) xs
        else let (ys, r) = lrem_loop target limit removed xs in (x # ys, r)
      else (x # xs, removed))"

definition lrem :: "u64 \<Rightarrow> bytes list \<Rightarrow> db \<Rightarrow> frame \<times> db" where
  "lrem now args db =
     (if length args \<noteq> 4 then (wrong_args ''lrem'', db)
      else case parse_int (args ! 2) of
        Inl e \<Rightarrow> (e, db)
      | Inr count \<Rightarrow>
          (case get_list_mut now (args ! 1) db of
             (Inr None, db) \<Rightarrow> (Integer 0, db)
           | (Inl _, db) \<Rightarrow> (wrongtype, db)
           | (Inr (Some l), db) \<Rightarrow>
               let (l, removed) =
                 (if 0 \<le> count then
                    let limit = (if count = 0 then 2 ^ 64 - 1 else usize_of_i64 count)
                    in lrem_loop (args ! 3) (i64 (int limit)) 0 l
                  else
                    let limit = usize_of_i64 (i64 (- count));
                        (l, removed) = lrem_loop (args ! 3) (int limit) 0 (rev l)
                    in (rev l, removed))
               in (Integer removed,
                   db_remove_if_empty (args ! 1) (db_write (args ! 1) (ListV l) db))))"

definition ltrim :: "u64 \<Rightarrow> bytes list \<Rightarrow> db \<Rightarrow> frame \<times> db" where
  "ltrim now args db =
     (if length args \<noteq> 4 then (wrong_args ''ltrim'', db)
      else case parse_two (args ! 2) (args ! 3) of
        Inl e \<Rightarrow> (e, db)
      | Inr (start, stop) \<Rightarrow>
          (case get_list_mut now (args ! 1) db of
             (Inr None, db) \<Rightarrow> (frame_ok, db)
           | (Inl _, db) \<Rightarrow> (wrongtype, db)
           | (Inr (Some l), db) \<Rightarrow>
               let len = int (length l);
                   start = max (norm_index start (length l)) 0;
                   stop = norm_index stop (length l);
                   start = (if start < 0 then 0 else start);
                   stop = (if len \<le> stop then len - 1 else stop);
                   l = (if stop < start \<or> len \<le> start then []
                        else drop (nat start) (take (nat stop + 1) l))
               in (frame_ok, db_remove_if_empty (args ! 1) (db_write (args ! 1) (ListV l) db))))"

definition position :: "bytes \<Rightarrow> bytes list \<Rightarrow> nat option" where
  "position x l = find (\<lambda>i. l ! i = x) [0..<length l]"

definition linsert :: "u64 \<Rightarrow> bytes list \<Rightarrow> db \<Rightarrow> frame \<times> db" where
  "linsert now args db =
     (if length args \<noteq> 5 then (wrong_args ''linsert'', db)
      else let before = (upper (args ! 2) = ascii ''BEFORE'');
               after = (upper (args ! 2) = ascii ''AFTER'') in
      if \<not> before \<and> \<not> after then (syntax_error, db)
      else case get_list_mut now (args ! 1) db of
        (Inr None, db) \<Rightarrow> (Integer 0, db)
      | (Inl _, db) \<Rightarrow> (wrongtype, db)
      | (Inr (Some l), db) \<Rightarrow>
          (case position (args ! 3) l of
             Some pos \<Rightarrow>
               let at = (if before then pos else pos + 1);
                   l = take at l @ args ! 4 # drop at l
               in (Integer (int (length l)), db_write (args ! 1) (ListV l) db)
           | None \<Rightarrow> (Integer (- 1), db)))"

text \<open>The options of \<open>LPOS\<close>: rank, count and maxlen.\<close>

fun lpos_opts :: "bytes list \<Rightarrow> int \<Rightarrow> int option \<Rightarrow> nat \<Rightarrow> frame + int \<times> int option \<times> nat" where
  "lpos_opts [] rank count maxlen = Inr (rank, count, maxlen)"
| "lpos_opts [a] rank count maxlen = Inl syntax_error"
| "lpos_opts (a # b # rest) rank count maxlen =
     (if upper a = ascii ''RANK'' then
        (case parse_int b of
           Inl e \<Rightarrow> Inl e
         | Inr n \<Rightarrow> if n = 0 then Inl (frame_err (ascii ''RANK can'' @ [39] @ ascii ''t be zero''))
                    else lpos_opts rest n count maxlen)
      else if upper a = ascii ''COUNT'' then
        (case parse_int b of
           Inl e \<Rightarrow> Inl e
         | Inr n \<Rightarrow> if 0 \<le> n then lpos_opts rest rank (Some n) maxlen
                    else Inl (frame_err (ascii ''COUNT can'' @ [39] @ ascii ''t be negative'')))
      else if upper a = ascii ''MAXLEN'' then
        (case parse_int b of
           Inl e \<Rightarrow> Inl e
         | Inr n \<Rightarrow> if 0 \<le> n then lpos_opts rest rank count (nat n)
                    else Inl (frame_err (ascii ''MAXLEN can'' @ [39] @ ascii ''t be negative'')))
      else Inl syntax_error)"

text \<open>The search loop over the indexes in the order of the rank's sign.\<close>

fun lpos_loop :: "bytes list \<Rightarrow> bytes \<Rightarrow> nat \<Rightarrow> nat option \<Rightarrow> nat list \<Rightarrow> nat \<Rightarrow> nat \<Rightarrow> nat list \<Rightarrow> nat list" where
  "lpos_loop l target maxlen want [] compared skip found = found"
| "lpos_loop l target maxlen want (i # is) compared skip found =
     (if maxlen \<noteq> 0 \<and> maxlen \<le> compared then found
      else let compared = compared + 1 in
      if l ! i = target then
        if 0 < skip then lpos_loop l target maxlen want is compared (skip - 1) found
        else let found = found @ [i] in
          (case want of
             Some w \<Rightarrow> if w \<le> length found then found
                       else lpos_loop l target maxlen want is compared skip found
           | None \<Rightarrow> found)
      else lpos_loop l target maxlen want is compared skip found)"

definition lpos :: "u64 \<Rightarrow> bytes list \<Rightarrow> db \<Rightarrow> frame \<times> db" where
  "lpos now args db =
     (if length args < 3 then (wrong_args ''lpos'', db)
      else case lpos_opts (drop 3 args) 1 None 0 of
        Inl e \<Rightarrow> (e, db)
      | Inr (rank, count, maxlen) \<Rightarrow>
          (case get_list now (args ! 1) db of
             (Inr None, db) \<Rightarrow> (if count \<noteq> None then Array [] else Null, db)
           | (Inl _, db) \<Rightarrow> (wrongtype, db)
           | (Inr (Some l), db) \<Rightarrow>
               let skip = nat \<bar>rank\<bar> - 1;
                   want = map_option (\<lambda>c. if c = 0 then 2 ^ 64 - 1 else nat c) count;
                   order = (if 0 < rank then [0..<length l] else rev [0..<length l]);
                   found = lpos_loop l (args ! 2) maxlen want order 0 skip []
               in (case count of
                     Some _ \<Rightarrow> Array (map (\<lambda>i. Integer (int i)) found)
                   | None \<Rightarrow> (case found of [] \<Rightarrow> Null | i # _ \<Rightarrow> Integer (int i)), db)))"

definition move_elem :: "u64 \<Rightarrow> bytes \<Rightarrow> bytes \<Rightarrow> bool \<Rightarrow> bool \<Rightarrow> db \<Rightarrow> frame \<times> db" where
  "move_elem now src dst from_left to_left db =
     (case get_list now dst db of
        (Inl _, db) \<Rightarrow> (wrongtype, db)
      | (Inr _, db) \<Rightarrow>
          (case get_list_mut now src db of
             (Inl _, db) \<Rightarrow> (wrongtype, db)
           | (Inr None, db) \<Rightarrow> (Null, db)
           | (Inr (Some l), db) \<Rightarrow>
               let (elem, l) = (if from_left then pop_front l else pop_back l);
                   db = db_write src (ListV l) db
               in case elem of
                    None \<Rightarrow> (Null, db)
                  | Some e \<Rightarrow>
                      let db = db_remove_if_empty src db
                      in case get_or_create_list now dst db of
                           (Inl _, db) \<Rightarrow> (wrongtype, db)
                         | (Inr d, db) \<Rightarrow>
                             (Bulk e, db_write dst (ListV (if to_left then e # d else d @ [e])) db)))"

definition rpoplpush :: "u64 \<Rightarrow> bytes list \<Rightarrow> db \<Rightarrow> frame \<times> db" where
  "rpoplpush now args db =
     (if length args \<noteq> 3 then (wrong_args ''rpoplpush'', db)
      else move_elem now (args ! 1) (args ! 2) False True db)"

definition parse_side :: "bytes \<Rightarrow> bool option" where
  "parse_side b =
     (if upper b = ascii ''LEFT'' then Some True
      else if upper b = ascii ''RIGHT'' then Some False else None)"

definition lmove :: "u64 \<Rightarrow> bytes list \<Rightarrow> db \<Rightarrow> frame \<times> db" where
  "lmove now args db =
     (if length args \<noteq> 5 then (wrong_args ''lmove'', db)
      else case parse_side (args ! 3) of
        None \<Rightarrow> (syntax_error, db)
      | Some from_left \<Rightarrow>
          (case parse_side (args ! 4) of
             None \<Rightarrow> (syntax_error, db)
           | Some to_left \<Rightarrow> move_elem now (args ! 1) (args ! 2) from_left to_left db))"

section \<open>The abstract list at a key\<close>

definition list_at :: "u64 \<Rightarrow> db \<Rightarrow> bytes \<Rightarrow> bytes list" where
  "list_at now db k = (case live now db k of Some (ListV l, _) \<Rightarrow> l | _ \<Rightarrow> [])"

definition list_key :: "u64 \<Rightarrow> db \<Rightarrow> bytes \<Rightarrow> bool" where
  "list_key now db k \<longleftrightarrow> (case live now db k of None \<Rightarrow> True | Some (v, _) \<Rightarrow> as_list v \<noteq> None)"

lemma list_views:
  "live now db k = None \<Longrightarrow> list_key now db k"
  "live now db k = Some (ListV l, t) \<Longrightarrow> list_key now db k"
  "live now db k = Some (v, t) \<Longrightarrow> as_list v = None \<Longrightarrow> \<not> list_key now db k"
  "live now db k = None \<Longrightarrow> list_at now db k = []"
  "live now db k = Some (ListV l, t) \<Longrightarrow> list_at now db k = l"
  "live now db k = None \<Longrightarrow> live_ttl now db k = None"
  "live now db k = Some (v, t) \<Longrightarrow> live_ttl now db k = t"
  by (simp_all add: list_key_def list_at_def live_ttl_def)

section \<open>Correctness\<close>

text \<open>
  \<open>LRANGE\<close> returns, in order, exactly the elements whose position lies between the two
  indexes, counting negative ones from the end.
\<close>

theorem lrange_correct:
  assumes "list_key now db (args ! 1)" and "length args = 4"
    and "parse_two (args ! 2) (args ! 3) = Inr (start, stop)"
    and "length (list_at now db (args ! 1)) < 2 ^ 63"
  shows "fst (lrange now args db) = Array (map Bulk (in_range start stop (list_at now db (args ! 1))))"
proof (cases rule: lists.get_cases [of now "args ! 1" db])
  case (absent db')
  then show ?thesis using assms by (simp add: lrange_def get_list_def list_views in_range_def)
next
  case (wrong v t db')
  then show ?thesis using assms by (simp add: list_views)
next
  case (present l t db')
  define s where "s = max (from_end start (length l)) 0"
  define e where "e = from_end stop (length l)"
  define e' where "e' = (if int (length l) \<le> e then int (length l) - 1 else e)"
  note b = in_range_bounds [OF s_def e_def e'_def]
  have n: "norm_index start (length l) = from_end start (length l)"
    "norm_index stop (length l) = e"
    using assms(4) present(2) parse_two_ok [OF assms(3)]
    by (simp_all add: list_views norm_index_from_end e_def)
  have "fst (lrange now args db) =
      (if e' < s \<or> int (length l) \<le> s then Array []
       else Array (concat (map (\<lambda>i. if i < length l then [Bulk (l ! i)] else []) [nat s..<nat e' + 1])))"
    using assms(2,3) present(1) n by (simp add: lrange_def get_list_def Let_def s_def e'_def)
  then show ?thesis using b present(2) by (simp add: list_views concat_nth_upt del: upt_Suc)
qed

theorem lrange_correct_witness:
  "fst (lrange 5 [ascii ''lrange'', [7], dec_int (- 2), dec_int 9]
     [([7], \<lparr>e_value = ListV [[1], [2], [3]], e_expire_at = None\<rparr>)]) = Array [Bulk [2], Bulk [3]]"
proof -
  let ?db = "[([7], \<lparr>e_value = ListV [[1], [2], [3]], e_expire_at = None\<rparr>)]"
  have l: "live 5 ?db [7] = Some (ListV [[1], [2], [3]], None)"
    by (simp add: live_def expired_def entry_pair_def)
  have "parse_two (dec_int (- 2)) (dec_int 9) = Inr (- 2, 9)"
    by (simp add: parse_two_def i64_ok_def)
  then show ?thesis
    using lrange_correct [of 5 ?db "[ascii ''lrange'', [7], dec_int (- 2), dec_int 9]" "- 2" 9] l
    by (simp add: list_views in_range_take_drop from_end_def)
qed

text \<open>
  \<open>LTRIM\<close> leaves exactly the elements that \<open>LRANGE\<close> with the same indexes shows, keeps the
  expiry, and drops the key when none are left.
\<close>

theorem ltrim_correct:
  assumes "live now db (args ! 1) = Some (ListV l, t)" and "length args = 4"
    and "parse_two (args ! 2) (args ! 3) = Inr (start, stop)" and "length l < 2 ^ 63"
  shows "fst (ltrim now args db) = frame_ok
    \<and> live now (snd (ltrim now args db)) = (live now db)(args ! 1 :=
        (if in_range start stop l = [] then None else Some (ListV (in_range start stop l), t)))"
proof -
  obtain db' where g: "get_as as_list now (args ! 1) db = (Inr (Some l), db')"
    and lv: "live now db' = live now db"
    using assms(1) by (cases rule: lists.get_cases [of now "args ! 1" db]) auto
  define s where "s = max (from_end start (length l)) 0"
  define e where "e = from_end stop (length l)"
  define e' where "e' = (if int (length l) \<le> e then int (length l) - 1 else e)"
  note b = in_range_bounds [OF s_def e_def e'_def]
  have n: "norm_index start (length l) = from_end start (length l)"
    "norm_index stop (length l) = e"
    using assms(4) parse_two_ok [OF assms(3)] by (simp_all add: norm_index_from_end e_def)
  let ?l = "if e' < s \<or> int (length l) \<le> s then [] else drop (nat s) (take (nat e' + 1) l)"
  have "ltrim now args db =
      (frame_ok, db_remove_if_empty (args ! 1) (db_write (args ! 1) (ListV ?l) db'))"
    using assms(2,3) g n by (simp add: ltrim_def get_list_mut_def Let_def s_def e'_def)
  moreover have "?l = in_range start stop l" using b by simp
  ultimately show ?thesis using lv assms(1) by (simp add: live_simps)
qed

theorem ltrim_correct_witness:
  "live 5 (snd (ltrim 5 [ascii ''ltrim'', [7], dec_int 1, dec_int (- 2)]
     [([7], \<lparr>e_value = ListV [[1], [2], [3]], e_expire_at = Some 8\<rparr>)])) [7] = Some (ListV [[2]], Some 8)"
proof -
  let ?db = "[([7], \<lparr>e_value = ListV [[1], [2], [3]], e_expire_at = Some 8\<rparr>)]"
  have l: "live 5 ?db [7] = Some (ListV [[1], [2], [3]], Some 8)"
    by (simp add: live_def expired_def entry_pair_def)
  have "parse_two (dec_int 1) (dec_int (- 2)) = Inr (1, - 2)"
    by (simp add: parse_two_def i64_ok_def)
  then show ?thesis
    using ltrim_correct [of 5 ?db "[ascii ''ltrim'', [7], dec_int 1, dec_int (- 2)]" "[[1], [2], [3]]" "Some 8" 1 "- 2"] l
    by (simp add: in_range_take_drop from_end_def)
qed

subsection \<open>Pushing and popping\<close>

lemma foldl_push:
  "foldl (\<lambda>l v. if left then v # l else l @ [v]) l vs = (if left then rev vs @ l else l @ vs)"
  by (induction vs arbitrary: l) auto

lemma pop_loop_take:
  "n \<le> length l \<Longrightarrow>
   pop_loop left n l = (if left then (map Bulk (take n l), drop n l)
     else (map Bulk (take n (rev l)), take (length l - n) l))"
proof (induction left n l rule: pop_loop.induct)
  case (1 left l)
  then show ?case by simp
next
  case (2 left n l)
  then have ne: "l \<noteq> []" by auto
  show ?case
  proof (cases left)
    case True
    then show ?thesis using "2" ne by (cases l) (auto simp: pop_front_def)
  next
    case False
    then show ?thesis using "2" ne
      by (cases l rule: rev_cases) (auto simp: pop_back_def)
  qed
qed

text \<open>
  \<open>LPUSH\<close> puts its values, last one first, in front of the list and \<open>RPUSH\<close> puts them in order
  behind it; the reply is the new length, the expiry stays and no other key changes.
\<close>

theorem push_correct:
  assumes "list_key now db (args ! 1)" and "3 \<le> length args"
  shows "list_at now (snd (list_push now args left False db)) (args ! 1) =
      (if left then rev (drop 2 args) @ list_at now db (args ! 1)
       else list_at now db (args ! 1) @ drop 2 args)
    \<and> fst (list_push now args left False db) =
      Integer (int (length (list_at now db (args ! 1)) + length (drop 2 args)))
    \<and> live_ttl now (snd (list_push now args left False db)) (args ! 1) = live_ttl now db (args ! 1)
    \<and> (\<forall>k. k \<noteq> args ! 1 \<longrightarrow> live now (snd (list_push now args left False db)) k = live now db k)"
proof (cases rule: lists.create_cases [of now "args ! 1" db])
  case (wrong v t db')
  then show ?thesis using assms by (simp add: list_views)
next
  case (created db')
  then show ?thesis using assms(2)
    by (simp add: list_push_def get_or_create_list_def Let_def foldl_push live_simps list_at_def live_ttl_def)
next
  case (present l t db')
  then show ?thesis using assms(2)
    by (simp add: list_push_def get_or_create_list_def Let_def foldl_push live_simps list_at_def live_ttl_def)
qed

theorem push_correct_witness:
  "list_at 5 (snd (list_push 5 [ascii ''lpush'', [7], [1], [2]] True False [])) [7] = [[2], [1]]"
  using push_correct [of 5 "[]" "[ascii ''lpush'', [7], [1], [2]]" True]
  by (simp add: list_key_def list_at_def live_def)

text \<open>
  \<open>LPOP key n\<close> and \<open>RPOP key n\<close> hand out the first \<open>n\<close> elements from their end, in the order
  they are popped, leave the rest, and drop the key when nothing is left.
\<close>

theorem pop_correct:
  assumes "live now db (args ! 1) = Some (ListV l, t)" and "length args = 3"
    and "parse_int (args ! 2) = Inr (int n)"
  defines "m \<equiv> min n (length l)"
  shows "fst (list_pop now args left db) =
      Array (map Bulk (take m (if left then l else rev l)))
    \<and> live now (snd (list_pop now args left db)) = (live now db)(args ! 1 :=
        (if length l \<le> n then None
         else Some (ListV (if left then drop n l else take (length l - n) l), t)))"
proof -
  obtain db' where g: "get_as as_list now (args ! 1) db = (Inr (Some l), db')"
    and lv: "live now db' = live now db"
    using assms(1) by (cases rule: lists.get_cases [of now "args ! 1" db]) auto
  have p: "pop_loop left m l = (if left then (map Bulk (take m l), drop m l)
     else (map Bulk (take m (rev l)), take (length l - m) l))"
    by (rule pop_loop_take) (simp add: m_def)
  show ?thesis using assms(1-3) g lv p
    by (auto simp: list_pop_def pop_count_def get_list_mut_def Let_def live_simps m_def [symmetric])
      (auto simp: m_def fun_eq_iff min_def split: if_splits)
qed

theorem pop_correct_witness:
  "fst (list_pop 5 [ascii ''rpop'', [7], dec_int 2] False
     [([7], \<lparr>e_value = ListV [[1], [2], [3]], e_expire_at = None\<rparr>)]) = Array [Bulk [3], Bulk [2]]"
  using pop_correct [of 5 "[([7], \<lparr>e_value = ListV [[1], [2], [3]], e_expire_at = None\<rparr>)]"
      "[ascii ''rpop'', [7], dec_int 2]" "[[1], [2], [3]]" None 2 False]
  by (simp add: live_def expired_def entry_pair_def i64_ok_def)

subsection \<open>Removing, setting and inserting\<close>

text \<open>The first \<open>n\<close> occurrences removed.\<close>

fun remove_n :: "nat \<Rightarrow> 'a \<Rightarrow> 'a list \<Rightarrow> 'a list" where
  "remove_n n x [] = []"
| "remove_n n x (y # ys) =
     (if y = x then (case n of 0 \<Rightarrow> y # ys | Suc m \<Rightarrow> remove_n m x ys) else y # remove_n n x ys)"

lemma remove_n_0 [simp]: "remove_n 0 x l = l"
  by (induction l) auto

lemma lrem_loop_remove_n:
  "r \<le> limit \<Longrightarrow> lrem_loop x limit r l =
     (remove_n (nat (limit - r)) x l, r + int (min (nat (limit - r)) (count_list l x)))"
proof (induction l arbitrary: r)
  case Nil
  then show ?case by simp
next
  case (Cons y l)
  show ?case
  proof (cases "r < limit")
    case True
    then have "nat (limit - r) = Suc (nat (limit - (r + 1)))" by linarith
    with Cons True show ?thesis by (auto simp: case_prod_unfold Let_def)
  next
    case False
    with Cons show ?thesis by auto
  qed
qed

lemma remove_n_counts:
  "length (remove_n n x l) + min n (count_list l x) = length l"
  "filter (\<lambda>y. y \<noteq> x) (remove_n n x l) = filter (\<lambda>y. y \<noteq> x) l"
  by (induction n x l rule: remove_n.induct) (auto split: nat.splits)

text \<open>
  \<open>LREM\<close> with a positive count removes the first that many occurrences, with a negative one
  the last that many; the reply is the number removed and an emptied list is dropped.
\<close>

theorem lrem_correct:
  assumes "live now db (args ! 1) = Some (ListV l, t)" and "length args = 4"
    and "parse_int (args ! 2) = Inr c" and "c \<noteq> 0"
    and "r = (if 0 < c then remove_n (nat c) (args ! 3) l
              else rev (remove_n (nat (- c)) (args ! 3) (rev l)))"
  shows "fst (lrem now args db) = Integer (int (min (nat \<bar>c\<bar>) (count_list l (args ! 3))))
    \<and> live now (snd (lrem now args db)) =
        (live now db)(args ! 1 := (if r = [] then None else Some (ListV r, t)))"
proof -
  obtain db' where g: "get_as as_list now (args ! 1) db = (Inr (Some l), db')"
    and lv: "live now db' = live now db"
    using assms(1) by (cases rule: lists.get_cases [of now "args ! 1" db]) auto
  have ok: "i64_ok c" using assms(3) by (rule parse_int_ok)
  have rc: "count_list (rev l) x = count_list l x" for x by (induction l) auto
  show ?thesis
  proof (cases "0 < c")
    case True
    then have "usize_of_i64 c = nat c" and "i64 (int (nat c)) = c" using ok by auto
    with True assms g lv show ?thesis
      by (simp add: lrem_def get_list_mut_def Let_def lrem_loop_remove_n live_simps)
  next
    case False
    have lim: "int (usize_of_i64 (i64 (- c))) = - c"
      using False ok assms(4) by (auto simp: usize_of_i64_wrap i64_ok_def)
    have "lrem_loop (args ! 3) (- c) 0 (rev l) =
        (remove_n (nat (- c)) (args ! 3) (rev l), int (min (nat (- c)) (count_list l (args ! 3))))"
      using False by (subst lrem_loop_remove_n) (auto simp: rc)
    with False assms g lv lim show ?thesis
      by (simp add: lrem_def get_list_mut_def Let_def live_simps)
  qed
qed

theorem lrem_correct_witness:
  "fst (lrem 5 [ascii ''lrem'', [7], dec_int (- 1), [1]]
     [([7], \<lparr>e_value = ListV [[1], [2], [1]], e_expire_at = None\<rparr>)]) = Integer 1"
  using lrem_correct [of 5 "[([7], \<lparr>e_value = ListV [[1], [2], [1]], e_expire_at = None\<rparr>)]"
      "[ascii ''lrem'', [7], dec_int (- 1), [1]]" "[[1], [2], [1]]" None "- 1"]
  by (simp add: live_def expired_def entry_pair_def i64_ok_def)

text \<open>
  \<open>LREM\<close> with count 0, which the source documents as "all", removes nothing: the limit
  \<open>usize::MAX\<close> compared as an \<open>i64\<close> is -1.
\<close>

theorem lrem_zero_removes_nothing:
  assumes "db_ok db" and "list_key now db (args ! 1)" and "length args = 4"
    and "parse_int (args ! 2) = Inr 0"
  shows "fst (lrem now args db) = Integer 0 \<and> live now (snd (lrem now args db)) = live now db"
proof -
  have lim: "i64 (int (2 ^ 64 - 1)) = - 1" by (simp add: i64_def)
  have loop: "lrem_loop x (- 1) 0 l = (l, 0)" for x l by (cases l) auto
  show ?thesis
  proof (cases rule: lists.get_cases [of now "args ! 1" db])
    case (present l t db')
    then have "l \<noteq> []" using db_ok_live [OF assms(1), of now "args ! 1" "ListV l" t] by simp
    with present assms lim loop show ?thesis
      by (auto simp: lrem_def get_list_mut_def Let_def live_simps fun_eq_iff)
  qed (use assms in \<open>auto simp: lrem_def get_list_mut_def list_views\<close>)
qed

theorem lrem_zero_removes_nothing_witness:
  "fst (lrem 5 [ascii ''lrem'', [7], dec_int 0, [1]]
     [([7], \<lparr>e_value = ListV [[1], [2], [1]], e_expire_at = None\<rparr>)]) = Integer 0"
  using lrem_zero_removes_nothing [of "[([7], \<lparr>e_value = ListV [[1], [2], [1]], e_expire_at = None\<rparr>)]" 5
      "[ascii ''lrem'', [7], dec_int 0, [1]]"]
  by (simp add: list_key_def live_def expired_def entry_pair_def i64_ok_def db_ok_def)

subsection \<open>Moving\<close>

text \<open>
  \<open>LMOVE\<close> (and \<open>RPOPLPUSH\<close>) between two different keys takes one element off an end of the
  source and puts it on an end of the destination, so no element is lost or doubled.
\<close>

theorem move_elem_correct:
  assumes "live now db src = Some (ListV l, t)" and "l \<noteq> []" and "list_key now db dst" and "src \<noteq> dst"
    and "e = (if from_left then hd l else last l)" and "r = (if from_left then tl l else butlast l)"
  shows "fst (move_elem now src dst from_left to_left db) = Bulk e
    \<and> live now (snd (move_elem now src dst from_left to_left db)) = (live now db)
        (src := (if r = [] then None else Some (ListV r, t)),
         dst \<mapsto> (ListV (if to_left then e # list_at now db dst else list_at now db dst @ [e]),
                live_ttl now db dst))"
proof -
  obtain r1 db1 where g1: "get_as as_list now dst db = (Inr r1, db1)" and l1: "live now db1 = live now db"
    using assms(3) by (cases rule: lists.get_cases [of now dst db]) (auto simp: list_views)
  obtain db2 where g2: "get_as as_list now src db1 = (Inr (Some l), db2)" and l2: "live now db2 = live now db"
    using assms(1) l1 by (cases rule: lists.get_cases [of now src db1]) auto
  have p: "(if from_left then pop_front l else pop_back l) = (Some e, r)"
    using assms(2,5,6) by (cases l) (auto simp: pop_front_def pop_back_def)
  let ?db3 = "db_remove_if_empty src (db_write src (ListV r) db2)"
  have l3: "live now ?db3 = (live now db)(src := (if r = [] then None else Some (ListV r, t)))"
    using assms(1) l2 by (simp add: live_simps)
  have d: "live now ?db3 dst = live now db dst" using assms(4) by (simp add: l3)
  have e: "move_elem now src dst from_left to_left db =
      (case get_or_create_as as_list (ListV []) now dst ?db3 of
         (Inl _, db) \<Rightarrow> (wrongtype, db)
       | (Inr d, db) \<Rightarrow> (Bulk e, db_write dst (ListV (if to_left then e # d else d @ [e])) db))"
    using g1 g2 p by (simp add: move_elem_def get_list_def get_list_mut_def get_or_create_list_def)
  show ?thesis
  proof (cases rule: lists.create_cases [of now dst ?db3])
    case (wrong v t' db4)
    then have "live now db dst = Some (v, t')" using d by simp
    with wrong(3) assms(3) show ?thesis by (simp add: list_views)
  next
    case (created db4)
    then show ?thesis using d e l3 by (simp add: live_simps list_views)
  next
    case (present l' t' db4)
    from present(2) d have l': "live now db dst = Some (ListV l', t')" by simp
    then have "list_at now db dst = l'" and "live_ttl now db dst = t'" by (simp_all add: list_views)
    moreover have "live now (db_write dst (ListV xs) db4) = (live now ?db3)(dst \<mapsto> (ListV xs, t'))" for xs
      using present(2,3) by (simp add: live_write)
    ultimately show ?thesis using present(1) e unfolding l3 by simp
  qed
qed

definition list_demo :: db where
  "list_demo = [([7], \<lparr>e_value = ListV [[1], [2]], e_expire_at = None\<rparr>),
                ([8], \<lparr>e_value = ListV [[3]], e_expire_at = Some 9\<rparr>)]"

theorem move_elem_correct_witness:
  "live 5 (snd (move_elem 5 [7] [8] False True list_demo)) [8] = Some (ListV [[2], [3]], Some 9)"
  using move_elem_correct [of 5 list_demo "[7]" "[[1], [2]]" None "[8]" "[2]" False "[[1]]" True]
  by (simp add: list_demo_def list_key_def list_at_def live_ttl_def live_def expired_def entry_pair_def)

text \<open>
  Rotating a list of one element onto itself (\<open>RPOPLPUSH k k\<close>) loses the expiry of the key:
  the emptied key is dropped and created afresh.
\<close>

theorem rotate_single_loses_ttl:
  assumes "live now db k = Some (ListV [e], Some t)"
  shows "move_elem now k k from_left to_left db = (Bulk e, snd (move_elem now k k from_left to_left db))
    \<and> live now (snd (move_elem now k k from_left to_left db)) k = Some (ListV [e], None)"
proof -
  obtain db1 where g1: "get_as as_list now k db = (Inr (Some [e]), db1)" and l1: "live now db1 = live now db"
    using assms by (cases rule: lists.get_cases [of now k db]) auto
  obtain db2 where g2: "get_as as_list now k db1 = (Inr (Some [e]), db2)" and l2: "live now db2 = live now db"
    using assms l1 by (cases rule: lists.get_cases [of now k db1]) auto
  let ?db3 = "db_remove_if_empty k (db_write k (ListV []) db2)"
  have "live now ?db3 k = None" using assms l2 by (simp add: live_simps)
  then obtain db4 where g4: "get_or_create_as as_list (ListV []) now k ?db3 = (Inr [], db4)"
    and l4: "live now db4 k = Some (ListV [], None)"
    by (cases rule: lists.create_cases [of now k ?db3]) auto
  have p: "(if from_left then pop_front [e] else pop_back [e]) = (Some e, [])"
    by (simp add: pop_front_def pop_back_def)
  have "move_elem now k k from_left to_left db = (Bulk e, db_write k (ListV [e]) db4)"
    using g1 g2 g4 p by (simp add: move_elem_def get_list_def get_list_mut_def get_or_create_list_def)
  with l4 show ?thesis by (simp add: live_simps)
qed

theorem rotate_single_loses_ttl_witness:
  "live 5 (snd (move_elem 5 [8] [8] False True list_demo)) [8] = Some (ListV [[3]], None)"
  using rotate_single_loses_ttl [of 5 list_demo "[8]" "[3]" 9 False True]
  by (simp add: list_demo_def live_def expired_def entry_pair_def)

subsection \<open>Frame conditions\<close>

definition list_reads :: "u64 \<Rightarrow> bytes list \<Rightarrow> (db \<Rightarrow> frame \<times> db) list" where
  "list_reads now args = [llen now args, lrange now args, lindex now args, lpos now args]"

definition list_writes :: "u64 \<Rightarrow> bytes list \<Rightarrow> (db \<Rightarrow> frame \<times> db) list" where
  "list_writes now args =
     [list_push now args True False, list_push now args False False,
      list_push now args True True, list_push now args False True,
      list_pop now args True, list_pop now args False,
      lset now args, lrem now args, ltrim now args, linsert now args]"

lemmas list_read_defs = llen_def lrange_def lindex_def lpos_def get_list_def Let_def

lemmas list_write_defs = list_push_def list_pop_def lset_def lrem_def ltrim_def linsert_def
  get_list_def get_list_mut_def get_or_create_list_def Let_def

lemma lpos_opts_error: "lpos_opts as r c m = Inl e \<Longrightarrow> is_error e"
  by (induction as r c m rule: lpos_opts.induct) (auto split: if_splits sum.splits)

lemma pop_count_error [simp]: "pop_count args = Inl e \<Longrightarrow> is_error e"
  by (auto simp: pop_count_def split: sum.splits if_splits)

lemma list_reads_aux:
  assumes "c \<in> set (list_reads now args)"
  shows "live now (snd (c db)) = live now db" and "db_ok db \<Longrightarrow> db_ok (snd (c db))"
    and "\<not> list_key now db (args ! 1) \<Longrightarrow> is_error (fst (c db))"
proof -
  have "live now (snd (c db)) = live now db \<and> (db_ok db \<longrightarrow> db_ok (snd (c db)))
    \<and> (\<not> list_key now db (args ! 1) \<longrightarrow> is_error (fst (c db)))"
  proof (cases rule: lists.get_cases [of now "args ! 1" db])
    case (absent db')
    with assms show ?thesis
      by (auto simp: list_reads_def list_read_defs list_views split: sum.splits prod.splits)
  next
    case (wrong v t db')
    with assms show ?thesis
      by (auto simp: list_reads_def list_read_defs list_views lpos_opts_error split: sum.splits prod.splits)
  next
    case (present l t db')
    with assms show ?thesis
      by (auto simp: list_reads_def list_read_defs list_views split: sum.splits prod.splits)
  qed
  then show "live now (snd (c db)) = live now db" and "db_ok db \<Longrightarrow> db_ok (snd (c db))"
    and "\<not> list_key now db (args ! 1) \<Longrightarrow> is_error (fst (c db))" by blast+
qed

lemma db_ok_live_list: "db_ok db \<Longrightarrow> live now db k = Some (ListV l, t) \<Longrightarrow> l \<noteq> []"
  using db_ok_live [of db now k "ListV l" t] by simp

lemma foldl_push_nonempty:
  "3 \<le> length args \<Longrightarrow> foldl (\<lambda>l v. if left then v # l else l @ [v]) l (drop 2 args) \<noteq> []"
  by (simp add: foldl_push)

lemma list_writes_wrong:
  assumes "c \<in> set (list_writes now args)" and "\<not> list_key now db (args ! 1)"
  shows "is_error (fst (c db)) \<and> live now (snd (c db)) = live now db"
proof (cases rule: lists.get_cases [of now "args ! 1" db])
  case (wrong v t db1)
  note g = this
  show ?thesis
  proof (cases rule: lists.create_cases [of now "args ! 1" db])
    case (wrong v' t' db2)
    note c = this
    show ?thesis
    proof (cases rule: lists.create_cases [of now "args ! 1" db1])
      case (wrong v'' t'' db3)
      with g c assms show ?thesis
        by (auto simp: list_writes_def list_write_defs split: sum.splits)
    qed (use g in \<open>auto simp: lists.as_mk\<close>)
  qed (use g in \<open>auto simp: lists.as_mk\<close>)
qed (use assms in \<open>auto simp: list_views\<close>)

lemma list_push_db_ok: "db_ok db \<Longrightarrow> db_ok (snd (list_push now args left xx db))"
proof -
  assume a: "db_ok db"
  have step: "db_ok (snd (case get_or_create_list now k d of
       (Inl _, db) \<Rightarrow> (wrongtype, db)
     | (Inr l, db) \<Rightarrow>
         let l = foldl (\<lambda>l v. if left then v # l else l @ [v]) l (drop 2 args)
         in (Integer (int (length l)), db_write k (ListV l) db)))"
    if "db_ok d" and "3 \<le> length args" for d k
    using that
    by (cases rule: lists.create_cases [of now k d])
      (auto simp: get_or_create_list_def Let_def foldl_push_nonempty intro!: db_ok_write_but intro: db_ok_but_any)
  show ?thesis
    using a step [of _ "args ! 1"]
    by (cases rule: lists.get_cases [of now "args ! 1" db])
      (auto simp: list_push_def get_list_def Let_def)
qed

lemma list_writes_db_ok:
  assumes "c \<in> set (list_writes now args)" and "db_ok db"
  shows "db_ok (snd (c db))"
proof (cases rule: lists.get_cases [of now "args ! 1" db])
  case (absent db')
  with assms list_push_db_ok show ?thesis
    by (auto simp: list_writes_def list_pop_def lset_def lrem_def ltrim_def linsert_def
        get_list_mut_def Let_def split: sum.splits)
next
  case (wrong v t db')
  with assms list_push_db_ok show ?thesis
    by (auto simp: list_writes_def list_pop_def lset_def lrem_def ltrim_def linsert_def
        get_list_mut_def Let_def split: sum.splits)
next
  case (present l t db')
  then have "l \<noteq> []" using db_ok_live_list assms(2) by blast
  with present assms list_push_db_ok show ?thesis
    by (auto simp: list_writes_def list_pop_def lset_def lrem_def ltrim_def linsert_def
        get_list_mut_def Let_def
        intro!: db_ok_write_remove db_ok_but_any db_ok_write split: sum.splits option.splits prod.splits)
qed

lemma move_elem_db_ok:
  assumes "db_ok db"
  shows "db_ok (snd (move_elem now src dst from_left to_left db))"
proof -
  have step: "db_ok (snd (case get_or_create_list now dst d of
       (Inl _, db) \<Rightarrow> (wrongtype, db)
     | (Inr l, db) \<Rightarrow> (Bulk e, db_write dst (ListV (if to_left then e # l else l @ [e])) db)))"
    if "db_ok d" for d e
    using that
    by (cases rule: lists.create_cases [of now dst d])
      (auto simp: get_or_create_list_def intro!: db_ok_write_but intro: db_ok_but_any)
  obtain r1 db1 where g1: "get_list now dst db = (r1, db1)" and o1: "db_ok db1"
    using assms by (cases rule: lists.get_cases [of now dst db]) (auto simp: get_list_def)
  obtain r2 db2 where g2: "get_list_mut now src db1 = (r2, db2)" and o2: "db_ok db2"
    and ne: "\<And>l. r2 = Inr (Some l) \<Longrightarrow> l \<noteq> []"
    using o1 db_ok_live_list [of db1 now src]
    by (cases rule: lists.get_cases [of now src db1]) (auto simp: get_list_mut_def)
  have step2: "db_ok (db_remove_if_empty src (db_write src (ListV l) db2))" for l
    using o2 by (simp add: db_ok_write_remove db_ok_but_any)
  show ?thesis
  proof (cases "\<exists>l. r2 = Inr (Some l) \<and> (\<exists>x. r1 = Inr x)")
    case False
    then show ?thesis using g1 g2 o1 o2
      by (auto simp: move_elem_def split: sum.splits option.splits)
  next
    case True
    then obtain l x where l: "r2 = Inr (Some l)" "r1 = Inr x" by auto
    obtain e l' where p: "(if from_left then pop_front l else pop_back l) = (Some e, l')"
      using ne [OF l(1)] by (cases l; cases from_left) (auto simp: pop_front_def pop_back_def)
    show ?thesis using g1 g2 l p step [OF step2, of e l']
      by (simp add: move_elem_def Let_def)
  qed
qed

text \<open>
  Every list command, \<open>LMOVE\<close> and \<open>RPOPLPUSH\<close> included, keeps the invariant of the database;
  in particular no empty list is left behind.
\<close>

theorem list_commands_db_ok:
  assumes "db_ok db"
    and "c \<in> set (list_reads now args @ list_writes now args @ [rpoplpush now args, lmove now args])"
  shows "db_ok (snd (c db))"
  using assms list_reads_aux(2) list_writes_db_ok
  by (auto simp: rpoplpush_def lmove_def move_elem_db_ok split: option.splits)

theorem list_commands_db_ok_witness:
  "db_ok (snd (rpoplpush 5 [ascii ''rpoplpush'', [7], [8]] list_demo))"
  using list_commands_db_ok [of list_demo "rpoplpush 5 [ascii ''rpoplpush'', [7], [8]]" 5
      "[ascii ''rpoplpush'', [7], [8]]"]
  by (simp add: db_ok_def list_demo_def)

text \<open>
  No list command that works on one key touches a key of another type: it replies with an error
  and the live contents stay as they are.
\<close>

theorem list_wrong_type:
  assumes "\<not> list_key now db (args ! 1)"
    and "c \<in> set (list_reads now args @ list_writes now args)"
  shows "is_error (fst (c db)) \<and> live now (snd (c db)) = live now db"
  using assms list_reads_aux [of c now args db] list_writes_wrong [of c now args db] by auto

theorem list_wrong_type_witness:
  "is_error (fst (lset 5 [ascii ''lset'', [7], dec_int 0, [1]]
     [([7], \<lparr>e_value = StringV [], e_expire_at = None\<rparr>)]))"
proof -
  have "\<not> list_key 5 [([7], \<lparr>e_value = StringV [], e_expire_at = None\<rparr>)]
      ([ascii ''lset'', [7], dec_int 0, [1]] ! 1)"
    by (simp add: list_key_def live_def expired_def entry_pair_def)
  from list_wrong_type [OF this] show ?thesis by (simp add: list_writes_def)
qed

end
