(* ===== verification/Cmd_String.thy ===== *)
theory Cmd_String
  imports Cmd
begin

text \<open>
  The string commands (src/commands/string.rs). An expiry is a \<open>u64\<close>, so \<open>now + n * 1000\<close> wraps as
  it does in the release build.
\<close>

section \<open>The handlers\<close>

definition string_get :: "u64 \<Rightarrow> bytes list \<Rightarrow> db \<Rightarrow> frame \<times> db" where
  "string_get now args db =
     (if length args \<noteq> 2 then (wrong_args ''get'', db)
      else case get_str now (args ! 1) db of
        (Inr (Some s), db) \<Rightarrow> (Bulk s, db)
      | (Inr None, db) \<Rightarrow> (Null, db)
      | (Inl _, db) \<Rightarrow> (wrongtype, db))"

definition invalid_expire :: "string \<Rightarrow> frame" where
  "invalid_expire cmd =
     frame_err (ascii ''invalid expire time in '' @ [39] @ ascii cmd @ [39] @ ascii '' command'')"

text \<open>The local variables of the option loop of \<open>SET\<close>.\<close>

record set_options =
  so_nx :: bool
  so_xx :: bool
  so_get :: bool
  so_keepttl :: bool
  so_expire_at :: "u64 option"
  so_expire_seen :: bool

definition set_options_start :: set_options where
  "set_options_start = \<lparr>so_nx = False, so_xx = False, so_get = False, so_keepttl = False,
     so_expire_at = None, so_expire_seen = False\<rparr>"

definition is_expire_opt :: "bytes \<Rightarrow> bool" where
  "is_expire_opt opt \<longleftrightarrow>
     opt = ascii ''EX'' \<or> opt = ascii ''PX'' \<or> opt = ascii ''EXAT'' \<or> opt = ascii ''PXAT''"

definition set_deadline :: "u64 \<Rightarrow> bytes \<Rightarrow> int \<Rightarrow> frame + u64" where
  "set_deadline now opt n =
     (if opt = ascii ''EX'' then
        (if n \<le> 0 then Inl (invalid_expire ''set'') else Inr (now + u64_of_i64 n * 1000))
      else if opt = ascii ''PX'' then
        (if n \<le> 0 then Inl (invalid_expire ''set'') else Inr (now + u64_of_i64 n))
      else if opt = ascii ''EXAT'' then Inr (u64_of_i64 n * 1000)
      else Inr (u64_of_i64 n))"

fun set_opts :: "u64 \<Rightarrow> bytes list \<Rightarrow> set_options \<Rightarrow> frame + set_options" where
  "set_opts now [] so = Inr so"
| "set_opts now (a # rest) so =
     (let opt = upper a in
      if opt = ascii ''NX'' then set_opts now rest (so\<lparr>so_nx := True\<rparr>)
      else if opt = ascii ''XX'' then set_opts now rest (so\<lparr>so_xx := True\<rparr>)
      else if opt = ascii ''GET'' then set_opts now rest (so\<lparr>so_get := True\<rparr>)
      else if opt = ascii ''KEEPTTL'' then set_opts now rest (so\<lparr>so_keepttl := True\<rparr>)
      else if is_expire_opt opt then
        (if so_expire_seen so \<or> so_keepttl so then Inl syntax_error
         else case rest of
           [] \<Rightarrow> Inl syntax_error
         | b # rest' \<Rightarrow>
             (case parse_int b of
                Inl e \<Rightarrow> Inl e
              | Inr n \<Rightarrow>
                  (case set_deadline now opt n of
                     Inl e \<Rightarrow> Inl e
                   | Inr at \<Rightarrow>
                       set_opts now rest' (so\<lparr>so_expire_seen := True, so_expire_at := Some at\<rparr>))))
      else Inl syntax_error)"

definition string_set :: "u64 \<Rightarrow> bytes list \<Rightarrow> db \<Rightarrow> frame \<times> db" where
  "string_set now args db =
     (if length args < 3 then (wrong_args ''set'', db)
      else let key = args ! 1; v = args ! 2 in
      case set_opts now (drop 3 args) set_options_start of
        Inl e \<Rightarrow> (e, db)
      | Inr so \<Rightarrow>
          if (so_nx so \<and> so_xx so) \<or> (so_keepttl so \<and> so_expire_seen so) then (syntax_error, db)
          else
            (case (if so_get so then get_str now key db else (Inr None, db)) of
               (Inl _, db) \<Rightarrow> (wrongtype, db)
             | (Inr old, db) \<Rightarrow>
                 let (present, db) = db_contains now key db;
                     should_set = (\<not> (so_nx so \<and> present) \<and> \<not> (so_xx so \<and> \<not> present));
                     db = (if should_set then
                             if so_keepttl so then db_set_keep_ttl key (StringV v) db
                             else let db = db_set key (StringV v) db
                                  in case so_expire_at so of
                                       Some at \<Rightarrow> snd (db_set_expire now key at db)
                                     | None \<Rightarrow> db
                           else db)
                 in (if so_get so then bulk_or_null old
                     else if should_set then frame_ok else Null, db)))"

definition setnx :: "u64 \<Rightarrow> bytes list \<Rightarrow> db \<Rightarrow> frame \<times> db" where
  "setnx now args db =
     (if length args \<noteq> 3 then (wrong_args ''setnx'', db)
      else let (present, db) = db_contains now (args ! 1) db in
      if present then (Integer 0, db)
      else (Integer 1, db_set (args ! 1) (StringV (args ! 2)) db))"

definition setex :: "u64 \<Rightarrow> bytes list \<Rightarrow> bool \<Rightarrow> db \<Rightarrow> frame \<times> db" where
  "setex now args ms db =
     (let name = (if ms then ''psetex'' else ''setex'') in
      if length args \<noteq> 4 then (wrong_args name, db)
      else case parse_int (args ! 2) of
        Inl e \<Rightarrow> (e, db)
      | Inr n \<Rightarrow>
          if n \<le> 0 then (invalid_expire name, db)
          else let at = now + (if ms then u64_of_i64 n else u64_of_i64 n * 1000);
                   db = db_set (args ! 1) (StringV (args ! 3)) db
               in (frame_ok, snd (db_set_expire now (args ! 1) at db)))"

definition getset :: "u64 \<Rightarrow> bytes list \<Rightarrow> db \<Rightarrow> frame \<times> db" where
  "getset now args db =
     (if length args \<noteq> 3 then (wrong_args ''getset'', db)
      else case get_str now (args ! 1) db of
        (Inl _, db) \<Rightarrow> (wrongtype, db)
      | (Inr old, db) \<Rightarrow> (bulk_or_null old, db_set (args ! 1) (StringV (args ! 2)) db))"

definition getdel :: "u64 \<Rightarrow> bytes list \<Rightarrow> db \<Rightarrow> frame \<times> db" where
  "getdel now args db =
     (if length args \<noteq> 2 then (wrong_args ''getdel'', db)
      else case get_str now (args ! 1) db of
        (Inr (Some s), db) \<Rightarrow> (Bulk s, fst (db_remove now (args ! 1) db))
      | (Inr None, db) \<Rightarrow> (Null, db)
      | (Inl _, db) \<Rightarrow> (wrongtype, db))"

text \<open>The option loop of \<open>GETEX\<close>, which acts as it goes: the error of a later option leaves the
  effects of the earlier ones.\<close>

fun getex_loop :: "u64 \<Rightarrow> bytes \<Rightarrow> bytes list \<Rightarrow> db \<Rightarrow> frame option \<times> db" where
  "getex_loop now key [] db = (None, db)"
| "getex_loop now key (a # rest) db =
     (let opt = upper a in
      if opt = ascii ''PERSIST'' then getex_loop now key rest (snd (db_persist now key db))
      else if is_expire_opt opt then
        (case rest of
           [] \<Rightarrow> (Some syntax_error, db)
         | b # rest' \<Rightarrow>
             (case parse_int b of
                Inl e \<Rightarrow> (Some e, db)
              | Inr n \<Rightarrow>
                  let at = (if opt = ascii ''EX'' then now + u64_of_i64 n * 1000
                            else if opt = ascii ''PX'' then now + u64_of_i64 n
                            else if opt = ascii ''EXAT'' then u64_of_i64 n * 1000
                            else u64_of_i64 n)
                  in getex_loop now key rest' (snd (db_set_expire now key at db))))
      else (Some syntax_error, db))"

definition getex :: "u64 \<Rightarrow> bytes list \<Rightarrow> db \<Rightarrow> frame \<times> db" where
  "getex now args db =
     (if length args < 2 then (wrong_args ''getex'', db)
      else case get_str now (args ! 1) db of
        (Inr None, db) \<Rightarrow> (Null, db)
      | (Inl _, db) \<Rightarrow> (wrongtype, db)
      | (Inr (Some v), db) \<Rightarrow>
          (case getex_loop now (args ! 1) (drop 2 args) db of
             (Some e, db) \<Rightarrow> (e, db)
           | (None, db) \<Rightarrow> (Bulk v, db)))"

definition string_append :: "u64 \<Rightarrow> bytes list \<Rightarrow> db \<Rightarrow> frame \<times> db" where
  "string_append now args db =
     (if length args \<noteq> 3 then (wrong_args ''append'', db)
      else case get_str now (args ! 1) db of
        (Inl _, db) \<Rightarrow> (wrongtype, db)
      | (Inr s, db) \<Rightarrow>
          let buf = (case s of Some s \<Rightarrow> s | None \<Rightarrow> []) @ args ! 2
          in (Integer (int (length buf)), db_set_keep_ttl (args ! 1) (StringV buf) db))"

definition strlen :: "u64 \<Rightarrow> bytes list \<Rightarrow> db \<Rightarrow> frame \<times> db" where
  "strlen now args db =
     (if length args \<noteq> 2 then (wrong_args ''strlen'', db)
      else case get_str now (args ! 1) db of
        (Inr (Some s), db) \<Rightarrow> (Integer (int (length s)), db)
      | (Inr None, db) \<Rightarrow> (Integer 0, db)
      | (Inl _, db) \<Rightarrow> (wrongtype, db))"

definition do_incr :: "u64 \<Rightarrow> bytes \<Rightarrow> int \<Rightarrow> db \<Rightarrow> frame \<times> db" where
  "do_incr now key delta db =
     (case get_str now key db of
        (Inl _, db) \<Rightarrow> (wrongtype, db)
      | (Inr s, db) \<Rightarrow>
          (case (case s of Some s \<Rightarrow> int_of_bytes s | None \<Rightarrow> Some 0) of
             None \<Rightarrow> (not_int_error, db)
           | Some cur \<Rightarrow>
               (case checked_add_i64 cur delta of
                  Some n \<Rightarrow> (Integer n, db_set_keep_ttl key (StringV (dec_int n)) db)
                | None \<Rightarrow> (frame_err (ascii ''increment or decrement would overflow''), db))))"

definition incr :: "u64 \<Rightarrow> bytes list \<Rightarrow> int \<Rightarrow> db \<Rightarrow> frame \<times> db" where
  "incr now args delta db =
     (if length args \<noteq> 2 then (wrong_args ''incr'', db) else do_incr now (args ! 1) delta db)"

definition incrby :: "u64 \<Rightarrow> bytes list \<Rightarrow> bool \<Rightarrow> db \<Rightarrow> frame \<times> db" where
  "incrby now args negate db =
     (if length args \<noteq> 3 then (wrong_args (if negate then ''decrby'' else ''incrby''), db)
      else case parse_int (args ! 2) of
        Inl e \<Rightarrow> (e, db)
      | Inr n \<Rightarrow>
          if negate then
            (case checked_neg_i64 n of
               Some d \<Rightarrow> do_incr now (args ! 1) d db
             | None \<Rightarrow> (frame_err (ascii ''decrement would overflow''), db))
          else do_incr now (args ! 1) n db)"

definition incrbyfloat :: "u64 \<Rightarrow> bytes list \<Rightarrow> db \<Rightarrow> frame \<times> db" where
  "incrbyfloat now args db =
     (if length args \<noteq> 3 then (wrong_args ''incrbyfloat'', db)
      else case parse_float (args ! 2) of
        Inl e \<Rightarrow> (e, db)
      | Inr delta \<Rightarrow>
          (case get_str now (args ! 1) db of
             (Inl _, db) \<Rightarrow> (wrongtype, db)
           | (Inr s, db) \<Rightarrow>
               (case (case s of
                        Some s \<Rightarrow> if utf8_valid s then parse_f64 (trim s) else None
                      | None \<Rightarrow> Some f64_zero) of
                  None \<Rightarrow> (float_error, db)
                | Some cur \<Rightarrow>
                    let n = f64_add cur delta in
                    if is_nan n \<or> is_infinite n then
                      (frame_err (ascii ''increment would produce NaN or Infinity''), db)
                    else
                      let s = format_double n
                      in (Bulk s, db_set_keep_ttl (args ! 1) (StringV s) db))))"

fun mget_loop :: "u64 \<Rightarrow> bytes list \<Rightarrow> db \<Rightarrow> frame list \<times> db" where
  "mget_loop now [] db = ([], db)"
| "mget_loop now (k # ks) db =
     (let (r, db) = get_str now k db;
          (out, db) = mget_loop now ks db
      in ((case r of Inr (Some s) \<Rightarrow> Bulk s | _ \<Rightarrow> Null) # out, db))"

definition mget :: "u64 \<Rightarrow> bytes list \<Rightarrow> db \<Rightarrow> frame \<times> db" where
  "mget now args db =
     (if length args < 2 then (wrong_args ''mget'', db)
      else let (out, db) = mget_loop now (drop 1 args) db in (Array out, db))"

definition set_all :: "(bytes \<times> bytes) list \<Rightarrow> db \<Rightarrow> db" where
  "set_all kvs db = foldl (\<lambda>db (k, v). db_set k (StringV v) db) db kvs"

definition mset_cmd :: "u64 \<Rightarrow> bytes list \<Rightarrow> db \<Rightarrow> frame \<times> db" where
  "mset_cmd now args db =
     (if length args < 3 \<or> length args mod 2 \<noteq> 1 then (wrong_args ''mset'', db)
      else (frame_ok, set_all (pairs_of (drop 1 args)) db))"

text \<open>The first loop of \<open>MSETNX\<close>: whether some key exists.\<close>

fun any_contains :: "u64 \<Rightarrow> bytes list \<Rightarrow> db \<Rightarrow> bool \<times> db" where
  "any_contains now [] db = (False, db)"
| "any_contains now (k # ks) db =
     (let (present, db) = db_contains now k db
      in if present then (True, db) else any_contains now ks db)"

definition msetnx :: "u64 \<Rightarrow> bytes list \<Rightarrow> db \<Rightarrow> frame \<times> db" where
  "msetnx now args db =
     (if length args < 3 \<or> length args mod 2 \<noteq> 1 then (wrong_args ''msetnx'', db)
      else let kvs = pairs_of (drop 1 args);
               (found, db) = any_contains now (map fst kvs) db
           in if found then (Integer 0, db) else (Integer 1, set_all kvs db))"

definition getrange :: "u64 \<Rightarrow> bytes list \<Rightarrow> db \<Rightarrow> frame \<times> db" where
  "getrange now args db =
     (if length args \<noteq> 4 then (wrong_args ''getrange'', db)
      else case parse_two (args ! 2) (args ! 3) of
        Inl e \<Rightarrow> (e, db)
      | Inr (start, stop) \<Rightarrow>
          (case get_str now (args ! 1) db of
             (Inr None, db) \<Rightarrow> (Bulk [], db)
           | (Inl _, db) \<Rightarrow> (wrongtype, db)
           | (Inr (Some s), db) \<Rightarrow>
               let len = int (length s) in
               if len = 0 then (Bulk [], db)
               else
                 let start = (if start < 0 then i64 (start + len) else start);
                     stop = (if stop < 0 then i64 (stop + len) else stop);
                     start = (if start < 0 then 0 else start) in
                 if stop < 0 then (Bulk [], db)
                 else let stop = (if len \<le> stop then len - 1 else stop) in
                 if stop < start then (Bulk [], db)
                 else (Bulk (slice s (nat start) (nat stop + 1)), db)))"

definition setrange :: "u64 \<Rightarrow> bytes list \<Rightarrow> db \<Rightarrow> frame \<times> db" where
  "setrange now args db =
     (if length args \<noteq> 4 then (wrong_args ''setrange'', db)
      else case parse_int (args ! 2) of
        Inl e \<Rightarrow> (e, db)
      | Inr n \<Rightarrow>
          if n < 0 then (frame_err (ascii ''offset is out of range''), db)
          else let offset = nat n; patch = args ! 3 in
          case get_str now (args ! 1) db of
            (Inl _, db) \<Rightarrow> (wrongtype, db)
          | (Inr s, db) \<Rightarrow>
              let buf = (case s of Some s \<Rightarrow> s | None \<Rightarrow> []) in
              if patch = [] then (Integer (int (length buf)), db)
              else
                let buf = buf @ replicate (offset + length patch - length buf) 0;
                    buf = take offset buf @ patch @ drop (offset + length patch) buf
                in (Integer (int (length buf)), db_set_keep_ttl (args ! 1) (StringV buf) db))"

section \<open>The abstract string at a key\<close>

definition string_at :: "u64 \<Rightarrow> db \<Rightarrow> bytes \<Rightarrow> bytes option" where
  "string_at now db k = (case live now db k of Some (StringV s, _) \<Rightarrow> Some s | _ \<Rightarrow> None)"

definition string_key :: "u64 \<Rightarrow> db \<Rightarrow> bytes \<Rightarrow> bool" where
  "string_key now db k \<longleftrightarrow> (case live now db k of None \<Rightarrow> True | Some (v, _) \<Rightarrow> as_string v \<noteq> None)"

definition string_or_empty :: "u64 \<Rightarrow> db \<Rightarrow> bytes \<Rightarrow> bytes" where
  "string_or_empty now db k = (case string_at now db k of Some s \<Rightarrow> s | None \<Rightarrow> [])"

lemma string_views:
  "live now db k = None \<Longrightarrow> string_key now db k"
  "live now db k = Some (StringV s, t) \<Longrightarrow> string_key now db k"
  "live now db k = Some (v, t) \<Longrightarrow> as_string v = None \<Longrightarrow> \<not> string_key now db k"
  "live now db k = None \<Longrightarrow> string_at now db k = None"
  "live now db k = Some (StringV s, t) \<Longrightarrow> string_at now db k = Some s"
  "live now db k = None \<Longrightarrow> string_or_empty now db k = []"
  "live now db k = Some (StringV s, t) \<Longrightarrow> string_or_empty now db k = s"
  "live now db k = None \<Longrightarrow> live_ttl now db k = None"
  "live now db k = Some (v, t) \<Longrightarrow> live_ttl now db k = t"
  by (simp_all add: string_key_def string_at_def string_or_empty_def live_ttl_def)

lemma live_ttl_cong: "live now db = live now db' \<Longrightarrow> live_ttl now db k = live_ttl now db' k"
  by (simp add: live_ttl_def)

section \<open>Correctness\<close>

lemma set_correct_aux:
  assumes "3 \<le> length args" and "set_opts now (drop 3 args) set_options_start = Inr so"
    and "\<not> (so_nx so \<and> so_xx so)" and "\<not> (so_keepttl so \<and> so_expire_seen so)"
    and "so_get so \<longrightarrow> string_key now db (args ! 1)"
    and "written \<longleftrightarrow> (if args ! 1 \<in> dom (live now db) then \<not> so_nx so else \<not> so_xx so)"
    and "ttl = (if so_keepttl so then live_ttl now db (args ! 1) else so_expire_at so)"
  shows "live now (snd (string_set now args db)) =
      (if written
       then (live now db)(args ! 1 := (if stale now ttl then None else Some (StringV (args ! 2), ttl)))
       else live now db)
    \<and> fst (string_set now args db) =
      (if so_get so then bulk_or_null (string_at now db (args ! 1))
       else if written then frame_ok else Null)"
proof -
  let ?k = "args ! 1"
  obtain old db1 where g: "(if so_get so then get_str now ?k db else (Inr None, db)) = (Inr old, db1)"
    and l1: "live now db1 = live now db" and old: "so_get so \<Longrightarrow> old = string_at now db ?k"
  proof (cases "so_get so")
    case True
    with assms(5) that show ?thesis
      by (cases rule: strings.get_cases [of now ?k db]) (auto simp: get_str_def string_views)
  qed (use that in auto)
  define present where "present = fst (db_contains now ?k db1)"
  define db2 where "db2 = snd (db_contains now ?k db1)"
  have c: "db_contains now ?k db1 = (present, db2)" by (simp add: present_def db2_def)
  have p: "present \<longleftrightarrow> ?k \<in> dom (live now db)" and l2: "live now db2 = live now db"
    and f2: "fresh now ?k db2"
    by (simp_all only: present_def db2_def db_contains_live l1 fresh_contains)
  have w: "(\<not> (so_nx so \<and> present) \<and> \<not> (so_xx so \<and> \<not> present)) = written"
    using assms(6) p by auto
  have nt: "\<not> stale now (live_ttl now db ?k)"
    by (cases "live now db ?k") (auto simp: live_ttl_def dest: live_not_stale)
  let ?db3 = "if so_keepttl so then db_set_keep_ttl ?k (StringV (args ! 2)) db2
              else let db = db_set ?k (StringV (args ! 2)) db2
                   in case so_expire_at so of Some at \<Rightarrow> snd (db_set_expire now ?k at db) | None \<Rightarrow> db"
  have l3: "live now ?db3 =
      (live now db)(?k := (if stale now ttl then None else Some (StringV (args ! 2), ttl)))"
    using assms(7) l2 f2 nt live_ttl_cong [OF l2]
    by (auto simp: live_simps Let_def fun_eq_iff stale_def split: option.splits)
  have "string_set now args db =
      (if so_get so then bulk_or_null old else if written then frame_ok else Null,
       if written then ?db3 else db2)"
  proof -
    have n: "(length args < 3) = False"
      and o: "((so_nx so \<and> so_xx so) \<or> (so_keepttl so \<and> so_expire_seen so)) = False"
      using assms(1,3,4) by auto
    show ?thesis
      by (simp only: string_set_def Let_def n o assms(2) g c w sum.case prod.case if_False)
  qed
  then show ?thesis using l2 l3 old by simp
qed

text \<open>
  C28: \<open>SET\<close> with options that parse: the key is written unless \<open>NX\<close> finds it or \<open>XX\<close> misses it,
  with the old expiry under \<open>KEEPTTL\<close> and otherwise the one the options give; a deadline that is
  not in the future leaves no live key; no other key changes.
\<close>

theorem set_correct:
  assumes "3 \<le> length args" and "set_opts now (drop 3 args) set_options_start = Inr so"
    and "\<not> (so_nx so \<and> so_xx so)" and "\<not> (so_keepttl so \<and> so_expire_seen so)"
    and "so_get so \<longrightarrow> string_key now db (args ! 1)"
    and "written \<longleftrightarrow> (if args ! 1 \<in> dom (live now db) then \<not> so_nx so else \<not> so_xx so)"
    and "ttl = (if so_keepttl so then live_ttl now db (args ! 1) else so_expire_at so)"
  shows "live now (snd (string_set now args db)) =
      (if written
       then (live now db)(args ! 1 := (if stale now ttl then None else Some (StringV (args ! 2), ttl)))
       else live now db)
    \<and> fst (string_set now args db) =
      (if so_get so then bulk_or_null (string_at now db (args ! 1))
       else if written then frame_ok else Null)"
  using assms by (rule set_correct_aux)

theorem set_correct_witness:
  "live 5 (snd (string_set 5 [ascii ''set'', [7], [1], ascii ''px'', dec_int 9] [])) [7] = Some (StringV [1], Some 14)"
proof -
  have "set_opts 5 (drop 3 [ascii ''set'', [7], [1], ascii ''px'', dec_int 9]) set_options_start =
      Inr (set_options_start\<lparr>so_expire_seen := True, so_expire_at := Some 14\<rparr>)"
    by code_simp
  then show ?thesis
    using set_correct [of "[ascii ''set'', [7], [1], ascii ''px'', dec_int 9]" 5
        "set_options_start\<lparr>so_expire_seen := True, so_expire_at := Some 14\<rparr>" "[]" True "Some 14"]
    by (simp add: set_options_start_def live_def stale_def)
qed



text \<open>
  \<open>APPEND\<close> concatenates to the string (the empty one for a missing key), replies with the new
  length and keeps the expiry.
\<close>

theorem append_correct:
  assumes "string_key now db (args ! 1)" and "length args = 3"
    and "s = string_or_empty now db (args ! 1) @ args ! 2"
  shows "fst (string_append now args db) = Integer (int (length s))
    \<and> live now (snd (string_append now args db)) =
        (live now db)(args ! 1 \<mapsto> (StringV s, live_ttl now db (args ! 1)))"
proof (cases rule: strings.get_cases [of now "args ! 1" db])
  case (absent db')
  with assms live_ttl_cong [OF absent(3), of "args ! 1"] show ?thesis
    by (simp add: string_append_def get_str_def string_views live_simps Let_def)
next
  case (wrong v t db')
  with assms show ?thesis by (simp add: string_views)
next
  case (present v t db')
  with assms live_ttl_cong [OF present(3), of "args ! 1"] show ?thesis
    by (simp add: string_append_def get_str_def string_views live_simps Let_def)
qed

theorem append_correct_witness:
  "fst (string_append 5 [ascii ''append'', [7], [2, 3]]
     [([7], \<lparr>e_value = StringV [1], e_expire_at = None\<rparr>)]) = Integer 3"
  using append_correct [of 5 "[([7], \<lparr>e_value = StringV [1], e_expire_at = None\<rparr>)]"
      "[ascii ''append'', [7], [2, 3]]"]
  by (simp add: string_key_def string_at_def string_or_empty_def live_def expired_def entry_pair_def)

text \<open>
  \<open>GETRANGE\<close> returns the bytes whose positions lie between the two indexes, negative ones
  counted from the end.
\<close>

theorem getrange_correct:
  assumes "string_key now db (args ! 1)" and "length args = 4"
    and "parse_two (args ! 2) (args ! 3) = Inr (start, stop)"
    and "length (string_or_empty now db (args ! 1)) < 2 ^ 63"
  shows "fst (getrange now args db) = Bulk (in_range start stop (string_or_empty now db (args ! 1)))"
proof (cases rule: strings.get_cases [of now "args ! 1" db])
  case (absent db')
  then show ?thesis using assms by (simp add: getrange_def get_str_def string_views in_range_def)
next
  case (wrong v t db')
  then show ?thesis using assms by (simp add: string_views)
next
  case (present s t db')
  define lo where "lo = max (from_end start (length s)) 0"
  define e where "e = from_end stop (length s)"
  define e' where "e' = (if int (length s) \<le> e then int (length s) - 1 else e)"
  note b = in_range_bounds [OF lo_def e_def e'_def]
  have w: "(if i < 0 then i64 (i + int (length s)) else i) = from_end i (length s)" if "i64_ok i" for i
    using that assms(4) present(2) by (auto simp: from_end_def i64_ok_def string_views)
  have st: "(if start < 0 then i64 (start + int (length s)) else start) = from_end start (length s)"
    "(if stop < 0 then i64 (stop + int (length s)) else stop) = e"
    using w parse_two_ok [OF assms(3)] by (simp_all add: e_def)
  have lo: "(if from_end start (length s) < 0 then 0 else from_end start (length s)) = lo"
    by (simp add: lo_def)
  have g: "fst (getrange now args db) =
      (if int (length s) = 0 then Bulk []
       else if e < 0 then Bulk []
       else if e' < lo then Bulk [] else Bulk (slice s (nat lo) (nat e' + 1)))"
    using assms(2,3) present(1)
    by (simp add: getrange_def get_str_def Let_def st lo e'_def if_distrib [of fst] split del: if_split cong: if_cong)
  show ?thesis
  proof (cases "e' < lo \<or> int (length s) \<le> lo \<or> e < 0")
    case True
    have "e' < lo \<or> int (length s) \<le> lo"
      using True by (auto simp: e'_def lo_def max_def)
    then have "in_range start stop s = []" by (rule b(1))
    moreover have "fst (getrange now args db) = Bulk []"
      using True by (auto simp: g e'_def lo_def split: if_splits)
    ultimately show ?thesis using present(2) by (simp add: string_views)
  next
    case False
    have "take (nat e' + 1 - nat lo) (drop (nat lo) s) = drop (nat lo) (take (nat e' + 1) s)"
      by (simp add: drop_take)
    with False show ?thesis
      using b(2) present(2) by (auto simp: g string_views slice_def)
  qed
qed

theorem getrange_correct_witness:
  "fst (getrange 5 [ascii ''getrange'', [7], dec_int (- 2), dec_int (- 1)]
     [([7], \<lparr>e_value = StringV [1, 2, 3], e_expire_at = None\<rparr>)]) = Bulk [2, 3]"
proof -
  let ?db = "[([7], \<lparr>e_value = StringV [1, 2, 3], e_expire_at = None\<rparr>)]"
  have l: "live 5 ?db [7] = Some (StringV [1, 2, 3], None)"
    by (simp add: live_def expired_def entry_pair_def)
  have "parse_two (dec_int (- 2)) (dec_int (- 1)) = Inr (- 2, - 1)"
    by (simp add: parse_two_def i64_ok_def)
  then show ?thesis
    using getrange_correct [of 5 ?db "[ascii ''getrange'', [7], dec_int (- 2), dec_int (- 1)]" "- 2" "- 1"] l
    by (simp add: string_views in_range_take_drop from_end_def)
qed

text \<open>What a byte string reads at a position, 0 past its end.\<close>

definition byte_at :: "bytes \<Rightarrow> nat \<Rightarrow> u8" where
  "byte_at s i = (if i < length s then s ! i else 0)"

definition patched :: "bytes \<Rightarrow> nat \<Rightarrow> bytes \<Rightarrow> bytes" where
  "patched s offset patch =
     (let buf = s @ replicate (offset + length patch - length s) 0
      in take offset buf @ patch @ drop (offset + length patch) buf)"

lemma patched_spec:
  "length (patched s offset patch) = max (length s) (offset + length patch)"
  "byte_at (patched s offset patch) i =
     (if offset \<le> i \<and> i < offset + length patch then patch ! (i - offset) else byte_at s i)"
  by (auto simp: patched_def byte_at_def Let_def nth_append min_def max_def)

text \<open>
  \<open>SETRANGE\<close> overwrites the bytes from the offset on, pads a gap with zero bytes and grows the
  string as far as needed; the reply is the new length and the expiry is kept.
\<close>

theorem setrange_correct:
  assumes "string_key now db (args ! 1)" and "length args = 4"
    and "parse_int (args ! 2) = Inr (int offset)" and "args ! 3 \<noteq> []"
  shows "\<exists>s. fst (setrange now args db) = Integer (int (length s))
    \<and> live now (snd (setrange now args db)) =
        (live now db)(args ! 1 \<mapsto> (StringV s, live_ttl now db (args ! 1)))
    \<and> length s = max (length (string_or_empty now db (args ! 1))) (offset + length (args ! 3))
    \<and> (\<forall>i. byte_at s i = (if offset \<le> i \<and> i < offset + length (args ! 3) then args ! 3 ! (i - offset)
           else byte_at (string_or_empty now db (args ! 1)) i))"
proof (intro exI conjI allI)
  let ?s = "patched (string_or_empty now db (args ! 1)) offset (args ! 3)"
  have "fst (setrange now args db) = Integer (int (length ?s)) \<and> live now (snd (setrange now args db)) =
      (live now db)(args ! 1 \<mapsto> (StringV ?s, live_ttl now db (args ! 1)))"
  proof (cases rule: strings.get_cases [of now "args ! 1" db])
    case (absent db')
    with assms live_ttl_cong [OF absent(3), of "args ! 1"] show ?thesis
      by (simp add: setrange_def get_str_def string_views live_simps Let_def patched_def)
  next
    case (wrong v t db')
    with assms show ?thesis by (simp add: string_views)
  next
    case (present s t db')
    with assms live_ttl_cong [OF present(3), of "args ! 1"] show ?thesis
      by (simp add: setrange_def get_str_def string_views live_simps Let_def patched_def)
  qed
  then show "fst (setrange now args db) = Integer (int (length ?s))"
    "live now (snd (setrange now args db)) =
      (live now db)(args ! 1 \<mapsto> (StringV ?s, live_ttl now db (args ! 1)))" by auto
qed (rule patched_spec)+

theorem setrange_correct_witness:
  "\<exists>s. live 5 (snd (setrange 5 [ascii ''setrange'', [7], dec_int 3, [9]] [])) [7] = Some (StringV s, None)
     \<and> length s = 4"
proof -
  let ?args = "[ascii ''setrange'', [7], dec_int 3, [9]]"
  have "string_key 5 [] (?args ! 1)" and "string_or_empty 5 [] (?args ! 1) = []" and "live_ttl 5 [] (?args ! 1) = None"
    by (simp_all add: string_key_def string_or_empty_def string_at_def live_def live_ttl_def)
  moreover have "parse_int (?args ! 2) = Inr (int 3)" by (simp add: i64_ok_def)
  ultimately obtain s where "live 5 (snd (setrange 5 ?args [])) = (live 5 [])(?args ! 1 \<mapsto> (StringV s, None))"
    and "length s = max 0 (3 + length (?args ! 3))"
    using setrange_correct [of 5 "[]" ?args 3] by auto
  then show ?thesis by simp
qed

text \<open>
  \<open>MSET\<close> is insertion of all pairs into the map of live keys.
\<close>

lemma set_all_count_steps:
  "set_all kvs db = fst (count_steps (\<lambda>(k, v) db. (db_set k v db, k \<notin> dom (live now db)))
     (map (\<lambda>(k, v). (k, StringV v)) kvs) db)"
  by (induction kvs arbitrary: db) (auto simp: set_all_def case_prod_unfold Let_def)

lemma set_all_live:
  "map_option fst \<circ> live now (set_all kvs db) =
     (map_option fst \<circ> live now db) ++ map_of (rev (map (\<lambda>(k, v). (k, StringV v)) kvs))"
  using live_db.look_ins_all [where now = now and s = db and kvs = "map (\<lambda>(k, v). (k, StringV v)) kvs"]
  by (simp add: set_all_count_steps [of _ _ now] comp_def)

lemma any_contains_live:
  "fst (any_contains now ks db) \<longleftrightarrow> set ks \<inter> dom (live now db) \<noteq> {}"
  "live now (snd (any_contains now ks db)) = live now db"
  by (induction ks arbitrary: db) (auto simp: case_prod_unfold Let_def db_contains_live)

text \<open>
  \<open>MSETNX\<close> is all or nothing: if some key exists it replies 0 and changes no value, otherwise it
  replies 1 and every key holds its last value.
\<close>

theorem msetnx_atomic:
  assumes "3 \<le> length args" and "odd (length args)"
    and "kvs = pairs_of (drop 1 args)"
  shows "if fst ` set kvs \<inter> dom (live now db) \<noteq> {}
    then fst (msetnx now args db) = Integer 0 \<and> live now (snd (msetnx now args db)) = live now db
    else fst (msetnx now args db) = Integer 1
      \<and> map_option fst \<circ> live now (snd (msetnx now args db)) =
          (map_option fst \<circ> live now db) ++ map_of (rev (map (\<lambda>(k, v). (k, StringV v)) kvs))"
proof -
  obtain f db1 where a: "any_contains now (map fst kvs) db = (f, db1)"
    and f: "f \<longleftrightarrow> fst ` set kvs \<inter> dom (live now db) \<noteq> {}" and l: "live now db1 = live now db"
    using any_contains_live [of now "map fst kvs" db]
    by (cases "any_contains now (map fst kvs) db") auto
  have "msetnx now args db = (if f then (Integer 0, db1) else (Integer 1, set_all kvs db1))"
    using assms a by (simp add: msetnx_def odd_iff_mod_2_eq_one Let_def)
  with f l set_all_live [of now kvs db1] show ?thesis by auto
qed

theorem msetnx_atomic_witness:
  "fst (msetnx 5 [ascii ''msetnx'', [1], [2], [3], [4]] []) = Integer 1"
  using msetnx_atomic [of "[ascii ''msetnx'', [1], [2], [3], [4]]" "[([1], [2]), ([3], [4])]" 5 "[]"]
  by (simp add: live_def [abs_def])

subsection \<open>Deadlines in the past\<close>

text \<open>
  \<open>SET key v EXAT n\<close> with a negative \<open>n\<close>, a deadline before 1970, is accepted and taken modulo
  \<open>2^64\<close>: the expiry stored for \<open>-1\<close> lies at the far end of time and the key does not expire.
\<close>

theorem set_exat_negative:
  assumes "now < - 1000"
  shows "live now (snd (string_set now [ascii ''set'', k, v, ascii ''exat'', dec_int (- 1)] db)) k
    = Some (StringV v, Some (- 1000))"
proof -
  let ?so = "set_options_start\<lparr>so_expire_seen := True, so_expire_at := Some (- 1000)\<rparr>"
  have u: "upper (ascii ''exat'') = ascii ''EXAT''" by code_simp
  have ne: "ascii ''EXAT'' \<noteq> ascii ''NX''" "ascii ''EXAT'' \<noteq> ascii ''XX''"
    "ascii ''EXAT'' \<noteq> ascii ''GET''" "ascii ''EXAT'' \<noteq> ascii ''KEEPTTL''"
    "ascii ''EXAT'' \<noteq> ascii ''EX''" "ascii ''EXAT'' \<noteq> ascii ''PX''"
    by (simp_all add: ascii_def)
  have "set_opts now (drop 3 [ascii ''set'', k, v, ascii ''exat'', dec_int (- 1)]) set_options_start = Inr ?so"
    by (simp add: u ne Let_def is_expire_opt_def set_deadline_def i64_ok_def u64_of_i64_def
        set_options_start_def del: set_opts.simps add: set_opts.simps)
  note set_correct_aux [OF _ this, where db = db and written = True and ttl = "Some (- 1000)"]
  then show ?thesis using assms by (simp add: set_options_start_def stale_def)
qed

theorem set_exat_negative_witness:
  "live 5 (snd (string_set 5 [ascii ''set'', [7], [1], ascii ''exat'', dec_int (- 1)] [])) [7]
     = Some (StringV [1], Some (- 1000))"
  by (rule set_exat_negative) simp

text \<open>
  \<open>GETEX key PERSIST x\<close> with an unknown option \<open>x\<close> replies with a syntax error although the
  expiry has been removed.
\<close>

theorem getex_error_after_effect:
  assumes "live now db k = Some (StringV v, Some t)"
    and "x = ascii ''bogus''"
  shows "fst (getex now [ascii ''getex'', k, ascii ''persist'', x] db) = syntax_error
    \<and> live now (snd (getex now [ascii ''getex'', k, ascii ''persist'', x] db)) k = Some (StringV v, None)"
proof (cases rule: strings.get_cases [of now k db])
  case (present s t' db')
  have u: "upper (ascii ''persist'') = ascii ''PERSIST''" "upper (ascii ''bogus'') = ascii ''BOGUS''"
    by code_simp+
  have ne: "ascii ''BOGUS'' \<noteq> ascii ''PERSIST''" "\<not> is_expire_opt (ascii ''BOGUS'')"
    by (simp_all add: ascii_def is_expire_opt_def)
  from present assms show ?thesis
    by (simp add: getex_def get_str_def u ne Let_def live_simps)
qed (use assms in auto)

theorem getex_error_after_effect_witness:
  "fst (getex 5 [ascii ''getex'', [7], ascii ''persist'', ascii ''bogus'']
     [([7], \<lparr>e_value = StringV [1], e_expire_at = Some 9\<rparr>)]) = syntax_error"
  using getex_error_after_effect [of 5 "[([7], \<lparr>e_value = StringV [1], e_expire_at = Some 9\<rparr>)]" "[7]" "[1]" 9]
  by (simp add: live_def expired_def entry_pair_def)

subsection \<open>Frame conditions\<close>

definition string_commands :: "u64 \<Rightarrow> bytes list \<Rightarrow> (db \<Rightarrow> frame \<times> db) list" where
  "string_commands now args =
     [string_get now args, getset now args, getdel now args, getex now args, string_append now args,
      strlen now args, incr now args 1, incr now args (- 1), incrby now args False,
      incrby now args True, incrbyfloat now args, getrange now args, setrange now args]"

definition string_overwrites :: "u64 \<Rightarrow> bytes list \<Rightarrow> (db \<Rightarrow> frame \<times> db) list" where
  "string_overwrites now args =
     [string_set now args, setnx now args, setex now args False, setex now args True,
      mget now args, mset_cmd now args, msetnx now args]"

lemmas string_command_defs = string_get_def getset_def getdel_def getex_def string_append_def
  strlen_def incr_def incrby_def do_incr_def incrbyfloat_def getrange_def setrange_def get_str_def Let_def

lemma string_commands_wrong:
  assumes "c \<in> set (string_commands now args)" and "\<not> string_key now db (args ! 1)"
  shows "is_error (fst (c db)) \<and> live now (snd (c db)) = live now db"
proof (cases rule: strings.get_cases [of now "args ! 1" db])
  case (wrong v t db')
  with assms show ?thesis
    by (auto simp: string_commands_def string_command_defs split: sum.splits option.splits)
qed (use assms in \<open>auto simp: string_views\<close>)

lemma getex_loop_db_ok: "db_ok db \<Longrightarrow> db_ok (snd (getex_loop now key as db))"
proof (induction as arbitrary: db rule: measure_induct_rule [where f = length])
  case (less as)
  then show ?case
    by (cases as) (auto simp: Let_def db_ok_persist db_ok_set_expire split: list.splits sum.splits)
qed

lemma string_commands_db_ok_aux:
  assumes "c \<in> set (string_commands now args)" and "db_ok db"
  shows "db_ok (snd (c db))"
proof -
  obtain r db' where g: "get_as as_string now (args ! 1) db = (r, db')" and o: "db_ok db'"
    using assms(2) by (cases rule: strings.get_cases [of now "args ! 1" db]) auto
  have l: "db_ok (snd (case getex_loop now k as d of (Some e, db) \<Rightarrow> (e, db) | (None, db) \<Rightarrow> (Bulk v, db)))"
    if "db_ok d" for k as d v
    using getex_loop_db_ok [OF that, of now k as] by (auto split: prod.splits option.splits)
  show ?thesis using assms g o l
    by (auto simp: string_commands_def string_command_defs db_ok_set db_ok_remove db_ok_set_keep_ttl
        split: sum.splits option.splits)
qed

lemma set_all_db_ok: "db_ok db \<Longrightarrow> db_ok (set_all kvs db)"
  by (induction kvs arbitrary: db) (auto simp: set_all_def db_ok_set)

lemma any_contains_db_ok: "db_ok db \<Longrightarrow> db_ok (snd (any_contains now ks db))"
  by (induction ks arbitrary: db) (auto simp: Let_def case_prod_unfold db_ok_contains)

lemma get_str_db_ok: "db_ok db \<Longrightarrow> db_ok (snd (get_str now k db))"
  by (simp add: get_str_def get_as_def case_prod_unfold Let_def db_ok_get)

lemma mget_loop_db_ok: "db_ok db \<Longrightarrow> db_ok (snd (mget_loop now ks db))"
  by (induction ks arbitrary: db) (auto simp: Let_def case_prod_unfold get_str_db_ok)

lemma string_set_tail_db_ok:
  "db_ok db \<Longrightarrow> db_ok (if w then if kt then db_set_keep_ttl k (StringV v) db
     else let db = db_set k (StringV v) db
          in case at of Some at \<Rightarrow> snd (db_set_expire now k at db) | None \<Rightarrow> db else db)"
  by (auto simp: Let_def db_ok_set_keep_ttl db_ok_set db_ok_set_expire split: option.splits)

lemma string_set_db_ok:
  assumes "db_ok db"
  shows "db_ok (snd (string_set now args db))"
proof (cases "set_opts now (drop 3 args) set_options_start")
  case (Inl e)
  with assms show ?thesis by (simp add: string_set_def Let_def)
next
  case (Inr so)
  obtain r d where g: "(if so_get so then get_str now (args ! 1) db else (Inr None, db)) = (r, d)"
    by (cases "if so_get so then get_str now (args ! 1) db else (Inr None, db)")
  have d: "db_ok d"
    using g assms get_str_db_ok [OF assms, of now "args ! 1"] by (auto split: if_splits)
  obtain p d2 where c: "db_contains now (args ! 1) d = (p, d2)"
    by (cases "db_contains now (args ! 1) d")
  have d2: "db_ok d2" using db_ok_contains [OF d, of now "args ! 1"] c by simp
  have t: "\<And>w. db_ok (if w then if so_keepttl so then db_set_keep_ttl (args ! 1) (StringV (args ! 2)) d2
     else let db = db_set (args ! 1) (StringV (args ! 2)) d2
          in case so_expire_at so of Some at \<Rightarrow> snd (db_set_expire now (args ! 1) at db) | None \<Rightarrow> db else d2)"
    using d2 by (rule string_set_tail_db_ok)
  consider (few) "length args < 3"
    | (bad) "\<not> length args < 3" "(so_nx so \<and> so_xx so) \<or> (so_keepttl so \<and> so_expire_seen so)"
    | (good) "(length args < 3) = False"
        "((so_nx so \<and> so_xx so) \<or> (so_keepttl so \<and> so_expire_seen so)) = False"
    by argo
  then show ?thesis
  proof cases
    case few
    with assms show ?thesis by (simp add: string_set_def)
  next
    case bad
    with assms Inr show ?thesis by (simp add: string_set_def Let_def)
  next
    case good
    note e = string_set_def [of now args db, unfolded Let_def good if_False Inr sum.case g prod.case c]
    show ?thesis
    proof (cases r)
      case (Inl a)
      with d show ?thesis unfolding e by simp
    next
      case (Inr old)
      with t show ?thesis unfolding e by (simp only: Let_def sum.case prod.case c snd_conv)
    qed
  qed
qed

lemma string_overwrites_db_ok:
  assumes "c \<in> set (string_overwrites now args)" and "db_ok db"
  shows "db_ok (snd (c db))"
  using assms
  by (auto simp: string_overwrites_def string_set_db_ok setnx_def setex_def mget_def mset_cmd_def msetnx_def
      Let_def case_prod_unfold mget_loop_db_ok set_all_db_ok any_contains_db_ok db_ok_contains db_ok_set
      db_ok_set_expire split: sum.splits)

text \<open>
  Every string command keeps the invariant of the database.
\<close>

theorem string_commands_db_ok:
  assumes "db_ok db" and "c \<in> set (string_commands now args @ string_overwrites now args)"
  shows "db_ok (snd (c db))"
  using assms string_commands_db_ok_aux string_overwrites_db_ok by auto

theorem string_commands_db_ok_witness:
  "db_ok (snd (string_append 5 [ascii ''append'', [7], [1]] []))"
  using string_commands_db_ok [of "[]" "string_append 5 [ascii ''append'', [7], [1]]" 5
      "[ascii ''append'', [7], [1]]"]
  by (simp add: string_commands_def)

text \<open>
  The string commands that read a value refuse a key of another type, with an error and without
  changing the live contents, whatever the arguments; only \<open>SET\<close>, \<open>SETNX\<close>, \<open>SETEX\<close> and the \<open>M\<close>
  forms replace it.
\<close>

theorem string_wrong_type:
  assumes "\<not> string_key now db (args ! 1)" and "c \<in> set (string_commands now args)"
  shows "is_error (fst (c db)) \<and> live now (snd (c db)) = live now db"
  using assms(2,1) by (rule string_commands_wrong)

theorem string_wrong_type_witness:
  "is_error (fst (string_append 5 [ascii ''append'', [7], [1]]
     [([7], \<lparr>e_value = ListV [[1]], e_expire_at = None\<rparr>)]))"
proof -
  have "\<not> string_key 5 [([7], \<lparr>e_value = ListV [[1]], e_expire_at = None\<rparr>)]
      ([ascii ''append'', [7], [1]] ! 1)"
    by (simp add: string_key_def live_def expired_def entry_pair_def)
  from string_wrong_type [OF this] show ?thesis by (simp add: string_commands_def)
qed

end
