(* ===== verification/Cmd_Bit.thy ===== *)
theory Cmd_Bit
  imports Cmd_String
begin

text \<open>
  The bitmap commands (src/commands/bitops.rs), on the bytes of string values. Bit 0 is the most
  significant bit of byte 0.
\<close>

section \<open>The handlers\<close>

definition MAX_BIT_OFFSET :: int where
  "MAX_BIT_OFFSET = 4 * 1024 * 1024 * 1024"

definition get_bit :: "bytes \<Rightarrow> nat \<Rightarrow> u8" where
  "get_bit bs i =
     (let b = i div 8 in
      if length bs \<le> b then 0 else drop_bit (7 - i mod 8) (bs ! b) AND 1)"

definition bit_offset_error :: frame where
  "bit_offset_error = frame_err (ascii ''bit offset is not an integer or out of range'')"

definition parse_offset :: "bytes \<Rightarrow> frame + nat" where
  "parse_offset b =
     (case parse_int b of
        Inr n \<Rightarrow> if 0 \<le> n \<and> n < MAX_BIT_OFFSET then Inr (nat n) else Inl bit_offset_error
      | Inl _ \<Rightarrow> Inl bit_offset_error)"

text \<open>The byte-level part of \<open>SETBIT\<close>: the old bit and the new buffer.\<close>

definition put_bit :: "bytes \<Rightarrow> nat \<Rightarrow> bool \<Rightarrow> bool \<times> bytes" where
  "put_bit buf offset v =
     (let b = offset div 8;
          buf = (if length buf \<le> b then buf @ replicate (b + 1 - length buf) 0 else buf);
          mask = push_bit (7 - offset mod 8) 1;
          old = (buf ! b AND mask \<noteq> 0)
      in (old, buf[b := (if v then buf ! b OR mask else buf ! b AND NOT mask)]))"

definition setbit :: "u64 \<Rightarrow> bytes list \<Rightarrow> db \<Rightarrow> frame \<times> db" where
  "setbit now args db =
     (if length args \<noteq> 4 then (wrong_args ''setbit'', db)
      else case parse_offset (args ! 2) of
        Inl e \<Rightarrow> (e, db)
      | Inr offset \<Rightarrow>
          (case (case parse_int (args ! 3) of
                   Inr n \<Rightarrow> if n = 0 then Some False else if n = 1 then Some True else None
                 | Inl _ \<Rightarrow> None) of
             None \<Rightarrow> (frame_err (ascii ''bit is not an integer or out of range''), db)
           | Some v \<Rightarrow>
               (case get_str now (args ! 1) db of
                  (Inl _, db) \<Rightarrow> (wrongtype, db)
                | (Inr s, db) \<Rightarrow>
                    let (old, buf) = put_bit (case s of Some s \<Rightarrow> s | None \<Rightarrow> []) offset v
                    in (Integer (bool_int old), db_set_keep_ttl (args ! 1) (StringV buf) db))))"

definition getbit :: "u64 \<Rightarrow> bytes list \<Rightarrow> db \<Rightarrow> frame \<times> db" where
  "getbit now args db =
     (if length args \<noteq> 3 then (wrong_args ''getbit'', db)
      else case parse_offset (args ! 2) of
        Inl e \<Rightarrow> (e, db)
      | Inr offset \<Rightarrow>
          (case get_str now (args ! 1) db of
             (Inr (Some s), db) \<Rightarrow> (Integer (uint (get_bit s offset)), db)
           | (Inr None, db) \<Rightarrow> (Integer 0, db)
           | (Inl _, db) \<Rightarrow> (wrongtype, db)))"

definition count_ones :: "u8 \<Rightarrow> nat" where
  "count_ones b = length (filter (bit b) [0..<8])"

definition clamp :: "int \<Rightarrow> int \<Rightarrow> nat \<Rightarrow> (nat \<times> nat) option" where
  "clamp start stop len =
     (if len = 0 then None
      else
        let len = int len;
            s = (if start < 0 then i64 (start + len) else start);
            e = (if stop < 0 then i64 (stop + len) else stop);
            s = (if s < 0 then 0 else s);
            e = (if len \<le> e then len - 1 else e)
        in if e < s \<or> len \<le> s then None else Some (nat s, nat e))"

text \<open>
  The range of bits that \<open>BITCOUNT\<close> visits; the sum of the whole-string form is a \<open>u32\<close>.
\<close>

definition bitcount :: "u64 \<Rightarrow> bytes list \<Rightarrow> db \<Rightarrow> frame \<times> db" where
  "bitcount now args db =
     (if length args \<noteq> 2 \<and> length args \<noteq> 4 \<and> length args \<noteq> 5 then (syntax_error, db)
      else case get_str now (args ! 1) db of
        (Inr None, db) \<Rightarrow> (Integer 0, db)
      | (Inl _, db) \<Rightarrow> (wrongtype, db)
      | (Inr (Some s), db) \<Rightarrow>
          if length args = 2 then
            (Integer (int (sum_list (map count_ones s) mod 2 ^ 32)), db)
          else case parse_int (args ! 2) of
            Inl e \<Rightarrow> (e, db)
          | Inr start \<Rightarrow>
              (case parse_int (args ! 3) of
                 Inl e \<Rightarrow> (e, db)
               | Inr stop \<Rightarrow>
                   let bit_unit = (length args = 5 \<and> upper (args ! 4) = ascii ''BIT'') in
                   if length args = 5 \<and> \<not> bit_unit \<and> upper (args ! 4) \<noteq> ascii ''BYTE'' then
                     (syntax_error, db)
                   else
                     let total_bits = length s * 8 in
                     case (if bit_unit then clamp start stop total_bits
                           else map_option (\<lambda>(a, b). (a * 8, b * 8 + 7)) (clamp start stop (length s))) of
                       None \<Rightarrow> (Integer 0, db)
                     | Some (lo, hi) \<Rightarrow>
                         (Integer (int (length (filter (\<lambda>b. get_bit s b = 1)
                            [lo..<min hi (total_bits - 1) + 1]))), db)))"

text \<open>The search window of \<open>BITPOS\<close>: an error, no window, or its two ends.\<close>

definition bitpos_window :: "bytes list \<Rightarrow> bytes \<Rightarrow> frame + (nat \<times> nat) option" where
  "bitpos_window args s =
     (let total_bits = length s * 8;
          bit_unit = (length args = 6 \<and> upper (args ! 5) = ascii ''BIT'') in
      if length args = 3 then Inr (Some (0, total_bits - 1))
      else case parse_int (args ! 3) of
        Inl e \<Rightarrow> Inl e
      | Inr start \<Rightarrow>
          (case (if 5 \<le> length args then parse_int (args ! 4) else Inr (- 1)) of
             Inl e \<Rightarrow> Inl e
           | Inr stop \<Rightarrow>
               Inr (map_option (\<lambda>(a, b). if bit_unit then (a, b) else (a * 8, b * 8 + 7))
                 (clamp start stop (if bit_unit then total_bits else length s)))))"

definition bitpos :: "u64 \<Rightarrow> bytes list \<Rightarrow> db \<Rightarrow> frame \<times> db" where
  "bitpos now args db =
     (if length args < 3 \<or> 6 < length args then (syntax_error, db)
      else case (case parse_int (args ! 2) of
                   Inr n \<Rightarrow> if n = 0 then Some 0 else if n = 1 then Some (1 :: u8) else None
                 | Inl _ \<Rightarrow> None) of
        None \<Rightarrow> (frame_err (ascii ''The bit argument must be 1 or 0.''), db)
      | Some target \<Rightarrow>
          (case get_str now (args ! 1) db of
             (Inr None, db) \<Rightarrow> (Integer (if target = 0 then 0 else - 1), db)
           | (Inl _, db) \<Rightarrow> (wrongtype, db)
           | (Inr (Some s), db) \<Rightarrow>
               let total_bits = length s * 8; end_given = (5 \<le> length args) in
               (case bitpos_window args s of
                  Inl e \<Rightarrow> (e, db)
                | Inr None \<Rightarrow> (Integer (- 1), db)
                | Inr (Some (lo, hi)) \<Rightarrow>
                    (case find (\<lambda>b. get_bit s b = target) [lo..<min hi (total_bits - 1) + 1] of
                       Some b \<Rightarrow> (Integer (int b), db)
                     | None \<Rightarrow>
                         if target = 0 \<and> \<not> end_given then (Integer (int total_bits), db)
                         else (Integer (- 1), db)))))"

fun read_strings :: "u64 \<Rightarrow> bytes list \<Rightarrow> db \<Rightarrow> (wrong_type + bytes list) \<times> db" where
  "read_strings now [] db = (Inr [], db)"
| "read_strings now (k # ks) db =
     (case get_str now k db of
        (Inl e, db) \<Rightarrow> (Inl e, db)
      | (Inr s, db) \<Rightarrow>
          (case read_strings now ks db of
             (Inl e, db) \<Rightarrow> (Inl e, db)
           | (Inr ss, db) \<Rightarrow> (Inr ((case s of Some s \<Rightarrow> s | None \<Rightarrow> []) # ss), db)))"

definition max_len :: "bytes list \<Rightarrow> nat" where
  "max_len sources = foldr (\<lambda>s m. max (length s) m) sources 0"

definition bitop_fold :: "(u8 \<Rightarrow> u8 \<Rightarrow> u8) \<Rightarrow> u8 \<Rightarrow> bytes list \<Rightarrow> bytes" where
  "bitop_fold f start sources =
     map (\<lambda>i. foldl (\<lambda>acc s. f acc (byte_at s i)) start sources) [0..<max_len sources]"

definition bitop :: "u64 \<Rightarrow> bytes list \<Rightarrow> db \<Rightarrow> frame \<times> db" where
  "bitop now args db =
     (if length args < 4 then (wrong_args ''bitop'', db)
      else
        let op = upper (args ! 1); dest = args ! 2; keys = drop 3 args in
        if op = ascii ''NOT'' \<and> length keys \<noteq> 1 then
          (frame_err (ascii ''BITOP NOT must be called with a single source key.''), db)
        else case read_strings now keys db of
          (Inl _, db) \<Rightarrow> (wrongtype, db)
        | (Inr sources, db) \<Rightarrow>
            (case (if op = ascii ''AND'' then Some (bitop_fold (AND) 0xff sources)
                   else if op = ascii ''OR'' then Some (bitop_fold (OR) 0 sources)
                   else if op = ascii ''XOR'' then Some (bitop_fold (XOR) 0 sources)
                   else if op = ascii ''NOT'' then Some (map (\<lambda>b. NOT b) (sources ! 0))
                   else None) of
               None \<Rightarrow> (syntax_error, db)
             | Some result \<Rightarrow>
                 (Integer (int (length result)),
                  if result = [] then fst (db_remove now dest db)
                  else db_set dest (StringV result) db)))"

section \<open>Bits\<close>

lemma and_1_bit: "(w :: u8) AND 1 = (if bit w 0 then 1 else 0)"
  by (simp add: and_one_eq odd_iff_mod_2_eq_one bit_0 mod2_eq_if)

lemma get_bit_eq: "get_bit bs i = (if bit (byte_at bs (i div 8)) (7 - i mod 8) then 1 else 0)"
  by (auto simp: get_bit_def byte_at_def Let_def and_1_bit bit_drop_bit_eq)

lemma put_bit_spec:
  "fst (put_bit s offset v) \<longleftrightarrow> get_bit s offset = 1"
  "get_bit (snd (put_bit s offset v)) i = (if i = offset then (if v then 1 else 0) else get_bit s i)"
  "length (snd (put_bit s offset v)) = max (length s) (offset div 8 + 1)"
proof -
  define buf where "buf = (if length s \<le> offset div 8 then s @ replicate (offset div 8 + 1 - length s) 0 else s)"
  have len: "offset div 8 < length buf" "length buf = max (length s) (offset div 8 + 1)"
    by (auto simp: buf_def)
  have byte: "byte_at buf j = byte_at s j" for j
    by (auto simp: buf_def byte_at_def nth_append)
  define mask :: u8 where "mask = push_bit (7 - offset mod 8) 1"
  define nb where "nb = (if v then buf ! (offset div 8) OR mask else buf ! (offset div 8) AND NOT mask)"
  have e: "put_bit s offset v = (buf ! (offset div 8) AND mask \<noteq> 0, buf[offset div 8 := nb])"
    by (simp add: put_bit_def Let_def buf_def [symmetric] mask_def nb_def)
  have b0: "buf ! (offset div 8) = byte_at s (offset div 8)"
    using len byte [of "offset div 8"] by (simp add: byte_at_def)
  show "fst (put_bit s offset v) \<longleftrightarrow> get_bit s offset = 1"
    by (simp add: e b0 mask_def and_exp_eq_0_iff_not_bit get_bit_eq)
  show "length (snd (put_bit s offset v)) = max (length s) (offset div 8 + 1)"
    by (simp add: e len)
  have nbit: "bit nb n = (if n = 7 - offset mod 8 then v else bit (byte_at s (offset div 8)) n)" if "n < 8" for n
    using that by (auto simp: nb_def b0 mask_def bit_simps)
  have byte': "byte_at (buf[offset div 8 := nb]) j = (if j = offset div 8 then nb else byte_at s j)" for j
    using len(1) byte [of j] by (auto simp: byte_at_def nth_list_update)
  have idx: "i = offset \<longleftrightarrow> i div 8 = offset div 8 \<and> 7 - i mod 8 = 7 - offset mod 8"
  proof -
    have "i mod 8 < 8" "offset mod 8 < 8" by simp_all
    then have "7 - i mod 8 = 7 - offset mod 8 \<longleftrightarrow> i mod 8 = offset mod 8" by linarith
    then show ?thesis by (metis div_mult_mod_eq)
  qed
  show "get_bit (snd (put_bit s offset v)) i = (if i = offset then (if v then 1 else 0) else get_bit s i)"
    using idx by (auto simp: e get_bit_eq byte' nbit)
qed

text \<open>
  \<open>SETBIT\<close> replies with the previous bit and sets that one bit of the string and no other,
  growing it with zero bytes as far as needed; the expiry is kept.
\<close>

theorem setbit_correct:
  assumes "string_key now db (args ! 1)" and "length args = 4"
    and "parse_offset (args ! 2) = Inr offset" and "parse_int (args ! 3) = Inr (bool_int v)"
  shows "\<exists>s. fst (setbit now args db) = Integer (uint (get_bit (string_or_empty now db (args ! 1)) offset))
    \<and> live now (snd (setbit now args db)) =
        (live now db)(args ! 1 \<mapsto> (StringV s, live_ttl now db (args ! 1)))
    \<and> length s = max (length (string_or_empty now db (args ! 1))) (offset div 8 + 1)
    \<and> (\<forall>i. get_bit s i = (if i = offset then (if v then 1 else 0)
           else get_bit (string_or_empty now db (args ! 1)) i))"
proof -
  let ?o = "string_or_empty now db (args ! 1)"
  let ?p = "put_bit ?o offset v"
  have "setbit now args db = (Integer (bool_int (fst ?p)), snd (setbit now args db))
    \<and> live now (snd (setbit now args db)) =
        (live now db)(args ! 1 \<mapsto> (StringV (snd ?p), live_ttl now db (args ! 1)))"
  proof (cases rule: strings.get_cases [of now "args ! 1" db])
    case (absent db')
    with assms live_ttl_cong [OF absent(3), of "args ! 1"] show ?thesis
      by (simp add: setbit_def get_str_def string_views live_simps Let_def case_prod_unfold bool_int_def)
  next
    case (wrong w t db')
    with assms show ?thesis by (simp add: string_views)
  next
    case (present s t db')
    with assms live_ttl_cong [OF present(3), of "args ! 1"] show ?thesis
      by (simp add: setbit_def get_str_def string_views live_simps Let_def case_prod_unfold bool_int_def)
  qed
  moreover have "bool_int (fst ?p) = uint (get_bit ?o offset)"
    by (simp add: put_bit_spec(1) bool_int_def get_bit_eq)
  ultimately show ?thesis using put_bit_spec(2,3) [of ?o offset v] by (metis fst_conv)
qed

theorem setbit_correct_witness:
  "fst (setbit 5 [ascii ''setbit'', [7], dec_int 9, dec_int 1]
     [([7], \<lparr>e_value = StringV [0, 64], e_expire_at = None\<rparr>)]) = Integer 1"
proof -
  let ?db = "[([7], \<lparr>e_value = StringV [0, 64], e_expire_at = None\<rparr>)]"
  let ?args = "[ascii ''setbit'', [7], dec_int 9, dec_int 1]"
  have l: "live 5 ?db [7] = Some (StringV [0, 64], None)"
    by (simp add: live_def expired_def entry_pair_def)
  have "parse_offset (?args ! 2) = Inr 9" "parse_int (?args ! 3) = Inr (bool_int True)"
    by (simp_all add: parse_offset_def MAX_BIT_OFFSET_def i64_ok_def bool_int_def)
  moreover have "get_bit [0, 64] 9 = 1" by (simp add: get_bit_def)
  ultimately show ?thesis
    using setbit_correct [of 5 ?db ?args 9 True] l by (auto simp: string_views)
qed

section \<open>Counting\<close>

lemma get_bit_Cons:
  "get_bit (b # bs) i = (if i < 8 then (if bit b (7 - i) then 1 else 0) else get_bit bs (i - 8))"
proof (cases "i < 8")
  case True
  then show ?thesis by (simp add: get_bit_eq byte_at_def)
next
  case False
  then have "i div 8 = Suc ((i - 8) div 8)" "i mod 8 = (i - 8) mod 8"
    by (metis Suc_eq_plus1 add_diff_inverse_nat div_add_self1 zero_neq_numeral add.commute)
       (metis False le_mod_geq not_less)
  with False show ?thesis by (simp add: get_bit_eq byte_at_def)
qed

lemma count_ones_rev: "length (filter (\<lambda>i. bit b (7 - i)) [0..<8]) = count_ones b"
proof -
  have "map (\<lambda>i. 7 - i) [0..<8] = rev [0..<8 :: nat]" by (simp add: upt_rec)
  then have "filter (bit b) (map (\<lambda>i. 7 - i) [0..<8]) = rev (filter (bit b) [0..<8])"
    by (simp add: rev_filter)
  then show ?thesis by (metis (no_types, lifting) count_ones_def filter_map length_map length_rev comp_def filter_cong)
qed

lemma filter_upt_shift:
  "length (filter P [k..<b + k]) = length (filter (\<lambda>i. P (i + k)) [0..<b])"
  by (simp add: map_add_upt [symmetric] filter_map comp_def)

lemma sum_count_ones: "sum_list (map count_ones s) = length (filter (\<lambda>i. get_bit s i = 1) [0..<8 * length s])"
proof (induction s)
  case Nil
  then show ?case by simp
next
  case (Cons b s)
  have split: "[0..<8 * length (b # s)] = [0..<8] @ [8..<8 * length s + 8]"
    using upt_add_eq_append [of 0 8 "8 * length s"] by (simp add: add.commute)
  have "length (filter (\<lambda>i. get_bit (b # s) i = 1) [0..<8]) = count_ones b"
    unfolding count_ones_rev [symmetric]
    by (intro arg_cong [where f = length] filter_cong) (auto simp: get_bit_Cons)
  moreover have "length (filter (\<lambda>i. get_bit (b # s) i = 1) [8..<8 * length s + 8])
      = length (filter (\<lambda>i. get_bit s i = 1) [0..<8 * length s])"
    unfolding filter_upt_shift by (simp add: get_bit_Cons)
  ultimately show ?case using Cons.IH unfolding split filter_append length_append by simp
qed

text \<open>
  \<open>BITCOUNT\<close> of a whole string, which adds up \<open>count_ones\<close> of its bytes, is the number of
  positions whose bit is set, the same count that the ranged form makes bit by bit.
\<close>

theorem bitcount_correct:
  assumes "string_key now db (args ! 1)" and "length args = 2"
    and "8 * length (string_or_empty now db (args ! 1)) < 2 ^ 32"
  shows "fst (bitcount now args db) =
    Integer (int (card {i. i < 8 * length (string_or_empty now db (args ! 1))
      \<and> get_bit (string_or_empty now db (args ! 1)) i = 1}))"
proof -
  let ?s = "string_or_empty now db (args ! 1)"
  let ?f = "filter (\<lambda>i. get_bit ?s i = 1) [0..<8 * length ?s]"
  have c: "length ?f = card {i. i < 8 * length ?s \<and> get_bit ?s i = 1}"
  proof -
    have "length ?f = card (set ?f)" by (simp add: distinct_card [symmetric])
    also have "set ?f = {i. i < 8 * length ?s \<and> get_bit ?s i = 1}" by auto
    finally show ?thesis .
  qed
  have "length ?f \<le> 8 * length ?s" using length_filter_le [of _ "[0..<8 * length ?s]"] by simp
  then have m: "length ?f mod 2 ^ 32 = length ?f" using assms(3) by simp
  show ?thesis
  proof (cases rule: strings.get_cases [of now "args ! 1" db])
    case (absent db')
    with assms show ?thesis by (simp add: bitcount_def get_str_def string_views)
  next
    case (wrong v t db')
    with assms show ?thesis by (simp add: string_views)
  next
    case (present s t db')
    then have "?s = s" by (simp add: string_views)
    with present assms(2) m c show ?thesis by (simp add: bitcount_def get_str_def sum_count_ones)
  qed
qed

theorem bitcount_correct_witness:
  "fst (bitcount 5 [ascii ''bitcount'', [7]] []) = Integer 0"
  using bitcount_correct [of 5 "[]" "[ascii ''bitcount'', [7]]"]
  by (simp add: string_key_def string_or_empty_def string_at_def live_def)

section \<open>Combining\<close>

lemma max_len_bound: "s \<in> set sources \<Longrightarrow> length s \<le> max_len sources"
  by (induction sources) (auto simp: max_len_def)

lemma byte_at_bitop_fold:
  "byte_at (bitop_fold f start sources) i =
     (if i < max_len sources then foldl (\<lambda>acc s. f acc (byte_at s i)) start sources else 0)"
  by (simp add: bitop_fold_def byte_at_def [of "map _ _"])

lemma bit_foldl:
  "bit (foldl (\<lambda>acc s. acc AND g s) (a :: u8) ss) n \<longleftrightarrow> bit a n \<and> (\<forall>s\<in>set ss. bit (g s) n)"
  "bit (foldl (\<lambda>acc s. acc OR g s) (a :: u8) ss) n \<longleftrightarrow> bit a n \<or> (\<exists>s\<in>set ss. bit (g s) n)"
  "bit (foldl (\<lambda>acc s. acc XOR g s) (a :: u8) ss) n \<longleftrightarrow>
     (bit a n \<noteq> odd (length (filter (\<lambda>s. bit (g s) n) ss)))"
  by (induction ss arbitrary: a) (auto simp: bit_simps)

text \<open>
  \<open>BITOP AND\<close>, \<open>OR\<close> and \<open>XOR\<close> combine the sources bit by bit, shorter ones padded with zero
  bits: a bit of the result is set when it is set in all, in some, or in an odd number of sources.
\<close>

theorem bitop_bits:
  assumes "i < 8 * max_len sources"
  shows "(get_bit (bitop_fold (AND) 0xff sources) i = 1 \<longleftrightarrow> (\<forall>s\<in>set sources. get_bit s i = 1))
    \<and> (get_bit (bitop_fold (OR) 0 sources) i = 1 \<longleftrightarrow> (\<exists>s\<in>set sources. get_bit s i = 1))
    \<and> (get_bit (bitop_fold (XOR) 0 sources) i = 1 \<longleftrightarrow>
         odd (length (filter (\<lambda>s. get_bit s i = 1) sources)))
    \<and> length (bitop_fold (AND) 0xff sources) = max_len sources"
proof -
  have i: "i div 8 < max_len sources" using assms by simp
  have "(0xff :: u8) = mask 8" by (simp add: mask_eq_exp_minus_1)
  then have ff: "bit (0xff :: u8) (7 - i mod 8)" by (simp only: bit_mask_iff) simp
  show ?thesis using i ff
    by (simp add: get_bit_eq byte_at_bitop_fold bit_foldl) (simp add: bitop_fold_def)
qed

theorem bitop_bits_witness:
  "get_bit (bitop_fold (XOR) 0 [[0x80], [0xC0]]) 1 = 1"
proof -
  have "1 < 8 * max_len [[0x80 :: u8], [0xC0]]" by (simp add: max_len_def)
  from bitop_bits [OF this] show ?thesis by (simp add: get_bit_def)
qed

end
