(* ===== verification/Cmd_Zset.thy ===== *)
theory Cmd_Zset
  imports Cmd
begin

text \<open>
  The sorted-set commands (src/commands/zset.rs), on the \<open>ZSet\<close> of src/db.rs. Ranges are cut out of
  the ascending list of members, as the code does.
\<close>

section \<open>Bounds and ranges\<close>

record score_bound =
  sb_value :: f64
  sb_exclusive :: bool

definition sb_contains :: "score_bound \<Rightarrow> f64 \<Rightarrow> bool" where
  "sb_contains b score =
     (if sb_exclusive b then f64_lt (sb_value b) score else f64_le (sb_value b) score)"

definition sb_contains_max :: "score_bound \<Rightarrow> f64 \<Rightarrow> bool" where
  "sb_contains_max b score =
     (if sb_exclusive b then f64_lt score (sb_value b) else f64_le score (sb_value b))"

definition min_max_error :: frame where
  "min_max_error = frame_err (ascii ''min or max is not a float'')"

definition parse_score_bound :: "bytes \<Rightarrow> frame + score_bound" where
  "parse_score_bound b =
     (if \<not> utf8_valid b then Inl min_max_error
      else
        let exclusive = (b \<noteq> [] \<and> hd b = 40);
            num = (if exclusive then tl b else b) in
        if num \<in> {ascii ''inf'', ascii ''+inf'', ascii ''infinity'', ascii ''+infinity''} then
          Inr \<lparr>sb_value = f64_inf, sb_exclusive = exclusive\<rparr>
        else if num \<in> {ascii ''-inf'', ascii ''-infinity''} then
          Inr \<lparr>sb_value = f64_neg_inf, sb_exclusive = exclusive\<rparr>
        else case parse_f64 (trim num) of
               Some f \<Rightarrow> if is_nan f then Inl min_max_error
                          else Inr \<lparr>sb_value = f, sb_exclusive = exclusive\<rparr>
             | None \<Rightarrow> Inl min_max_error)"

datatype lex_bound = NegInf | PosInf | Incl bytes | Excl bytes

fun ge_ok :: "lex_bound \<Rightarrow> bytes \<Rightarrow> bool" where
  "ge_ok NegInf m = True"
| "ge_ok PosInf m = False"
| "ge_ok (Incl v) m = (v \<le> m)"
| "ge_ok (Excl v) m = (v < m)"

fun le_ok :: "lex_bound \<Rightarrow> bytes \<Rightarrow> bool" where
  "le_ok NegInf m = False"
| "le_ok PosInf m = True"
| "le_ok (Incl v) m = (m \<le> v)"
| "le_ok (Excl v) m = (m < v)"

definition parse_lex_bound :: "bytes \<Rightarrow> frame + lex_bound" where
  "parse_lex_bound b =
     (case b of
        [] \<Rightarrow> Inl (frame_err (ascii ''not valid string range item''))
      | c # rest \<Rightarrow>
          if c = 45 \<and> rest = [] then Inr NegInf
          else if c = 43 \<and> rest = [] then Inr PosInf
          else if c = 91 then Inr (Incl rest)
          else if c = 40 then Inr (Excl rest)
          else Inl (frame_err (ascii ''not valid string range item'')))"

type_synonym scored = "bytes \<times> f64"

definition materialize :: "zset \<Rightarrow> scored list" where
  "materialize z = zset_iter_asc z"

definition emit :: "scored list \<Rightarrow> bool \<Rightarrow> frame" where
  "emit items withscores =
     (if withscores then Pairs (map (\<lambda>(m, s). (Bulk m, Double s)) items)
      else Array (map (\<lambda>(m, _). Bulk m) items))"

definition clamp_range :: "int \<Rightarrow> int \<Rightarrow> int \<Rightarrow> int \<times> int" where
  "clamp_range start stop len =
     (let s = (if start < 0 then i64 (start + len) else start);
          e = (if stop < 0 then i64 (stop + len) else stop);
          s = (if s < 0 then 0 else s);
          e = (if len \<le> e then len - 1 else e)
      in (s, e))"

definition range_by_index :: "scored list \<Rightarrow> bytes \<Rightarrow> bytes \<Rightarrow> bool \<Rightarrow> bool \<Rightarrow> frame" where
  "range_by_index items start stop reverse withscores =
     (case parse_int start of
        Inl e \<Rightarrow> e
      | Inr start \<Rightarrow>
          (case parse_int stop of
             Inl e \<Rightarrow> e
           | Inr stop \<Rightarrow>
               let ordered = (if reverse then rev items else items);
                   len = int (length ordered);
                   (s, e) = clamp_range start stop len
               in if e < s \<or> len \<le> s then Array []
                  else emit (drop (nat s) (take (nat e + 1) ordered)) withscores))"

definition apply_limit :: "scored list \<Rightarrow> (int \<times> int) option \<Rightarrow> scored list" where
  "apply_limit items limit =
     (case limit of
        None \<Rightarrow> items
      | Some (offset, count) \<Rightarrow>
          let items = drop (nat (max offset 0)) items
          in if count < 0 then items else take (nat count) items)"

definition range_by_score ::
    "scored list \<Rightarrow> bytes \<Rightarrow> bytes \<Rightarrow> bool \<Rightarrow> (int \<times> int) option \<Rightarrow> bool \<Rightarrow> frame" where
  "range_by_score items lo hi reverse limit withscores =
     (case parse_score_bound lo of
        Inl e \<Rightarrow> e
      | Inr mn \<Rightarrow>
          (case parse_score_bound hi of
             Inl e \<Rightarrow> e
           | Inr mx \<Rightarrow>
               let selected = filter (\<lambda>(_, s). sb_contains mn s \<and> sb_contains_max mx s) items;
                   selected = (if reverse then rev selected else selected)
               in emit (apply_limit selected limit) withscores))"

definition range_by_lex ::
    "scored list \<Rightarrow> bytes \<Rightarrow> bytes \<Rightarrow> bool \<Rightarrow> (int \<times> int) option \<Rightarrow> frame" where
  "range_by_lex items lo hi reverse limit =
     (let (lo, hi) = (if reverse then (hi, lo) else (lo, hi)) in
      case parse_lex_bound lo of
        Inl e \<Rightarrow> e
      | Inr mn \<Rightarrow>
          (case parse_lex_bound hi of
             Inl e \<Rightarrow> e
           | Inr mx \<Rightarrow>
               let selected = filter (\<lambda>(m, _). ge_ok mn m \<and> le_ok mx m) items;
                   selected = (if reverse then rev selected else selected)
               in emit (apply_limit selected limit) False))"

section \<open>Writing\<close>

record zadd_options =
  za_nx :: bool
  za_xx :: bool
  za_gt :: bool
  za_lt :: bool
  za_ch :: bool
  za_incr :: bool

definition zadd_options_start :: zadd_options where
  "zadd_options_start = \<lparr>za_nx = False, za_xx = False, za_gt = False, za_lt = False,
     za_ch = False, za_incr = False\<rparr>"

fun zadd_opts :: "bytes list \<Rightarrow> zadd_options \<Rightarrow> zadd_options \<times> bytes list" where
  "zadd_opts [] za = (za, [])"
| "zadd_opts (a # rest) za =
     (let opt = upper a in
      if opt = ascii ''NX'' then zadd_opts rest (za\<lparr>za_nx := True\<rparr>)
      else if opt = ascii ''XX'' then zadd_opts rest (za\<lparr>za_xx := True\<rparr>)
      else if opt = ascii ''GT'' then zadd_opts rest (za\<lparr>za_gt := True\<rparr>)
      else if opt = ascii ''LT'' then zadd_opts rest (za\<lparr>za_lt := True\<rparr>)
      else if opt = ascii ''CH'' then zadd_opts rest (za\<lparr>za_ch := True\<rparr>)
      else if opt = ascii ''INCR'' then zadd_opts rest (za\<lparr>za_incr := True\<rparr>)
      else (za, a # rest))"

fun parse_scores :: "bytes list \<Rightarrow> frame + (f64 \<times> bytes) list" where
  "parse_scores (a # m # rest) =
     (case parse_float a of
        Inl e \<Rightarrow> Inl e
      | Inr s \<Rightarrow>
          (case parse_scores rest of Inl e \<Rightarrow> Inl e | Inr ps \<Rightarrow> Inr ((s, m) # ps)))"
| "parse_scores _ = Inr []"

text \<open>
  The update loop: the sorted set it leaves, and the counters \<open>added\<close>, \<open>changed\<close> and the \<open>INCR\<close>
  result, or \<open>None\<close> where the new score is NaN.
\<close>

fun zadd_loop ::
    "zadd_options \<Rightarrow> (f64 \<times> bytes) list \<Rightarrow> zset \<Rightarrow> nat \<Rightarrow> nat \<Rightarrow> f64 option
      \<Rightarrow> zset \<times> (nat \<times> nat \<times> f64 option) option" where
  "zadd_loop za [] z added changed res = (z, Some (added, changed, res))"
| "zadd_loop za ((score, m) # pairs) z added changed res =
     (let current = zset_score z m; present = (current \<noteq> None) in
      if (za_nx za \<and> present) \<or> (za_xx za \<and> \<not> present) then
        zadd_loop za pairs z added changed (if za_incr za then None else res)
      else
        let new_score = (if za_incr za
              then f64_add (case current of Some c \<Rightarrow> c | None \<Rightarrow> f64_zero) score else score) in
        if is_nan new_score then (z, None)
        else if present \<and> ((za_gt za \<and> f64_le new_score (the current)) \<or>
                           (za_lt za \<and> f64_le (the current) new_score)) then
          zadd_loop za pairs z added changed (if za_incr za then None else res)
        else
          let (z, is_new) = zset_insert m new_score z;
              added = (if is_new then added + 1 else added);
              changed = (if is_new then changed + 1
                         else if \<not> (case current of Some c \<Rightarrow> f64_eq c new_score | None \<Rightarrow> False)
                         then changed + 1 else changed)
          in zadd_loop za pairs z added changed (if za_incr za then Some new_score else res))"

definition incompatible_error :: frame where
  "incompatible_error =
     frame_err (ascii ''GT, LT, and/or NX options at the same time are not compatible'')"

definition nan_error :: frame where
  "nan_error = frame_err (ascii ''resulting score is not a number (NaN)'')"

definition zadd :: "u64 \<Rightarrow> bytes list \<Rightarrow> db \<Rightarrow> frame \<times> db" where
  "zadd now args db =
     (if length args < 4 then (wrong_args ''zadd'', db)
      else
        let (za, rest) = zadd_opts (drop 2 args) zadd_options_start in
        if za_nx za \<and> (za_xx za \<or> za_gt za \<or> za_lt za) then (incompatible_error, db)
        else if za_gt za \<and> za_lt za then (incompatible_error, db)
        else if rest = [] \<or> length rest mod 2 \<noteq> 0 then (syntax_error, db)
        else if za_incr za \<and> length rest \<noteq> 2 then
          (frame_err (ascii ''INCR option supports a single increment-element pair''), db)
        else case parse_scores rest of
          Inl e \<Rightarrow> (e, db)
        | Inr pairs \<Rightarrow>
            (case get_or_create_zset now (args ! 1) db of
               (Inl _, db) \<Rightarrow> (wrongtype, db)
             | (Inr z, db) \<Rightarrow>
                 let (z, out) = zadd_loop za pairs z 0 0 None;
                     db = db_remove_if_empty (args ! 1) (db_write (args ! 1) (ZSetV z) db)
                 in (case out of
                       None \<Rightarrow> nan_error
                     | Some (added, changed, res) \<Rightarrow>
                         if za_incr za then (case res of Some s \<Rightarrow> Double s | None \<Rightarrow> Null)
                         else if za_ch za then Integer (int changed)
                         else Integer (int added), db)))"

definition zincrby :: "u64 \<Rightarrow> bytes list \<Rightarrow> db \<Rightarrow> frame \<times> db" where
  "zincrby now args db =
     (if length args \<noteq> 4 then (wrong_args ''zincrby'', db)
      else case parse_float (args ! 2) of
        Inl e \<Rightarrow> (e, db)
      | Inr d \<Rightarrow>
          (case get_or_create_zset now (args ! 1) db of
             (Inl _, db) \<Rightarrow> (wrongtype, db)
           | (Inr z, db) \<Rightarrow>
               let n = f64_add (case zset_score z (args ! 3) of Some c \<Rightarrow> c | None \<Rightarrow> f64_zero) d in
               if is_nan n then (nan_error, db_remove_if_empty (args ! 1) db)
               else (Double n, db_write (args ! 1) (ZSetV (fst (zset_insert (args ! 3) n z))) db)))"

definition zrem :: "u64 \<Rightarrow> bytes list \<Rightarrow> db \<Rightarrow> frame \<times> db" where
  "zrem now args db =
     (if length args < 3 then (wrong_args ''zrem'', db)
      else case get_or_create_zset now (args ! 1) db of
        (Inl _, db) \<Rightarrow> (wrongtype, db)
      | (Inr z, db) \<Rightarrow>
          let (z, removed) = count_steps zset_remove (drop 2 args) z
          in (Integer (int removed),
              db_remove_if_empty (args ! 1) (db_write (args ! 1) (ZSetV z) db)))"

text \<open>\<open>if let Ok(z) = db.get_or_create_zset(key) { for m in victims { z.remove(m) } }\<close>, then the
  emptiness check.\<close>

definition zset_remove_all :: "u64 \<Rightarrow> bytes \<Rightarrow> bytes list \<Rightarrow> db \<Rightarrow> db" where
  "zset_remove_all now key victims db =
     db_remove_if_empty key
       (case get_or_create_zset now key db of
          (Inr z, db) \<Rightarrow> db_write key (ZSetV (fst (count_steps zset_remove victims z))) db
        | (Inl _, db) \<Rightarrow> db)"

definition zpop :: "u64 \<Rightarrow> bytes list \<Rightarrow> bool \<Rightarrow> db \<Rightarrow> frame \<times> db" where
  "zpop now args mn db =
     (if length args < 2 \<or> 3 < length args then (wrong_args ''zpopmin'', db)
      else
        let has_count = (length args = 3) in
        case (if has_count then
                (case parse_int (args ! 2) of
                   Inl e \<Rightarrow> Inl e
                 | Inr n \<Rightarrow> if 0 \<le> n then Inr (nat n)
                            else Inl (frame_err (ascii ''value is out of range, must be positive'')))
              else Inr 1) of
          Inl e \<Rightarrow> (e, db)
        | Inr count \<Rightarrow>
            (case get_zset now (args ! 1) db of
               (Inr None, db) \<Rightarrow> (Array [], db)
             | (Inl _, db) \<Rightarrow> (wrongtype, db)
             | (Inr (Some z), db) \<Rightarrow>
                 let items = materialize z;
                     popped = take count (if mn then items else rev items);
                     db = zset_remove_all now (args ! 1) (map fst popped) db
                 in (if has_count then emit popped True
                     else (case popped of
                             (m, s) # _ \<Rightarrow> Array [Bulk m, Double s]
                           | [] \<Rightarrow> Array []), db)))"

fun bzpop_try :: "u64 \<Rightarrow> bytes list \<Rightarrow> bool \<Rightarrow> db \<Rightarrow> (frame + frame option) \<times> db" where
  "bzpop_try now [] mn db = (Inr None, db)"
| "bzpop_try now (key # keys) mn db =
     (case get_zset now key db of
        (Inl _, db) \<Rightarrow> (Inl wrongtype, db)
      | (Inr z, db) \<Rightarrow>
          let items = (case z of Some z \<Rightarrow> materialize z | None \<Rightarrow> []) in
          (case (if mn then items else rev items) of
             (m, s) # _ \<Rightarrow>
               (Inr (Some (Array [Bulk key, Bulk m, Double s])), zset_remove_all now key [m] db)
           | [] \<Rightarrow> bzpop_try now keys mn db))"

definition zremrangebyrank :: "u64 \<Rightarrow> bytes list \<Rightarrow> db \<Rightarrow> frame \<times> db" where
  "zremrangebyrank now args db =
     (if length args \<noteq> 4 then (wrong_args ''zremrangebyrank'', db)
      else case parse_two (args ! 2) (args ! 3) of
        Inl e \<Rightarrow> (e, db)
      | Inr (start, stop) \<Rightarrow>
          (case get_zset now (args ! 1) db of
             (Inr None, db) \<Rightarrow> (Integer 0, db)
           | (Inl _, db) \<Rightarrow> (wrongtype, db)
           | (Inr (Some z), db) \<Rightarrow>
               let items = materialize z;
                   (s, e) = clamp_range start stop (int (length items))
               in if e < s then (Integer 0, db)
                  else
                    let victims = map fst (drop (nat s) (take (nat e + 1) items))
                    in (Integer (int (length victims)), zset_remove_all now (args ! 1) victims db)))"

definition zremrangebyscore :: "u64 \<Rightarrow> bytes list \<Rightarrow> db \<Rightarrow> frame \<times> db" where
  "zremrangebyscore now args db =
     (if length args \<noteq> 4 then (wrong_args ''zremrangebyscore'', db)
      else case parse_score_bound (args ! 2) of
        Inl e \<Rightarrow> (e, db)
      | Inr mn \<Rightarrow>
          (case parse_score_bound (args ! 3) of
             Inl e \<Rightarrow> (e, db)
           | Inr mx \<Rightarrow>
               (case get_zset now (args ! 1) db of
                  (Inr None, db) \<Rightarrow> (Integer 0, db)
                | (Inl _, db) \<Rightarrow> (wrongtype, db)
                | (Inr (Some z), db) \<Rightarrow>
                    let victims = map fst (filter (\<lambda>(_, s). sb_contains mn s \<and> sb_contains_max mx s)
                                    (materialize z))
                    in (Integer (int (length victims)), zset_remove_all now (args ! 1) victims db))))"

section \<open>Reading\<close>

definition double_or_null :: "f64 option \<Rightarrow> frame" where
  "double_or_null s = (case s of Some s \<Rightarrow> Double s | None \<Rightarrow> Null)"

definition zscore :: "u64 \<Rightarrow> bytes list \<Rightarrow> db \<Rightarrow> frame \<times> db" where
  "zscore now args db =
     (if length args \<noteq> 3 then (wrong_args ''zscore'', db)
      else case get_zset now (args ! 1) db of
        (Inr (Some z), db) \<Rightarrow> (double_or_null (zset_score z (args ! 2)), db)
      | (Inr None, db) \<Rightarrow> (Null, db)
      | (Inl _, db) \<Rightarrow> (wrongtype, db))"

definition zmscore :: "u64 \<Rightarrow> bytes list \<Rightarrow> db \<Rightarrow> frame \<times> db" where
  "zmscore now args db =
     (if length args < 3 then (wrong_args ''zmscore'', db)
      else case get_zset now (args ! 1) db of
        (Inr (Some z), db) \<Rightarrow> (Array (map (\<lambda>m. double_or_null (zset_score z m)) (drop 2 args)), db)
      | (Inr None, db) \<Rightarrow> (Array (map (\<lambda>_. Null) (drop 2 args)), db)
      | (Inl _, db) \<Rightarrow> (wrongtype, db))"

definition zcard :: "u64 \<Rightarrow> bytes list \<Rightarrow> db \<Rightarrow> frame \<times> db" where
  "zcard now args db =
     (if length args \<noteq> 2 then (wrong_args ''zcard'', db)
      else case get_zset now (args ! 1) db of
        (Inr (Some z), db) \<Rightarrow> (Integer (int (zset_len z)), db)
      | (Inr None, db) \<Rightarrow> (Integer 0, db)
      | (Inl _, db) \<Rightarrow> (wrongtype, db))"

definition zrank :: "u64 \<Rightarrow> bytes list \<Rightarrow> bool \<Rightarrow> db \<Rightarrow> frame \<times> db" where
  "zrank now args reverse db =
     (if length args < 3 \<or> 4 < length args then (wrong_args ''zrank'', db)
      else
        let withscore = (length args = 4 \<and> upper (args ! 3) = ascii ''WITHSCORE'');
            none = (if withscore then NullArray else Null) in
        if length args = 4 \<and> \<not> withscore then (syntax_error, db)
        else case get_zset now (args ! 1) db of
          (Inr (Some z), db) \<Rightarrow>
            (case zset_rank z (args ! 2) of
               Some r \<Rightarrow>
                 let rank = int (if reverse then zset_len z - 1 - r else r)
                 in (if withscore then Array [Integer rank, Double (the (zset_score z (args ! 2)))]
                     else Integer rank, db)
             | None \<Rightarrow> (none, db))
        | (Inr None, db) \<Rightarrow> (none, db)
        | (Inl _, db) \<Rightarrow> (wrongtype, db))"

definition zcount :: "u64 \<Rightarrow> bytes list \<Rightarrow> db \<Rightarrow> frame \<times> db" where
  "zcount now args db =
     (if length args \<noteq> 4 then (wrong_args ''zcount'', db)
      else case parse_score_bound (args ! 2) of
        Inl e \<Rightarrow> (e, db)
      | Inr mn \<Rightarrow>
          (case parse_score_bound (args ! 3) of
             Inl e \<Rightarrow> (e, db)
           | Inr mx \<Rightarrow>
               (case get_zset now (args ! 1) db of
                  (Inr (Some z), db) \<Rightarrow>
                    (Integer (int (length (filter (\<lambda>(_, s). sb_contains mn s \<and> sb_contains_max mx s)
                       (zset_iter_asc z)))), db)
                | (Inr None, db) \<Rightarrow> (Integer 0, db)
                | (Inl _, db) \<Rightarrow> (wrongtype, db))))"

record zrange_options =
  zr_byscore :: bool
  zr_bylex :: bool
  zr_rev :: bool
  zr_withscores :: bool
  zr_limit :: "(int \<times> int) option"

text \<open>\<open>LIMIT offset count\<close>, shared by the three range commands.\<close>

definition parse_limit :: "bytes list \<Rightarrow> frame + (int \<times> int) \<times> bytes list" where
  "parse_limit rest =
     (case rest of
        a # b # rest' \<Rightarrow>
          (case parse_int a of
             Inl e \<Rightarrow> Inl e
           | Inr off \<Rightarrow> (case parse_int b of Inl e \<Rightarrow> Inl e | Inr cnt \<Rightarrow> Inr ((off, cnt), rest')))
      | _ \<Rightarrow> Inl syntax_error)"

lemma parse_limit_length: "parse_limit rest = Inr (l, rest') \<Longrightarrow> length rest' < length rest"
  by (auto simp: parse_limit_def split: list.splits sum.splits)

function zrange_opts :: "bytes list \<Rightarrow> zrange_options \<Rightarrow> frame + zrange_options" where
  "zrange_opts [] zr = Inr zr"
| "zrange_opts (a # rest) zr =
     (let opt = upper a in
      if opt = ascii ''BYSCORE'' then zrange_opts rest (zr\<lparr>zr_byscore := True\<rparr>)
      else if opt = ascii ''BYLEX'' then zrange_opts rest (zr\<lparr>zr_bylex := True\<rparr>)
      else if opt = ascii ''REV'' then zrange_opts rest (zr\<lparr>zr_rev := True\<rparr>)
      else if opt = ascii ''WITHSCORES'' then zrange_opts rest (zr\<lparr>zr_withscores := True\<rparr>)
      else if opt = ascii ''LIMIT'' then
        (case parse_limit rest of
           Inl e \<Rightarrow> Inl e
         | Inr (l, rest') \<Rightarrow> zrange_opts rest' (zr\<lparr>zr_limit := Some l\<rparr>))
      else Inl syntax_error)"
  by pat_completeness auto
termination
  by (relation "measure (\<lambda>(as, _). length as)")
    (auto dest!: parse_limit_length simp: less_SucI)

definition zrange :: "u64 \<Rightarrow> bytes list \<Rightarrow> bool \<Rightarrow> db \<Rightarrow> frame \<times> db" where
  "zrange now args rev_cmd db =
     (if length args < 4 then (wrong_args ''zrange'', db)
      else case zrange_opts (drop 4 args) \<lparr>zr_byscore = False, zr_bylex = False, zr_rev = rev_cmd,
                 zr_withscores = False, zr_limit = None\<rparr> of
        Inl e \<Rightarrow> (e, db)
      | Inr zr \<Rightarrow>
          if zr_limit zr \<noteq> None \<and> \<not> zr_byscore zr \<and> \<not> zr_bylex zr then
            (frame_err (ascii ''syntax error, LIMIT is only supported in combination with either BYSCORE or BYLEX''), db)
          else if zr_withscores zr \<and> zr_bylex zr then
            (frame_err (ascii ''syntax error, WITHSCORES not supported in combination with BYLEX''), db)
          else case get_zset now (args ! 1) db of
            (Inr None, db) \<Rightarrow> (Array [], db)
          | (Inl _, db) \<Rightarrow> (wrongtype, db)
          | (Inr (Some z), db) \<Rightarrow>
              let items = materialize z in
              (if zr_byscore zr then
                 range_by_score items (args ! 2) (args ! 3) (zr_rev zr) (zr_limit zr) (zr_withscores zr)
               else if zr_bylex zr then
                 range_by_lex items (args ! 2) (args ! 3) (zr_rev zr) (zr_limit zr)
               else range_by_index items (args ! 2) (args ! 3) (zr_rev zr) (zr_withscores zr), db))"

function zrangebyscore_opts ::
    "bytes list \<Rightarrow> bool \<Rightarrow> (int \<times> int) option \<Rightarrow> frame + bool \<times> (int \<times> int) option" where
  "zrangebyscore_opts [] ws limit = Inr (ws, limit)"
| "zrangebyscore_opts (a # rest) ws limit =
     (let opt = upper a in
      if opt = ascii ''WITHSCORES'' then zrangebyscore_opts rest True limit
      else if opt = ascii ''LIMIT'' then
        (case parse_limit rest of
           Inl e \<Rightarrow> Inl e
         | Inr (l, rest') \<Rightarrow> zrangebyscore_opts rest' ws (Some l))
      else Inl syntax_error)"
  by pat_completeness auto
termination
  by (relation "measure (\<lambda>(as, _). length as)")
    (auto dest!: parse_limit_length simp: less_SucI)

definition zrangebyscore :: "u64 \<Rightarrow> bytes list \<Rightarrow> bool \<Rightarrow> db \<Rightarrow> frame \<times> db" where
  "zrangebyscore now args reverse db =
     (if length args < 4 then (wrong_args ''zrangebyscore'', db)
      else case zrangebyscore_opts (drop 4 args) False None of
        Inl e \<Rightarrow> (e, db)
      | Inr (withscores, limit) \<Rightarrow>
          (case get_zset now (args ! 1) db of
             (Inr None, db) \<Rightarrow> (Array [], db)
           | (Inl _, db) \<Rightarrow> (wrongtype, db)
           | (Inr (Some z), db) \<Rightarrow>
               let (lo, hi) = (if reverse then (args ! 3, args ! 2) else (args ! 2, args ! 3))
               in (range_by_score (materialize z) lo hi reverse limit withscores, db)))"

function zrangebylex_opts :: "bytes list \<Rightarrow> (int \<times> int) option \<Rightarrow> frame + (int \<times> int) option" where
  "zrangebylex_opts [] limit = Inr limit"
| "zrangebylex_opts (a # rest) limit =
     (if upper a = ascii ''LIMIT'' then
        (case parse_limit rest of
           Inl e \<Rightarrow> Inl e
         | Inr (l, rest') \<Rightarrow> zrangebylex_opts rest' (Some l))
      else Inl syntax_error)"
  by pat_completeness auto
termination
  by (relation "measure (\<lambda>(as, _). length as)")
    (auto dest!: parse_limit_length simp: less_SucI)

definition zrangebylex :: "u64 \<Rightarrow> bytes list \<Rightarrow> bool \<Rightarrow> db \<Rightarrow> frame \<times> db" where
  "zrangebylex now args reverse db =
     (if length args < 4 then (wrong_args ''zrangebylex'', db)
      else case zrangebylex_opts (drop 4 args) None of
        Inl e \<Rightarrow> (e, db)
      | Inr limit \<Rightarrow>
          (case get_zset now (args ! 1) db of
             (Inr None, db) \<Rightarrow> (Array [], db)
           | (Inl _, db) \<Rightarrow> (wrongtype, db)
           | (Inr (Some z), db) \<Rightarrow>
               (range_by_lex (materialize z) (args ! 2) (args ! 3) reverse limit, db)))"

definition zlexcount :: "u64 \<Rightarrow> bytes list \<Rightarrow> db \<Rightarrow> frame \<times> db" where
  "zlexcount now args db =
     (if length args \<noteq> 4 then (wrong_args ''zlexcount'', db)
      else case parse_lex_bound (args ! 2) of
        Inl e \<Rightarrow> (e, db)
      | Inr mn \<Rightarrow>
          (case parse_lex_bound (args ! 3) of
             Inl e \<Rightarrow> (e, db)
           | Inr mx \<Rightarrow>
               (case get_zset now (args ! 1) db of
                  (Inr (Some z), db) \<Rightarrow>
                    (Integer (int (length (filter (\<lambda>(m, _). ge_ok mn m \<and> le_ok mx m)
                       (zset_iter_asc z)))), db)
                | (Inr None, db) \<Rightarrow> (Integer 0, db)
                | (Inl _, db) \<Rightarrow> (wrongtype, db))))"

fun zscan_opts :: "bytes list \<Rightarrow> bytes option \<Rightarrow> frame + bytes option" where
  "zscan_opts [] pattern = Inr pattern"
| "zscan_opts [a] pattern = Inl syntax_error"
| "zscan_opts (a # b # rest) pattern =
     (if upper a = ascii ''MATCH'' then zscan_opts rest (Some b)
      else if upper a = ascii ''COUNT'' then zscan_opts rest pattern
      else Inl syntax_error)"

definition zscan :: "u64 \<Rightarrow> bytes list \<Rightarrow> db \<Rightarrow> frame \<times> db" where
  "zscan now args db =
     (if length args < 3 then (wrong_args ''zscan'', db)
      else case zscan_opts (drop 3 args) None of
        Inl e \<Rightarrow> (e, db)
      | Inr pattern \<Rightarrow>
          (case get_zset now (args ! 1) db of
             (Inl _, db) \<Rightarrow> (wrongtype, db)
           | (Inr z, db) \<Rightarrow>
               let items = concat (map (\<lambda>(m, s). if matches_opt pattern m
                             then [Bulk m, Bulk (format_double s)] else [])
                             (case z of Some z \<Rightarrow> zset_iter_asc z | None \<Rightarrow> []))
               in (Array [Bulk (ascii ''0''), Array items], db)))"

definition sample :: "u64 \<Rightarrow> scored list \<Rightarrow> int \<Rightarrow> rng \<Rightarrow> scored list \<times> rng" where
  "sample nanos entries count st =
     (if entries = [] \<or> count = 0 then ([], st)
      else if count < 0 then repeat_sample nanos entries (usize_of_i64 (i64 (- count))) st
      else distinct_sample nanos entries (nat count) st)"

definition zrandmember ::
    "u64 \<Rightarrow> u64 \<Rightarrow> bytes list \<Rightarrow> db \<Rightarrow> rng \<Rightarrow> frame \<times> db \<times> rng" where
  "zrandmember now nanos args db st =
     (if length args < 2 \<or> 4 < length args then (wrong_args ''zrandmember'', db, st)
      else case get_zset now (args ! 1) db of
        (Inl _, db) \<Rightarrow> (wrongtype, db, st)
      | (Inr z, db) \<Rightarrow>
          let members = (case z of Some z \<Rightarrow> materialize z | None \<Rightarrow> []) in
          if length args = 2 then
            if members = [] then (Null, db, st)
            else let (i, st) = rand_index nanos (length members) st
                 in (Bulk (fst (members ! i)), db, st)
          else case parse_int (args ! 2) of
            Inl e \<Rightarrow> (e, db, st)
          | Inr count \<Rightarrow>
              let withscores = (length args = 4 \<and> upper (args ! 3) = ascii ''WITHSCORES'') in
              if length args = 4 \<and> \<not> withscores then (syntax_error, db, st)
              else let (picked, st) = sample nanos members count st in
                   (if withscores then Pairs (map (\<lambda>(m, s). (Bulk m, Double s)) picked)
                    else Array (map (\<lambda>(m, _). Bulk m) picked), db, st))"

section \<open>The abstract sorted set at a key\<close>

definition zset_at :: "u64 \<Rightarrow> db \<Rightarrow> bytes \<Rightarrow> bytes \<rightharpoonup> f64" where
  "zset_at now db k = (case live now db k of Some (ZSetV z, _) \<Rightarrow> zset_score z | _ \<Rightarrow> Map.empty)"

definition zset_key :: "u64 \<Rightarrow> db \<Rightarrow> bytes \<Rightarrow> bool" where
  "zset_key now db k \<longleftrightarrow> (case live now db k of None \<Rightarrow> True | Some (v, _) \<Rightarrow> as_zset v \<noteq> None)"

lemma zset_views:
  "live now db k = None \<Longrightarrow> zset_key now db k"
  "live now db k = Some (ZSetV z, t) \<Longrightarrow> zset_key now db k"
  "live now db k = Some (v, t) \<Longrightarrow> as_zset v = None \<Longrightarrow> \<not> zset_key now db k"
  "live now db k = None \<Longrightarrow> zset_at now db k = Map.empty"
  "live now db k = Some (ZSetV z, t) \<Longrightarrow> zset_at now db k = zset_score z"
  "live now db k = None \<Longrightarrow> live_ttl now db k = None"
  "live now db k = Some (v, t) \<Longrightarrow> live_ttl now db k = t"
  by (simp_all add: zset_key_def zset_at_def live_ttl_def)

lemma zset_score_new [simp]: "zset_score zset_new = Map.empty"
  by (simp add: zset_score_def [abs_def] zset_new_def)

lemma zset_is_empty_iff: "zset_is_empty z \<longleftrightarrow> zset_score z = Map.empty"
  by (simp add: zset_is_empty_def zset_score_def [abs_def] map_of_eq_empty_iff)

lemma db_ok_live_zset:
  "db_ok db \<Longrightarrow> live now db k = Some (ZSetV z, t) \<Longrightarrow> zset_wf z \<and> zset_score z \<noteq> Map.empty"
  using db_ok_live [of db now k "ZSetV z" t] by (simp add: zset_is_empty_iff)

text \<open>
  Every writing command goes through \<open>get_or_create_zset\<close>: on a key the zset commands accept it
  yields the sorted set there (a new one for a missing key), and writing another one back and
  dropping it when empty changes that key only.
\<close>

lemma zset_create:
  assumes "db_ok db" and "zset_key now db k"
  obtains z db' where "get_or_create_zset now k db = (Inr z, db')" and "zset_wf z"
    and "zset_score z = zset_at now db k" and "db_ok_but {k} db'"
    and "\<And>z'. live now (db_remove_if_empty k (db_write k (ZSetV z') db')) = (live now db)
           (k := (if zset_score z' = Map.empty then None else Some (ZSetV z', live_ttl now db k)))"
    and "\<And>z'. live now (db_write k (ZSetV z') db') = (live now db)(k \<mapsto> (ZSetV z', live_ttl now db k))"
proof (cases rule: zsets.create_cases [of now k db])
  case (wrong v t db')
  with assms(2) show ?thesis by (simp add: zset_views)
next
  case (created db')
  then show ?thesis using that [of zset_new db'] assms
    by (simp add: get_or_create_zset_def zset_views zset_wf_new live_simps zset_is_empty_iff)
next
  case (present z t db')
  then show ?thesis using that [of z db'] assms db_ok_live_zset [OF assms(1)]
    by (simp add: get_or_create_zset_def zset_views live_simps zset_is_empty_iff db_ok_but_any)
qed

section \<open>Updates\<close>

text \<open>One update without \<open>INCR\<close>, on the map from members to scores.\<close>

definition zadd_skips :: "zadd_options \<Rightarrow> f64 \<Rightarrow> f64 option \<Rightarrow> bool" where
  "zadd_skips za score current =
     (case current of
        None \<Rightarrow> za_xx za
      | Some c \<Rightarrow> za_nx za \<or> (za_gt za \<and> f64_le score c) \<or> (za_lt za \<and> f64_le c score))"

definition zadd_step :: "zadd_options \<Rightarrow> f64 \<times> bytes \<Rightarrow> (bytes \<rightharpoonup> f64) \<Rightarrow> (bytes \<rightharpoonup> f64)" where
  "zadd_step za p f =
     (case p of (score, m) \<Rightarrow> if zadd_skips za score (f m) then f else f(m \<mapsto> score))"

lemma zadd_step_dom: "dom f \<subseteq> dom (zadd_step za p f)"
  by (auto simp: zadd_step_def split: prod.splits option.splits)

lemma zadd_fold_dom: "dom f \<subseteq> dom (fold (zadd_step za) ps f)"
proof (induction ps arbitrary: f)
  case (Cons p ps)
  show ?case using Cons.IH [of "zadd_step za p f"] zadd_step_dom [of f za p] by simp
qed simp

lemma zadd_fold_finite: "finite (dom f) \<Longrightarrow> finite (dom (fold (zadd_step za) ps f))"
  by (induction ps arbitrary: f) (auto simp: zadd_step_def split: prod.splits option.splits)

lemma zset_score_insert: "zset_wf z \<Longrightarrow> zset_score (fst (zset_insert m s z)) = (zset_score z)(m \<mapsto> s)"
  using zset.look_ins [of z m s] by simp

lemma zset_finite: "zset_wf z \<Longrightarrow> finite (dom (zset_score z))"
  by (rule zset.finite_keys)

text \<open>The update loop, one round: either the pair is passed over or it is inserted.\<close>

lemma zadd_loop_skip:
  assumes "\<not> za_incr za" and "\<not> is_nan s" and "zadd_skips za s (zset_score z m)"
  shows "zadd_loop za ((s, m) # ps) z added changed res = zadd_loop za ps z added changed res"
  using assms by (cases "zset_score z m") (auto simp: zadd_skips_def Let_def)

lemma zadd_loop_insert:
  assumes "\<not> za_incr za" and "\<not> is_nan s" and "\<not> zadd_skips za s (zset_score z m)"
  obtains ch where "zadd_loop za ((s, m) # ps) z added changed res =
    zadd_loop za ps (fst (zset_insert m s z))
      (if zset_score z m = None then Suc added else added) ch res"
proof (cases "zset_score z m")
  case None
  obtain z' where "zset_insert m s z = (z', True)"
    using None zset_insert_flag [of m s z]
    by (cases "zset_insert m s z") (simp add: zset_score_def domIff)
  with None assms that show ?thesis by (simp add: zadd_skips_def)
next
  case (Some c)
  obtain z' where "zset_insert m s z = (z', False)"
    using Some zset_insert_flag [of m s z]
    by (cases "zset_insert m s z") (simp add: zset_score_def domIff)
  with Some assms show ?thesis
    by (intro that [of "if f64_eq c s then changed else changed + 1"]) (auto simp: zadd_skips_def)
qed

lemma card_new_keys:
  assumes "finite (dom g)" and "m \<in> dom g"
  shows "card (dom g - dom f) =
    (if f m = None then Suc (card (dom g - dom (f(m \<mapsto> s)))) else card (dom g - dom (f(m \<mapsto> s))))"
proof (cases "f m")
  case None
  have e: "dom g - dom f = insert m (dom g - dom (f(m \<mapsto> s)))" using None assms(2) by auto
  have "card (insert m (dom g - dom (f(m \<mapsto> s)))) = Suc (card (dom g - dom (f(m \<mapsto> s))))"
    by (rule card_insert_disjoint) (use assms(1) in simp_all)
  with None e show ?thesis by presburger
next
  case (Some c)
  then have "dom (f(m \<mapsto> s)) = dom f" by auto
  then show ?thesis using Some by (simp only: option.distinct if_False)
qed

lemma zadd_loop_correct:
  assumes "\<not> za_incr za" and "\<forall>(s, m)\<in>set ps. \<not> is_nan s" and "zset_wf z"
  shows "\<exists>z' ch. zadd_loop za ps z added changed res =
      (z', Some (added + card (dom (zset_score z') - dom (zset_score z)), ch, res))
    \<and> zset_wf z' \<and> zset_score z' = fold (zadd_step za) ps (zset_score z)"
  using assms
proof (induction ps arbitrary: z added changed)
  case Nil
  then show ?case by simp
next
  case (Cons p ps)
  obtain s m where p: "p = (s, m)" by (cases p)
  show ?case
  proof (cases "zadd_skips za s (zset_score z m)")
    case True
    then show ?thesis
      using Cons.IH [of z added changed] Cons.prems zadd_loop_skip [of za s z m ps added changed res]
      by (simp add: p zadd_step_def)
  next
    case False
    let ?z = "fst (zset_insert m s z)" and ?a = "if zset_score z m = None then Suc added else added"
    have w: "zset_wf ?z" using Cons.prems by (simp add: zset_wf_insert)
    have sc: "zset_score ?z = (zset_score z)(m \<mapsto> s)" using Cons.prems by (simp add: zset_score_insert)
    obtain ch where st: "zadd_loop za (p # ps) z added changed res = zadd_loop za ps ?z ?a ch res"
      using zadd_loop_insert [of za s z m ps added changed res] Cons.prems False p by auto
    obtain z' ch' where z': "zadd_loop za ps ?z ?a ch res =
        (z', Some (?a + card (dom (zset_score z') - dom (zset_score ?z)), ch', res))"
      "zset_wf z'" "zset_score z' = fold (zadd_step za) ps (zset_score ?z)"
      using Cons.IH [OF Cons.prems(1) _ w, of ?a ch] Cons.prems(2) by auto
    have "m \<in> dom (zset_score z')"
      using zadd_fold_dom [of "zset_score ?z" za ps] unfolding z'(3) sc by auto
    note card = card_new_keys [OF zset_finite [OF z'(2)] this, of "zset_score z" s, folded sc]
    have "?a + card (dom (zset_score z') - dom (zset_score ?z)) =
        added + card (dom (zset_score z') - dom (zset_score z))" unfolding card by simp
    moreover have "fold (zadd_step za) (p # ps) (zset_score z) = zset_score z'"
      unfolding z'(3) sc by (simp add: p zadd_step_def False)
    ultimately show ?thesis using st z'(1,2) by auto
  qed
qed

lemma parse_float_not_nan: "parse_float b = Inr s \<Longrightarrow> \<not> is_nan s"
  by (auto simp: parse_float_def Let_def split: option.splits if_splits)

lemma parse_scores_not_nan: "parse_scores as = Inr ps \<Longrightarrow> \<forall>(s, m)\<in>set ps. \<not> is_nan s"
proof (induction as arbitrary: ps rule: parse_scores.induct)
  case (1 a m rest)
  from "1.prems" obtain s ps' where p: "parse_float a = Inr s" "parse_scores rest = Inr ps'"
    and ps: "ps = (s, m) # ps'" by (auto split: sum.splits)
  then show ?case using parse_float_not_nan [OF p(1)] "1.IH" [OF p] by auto
qed auto

text \<open>What a command leaves that writes \<open>z\<close> to \<open>k\<close> and drops it when empty.\<close>

lemma zset_at_upd:
  assumes "live now db' = (live now db)(k := (if zset_score z = Map.empty then None else Some (ZSetV z, t)))"
  shows "zset_at now db' k = zset_score z" and "live now db' k = None \<longleftrightarrow> zset_score z = Map.empty"
    and "zset_score z \<noteq> Map.empty \<Longrightarrow> live_ttl now db' k = t"
    and "k' \<noteq> k \<Longrightarrow> live now db' k' = live now db k'"
  using assms by (auto simp: zset_at_def live_ttl_def)



text \<open>The same for a command that gives up after \<open>get_or_create_zset\<close>: a key it created goes again.\<close>

lemma db_ok_drop_empty:
  "db_ok_but {k} db \<Longrightarrow> live now db k = Some (v, t) \<Longrightarrow> is_empty_container v \<Longrightarrow>
   db_ok (db_remove_if_empty k db)"
  by (auto simp: live_def entry_pair_def db_remove_if_empty_def db_ok_delete_but
      split: option.splits if_splits)

lemma zset_create_undo:
  assumes "db_ok db" and "zset_key now db k"
  obtains z db' where "get_or_create_zset now k db = (Inr z, db')" and "zset_wf z"
    and "zset_score z = zset_at now db k"
    and "\<And>z'. live now (db_write k (ZSetV z') db') = (live now db)(k \<mapsto> (ZSetV z', live_ttl now db k))"
    and "live now (db_remove_if_empty k db') = live now db" and "db_ok (db_remove_if_empty k db')"
    and "\<And>z'. zset_wf z' \<Longrightarrow> zset_score z' \<noteq> Map.empty \<Longrightarrow> db_ok (db_write k (ZSetV z') db')"
proof (cases rule: zsets.create_cases [of now k db])
  case (wrong v t db')
  with assms(2) show ?thesis by (simp add: zset_views)
next
  case (created db')
  then show ?thesis using that [of zset_new db'] assms
    by (simp add: get_or_create_zset_def zset_views zset_wf_new live_simps zset_is_empty_iff
        db_ok_write_but fun_upd_idem db_ok_drop_empty [of k db' now "ZSetV zset_new" None])
next
  case (present z t db')
  then show ?thesis using that [of z db'] assms db_ok_live_zset [OF assms(1)]
    by (simp add: get_or_create_zset_def zset_views live_simps zset_is_empty_iff db_ok_write
        db_ok_remove_if_empty fun_upd_idem)
qed

text \<open>
  \<open>ZINCRBY\<close> adds the increment to the score of the member (0 for a new one) in double precision:
  it replies with the sum and stores it, keeping the expiry and every other score; when the sum is
  not a number, \<open>inf - inf\<close>, it replies with an error and leaves the contents as they are.
\<close>

theorem zincrby_correct:
  assumes "db_ok db" and "zset_key now db (args ! 1)" and "length args = 4"
    and "parse_float (args ! 2) = Inr d"
    and "n = f64_add (case zset_at now db (args ! 1) (args ! 3) of Some c \<Rightarrow> c | None \<Rightarrow> f64_zero) d"
  shows "if is_nan n
    then zincrby now args db = (nan_error, snd (zincrby now args db))
      \<and> live now (snd (zincrby now args db)) = live now db
    else fst (zincrby now args db) = Double n
      \<and> zset_at now (snd (zincrby now args db)) (args ! 1) = (zset_at now db (args ! 1))(args ! 3 \<mapsto> n)
      \<and> live_ttl now (snd (zincrby now args db)) (args ! 1) = live_ttl now db (args ! 1)
      \<and> (\<forall>k. k \<noteq> args ! 1 \<longrightarrow> live now (snd (zincrby now args db)) k = live now db k)"
proof -
  obtain z db' where z: "get_or_create_zset now (args ! 1) db = (Inr z, db')" "zset_wf z"
    and sc: "zset_score z = zset_at now db (args ! 1)"
    and w: "\<And>z'. live now (db_write (args ! 1) (ZSetV z') db')
       = (live now db)(args ! 1 \<mapsto> (ZSetV z', live_ttl now db (args ! 1)))"
    and e: "live now (db_remove_if_empty (args ! 1) db') = live now db"
    using zset_create_undo [OF assms(1,2)] by metis
  let ?n = "f64_add (case zset_score z (args ! 3) of Some c \<Rightarrow> c | None \<Rightarrow> f64_zero) d"
  have n: "?n = n" unfolding sc assms(5) ..
  show ?thesis
  proof (cases "is_nan n")
    case True
    with z n e assms(3,4) show ?thesis by (simp add: zincrby_def)
  next
    case False
    then have "zincrby now args db =
        (Double n, db_write (args ! 1) (ZSetV (fst (zset_insert (args ! 3) n z))) db')"
      using z n assms(3,4) by (simp add: zincrby_def)
    moreover from this have "live now (snd (zincrby now args db)) = (live now db)
        (args ! 1 \<mapsto> (ZSetV (fst (zset_insert (args ! 3) n z)), live_ttl now db (args ! 1)))"
      unfolding w [symmetric] by simp
    moreover from this have "zset_at now (snd (zincrby now args db)) (args ! 1)
        = (zset_at now db (args ! 1))(args ! 3 \<mapsto> n)"
      using zset_score_insert [OF z(2), of "args ! 3" n] unfolding sc by (simp add: zset_views)
    ultimately show ?thesis using False by (simp add: live_ttl_def)
  qed
qed

theorem zincrby_correct_witness:
  "fst (zincrby 5 [ascii ''zincrby'', [9], ascii ''inf'', [7]] []) = Double f64_inf"
proof -
  have n: "f64_inf = f64_add f64_zero f64_inf" by code_simp
  have p: "parse_float (ascii ''inf'') = Inr f64_inf" and i: "\<not> is_nan f64_inf" by code_simp+
  show ?thesis
    using zincrby_correct [OF db_ok_Nil, of 5 "[ascii ''zincrby'', [9], ascii ''inf'', [7]]" f64_inf f64_inf] n p i
    by (simp add: zset_key_def zset_at_def live_def)
qed

section \<open>Removal\<close>

lemma zset_score_remove_all:
  "zset_wf z \<Longrightarrow> zset_score (fst (count_steps zset_remove ms z)) = (zset_score z) |` (- set ms)"
  by (rule zset.look_del_all)

text \<open>
  \<open>ZREM\<close> removes exactly the listed members, replies with the number that were there, keeps the
  expiry of a sorted set that remains and leaves no key for one that becomes empty (a missing key
  that it has to create on the way is gone again as well).
\<close>

theorem zrem_correct:
  assumes "db_ok db" and "zset_key now db (args ! 1)" and "3 \<le> length args"
    and "scores = (zset_at now db (args ! 1)) |` (- set (drop 2 args))"
  shows "fst (zrem now args db) = Integer (int (card (set (drop 2 args) \<inter> dom (zset_at now db (args ! 1)))))
    \<and> zset_at now (snd (zrem now args db)) (args ! 1) = scores
    \<and> (live now (snd (zrem now args db)) (args ! 1) = None \<longleftrightarrow> scores = Map.empty)
    \<and> (scores \<noteq> Map.empty \<longrightarrow>
         live_ttl now (snd (zrem now args db)) (args ! 1) = live_ttl now db (args ! 1))
    \<and> (\<forall>k. k \<noteq> args ! 1 \<longrightarrow> live now (snd (zrem now args db)) k = live now db k)"
proof -
  obtain z db' where z: "get_or_create_zset now (args ! 1) db = (Inr z, db')" "zset_wf z"
    and sc: "zset_score z = zset_at now db (args ! 1)"
    and l: "\<And>z'. live now (db_remove_if_empty (args ! 1) (db_write (args ! 1) (ZSetV z') db')) = (live now db)
       (args ! 1 := (if zset_score z' = Map.empty then None else Some (ZSetV z', live_ttl now db (args ! 1))))"
    using zset_create [OF assms(1,2)] by metis
  let ?z = "fst (count_steps zset_remove (drop 2 args) z)"
  have s: "zset_score ?z = scores"
    using zset_score_remove_all [OF z(2), of "drop 2 args"] unfolding assms(4) sc .
  have c: "snd (count_steps zset_remove (drop 2 args) z) = card (set (drop 2 args) \<inter> dom (zset_at now db (args ! 1)))"
    using zset.del_all(3) [OF z(2), of "drop 2 args"] unfolding sc .
  have "zrem now args db = (Integer (int (card (set (drop 2 args) \<inter> dom (zset_at now db (args ! 1))))),
      db_remove_if_empty (args ! 1) (db_write (args ! 1) (ZSetV ?z) db'))"
    using assms(3) z(1) c by (simp add: zrem_def case_prod_unfold Let_def)
  with zset_at_upd [OF l [of ?z], unfolded s] show ?thesis by auto
qed

definition zset_demo :: db where
  "zset_demo = [([122], \<lparr>e_value = ZSetV \<lparr>z_scores = [([1], f64_inf), ([2], f64_zero), ([3], f64_neg_inf)],
     z_sorted = [(f64_neg_inf, [3]), (f64_zero, [2]), (f64_inf, [1])]\<rparr>, e_expire_at = Some 9\<rparr>)]"

lemma f64_demo_order: "f64_neg_inf < f64_zero" "f64_zero < f64_inf" "f64_neg_inf < f64_inf"
  by code_simp+

lemma db_ok_zset_demo: "db_ok zset_demo"
  using f64_demo_order
  by (auto simp: zset_demo_def db_ok_def zset_wf_def zset_is_empty_def less_eq_prod_def)

lemma live_zset_demo:
  "live 5 zset_demo [122] = Some (ZSetV \<lparr>z_scores = [([1], f64_inf), ([2], f64_zero), ([3], f64_neg_inf)],
     z_sorted = [(f64_neg_inf, [3]), (f64_zero, [2]), (f64_inf, [1])]\<rparr>, Some 9)"
  by (simp add: live_def zset_demo_def expired_def entry_pair_def)

theorem zrem_correct_witness:
  "fst (zrem 5 [ascii ''zrem'', [122], [2], [8], [1], [2]] zset_demo) = Integer 2"
proof -
  have k: "zset_key 5 zset_demo ([ascii ''zrem'', [122], [2], [8], [1], [2]] ! 1)"
    by (simp add: zset_key_def live_zset_demo)
  have "set (drop 2 [ascii ''zrem'', [122], [2], [8], [1], [2]]) \<inter> dom (zset_at 5 zset_demo [122]) = {[1], [2]}"
    by (auto simp: zset_at_def live_zset_demo zset_score_def)
  with zrem_correct [OF db_ok_zset_demo k _ refl] show ?thesis by simp
qed

lemma zset_remove_all_correct:
  assumes "db_ok db" and "zset_key now db k" and "scores = (zset_at now db k) |` (- set ms)"
  shows "\<exists>z. zset_wf z \<and> zset_score z = scores
    \<and> live now (zset_remove_all now k ms db) =
        (live now db)(k := (if scores = Map.empty then None else Some (ZSetV z, live_ttl now db k)))
    \<and> db_ok (zset_remove_all now k ms db)"
proof -
  obtain z db' where z: "get_or_create_zset now k db = (Inr z, db')" "zset_wf z"
    and sc: "zset_score z = zset_at now db k" and b: "db_ok_but {k} db'"
    and l: "\<And>z'. live now (db_remove_if_empty k (db_write k (ZSetV z') db')) = (live now db)
       (k := (if zset_score z' = Map.empty then None else Some (ZSetV z', live_ttl now db k)))"
    using zset_create [OF assms(1,2)] by metis
  let ?z = "fst (count_steps zset_remove ms z)"
  have w: "zset_wf ?z" using zset.del_all(1) [OF z(2)] .
  have s: "zset_score ?z = scores" using zset_score_remove_all [OF z(2)] unfolding assms(3) sc .
  have r: "zset_remove_all now k ms db = db_remove_if_empty k (db_write k (ZSetV ?z) db')"
    using z(1) by (simp add: zset_remove_all_def)
  have "db_ok (zset_remove_all now k ms db)" unfolding r by (rule db_ok_write_remove [OF b]) (simp add: w)
  then show ?thesis using w s l [of ?z] unfolding r by auto
qed

lemma iter_asc_score: "zset_wf z \<Longrightarrow> (m, s) \<in> set (zset_iter_asc z) \<longleftrightarrow> zset_score z m = Some s"
  by (auto simp: zset_iter_asc_def zset_in_sorted zset_score_def image_iff intro: bexI [of _ "(s, m)"])

lemma iter_asc_sorted: "zset_wf z \<Longrightarrow> sorted_wrt (\<lambda>(m, s) (m', s'). (s, m) < (s', m')) (zset_iter_asc z)"
proof -
  assume "zset_wf z"
  then have "sorted_wrt (<) (z_sorted z)" using zset_wf_parts(2,3) strict_sorted_iff by blast
  then show ?thesis
    by (simp only: zset_iter_asc_def sorted_wrt_map case_prod_unfold fst_conv snd_conv prod.collapse)
qed

lemma iter_asc_keys: "zset_wf z \<Longrightarrow> fst ` set (zset_iter_asc z) = dom (zset_score z)"
proof (intro set_eqI)
  fix m assume "zset_wf z"
  from iter_asc_score [OF this] show "m \<in> fst ` set (zset_iter_asc z) \<longleftrightarrow> m \<in> dom (zset_score z)"
    by (auto simp: image_iff Bex_def)
qed

lemma iter_asc_distinct: "zset_wf z \<Longrightarrow> distinct (map fst (zset_iter_asc z))"
proof -
  assume wf: "zset_wf z"
  have "inj_on fst (set (zset_iter_asc z))"
    using iter_asc_score [OF wf] by (intro inj_onI) (metis option.inject prod.collapse)
  moreover have "distinct (zset_iter_asc z)"
    using zset_wf_parts(3) [OF wf] by (auto simp: zset_iter_asc_def distinct_map inj_on_def)
  ultimately show ?thesis by (simp add: distinct_map)
qed

lemma iter_asc_length: "zset_wf z \<Longrightarrow> length (zset_iter_asc z) = card (dom (zset_score z))"
  using distinct_card [OF iter_asc_distinct, of z] iter_asc_keys [of z] by simp

text \<open>The members from the chosen end, in the order the pops hand them out.\<close>

definition from_side :: "bool \<Rightarrow> 'a list \<Rightarrow> 'a list" where
  "from_side mn xs = (if mn then xs else rev xs)"

lemma from_side_sorted:
  "zset_wf z \<Longrightarrow> sorted_wrt (\<lambda>(m, s) (m', s'). if mn then (s, m) < (s', m') else (s', m') < (s, m))
     (from_side mn (zset_iter_asc z))"
  using iter_asc_sorted [of z] by (simp add: from_side_def sorted_wrt_rev case_prod_unfold)

lemma sorted_wrt_take_drop: "sorted_wrt R xs \<Longrightarrow> x \<in> set (take n xs) \<Longrightarrow> y \<in> set (drop n xs) \<Longrightarrow> R x y"
  by (metis append_take_drop_id sorted_wrt_append)

lemma popped_keys:
  assumes "zset_wf z" and "popped = take n (from_side mn (zset_iter_asc z))"
  shows "fst ` set popped \<subseteq> dom (zset_score z)" and "card (fst ` set popped) = length popped"
    and "length popped = min n (card (dom (zset_score z)))"
proof -
  show "fst ` set popped \<subseteq> dom (zset_score z)"
    using image_mono [OF set_take_subset [of n "from_side mn (zset_iter_asc z)"], of fst]
      iter_asc_keys [OF assms(1)]
    unfolding assms(2) by (simp add: from_side_def split: if_splits)
  have "distinct (map fst popped)"
    using iter_asc_distinct [OF assms(1)] distinct_take [of "map fst (from_side mn (zset_iter_asc z))" n]
    by (simp add: assms(2) from_side_def take_map rev_map [symmetric] split: if_splits)
  from distinct_card [OF this] show "card (fst ` set popped) = length popped" by simp
  show "length popped = min n (card (dom (zset_score z)))"
    using iter_asc_length [OF assms(1)] by (simp add: assms(2) from_side_def)
qed

lemma popped_all:
  assumes "zset_wf z" and "popped = take n (from_side mn (zset_iter_asc z))"
  shows "zset_score z |` (- fst ` set popped) = Map.empty \<longleftrightarrow> card (dom (zset_score z)) \<le> n"
proof -
  note pk = popped_keys [OF assms]
  have "zset_score z |` (- fst ` set popped) = Map.empty \<longleftrightarrow> dom (zset_score z) \<subseteq> fst ` set popped"
    by (auto simp: fun_eq_iff restrict_map_def split: if_splits)
  also have "\<dots> \<longleftrightarrow> fst ` set popped = dom (zset_score z)" using pk(1) by auto
  also have "\<dots> \<longleftrightarrow> card (fst ` set popped) = card (dom (zset_score z))"
    using pk(1) card_subset_eq [OF zset_finite [OF assms(1)] pk(1)] by auto
  also have "\<dots> \<longleftrightarrow> card (dom (zset_score z)) \<le> n" unfolding pk(2,3) by auto
  finally show ?thesis .
qed

text \<open>
  C27: \<open>ZPOPMIN key n\<close> (and \<open>ZPOPMAX\<close>) pops \<open>min n (card s)\<close> members: the reply lists them with their
  scores in ascending (descending) order, they are the smallest (largest) of the sorted set by
  score and then by member, exactly they are gone, and an emptied sorted set is dropped.
\<close>

theorem zpop_correct:
  assumes "db_ok db" and "live now db (args ! 1) = Some (ZSetV z, t)" and "length args = 3"
    and "parse_int (args ! 2) = Inr (int n)" and "popped = take n (from_side mn (zset_iter_asc z))"
    and "scores = zset_score z |` (- fst ` set popped)"
  shows "fst (zpop now args mn db) = Pairs (map (\<lambda>(m, s). (Bulk m, Double s)) popped)
    \<and> length popped = min n (card (dom (zset_score z)))
    \<and> zset_at now (snd (zpop now args mn db)) (args ! 1) = scores
    \<and> (\<forall>m s m' s'. (m, s) \<in> set popped \<and> scores m' = Some s' \<longrightarrow>
         (if mn then (s, m) < (s', m') else (s', m') < (s, m)))
    \<and> (live now (snd (zpop now args mn db)) (args ! 1) = None \<longleftrightarrow> card (dom (zset_score z)) \<le> n)"
proof -
  have wf: "zset_wf z" using db_ok_live_zset [OF assms(1,2)] by blast
  obtain db1 where g: "get_zset now (args ! 1) db = (Inr (Some z), db1)"
    and l1: "live now db1 = live now db" and o1: "db_ok db1"
    using assms by (cases rule: zsets.get_cases [of now "args ! 1" db]) (auto simp: get_zset_def)
  have k: "zset_key now db1 (args ! 1)" and at: "zset_at now db1 (args ! 1) = zset_score z"
    using assms(2) l1 by (simp_all add: zset_key_def zset_at_def)
  obtain z' where z': "zset_score z' = scores" and l: "live now (zset_remove_all now (args ! 1) (map fst popped) db1) =
      (live now db1)(args ! 1 := (if zset_score z' = Map.empty then None else Some (ZSetV z', live_ttl now db1 (args ! 1))))"
    using zset_remove_all_correct [OF o1 k, of scores "map fst popped"] assms(6) at by auto
  have r: "zpop now args mn db = (Pairs (map (\<lambda>(m, s). (Bulk m, Double s)) popped),
      zset_remove_all now (args ! 1) (map fst popped) db1)"
    using assms(3,4) g
    by (simp add: zpop_def emit_def materialize_def Let_def assms(5) from_side_def)
  have rest: "(m', s') \<in> set (drop n (from_side mn (zset_iter_asc z)))" if "scores m' = Some s'" for m' s'
  proof -
    have "(m', s') \<in> set (from_side mn (zset_iter_asc z))" "m' \<notin> fst ` set popped"
      using that iter_asc_score [OF wf] by (auto simp: assms(6) from_side_def restrict_map_def split: if_splits)
    then show ?thesis unfolding assms(5)
      by (metis Un_iff append_take_drop_id fst_conv image_eqI set_append)
  qed
  have ord: "if mn then (s, m) < (s', m') else (s', m') < (s, m)"
    if "(m, s) \<in> set popped" "scores m' = Some s'" for m s m' s'
    using sorted_wrt_take_drop [OF from_side_sorted [OF wf, of mn] that(1) [unfolded assms(5)] rest [OF that(2)]]
    by simp
  from zset_at_upd(1,2) [OF l] have "zset_at now (snd (zpop now args mn db)) (args ! 1) = scores"
    and "live now (snd (zpop now args mn db)) (args ! 1) = None \<longleftrightarrow> card (dom (zset_score z)) \<le> n"
    using popped_all [OF wf assms(5)] by (simp_all add: r z' assms(6))
  then show ?thesis using r ord popped_keys(3) [OF wf assms(5)]
    by (intro conjI allI impI) (blast | simp)+
qed

theorem zpop_correct_witness:
  "live 5 (snd (zpop 5 [ascii ''zpopmin'', [122], dec_int 3] True zset_demo)) [122] = None"
proof -
  have "card (dom (zset_score \<lparr>z_scores = [([1], f64_inf), ([2], f64_zero), ([3], f64_neg_inf)],
     z_sorted = [(f64_neg_inf, [3]), (f64_zero, [2]), (f64_inf, [1])]\<rparr>)) \<le> 3"
    by (simp add: zset_score_def [abs_def] dom_map_of_conv_image_fst card_insert_if)
  moreover have "parse_int (dec_int 3) = Inr (int 3)" by (simp add: i64_ok_def)
  ultimately show ?thesis
    using zpop_correct [OF db_ok_zset_demo, of 5 "[ascii ''zpopmin'', [122], dec_int 3]" _ "Some 9" 3 _ True]
      live_zset_demo by simp
qed

section \<open>Ranks and ranges\<close>

lemma card_sorted_members:
  assumes "zset_wf z"
  shows "card {e \<in> set (z_sorted z). P e} = card {m. \<exists>s. zset_score z m = Some s \<and> P (s, m)}"
proof (rule bij_betw_same_card)
  show "bij_betw snd {e \<in> set (z_sorted z). P e} {m. \<exists>s. zset_score z m = Some s \<and> P (s, m)}"
    using zset_in_sorted [OF assms]
    by (auto simp: bij_betw_def inj_on_def zset_score_def image_iff Bex_def)
qed

lemma card_split_at:
  fixes x :: "'a :: linorder"
  assumes "finite A" and "x \<in> A"
  shows "card {y \<in> A. x < y} = card A - 1 - card {y \<in> A. y < x}"
proof -
  have "card A = card (insert x ({y \<in> A. y < x} \<union> {y \<in> A. x < y}))"
    using assms(2) by (intro arg_cong [where f = card]) auto
  also have "card (insert x ({y \<in> A. y < x} \<union> {y \<in> A. x < y}))
      = Suc (card {y \<in> A. y < x} + card {y \<in> A. x < y})"
    using assms(1) by (subst card_insert_disjoint) (auto intro!: card_Un_disjoint)
  finally show ?thesis by linarith
qed

text \<open>
  \<open>ZRANK\<close> is the number of members that come before the given one by score and then by member,
  \<open>ZREVRANK\<close> the number of those that come after it (for a score that is a number).
\<close>

theorem zrank_correct:
  assumes "db_ok db" and "live now db (args ! 1) = Some (ZSetV z, t)" and "length args = 3"
    and "zset_score z (args ! 2) = Some s" and "\<not> is_nan s"
  shows "fst (zrank now args False db) =
      Integer (int (card {m. \<exists>s'. zset_score z m = Some s' \<and> (s', m) < (s, args ! 2)}))
    \<and> fst (zrank now args True db) =
      Integer (int (card {m. \<exists>s'. zset_score z m = Some s' \<and> (s, args ! 2) < (s', m)}))"
proof -
  have wf: "zset_wf z" using db_ok_live_zset [OF assms(1,2)] by blast
  obtain db1 where g: "get_zset now (args ! 1) db = (Inr (Some z), db1)"
    using assms by (cases rule: zsets.get_cases [of now "args ! 1" db]) (auto simp: get_zset_def)
  note rk = zset_rank_aux [OF wf assms(4,5)]
  have i: "(s, args ! 2) \<in> set (z_sorted z)" using assms(4) zset_in_sorted [OF wf] by (simp add: zset_score_def)
  have "zset_len z = card (set (z_sorted z))"
    using zset_len_sorted [OF wf] distinct_card [OF zset_wf_parts(3) [OF wf]] by simp
  then have "card {e \<in> set (z_sorted z). (s, args ! 2) < e} =
      zset_len z - 1 - card {e \<in> set (z_sorted z). e < (s, args ! 2)}"
    using card_split_at [OF _ i] by simp
  with rk g assms(3) show ?thesis
    unfolding card_sorted_members [OF wf, of "\<lambda>e. e < (s, args ! 2)", symmetric]
      card_sorted_members [OF wf, of "\<lambda>e. (s, args ! 2) < e", symmetric]
    by (simp add: zrank_def)
qed

theorem zrank_correct_witness: "fst (zrank 5 [ascii ''zrank'', [122], [1]] False zset_demo) = Integer 2"
proof -
  have "zset_score \<lparr>z_scores = [([1], f64_inf), ([2], f64_zero), ([3], f64_neg_inf)],
     z_sorted = [(f64_neg_inf, [3]), (f64_zero, [2]), (f64_inf, [1])]\<rparr>
     = [[1] \<mapsto> f64_inf, [2] \<mapsto> f64_zero, [3] \<mapsto> f64_neg_inf]" (is "?f = _")
    by (auto simp: zset_score_def fun_eq_iff)
  moreover from this have "{m. \<exists>s'. ?f m = Some s' \<and> (s', m) < (f64_inf, [1])} = {[2], [3]}"
    using f64_demo_order by (auto split: if_splits)
  moreover have "\<not> is_nan f64_inf" by code_simp
  ultimately show ?thesis
    using zrank_correct [OF db_ok_zset_demo, of 5 "[ascii ''zrank'', [122], [1]]" _ "Some 9" f64_inf]
      live_zset_demo by simp
qed

text \<open>
  \<open>ZRANGEBYSCORE key min max\<close> lists the members whose score satisfies both bounds, all of them
  and only them, in strictly ascending order of (score, member); \<open>ZREVRANGEBYSCORE key max min\<close>
  lists the same members in descending order. The contents do not change.
\<close>

theorem zrangebyscore_correct:
  assumes "db_ok db" and "live now db (args ! 1) = Some (ZSetV z, t)" and "length args = 4"
    and "parse_score_bound (args ! (if reverse then 3 else 2)) = Inr mn"
    and "parse_score_bound (args ! (if reverse then 2 else 3)) = Inr mx"
  shows "\<exists>items. fst (zrangebyscore now args reverse db) = Array (map (Bulk \<circ> fst) items)
    \<and> sorted_wrt (\<lambda>(m, s) (m', s'). if reverse then (s', m') < (s, m) else (s, m) < (s', m')) items
    \<and> set items = {(m, s). zset_score z m = Some s \<and> sb_contains mn s \<and> sb_contains_max mx s}
    \<and> live now (snd (zrangebyscore now args reverse db)) = live now db"
proof -
  have wf: "zset_wf z" using db_ok_live_zset [OF assms(1,2)] by blast
  obtain db1 where g: "get_zset now (args ! 1) db = (Inr (Some z), db1)" and l: "live now db1 = live now db"
    using assms by (cases rule: zsets.get_cases [of now "args ! 1" db]) (auto simp: get_zset_def)
  let ?sel = "filter (\<lambda>(m, s). sb_contains mn s \<and> sb_contains_max mx s) (zset_iter_asc z)"
  let ?items = "if reverse then rev ?sel else ?sel"
  have "zrangebyscore now args reverse db = (Array (map (Bulk \<circ> fst) ?items), db1)"
    using g assms(3-5)
    by (cases reverse) (simp_all add: zrangebyscore_def range_by_score_def materialize_def apply_limit_def
        emit_def case_prod_unfold comp_def)
  moreover have "sorted_wrt (\<lambda>(m, s) (m', s'). if reverse then (s', m') < (s, m) else (s, m) < (s', m')) ?items"
    using sorted_wrt_filter [OF iter_asc_sorted [OF wf], of "\<lambda>(m, s). sb_contains mn s \<and> sb_contains_max mx s"]
    by (simp add: sorted_wrt_rev case_prod_unfold)
  moreover have "set ?items = {(m, s). zset_score z m = Some s \<and> sb_contains mn s \<and> sb_contains_max mx s}"
    using iter_asc_score [OF wf] by auto
  ultimately show ?thesis using l by auto
qed

theorem zrangebyscore_correct_witness:
  "\<exists>items :: scored list. fst (zrangebyscore 5 [ascii ''zrangebyscore'', [122], ascii ''-inf'', ascii ''(inf''] False zset_demo)
     = Array (map (Bulk \<circ> fst) items)"
proof -
  let ?args = "[ascii ''zrangebyscore'', [122], ascii ''-inf'', ascii ''(inf'']"
  have lo: "parse_score_bound (?args ! (if False then 3 else 2)) = Inr \<lparr>sb_value = f64_neg_inf, sb_exclusive = False\<rparr>"
    and hi: "parse_score_bound (?args ! (if False then 2 else 3)) = Inr \<lparr>sb_value = f64_inf, sb_exclusive = True\<rparr>"
    by code_simp+
  have l: "live 5 zset_demo (?args ! 1) = Some (ZSetV \<lparr>z_scores = [([1], f64_inf), ([2], f64_zero), ([3], f64_neg_inf)],
     z_sorted = [(f64_neg_inf, [3]), (f64_zero, [2]), (f64_inf, [1])]\<rparr>, Some 9)"
    using live_zset_demo by simp
  have "length ?args = 4" by simp
  from zrangebyscore_correct [OF db_ok_zset_demo l this lo hi] show ?thesis by blast
qed

text \<open>
  \<open>ZRANGE key a b BYSCORE REV\<close> reads its bounds as (min, max): it answers as
  \<open>ZREVRANGEBYSCORE key b a\<close> does. The reversed forms by name and by lexicographic range take
  (max, min), as the comments in the code say, and \<open>ZRANGE ... BYLEX REV\<close> agrees with them.
\<close>

theorem zrange_rev_bounds:
  "zrange now [c, k, a, b, ascii ''BYSCORE'', ascii ''REV''] rc db = zrangebyscore now [c, k, b, a] True db
   \<and> zrange now [c, k, a, b, ascii ''BYLEX'', ascii ''REV''] rc db = zrangebylex now [c, k, a, b] True db"
proof -
  have "zrange_opts [ascii ''BYSCORE'', ascii ''REV''] zr = Inr (zr\<lparr>zr_byscore := True, zr_rev := True\<rparr>)" for zr
    by code_simp
  moreover have "zrange_opts [ascii ''BYLEX'', ascii ''REV''] zr = Inr (zr\<lparr>zr_bylex := True, zr_rev := True\<rparr>)" for zr
    by code_simp
  ultimately show ?thesis
    by (auto simp: zrange_def zrangebyscore_def zrangebylex_def Let_def split: prod.splits sum.splits option.splits)
qed

section \<open>Invariant and frame conditions\<close>

definition zset_reads :: "u64 \<Rightarrow> u64 \<Rightarrow> rng \<Rightarrow> bytes list \<Rightarrow> (db \<Rightarrow> frame \<times> db) list" where
  "zset_reads now nanos st args =
     [zscore now args, zmscore now args, zcard now args, zrank now args False, zrank now args True,
      zcount now args, zrange now args False, zrange now args True, zrangebyscore now args False,
      zrangebyscore now args True, zrangebylex now args False, zrangebylex now args True,
      zlexcount now args, zscan now args,
      (\<lambda>db. case zrandmember now nanos args db st of (f, db, _) \<Rightarrow> (f, db))]"

definition zset_writes :: "u64 \<Rightarrow> bytes list \<Rightarrow> (db \<Rightarrow> frame \<times> db) list" where
  "zset_writes now args =
     [zadd now args, zincrby now args, zrem now args, zpop now args True, zpop now args False,
      zremrangebyrank now args, zremrangebyscore now args]"

lemma is_error_zset [simp]:
  "is_error min_max_error" "is_error nan_error" "is_error incompatible_error"
  by (simp_all add: min_max_error_def nan_error_def incompatible_error_def)

lemma parse_score_bound_error: "parse_score_bound b = Inl e \<Longrightarrow> is_error e"
  by (auto simp: parse_score_bound_def Let_def split: if_splits option.splits)

lemma parse_lex_bound_error: "parse_lex_bound b = Inl e \<Longrightarrow> is_error e"
  by (auto simp: parse_lex_bound_def split: list.splits if_splits)

lemma parse_limit_error: "parse_limit as = Inl e \<Longrightarrow> is_error e"
  by (auto simp: parse_limit_def split: list.splits sum.splits)

lemma zrange_opts_error: "zrange_opts as zr = Inl e \<Longrightarrow> is_error e"
  by (induction as zr rule: zrange_opts.induct)
    (auto simp: Let_def parse_limit_error split: if_splits sum.splits)

lemma zrangebyscore_opts_error: "zrangebyscore_opts as ws l = Inl e \<Longrightarrow> is_error e"
  by (induction as ws l rule: zrangebyscore_opts.induct)
    (auto simp: Let_def parse_limit_error split: if_splits sum.splits)

lemma zrangebylex_opts_error: "zrangebylex_opts as l = Inl e \<Longrightarrow> is_error e"
  by (induction as l rule: zrangebylex_opts.induct)
    (auto simp: parse_limit_error split: if_splits sum.splits)

lemma zscan_opts_error: "zscan_opts as p = Inl e \<Longrightarrow> is_error e"
  by (induction as p rule: zscan_opts.induct) (auto split: if_splits)

lemmas zset_parse_errors = parse_score_bound_error parse_lex_bound_error zrange_opts_error
  zrangebyscore_opts_error zrangebylex_opts_error zscan_opts_error

lemma parse_scores_error: "parse_scores as = Inl e \<Longrightarrow> is_error e"
  by (induction as arbitrary: e rule: parse_scores.induct) (auto split: sum.splits)

text \<open>
  A read fetches the sorted set once and then answers from it: it is determined by its answer before
  the fetch (an error) or after it.
\<close>

definition reads_zset :: "u64 \<Rightarrow> bytes \<Rightarrow> (db \<Rightarrow> frame \<times> db) \<Rightarrow> bool" where
  "reads_zset now k c \<longleftrightarrow> (\<forall>db. (\<exists>e. is_error e \<and> c db = (e, db))
     \<or> (\<exists>f. c db = (f, snd (get_zset now k db)) \<and> (fst (get_zset now k db) = Inl WrongType \<longrightarrow> is_error f)))"

lemma reads_zsetI:
  assumes "\<And>db r db'. get_zset now k db = (r, db') \<Longrightarrow>
    (\<exists>e. is_error e \<and> c db = (e, db)) \<or> (\<exists>f. c db = (f, db') \<and> (r = Inl WrongType \<longrightarrow> is_error f))"
  shows "reads_zset now k c"
  unfolding reads_zset_def using assms by (metis surjective_pairing)

lemma reads_zset_simple:
  "reads_zset now (args ! 1) (zscore now args)" "reads_zset now (args ! 1) (zmscore now args)"
  "reads_zset now (args ! 1) (zcard now args)"  "reads_zset now (args ! 1) (zrank now args rv)"
  by (rule reads_zsetI; auto simp: zscore_def zmscore_def zcard_def zrank_def Let_def
      split: sum.splits option.splits)+

lemma reads_zset_ranges:
  "reads_zset now (args ! 1) (zcount now args)" "reads_zset now (args ! 1) (zlexcount now args)"
  "reads_zset now (args ! 1) (zrange now args rv)" "reads_zset now (args ! 1) (zrangebyscore now args rv)"
  "reads_zset now (args ! 1) (zrangebylex now args rv)" "reads_zset now (args ! 1) (zscan now args)"
  by (rule reads_zsetI; auto simp: zcount_def zlexcount_def zrange_def zrangebyscore_def
      zrangebylex_def zscan_def Let_def dest: zset_parse_errors
      split: sum.splits option.splits)+

lemma reads_zset_random:
  "reads_zset now (args ! 1) (\<lambda>db. case zrandmember now nanos args db st of (f, db, _) \<Rightarrow> (f, db))"
  by (rule reads_zsetI; auto simp: zrandmember_def Let_def split: sum.splits option.splits prod.splits)

lemma zset_reads_aux:
  assumes "c \<in> set (zset_reads now nanos st args)"
  shows "live now (snd (c db)) = live now db" and "db_ok db \<Longrightarrow> db_ok (snd (c db))"
    and "\<not> zset_key now db (args ! 1) \<Longrightarrow> is_error (fst (c db))"
proof -
  have "reads_zset now (args ! 1) c"
    using assms reads_zset_simple reads_zset_ranges reads_zset_random unfolding zset_reads_def by auto
  then consider e where "is_error e" "c db = (e, db)"
    | f where "c db = (f, snd (get_zset now (args ! 1) db))"
        "fst (get_zset now (args ! 1) db) = Inl WrongType \<Longrightarrow> is_error f"
    unfolding reads_zset_def by meson
  then have "live now (snd (c db)) = live now db \<and> (db_ok db \<longrightarrow> db_ok (snd (c db)))
    \<and> (\<not> zset_key now db (args ! 1) \<longrightarrow> is_error (fst (c db)))"
  proof cases
    case 2
    then show ?thesis
      by (cases rule: zsets.get_cases [of now "args ! 1" db]) (auto simp: get_zset_def zset_views)
  qed simp
  then show "live now (snd (c db)) = live now db" and "db_ok db \<Longrightarrow> db_ok (snd (c db))"
    and "\<not> zset_key now db (args ! 1) \<Longrightarrow> is_error (fst (c db))" by blast+
qed

lemma zadd_loop_next:
  "(\<exists>z2 a2 c2 r2. zadd_loop za ((score, m) # ps) z a c r = zadd_loop za ps z2 a2 c2 r2
      \<and> (z2 = z \<or> (\<exists>s. z2 = fst (zset_insert m s z))))
   \<or> zadd_loop za ((score, m) # ps) z a c r = (z, None)"
  (is "?next \<or> _")
proof -
  define n where "n = (if za_incr za
    then f64_add (case zset_score z m of Some c \<Rightarrow> c | None \<Rightarrow> f64_zero) score else score)"
  let ?p = "zset_score z m \<noteq> None"
  consider (pass) "(za_nx za \<and> ?p) \<or> (za_xx za \<and> \<not> ?p)"
    | (nan) "\<not> ((za_nx za \<and> ?p) \<or> (za_xx za \<and> \<not> ?p))" "is_nan n"
    | (keep) "\<not> ((za_nx za \<and> ?p) \<or> (za_xx za \<and> \<not> ?p))" "\<not> is_nan n"
        "?p \<and> ((za_gt za \<and> f64_le n (the (zset_score z m))) \<or> (za_lt za \<and> f64_le (the (zset_score z m)) n))"
    | (put) "\<not> ((za_nx za \<and> ?p) \<or> (za_xx za \<and> \<not> ?p))" "\<not> is_nan n"
        "\<not> (?p \<and> ((za_gt za \<and> f64_le n (the (zset_score z m))) \<or> (za_lt za \<and> f64_le (the (zset_score z m)) n)))"
    by blast
  then show ?thesis
  proof cases
    case pass
    show ?thesis unfolding zadd_loop.simps Let_def if_P [OF pass] by blast
  next
    case nan
    show ?thesis unfolding zadd_loop.simps Let_def n_def [symmetric] if_not_P [OF nan(1)] if_P [OF nan(2)]
      by blast
  next
    case keep
    show ?thesis unfolding zadd_loop.simps Let_def n_def [symmetric] if_not_P [OF keep(1)]
      if_not_P [OF keep(2)] if_P [OF keep(3)] by blast
  next
    case put
    show ?thesis unfolding zadd_loop.simps Let_def n_def [symmetric] if_not_P [OF put(1)]
      if_not_P [OF put(2)] if_not_P [OF put(3)] case_prod_unfold by blast
  qed
qed

lemma zadd_loop_wf: "zset_wf z \<Longrightarrow> zset_wf (fst (zadd_loop za ps z added changed res))"
proof (induction ps arbitrary: z added changed res)
  case (Cons p ps)
  obtain score m where p: "p = (score, m)" by (cases p)
  from zadd_loop_next [of za score m ps z added changed res] show ?case
    using Cons.IH Cons.prems zset_wf_insert [OF Cons.prems] unfolding p by (metis fst_conv)
qed simp

text \<open>A refused \<open>get_or_create_zset\<close> and one that goes through.\<close>

lemma zset_create_wrong:
  assumes "\<not> zset_key now db k"
  obtains db' where "get_or_create_zset now k db = (Inl WrongType, db')"
    and "live now db' = live now db" and "db_ok db \<longrightarrow> db_ok db'"
  using assms by (cases rule: zsets.create_cases [of now k db]) (auto simp: get_or_create_zset_def zset_views)

lemma zset_create_ok:
  assumes "db_ok db"
  obtains db' where "get_or_create_zset now k db = (Inl WrongType, db')" and "db_ok db'"
  | z db' where "get_or_create_zset now k db = (Inr z, db')" and "zset_wf z" and "db_ok_but {k} db'"
      and "db_ok (db_remove_if_empty k db')"
  using assms db_ok_live_zset [OF assms]
  by (cases rule: zsets.create_cases [of now k db])
    (auto simp: get_or_create_zset_def zset_wf_new db_ok_but_any db_ok_remove_if_empty
      db_ok_drop_empty [of _ _ now "ZSetV zset_new" None] zset_is_empty_iff)

lemma zset_get_wrong:
  assumes "\<not> zset_key now db k"
  obtains db' where "get_zset now k db = (Inl WrongType, db')" and "live now db' = live now db"
  using assms by (cases rule: zsets.get_cases [of now k db]) (auto simp: get_zset_def zset_views)

lemma zadd_db_ok: "db_ok db \<Longrightarrow> db_ok (snd (zadd now args db))"
proof -
  assume a: "db_ok db"
  show ?thesis
  proof (cases rule: zset_create_ok [OF a, of now "args ! 1"])
    case (1 db')
    with a show ?thesis by (auto simp: zadd_def split: sum.splits prod.splits)
  next
    case (2 z db')
    then have "db_ok (db_remove_if_empty (args ! 1) (db_write (args ! 1) (ZSetV (fst (zadd_loop za ps z 0 0 None))) db'))"
      for za ps by (intro db_ok_write_remove) (simp_all add: zadd_loop_wf)
    with 2 a show ?thesis
      by (auto simp: zadd_def Let_def case_prod_unfold split: sum.splits)
  qed
qed

lemma zincrby_db_ok: "db_ok db \<Longrightarrow> db_ok (snd (zincrby now args db))"
proof -
  assume a: "db_ok db"
  show ?thesis
  proof (cases rule: zset_create_ok [OF a, of now "args ! 1"])
    case (1 db')
    with a show ?thesis by (auto simp: zincrby_def split: sum.splits)
  next
    case (2 z db')
    then have "db_ok (db_write (args ! 1) (ZSetV (fst (zset_insert m n z))) db')" for m n
      by (intro db_ok_write_but) (simp_all add: zset_wf_insert zset_is_empty_iff zset_score_insert)
    with 2 a show ?thesis by (auto simp: zincrby_def Let_def split: sum.splits)
  qed
qed

lemma zrem_db_ok: "db_ok db \<Longrightarrow> db_ok (snd (zrem now args db))"
proof -
  assume a: "db_ok db"
  show ?thesis
  proof (cases rule: zset_create_ok [OF a, of now "args ! 1"])
    case (1 db')
    with a show ?thesis by (auto simp: zrem_def)
  next
    case (2 z db')
    then show ?thesis using a zset.del_all(1) [OF 2(2), of "drop 2 args"]
      by (auto simp: zrem_def Let_def case_prod_unfold intro!: db_ok_write_remove)
  qed
qed

lemma zset_remove_all_db_ok: "db_ok db \<Longrightarrow> db_ok (zset_remove_all now k ms db)"
proof -
  assume a: "db_ok db"
  show ?thesis
  proof (cases rule: zset_create_ok [OF a, of now k])
    case (1 db')
    then show ?thesis by (simp add: zset_remove_all_def db_ok_remove_if_empty)
  next
    case (2 z db')
    then show ?thesis using zset.del_all(1) [OF 2(2), of ms]
      by (auto simp: zset_remove_all_def intro!: db_ok_write_remove)
  qed
qed

lemma get_zset_db_ok: "db_ok db \<Longrightarrow> db_ok (snd (get_zset now k db))"
  by (cases rule: zsets.get_cases [of now k db]) (auto simp: get_zset_def)

lemma zset_pops_db_ok:
  assumes "db_ok db"
  shows "db_ok (snd (zpop now args mn db))" "db_ok (snd (zremrangebyrank now args db))"
    "db_ok (snd (zremrangebyscore now args db))"
  using assms get_zset_db_ok [OF assms, of now "args ! 1"]
  by (cases "get_zset now (args ! 1) db"; auto simp: zpop_def zremrangebyrank_def zremrangebyscore_def Let_def
      case_prod_unfold zset_remove_all_db_ok split: sum.splits option.splits)+

lemma bzpop_try_db_ok: "db_ok db \<Longrightarrow> db_ok (snd (bzpop_try now keys mn db))"
proof (induction keys arbitrary: db)
  case (Cons k keys)
  obtain r db' where g: "get_zset now k db = (r, db')" by (cases "get_zset now k db")
  then have "db_ok db'" using get_zset_db_ok [OF Cons.prems, of now k] by simp
  then show ?case using g Cons.IH
    by (auto simp: Let_def zset_remove_all_db_ok split: sum.splits option.splits list.splits prod.splits)
qed simp

lemma zset_create_wrong_type:
  assumes "\<not> zset_key now db (args ! 1)" and "c \<in> {zadd now args, zincrby now args, zrem now args}"
  shows "is_error (fst (c db)) \<and> live now (snd (c db)) = live now db"
proof -
  obtain db' where "get_or_create_zset now (args ! 1) db = (Inl WrongType, db')"
    and "live now db' = live now db" by (rule zset_create_wrong [OF assms(1)])
  then have "is_error (fst (zadd now args db)) \<and> live now (snd (zadd now args db)) = live now db"
    and "is_error (fst (zincrby now args db)) \<and> live now (snd (zincrby now args db)) = live now db"
    and "is_error (fst (zrem now args db)) \<and> live now (snd (zrem now args db)) = live now db"
    by (auto simp: zadd_def zincrby_def zrem_def dest: parse_scores_error split: prod.splits sum.splits)
  then show ?thesis using assms(2) by blast
qed

lemma zset_get_wrong_type:
  assumes "\<not> zset_key now db (args ! 1)"
    and "c \<in> {zpop now args mn, zremrangebyrank now args, zremrangebyscore now args}"
  shows "is_error (fst (c db)) \<and> live now (snd (c db)) = live now db"
proof -
  obtain db' where "get_zset now (args ! 1) db = (Inl WrongType, db')"
    and "live now db' = live now db" by (rule zset_get_wrong [OF assms(1)])
  then have "is_error (fst (zpop now args mn db)) \<and> live now (snd (zpop now args mn db)) = live now db"
    and "is_error (fst (zremrangebyrank now args db)) \<and> live now (snd (zremrangebyrank now args db)) = live now db"
    and "is_error (fst (zremrangebyscore now args db)) \<and> live now (snd (zremrangebyscore now args db)) = live now db"
    by (auto simp: zpop_def zremrangebyrank_def zremrangebyscore_def Let_def
        dest: parse_score_bound_error split: prod.splits sum.splits)
  then show ?thesis using assms(2) by blast
qed

text \<open>
  Every sorted-set command, the blocking pops included, keeps the invariant of the database: the
  score map and the ordered index of every sorted set agree, and no empty one is left behind.
\<close>

theorem zset_commands_db_ok:
  assumes "db_ok db" and "c \<in> set (map (\<lambda>c db. snd (c db)) (zset_reads now nanos st args @ zset_writes now args)
    @ [\<lambda>db. snd (bzpop_try now keys mn db)])"
  shows "db_ok (c db)"
  using assms zset_reads_aux(2) zadd_db_ok zincrby_db_ok zrem_db_ok zset_pops_db_ok bzpop_try_db_ok
  unfolding zset_writes_def by auto

theorem zset_commands_db_ok_witness: "db_ok (snd (zpop 5 [ascii ''zpopmax'', [122]] False zset_demo))"
  using zset_commands_db_ok [OF db_ok_zset_demo, of "\<lambda>db. snd (zpop 5 [ascii ''zpopmax'', [122]] False db)"
      5 0 0 "[ascii ''zpopmax'', [122]]"]
  by (simp add: zset_writes_def)

text \<open>
  No sorted-set command touches a key of another type: it replies with an error and the live
  contents stay as they are.
\<close>

theorem zset_wrong_type:
  assumes "\<not> zset_key now db (args ! 1)" and "c \<in> set (zset_reads now nanos st args @ zset_writes now args)"
  shows "is_error (fst (c db)) \<and> live now (snd (c db)) = live now db"
  using assms zset_reads_aux [of c now nanos st args db] zset_create_wrong_type [OF assms(1), of c]
    zset_get_wrong_type [OF assms(1), of c True] zset_get_wrong_type [OF assms(1), of c False]
  by (auto simp: zset_writes_def)

theorem zset_wrong_type_witness:
  "is_error (fst (zcard 5 [ascii ''zcard'', [115]] [([115], \<lparr>e_value = StringV [], e_expire_at = None\<rparr>)]))"
proof -
  have "\<not> zset_key 5 [([115], \<lparr>e_value = StringV [], e_expire_at = None\<rparr>)] ([ascii ''zcard'', [115]] ! 1)"
    by (simp add: zset_key_def live_def expired_def entry_pair_def)
  from zset_wrong_type [OF this] show ?thesis by (simp add: zset_reads_def)
qed

end
