(* ===== verification/Cmd_Stream.thy ===== *)
theory Cmd_Stream
  imports Cmd
begin

text \<open>
  The stream commands (src/commands/stream.rs) on the \<open>Stream\<close> of src/db.rs. The \<open>BTreeMap\<close> of
  entries is a list sorted by id. \<open>BTreeMap::range\<close> panics when its start lies beyond its end, so
  \<open>xrange\<close> returns \<open>None\<close> for a panic.
\<close>

section \<open>Ids\<close>

definition invalid_id :: frame where
  "invalid_id = frame_err (ascii ''Invalid stream ID specified as stream command argument'')"

definition exhausted_id :: frame where
  "exhausted_id = frame_err (ascii ''The stream has exhausted the last possible ID'')"

definition small_id :: frame where
  "small_id = frame_err (ascii ''The ID specified in XADD is equal or smaller than the target stream top item'')"

text \<open>\<open>str::from_utf8(b).ok().and_then(|s| s.parse::<u64>().ok())\<close>.\<close>

definition u64_of_bytes :: "bytes \<Rightarrow> u64 option" where
  "u64_of_bytes b = (if utf8_valid b then parse_u64 b else None)"

text \<open>The parts before and after the first dash.\<close>

definition split_dash :: "bytes \<Rightarrow> (bytes \<times> bytes) option" where
  "split_dash b =
     (if 45 \<in> set b then Some (takeWhile (\<lambda>c. c \<noteq> 45) b, tl (dropWhile (\<lambda>c. c \<noteq> 45) b)) else None)"

definition parse_id :: "bytes \<Rightarrow> bool \<Rightarrow> frame + stream_id" where
  "parse_id arg default_seq_max =
     (if arg = [45] then Inr sid_min
      else if arg = [43] then Inr sid_max
      else if \<not> utf8_valid arg then Inl invalid_id
      else case split_dash arg of
        Some (ms_s, seq_s) \<Rightarrow>
          (case parse_u64 ms_s of
             None \<Rightarrow> Inl invalid_id
           | Some ms \<Rightarrow>
               (case parse_u64 seq_s of
                  None \<Rightarrow> Inl invalid_id
                | Some seq \<Rightarrow> Inr (StreamId ms seq)))
      | None \<Rightarrow>
          (case parse_u64 arg of
             None \<Rightarrow> Inl invalid_id
           | Some ms \<Rightarrow> Inr (StreamId ms (if default_seq_max then - 1 else 0))))"

definition parse_range_bound :: "bytes \<Rightarrow> bool \<Rightarrow> frame + (stream_id \<times> bool)" where
  "parse_range_bound arg is_end =
     (if arg \<noteq> [] \<and> hd arg = 40 then
        (case parse_id (tl arg) is_end of Inl e \<Rightarrow> Inl e | Inr i \<Rightarrow> Inr (i, True))
      else (case parse_id arg is_end of Inl e \<Rightarrow> Inl e | Inr i \<Rightarrow> Inr (i, False)))"

definition above_last :: "stream_id \<Rightarrow> stream \<Rightarrow> frame + stream_id" where
  "above_last i s = (if i \<le> s_last_id s then Inl small_id else Inr i)"

definition resolve_add_id :: "u64 \<Rightarrow> bytes \<Rightarrow> stream \<Rightarrow> frame + stream_id" where
  "resolve_add_id now id_arg s =
     (if id_arg = [42] then
        if sid_ms (s_last_id s) < now then Inr (StreamId now 0)
        else (case sid_next (s_last_id s) of None \<Rightarrow> Inl exhausted_id | Some i \<Rightarrow> Inr i)
      else case split_dash id_arg of
        Some (ms_b, seq_part) \<Rightarrow>
          (case u64_of_bytes ms_b of
             None \<Rightarrow> Inl invalid_id
           | Some ms_part \<Rightarrow>
               if seq_part = [42] then
                 if sid_ms (s_last_id s) = ms_part then
                   (case sid_next (s_last_id s) of
                      None \<Rightarrow> Inl exhausted_id
                    | Some i \<Rightarrow> above_last i s)
                 else above_last (StreamId ms_part 0) s
               else (case u64_of_bytes seq_part of
                       None \<Rightarrow> Inl invalid_id
                     | Some seq \<Rightarrow> above_last (StreamId ms_part seq) s))
      | None \<Rightarrow>
          (case u64_of_bytes id_arg of
             None \<Rightarrow> Inl invalid_id
           | Some ms \<Rightarrow> above_last (StreamId ms 0) s))"

definition entry_frame :: "stream_id \<Rightarrow> (bytes \<times> bytes) list \<Rightarrow> frame" where
  "entry_frame i fvs =
     Array [Bulk (sid_display i), Array (concat (map (\<lambda>(f, v). [Bulk f, Bulk v]) fvs))]"

section \<open>Trimming\<close>

datatype trim_spec = MaxLen nat "int option" | MinId stream_id "int option"

text \<open>\<open>entries.remove(&id)\<close> followed by the update of \<open>max_deleted_id\<close>.\<close>

definition evict :: "stream_id \<Rightarrow> stream \<Rightarrow> stream" where
  "evict i s = s\<lparr>s_entries := AList.delete i (s_entries s),
     s_max_deleted_id := (if s_max_deleted_id s < i then i else s_max_deleted_id s)\<rparr>"

function trim_len :: "nat \<Rightarrow> int option \<Rightarrow> nat \<Rightarrow> stream \<Rightarrow> stream \<times> nat" where
  "trim_len target limit removed s =
     (case s_entries s of
        (first, _) # _ \<Rightarrow>
          if target < length (s_entries s) \<and>
             \<not> (case limit of Some cap \<Rightarrow> cap \<le> int removed | None \<Rightarrow> False)
          then trim_len target limit (removed + 1) (evict first s)
          else (s, removed)
      | [] \<Rightarrow> (s, removed))"
  by pat_completeness auto
termination
  by (relation "measure (\<lambda>(_, _, _, s). length (s_entries s))")
    (auto simp: evict_def intro: le_less_trans [OF length_delete_le])

declare trim_len.simps [simp del]

definition apply_trim :: "trim_spec \<Rightarrow> stream \<Rightarrow> stream \<times> nat" where
  "apply_trim spec s =
     (case spec of
        MaxLen target limit \<Rightarrow> trim_len target limit 0 s
      | MinId mn limit \<Rightarrow>
          let ids = map fst (filter (\<lambda>(i, _). i < mn) (s_entries s));
              to_remove = (case limit of Some l \<Rightarrow> take (usize_of_i64 l) ids | None \<Rightarrow> ids)
          in (fold evict to_remove s, length to_remove))"

section \<open>Commands\<close>

text \<open>\<open>[~|=] threshold [LIMIT c]\<close> after the keyword, in \<open>XADD\<close>.\<close>

definition skip_strategy :: "bytes list \<Rightarrow> bytes list" where
  "skip_strategy as = (case as of a # rest \<Rightarrow> if a = [126] \<or> a = [61] then rest else as | [] \<Rightarrow> [])"

definition xadd_threshold :: "bytes list \<Rightarrow> frame + (bytes \<times> int option \<times> bytes list)" where
  "xadd_threshold as =
     (case skip_strategy as of
        [] \<Rightarrow> Inl syntax_error
      | threshold # rest \<Rightarrow>
          (case rest of
             l # rest' \<Rightarrow>
               if upper l = ascii ''LIMIT'' then
                 (case rest' of
                    [] \<Rightarrow> Inl syntax_error
                  | n # rest'' \<Rightarrow>
                      (case parse_int n of
                         Inl e \<Rightarrow> Inl e
                       | Inr n \<Rightarrow> Inr (threshold, Some n, rest'')))
               else Inr (threshold, None, rest)
           | [] \<Rightarrow> Inr (threshold, None, [])))"

definition make_trim :: "bool \<Rightarrow> bytes \<Rightarrow> int option \<Rightarrow> frame + trim_spec" where
  "make_trim by_min_id threshold limit =
     (if by_min_id then
        (case parse_id threshold True of Inl e \<Rightarrow> Inl e | Inr i \<Rightarrow> Inr (MinId i limit))
      else
        (case parse_int threshold of
           Inl e \<Rightarrow> Inl e
         | Inr n \<Rightarrow> if 0 \<le> n then Inr (MaxLen (nat n) limit)
                    else Inl (frame_err (ascii ''MAXLEN can't be negative''))))"

lemma xadd_threshold_length: "xadd_threshold as = Inr (t, l, rest) \<Longrightarrow> length rest < length as"
  by (auto simp: xadd_threshold_def skip_strategy_def split: list.splits if_splits sum.splits)

function xadd_opts ::
    "bytes list \<Rightarrow> bool \<Rightarrow> trim_spec option \<Rightarrow> frame + (bool \<times> trim_spec option \<times> bytes list)" where
  "xadd_opts [] nomk tspec = Inr (nomk, tspec, [])"
| "xadd_opts (a # rest) nomk tspec =
     (let up = upper a in
      if up = ascii ''NOMKSTREAM'' then xadd_opts rest True tspec
      else if up = ascii ''MAXLEN'' \<or> up = ascii ''MINID'' then
        (case xadd_threshold rest of
           Inl e \<Rightarrow> Inl e
         | Inr (threshold, limit, rest') \<Rightarrow>
             (case make_trim (up = ascii ''MINID'') threshold limit of
                Inl e \<Rightarrow> Inl e
              | Inr spec \<Rightarrow> xadd_opts rest' nomk (Some spec)))
      else Inr (nomk, tspec, a # rest))"
  by pat_completeness auto
termination
  by (relation "measure (\<lambda>(as, _). length as)") (auto dest: xadd_threshold_length)

text \<open>\<open>BTreeMap::insert\<close>: the entry takes its place in the order of the ids.\<close>

definition entries_insert ::
    "stream_id \<Rightarrow> (bytes \<times> bytes) list \<Rightarrow> (stream_id \<times> (bytes \<times> bytes) list) list
      \<Rightarrow> (stream_id \<times> (bytes \<times> bytes) list) list" where
  "entries_insert i fvs es =
     takeWhile (\<lambda>(j, _). j < i) es @ (i, fvs) # dropWhile (\<lambda>(j, _). j \<le> i) es"

text \<open>The second half of \<open>XADD\<close>: the stream is fetched or created, and the entry goes in.\<close>

definition xadd_put ::
    "u64 \<Rightarrow> bytes \<Rightarrow> bytes \<Rightarrow> bytes list \<Rightarrow> trim_spec option \<Rightarrow> db \<Rightarrow> frame \<times> db" where
  "xadd_put now key id_arg fvs tspec db =
     (case get_or_create_stream now key db of
        (Inl _, db) \<Rightarrow> (wrongtype, db)
      | (Inr s, db) \<Rightarrow>
          (case resolve_add_id now id_arg s of
             Inl e \<Rightarrow> (e, db)
           | Inr i \<Rightarrow>
               if i = sid_min then
                 (frame_err (ascii ''The ID specified in XADD must be greater than 0-0''), db)
               else
                 let s = s\<lparr>s_entries := entries_insert i (pairs_of fvs) (s_entries s), s_last_id := i\<rparr>;
                     s = (case tspec of None \<Rightarrow> s | Some spec \<Rightarrow> fst (apply_trim spec s))
                 in (Bulk (sid_display i), db_write key (StreamV s) db)))"

definition xadd :: "u64 \<Rightarrow> bytes list \<Rightarrow> db \<Rightarrow> frame \<times> db" where
  "xadd now args db =
     (if length args < 5 then (wrong_args ''xadd'', db)
      else case xadd_opts (drop 2 args) False None of
        Inl e \<Rightarrow> (e, db)
      | Inr (nomk, tspec, rest) \<Rightarrow>
          (case rest of
             [] \<Rightarrow> (wrong_args ''xadd'', db)
           | id_arg # fvs \<Rightarrow>
               if fvs = [] \<or> length fvs mod 2 \<noteq> 0 then (wrong_args ''xadd'', db)
               else if nomk then
                 (case get_stream now (args ! 1) db of
                    (Inr None, db) \<Rightarrow> (Null, db)
                  | (Inl _, db) \<Rightarrow> (wrongtype, db)
                  | (Inr (Some _), db) \<Rightarrow> xadd_put now (args ! 1) id_arg fvs tspec db)
               else xadd_put now (args ! 1) id_arg fvs tspec db))"

definition xlen :: "u64 \<Rightarrow> bytes list \<Rightarrow> db \<Rightarrow> frame \<times> db" where
  "xlen now args db =
     (if length args \<noteq> 2 then (wrong_args ''xlen'', db)
      else case get_stream now (args ! 1) db of
        (Inr None, db) \<Rightarrow> (Integer 0, db)
      | (Inr (Some s), db) \<Rightarrow> (Integer (int (length (s_entries s))), db)
      | (Inl _, db) \<Rightarrow> (wrongtype, db))"

fun xrange_opts :: "bytes list \<Rightarrow> nat option \<Rightarrow> frame + nat option" where
  "xrange_opts [] cnt = Inr cnt"
| "xrange_opts [a] cnt = Inl syntax_error"
| "xrange_opts (a # b # rest) cnt =
     (if upper a = ascii ''COUNT'' then
        (case parse_int b of
           Inl e \<Rightarrow> Inl e
         | Inr n \<Rightarrow> if 0 \<le> n then xrange_opts rest (Some (nat n))
                    else Inl (frame_err (ascii ''COUNT can't be negative'')))
      else Inl syntax_error)"

text \<open>The collecting loop: an entry is pushed before the count is compared, so 0 acts as 1.\<close>

fun collect :: "nat option \<Rightarrow> nat \<Rightarrow> 'a list \<Rightarrow> 'a list" where
  "collect cnt k [] = []"
| "collect cnt k (x # xs) =
     x # (case cnt of
            Some n \<Rightarrow> if n \<le> k + 1 then [] else collect cnt (k + 1) xs
          | None \<Rightarrow> collect cnt (k + 1) xs)"

definition xrange_reply ::
    "stream \<Rightarrow> stream_id \<Rightarrow> bool \<Rightarrow> stream_id \<Rightarrow> bool \<Rightarrow> nat option \<Rightarrow> bool \<Rightarrow> frame" where
  "xrange_reply s start start_exclusive stop stop_exclusive cnt reverse =
     (let range = filter (\<lambda>(i, _). start \<le> i \<and> i \<le> stop) (s_entries s);
          ordered = (if reverse then rev range else range);
          kept = filter (\<lambda>(i, _). \<not> (start_exclusive \<and> i = start) \<and> \<not> (stop_exclusive \<and> i = stop)) ordered
      in Array (map (\<lambda>(i, f). entry_frame i f) (collect cnt 0 kept)))"

definition xrange :: "u64 \<Rightarrow> bytes list \<Rightarrow> bool \<Rightarrow> db \<Rightarrow> (frame \<times> db) option" where
  "xrange now args reverse db =
     (if length args < 4 then Some (wrong_args (if reverse then ''xrevrange'' else ''xrange''), db)
      else
        let (start_arg, end_arg) = (if reverse then (args ! 3, args ! 2) else (args ! 2, args ! 3)) in
        case parse_range_bound start_arg False of
          Inl e \<Rightarrow> Some (e, db)
        | Inr (start, start_exclusive) \<Rightarrow>
            (case parse_range_bound end_arg True of
               Inl e \<Rightarrow> Some (e, db)
             | Inr (stop, stop_exclusive) \<Rightarrow>
                 (case xrange_opts (drop 4 args) None of
                    Inl e \<Rightarrow> Some (e, db)
                  | Inr cnt \<Rightarrow>
                      (case get_stream now (args ! 1) db of
                         (Inr None, db) \<Rightarrow> Some (Array [], db)
                       | (Inl _, db) \<Rightarrow> Some (wrongtype, db)
                       | (Inr (Some s), db) \<Rightarrow>
                           if stop < start then None
                           else Some (xrange_reply s start start_exclusive stop stop_exclusive cnt reverse, db)))))"

text \<open>\<open>parse_xread\<close>: the options up to \<open>STREAMS\<close>, then as many ids as keys.\<close>

fun xread_opts :: "bytes list \<Rightarrow> nat option \<Rightarrow> frame + (nat option \<times> bytes list option)" where
  "xread_opts [] cnt = Inr (cnt, None)"
| "xread_opts (a # rest) cnt =
     (let up = upper a in
      if up = ascii ''COUNT'' then
        (case rest of
           [] \<Rightarrow> Inl syntax_error
         | n # rest' \<Rightarrow>
             (case parse_int n of
                Inl e \<Rightarrow> Inl e
              | Inr v \<Rightarrow> if 0 \<le> v then xread_opts rest' (Some (nat v))
                         else Inl (frame_err (ascii ''COUNT can't be negative''))))
      else if up = ascii ''BLOCK'' then
        (case rest of [] \<Rightarrow> Inl syntax_error | _ # rest' \<Rightarrow> xread_opts rest' cnt)
      else if up = ascii ''STREAMS'' then Inr (cnt, Some rest)
      else Inl syntax_error)"

fun xread_ids :: "bytes list \<Rightarrow> frame + stream_id list" where
  "xread_ids [] = Inr []"
| "xread_ids (id_arg # rest) =
     (case (if id_arg = [36] then Inr sid_max else parse_id id_arg False) of
        Inl e \<Rightarrow> Inl e
      | Inr from \<Rightarrow> (case xread_ids rest of Inl e \<Rightarrow> Inl e | Inr ids \<Rightarrow> Inr (from # ids)))"

record parsed_xread =
  px_pairs :: "(bytes \<times> stream_id) list"
  px_count :: "nat option"

definition parse_xread :: "bytes list \<Rightarrow> frame + parsed_xread" where
  "parse_xread args =
     (case xread_opts (drop 1 args) None of
        Inl e \<Rightarrow> Inl e
      | Inr (cnt, None) \<Rightarrow> Inl (frame_err (ascii ''syntax error, STREAMS option must be specified.''))
      | Inr (cnt, Some rest) \<Rightarrow>
          if rest = [] \<or> length rest mod 2 \<noteq> 0 then
            Inl (frame_err (ascii ''Unbalanced XREAD list of streams: for each stream key an ID or '$' must be specified.''))
          else
            let n = length rest div 2 in
            (case xread_ids (drop n rest) of
               Inl e \<Rightarrow> Inl e
             | Inr ids \<Rightarrow> Inr \<lparr>px_pairs = zip (take n rest) ids, px_count = cnt\<rparr>))"

fun xread_loop ::
    "u64 \<Rightarrow> nat option \<Rightarrow> (bytes \<times> stream_id) list \<Rightarrow> db \<Rightarrow> (frame + (frame \<times> frame) list) \<times> db" where
  "xread_loop now cnt [] db = (Inr [], db)"
| "xread_loop now cnt ((key, from) # pairs) db =
     (case get_stream now key db of
        (Inl _, db) \<Rightarrow> (Inl wrongtype, db)
      | (Inr None, db) \<Rightarrow> xread_loop now cnt pairs db
      | (Inr (Some s), db) \<Rightarrow>
          let lower_bound = (case sid_next from of Some i \<Rightarrow> i | None \<Rightarrow> sid_max);
              items = collect cnt 0 (filter (\<lambda>(i, _). lower_bound \<le> i) (s_entries s))
          in (case xread_loop now cnt pairs db of
                (Inl e, db) \<Rightarrow> (Inl e, db)
              | (Inr out, db) \<Rightarrow>
                  (Inr (if items = [] then out
                        else (Bulk key, Array (map (\<lambda>(i, f). entry_frame i f) items)) # out), db)))"

definition xread :: "u64 \<Rightarrow> bytes list \<Rightarrow> db \<Rightarrow> frame \<times> db" where
  "xread now args db =
     (case parse_xread args of
        Inl e \<Rightarrow> (e, db)
      | Inr p \<Rightarrow>
          (case xread_loop now (px_count p) (px_pairs p) db of
             (Inl e, db) \<Rightarrow> (e, db)
           | (Inr [], db) \<Rightarrow> (NullArray, db)
           | (Inr out, db) \<Rightarrow> (XReadReply out, db)))"

function xread_block_loop :: "bytes list \<Rightarrow> nat option" where
  "xread_block_loop [] = None"
| "xread_block_loop (a # rest) =
     (let up = upper a in
      if up = ascii ''COUNT'' then xread_block_loop (drop 1 rest)
      else if up = ascii ''BLOCK'' then
        (case rest of
           [] \<Rightarrow> None
         | b # _ \<Rightarrow> (case parse_int b of
                       Inl _ \<Rightarrow> None
                     | Inr n \<Rightarrow> if 0 \<le> n then Some (nat n) else None))
      else None)"
  by pat_completeness auto
termination
  by (relation "measure length") auto

definition xread_block_ms :: "bytes list \<Rightarrow> nat option" where
  "xread_block_ms args = xread_block_loop (drop 1 args)"

text \<open>\<open>resolve_dollar_ids\<close>: the index of \<open>STREAMS\<close>, where the walk over the options ends.\<close>

function find_streams :: "bytes list \<Rightarrow> nat \<Rightarrow> nat option" where
  "find_streams [] i = Some i"
| "find_streams (a # rest) i =
     (let up = upper a in
      if up = ascii ''STREAMS'' then Some i
      else if up = ascii ''COUNT'' \<or> up = ascii ''BLOCK'' then find_streams (drop 1 rest) (i + 2)
      else None)"
  by pat_completeness auto
termination
  by (relation "measure (\<lambda>(as, _). length as)") auto

fun dollar_loop :: "u64 \<Rightarrow> nat \<Rightarrow> nat \<Rightarrow> nat list \<Rightarrow> bytes list \<Rightarrow> db \<Rightarrow> bytes list \<times> db" where
  "dollar_loop now sidx n [] new_args db = (new_args, db)"
| "dollar_loop now sidx n (k # ks) new_args db =
     (let idx = sidx + n + k in
      if new_args ! idx = [36] then
        let (r, db) = get_stream now (new_args ! (sidx + k)) db;
            last = (case r of Inr (Some s) \<Rightarrow> s_last_id s | _ \<Rightarrow> sid_min)
        in dollar_loop now sidx n ks (new_args[idx := sid_display last]) db
      else dollar_loop now sidx n ks new_args db)"

definition resolve_dollar_ids :: "u64 \<Rightarrow> bytes list \<Rightarrow> db \<Rightarrow> (frame + bytes list) \<times> db" where
  "resolve_dollar_ids now args db =
     (case find_streams (drop 1 args) 1 of
        None \<Rightarrow> (Inl syntax_error, db)
      | Some i \<Rightarrow>
          let sidx = i + 1 in
          if length args \<le> sidx \<or> (length args - sidx) mod 2 \<noteq> 0 then (Inr args, db)
          else
            let n = (length args - sidx) div 2;
                (new_args, db) = dollar_loop now sidx n [0..<n] args db
            in (Inr new_args, db))"

fun parse_ids :: "bytes list \<Rightarrow> frame + stream_id list" where
  "parse_ids [] = Inr []"
| "parse_ids (a # rest) =
     (case parse_id a False of
        Inl e \<Rightarrow> Inl e
      | Inr i \<Rightarrow> (case parse_ids rest of Inl e \<Rightarrow> Inl e | Inr ids \<Rightarrow> Inr (i # ids)))"

definition xdel_one :: "stream_id \<Rightarrow> stream \<Rightarrow> stream \<times> bool" where
  "xdel_one i s = (if map_of (s_entries s) i \<noteq> None then (evict i s, True) else (s, False))"

definition xdel :: "u64 \<Rightarrow> bytes list \<Rightarrow> db \<Rightarrow> frame \<times> db" where
  "xdel now args db =
     (if length args < 3 then (wrong_args ''xdel'', db)
      else case parse_ids (drop 2 args) of
        Inl e \<Rightarrow> (e, db)
      | Inr ids \<Rightarrow>
          (case get_stream_mut now (args ! 1) db of
             (Inr None, db) \<Rightarrow> (Integer 0, db)
           | (Inl _, db) \<Rightarrow> (wrongtype, db)
           | (Inr (Some s), db) \<Rightarrow>
               let (s, n) = count_steps xdel_one ids s
               in (Integer (int n), db_write (args ! 1) (StreamV s) db)))"

text \<open>\<open>[~|=] threshold [LIMIT c]\<close> in \<open>XTRIM\<close>, where a missing count reads as the empty string.\<close>

definition xtrim_threshold :: "bytes list \<Rightarrow> frame + (bytes \<times> int option)" where
  "xtrim_threshold as =
     (case skip_strategy as of
        [] \<Rightarrow> Inl syntax_error
      | threshold # rest \<Rightarrow>
          (case rest of
             [] \<Rightarrow> Inr (threshold, None)
           | l # rest' \<Rightarrow>
               if upper l = ascii ''LIMIT'' then
                 (case parse_int (case rest' of n # _ \<Rightarrow> n | [] \<Rightarrow> []) of
                    Inl e \<Rightarrow> Inl e
                  | Inr n \<Rightarrow> if length rest' = 1 then Inr (threshold, Some n) else Inl syntax_error)
               else Inl syntax_error))"

definition xtrim :: "u64 \<Rightarrow> bytes list \<Rightarrow> db \<Rightarrow> frame \<times> db" where
  "xtrim now args db =
     (if length args < 4 then (wrong_args ''xtrim'', db)
      else case xtrim_threshold (drop 3 args) of
        Inl e \<Rightarrow> (e, db)
      | Inr (threshold, limit) \<Rightarrow>
          let kind = upper (args ! 2) in
          (case (if kind = ascii ''MAXLEN'' then make_trim False threshold limit
                 else if kind = ascii ''MINID'' then make_trim True threshold limit
                 else Inl syntax_error) of
             Inl e \<Rightarrow> (e, db)
           | Inr spec \<Rightarrow>
               (case get_stream_mut now (args ! 1) db of
                  (Inr None, db) \<Rightarrow> (Integer 0, db)
                | (Inl _, db) \<Rightarrow> (wrongtype, db)
                | (Inr (Some s), db) \<Rightarrow>
                    let (s, n) = apply_trim spec s
                    in (Integer (int n), db_write (args ! 1) (StreamV s) db))))"

section \<open>Facts about streams\<close>

definition ids :: "stream \<Rightarrow> stream_id list" where
  "ids s = map fst (s_entries s)"

lemma stream_wf_alt: "stream_wf s \<longleftrightarrow> sorted_wrt (<) (ids s) \<and> (\<forall>i\<in>set (ids s). i \<le> s_last_id s)"
  by (simp add: stream_wf_def ids_def)

lemma stream_wf_default [wf_intros]: "stream_wf stream_default"
  by (simp add: stream_wf_def stream_default_def)

lemma stream_wf_distinct: "stream_wf s \<Longrightarrow> distinct (map fst (s_entries s))"
  by (simp add: stream_wf_def strict_sorted_iff)

lemma evict_simps [simp]:
  "s_entries (evict i s) = filter (\<lambda>e. fst e \<noteq> i) (s_entries s)" "s_last_id (evict i s) = s_last_id s"
  by (simp_all add: evict_def AList.delete_eq case_prod_unfold eq_commute [of i])

lemma stream_wf_filter:
  assumes "stream_wf s" and "s_entries s' = filter P (s_entries s)" and "s_last_id s' = s_last_id s"
  shows "stream_wf s'"
proof -
  have "sorted_wrt (\<lambda>x y. fst x < fst y) (filter P (s_entries s))"
    using assms(1) by (intro sorted_wrt_filter) (simp add: stream_wf_def sorted_wrt_map)
  with assms show ?thesis by (auto simp: stream_wf_def sorted_wrt_map)
qed

lemma stream_wf_evict [wf_intros]: "stream_wf s \<Longrightarrow> stream_wf (evict i s)"
  by (erule stream_wf_filter) simp_all

lemma stream_wf_fold_evict: "stream_wf s \<Longrightarrow> stream_wf (fold evict is s)"
  by (induction "is" arbitrary: s) (simp_all add: stream_wf_evict)

lemma fold_evict_simps:
  "s_entries (fold evict is s) = filter (\<lambda>e. fst e \<notin> set is) (s_entries s)"
  "s_last_id (fold evict is s) = s_last_id s"
  by (induction "is" arbitrary: s) (auto intro: filter_cong)

lemma entries_insert_last:
  assumes "\<forall>j\<in>fst ` set es. j < i"
  shows "entries_insert i fvs es = es @ [(i, fvs)]"
proof -
  have "takeWhile (\<lambda>(j, _). j < i) es = es" and "dropWhile (\<lambda>(j, _). j \<le> i) es = []"
    using assms by (auto simp: takeWhile_eq_all_conv dropWhile_eq_Nil_conv less_imp_le)
  then show ?thesis by (simp add: entries_insert_def)
qed

lemma stream_wf_snoc:
  assumes "stream_wf s" and "s_last_id s < i"
  shows "entries_insert i fvs (s_entries s) = s_entries s @ [(i, fvs)]"
    and "stream_wf (s\<lparr>s_entries := s_entries s @ [(i, fvs)], s_last_id := i\<rparr>)"
  using assms
  by (auto intro!: entries_insert_last simp: stream_wf_def sorted_wrt_append dest: le_less_trans
      intro: less_imp_le)

text \<open>Trimming to a length drops the oldest entries, as many as the limit allows.\<close>

definition trim_count :: "nat \<Rightarrow> int option \<Rightarrow> nat \<Rightarrow> nat" where
  "trim_count target limit n =
     (case limit of None \<Rightarrow> n - target | Some cap \<Rightarrow> min (n - target) (nat cap))"

lemma trim_len_drop:
  assumes "stream_wf s"
  shows "snd (trim_len target limit removed s) =
      removed + trim_count target (map_option (\<lambda>c. c - int removed) limit) (length (s_entries s))
    \<and> s_entries (fst (trim_len target limit removed s)) =
      drop (trim_count target (map_option (\<lambda>c. c - int removed) limit) (length (s_entries s))) (s_entries s)
    \<and> s_last_id (fst (trim_len target limit removed s)) = s_last_id s"
  using assms
proof (induction target limit removed s rule: trim_len.induct)
  case (1 target limit removed s)
  show ?case
  proof (cases "s_entries s")
    case Nil
    then show ?thesis by (simp add: trim_len.simps trim_count_def split: option.splits)
  next
    case (Cons e es)
    obtain first fvs where e: "e = (first, fvs)" by (cases e)
    let ?go = "target < length (s_entries s) \<and> \<not> (case limit of Some cap \<Rightarrow> cap \<le> int removed | None \<Rightarrow> False)"
    show ?thesis
    proof (cases ?go)
      case False
      then show ?thesis using Cons e
        by (auto simp: trim_len.simps trim_count_def split: option.splits)
    next
      case True
      have "\<forall>x\<in>set es. fst x \<noteq> first"
        using stream_wf_distinct [OF "1.prems"] Cons e by (auto simp: image_iff)
      then have es: "filter (\<lambda>x. fst x \<noteq> first) es = es" by (simp add: filter_id_conv)
      have IH: "snd (trim_len target limit (removed + 1) (evict first s)) =
          removed + 1 + trim_count target (map_option (\<lambda>c. c - int (removed + 1)) limit) (length es)
        \<and> s_entries (fst (trim_len target limit (removed + 1) (evict first s))) =
          drop (trim_count target (map_option (\<lambda>c. c - int (removed + 1)) limit) (length es)) es
        \<and> s_last_id (fst (trim_len target limit (removed + 1) (evict first s))) = s_last_id s"
        using "1.IH" [OF Cons e [symmetric] True] "1.prems" es Cons e by (simp add: stream_wf_evict)
      have step: "trim_len target limit removed s = trim_len target limit (removed + 1) (evict first s)"
        using True Cons e by (subst trim_len.simps) simp
      have tc: "trim_count target (map_option (\<lambda>c. c - int removed) limit) (length (e # es)) =
          Suc (trim_count target (map_option (\<lambda>c. c - int (removed + 1)) limit) (length es))"
        using True Cons by (auto simp: trim_count_def split: option.splits)
      show ?thesis using IH unfolding step Cons tc by simp
    qed
  qed
qed

section \<open>Ids\<close>

lemma dec_nat_no_dash: "45 \<notin> set (dec_nat n)"
  using dec_nat_digits [of 45 n] by auto

lemma split_dash_display: "split_dash (sid_display i) = Some (dec_nat (unat (sid_ms i)), dec_nat (unat (sid_seq i)))"
proof -
  have d: "\<forall>c\<in>set (dec_nat (unat (sid_ms i))). c \<noteq> 45" using dec_nat_no_dash by blast
  then have "takeWhile (\<lambda>c. c \<noteq> 45) (sid_display i) = dec_nat (unat (sid_ms i))"
    and "dropWhile (\<lambda>c. c \<noteq> 45) (sid_display i) = 45 # dec_nat (unat (sid_seq i))"
    by (simp_all add: sid_display_def takeWhile_tail dropWhile_append)
  then show ?thesis by (simp add: split_dash_def sid_display_def)
qed

lemma sid_display_ascii: "utf8_valid (sid_display i)"
  using dec_nat_is_ascii by (intro utf8_valid_ascii) (auto simp: sid_display_def is_ascii_def)

lemma parse_u64_dec_word: "parse_u64 (dec_nat (unat w)) = Some (w :: u64)"
proof -
  have "unat w < 2 ^ 64" by (rule order.strict_trans2 [OF unsigned_less]) simp
  then show ?thesis by (simp add: parse_u64_dec_nat del: dec_nat.simps)
qed

lemma parse_id_display_aux: "parse_id (sid_display i) b = Inr i"
proof -
  obtain c cs where c: "dec_nat (unat (sid_ms i)) = c # cs" by (rule dec_nat_Cons)
  then have "sid_display i \<noteq> [x]" for x by (simp add: sid_display_def)
  then show ?thesis by (simp add: parse_id_def sid_display_ascii split_dash_display parse_u64_dec_word)
qed

text \<open>\<open>next\<close> is the immediate successor: nothing lies between.\<close>

lemma sid_next_le: "sid_next i = Some j \<Longrightarrow> j \<le> k \<longleftrightarrow> i < k"
  using inc_less_eq_iff [of "sid_ms i" "sid_ms k"] inc_less_eq_iff [of "sid_seq i" "sid_seq k"]
  by (auto simp: sid_next_def less_stream_id_def less_eq_stream_id_def le_less split: if_splits)

lemma sid_next_greater: "sid_next i = Some j \<Longrightarrow> i < j"
  using sid_next_le [of i j j] by simp

lemma resolve_add_id_greater: "resolve_add_id now a s = Inr i \<Longrightarrow> s_last_id s < i"
  by (auto simp: resolve_add_id_def above_last_def less_stream_id_def not_le dest: sid_next_greater
      split: if_splits option.splits)

lemma sid_min_least: "sid_min \<le> i"
  by (cases "sid_ms i = 0") (auto simp: sid_min_def less_eq_stream_id_def word_gt_0)

lemma sid_max_greatest: "i \<le> sid_max"
  by (simp add: sid_max_def less_eq_stream_id_def) (metis word_order.not_eq_extremum)

lemma resolve_add_id_nonzero: "resolve_add_id now a s = Inr i \<Longrightarrow> i \<noteq> sid_min"
  using resolve_add_id_greater [of now a s i] sid_min_least [of "s_last_id s"] by auto

section \<open>The stream at a key\<close>

definition stream_at :: "u64 \<Rightarrow> db \<Rightarrow> bytes \<Rightarrow> stream" where
  "stream_at now db k = (case live now db k of Some (StreamV s, _) \<Rightarrow> s | _ \<Rightarrow> stream_default)"

definition stream_key :: "u64 \<Rightarrow> db \<Rightarrow> bytes \<Rightarrow> bool" where
  "stream_key now db k \<longleftrightarrow> (case live now db k of None \<Rightarrow> True | Some (v, _) \<Rightarrow> as_stream v \<noteq> None)"

lemma stream_views:
  "live now db k = None \<Longrightarrow> stream_key now db k"
  "live now db k = Some (StreamV s, t) \<Longrightarrow> stream_key now db k"
  "live now db k = Some (v, t) \<Longrightarrow> as_stream v = None \<Longrightarrow> \<not> stream_key now db k"
  "live now db k = None \<Longrightarrow> stream_at now db k = stream_default"
  "live now db k = Some (StreamV s, t) \<Longrightarrow> stream_at now db k = s"
  "live now db k = None \<Longrightarrow> live_ttl now db k = None"
  "live now db k = Some (v, t) \<Longrightarrow> live_ttl now db k = t"
  by (simp_all add: stream_key_def stream_at_def live_ttl_def)

lemma db_ok_live_stream: "db_ok db \<Longrightarrow> live now db k = Some (StreamV s, t) \<Longrightarrow> stream_wf s"
  using db_ok_live [of db now k "StreamV s" t] by simp

lemma db_ok_stream_but:
  assumes "db_ok_but {k} db" and "live now db k = Some (StreamV s, t)" and "stream_wf s"
  shows "db_ok db"
proof -
  obtain e where "map_of db k = Some e" and "e_value e = StreamV s"
    using assms(2) by (auto simp: live_def entry_pair_def split: option.splits if_splits)
  with assms(1,3) show ?thesis unfolding db_ok_alt db_ok_but_def
    by (metis option.inject singletonD val_ok_simps(6))
qed

lemma stream_create:
  assumes "db_ok db" and "stream_key now db k"
  obtains db' where "get_or_create_stream now k db = (Inr (stream_at now db k), db')"
    and "stream_wf (stream_at now db k)" and "db_ok db'"
    and "\<And>s'. live now (db_write k (StreamV s') db') = (live now db)(k \<mapsto> (StreamV s', live_ttl now db k))"
    and "live now db' = (live now db)(k \<mapsto> (StreamV (stream_at now db k), live_ttl now db k))"
proof (cases rule: streams.create_cases [of now k db])
  case (wrong v t db')
  with assms(2) show ?thesis by (simp add: stream_views)
next
  case (created db')
  have "db_ok db'" using created assms(1) db_ok_stream_but [of k db' now stream_default None]
    by (simp add: stream_wf_default)
  then show ?thesis using that [of db'] created assms
    by (simp add: get_or_create_stream_def stream_views live_simps stream_wf_default)
next
  case (present s t db')
  then show ?thesis using that [of db'] assms db_ok_live_stream [OF assms(1)]
    by (simp add: get_or_create_stream_def stream_views live_simps fun_upd_idem)
qed

text \<open>
  C30: \<open>XADD\<close> that replies with an id has appended the entry under an id strictly above every id the
  stream has ever assigned (\<open>*\<close>, \<open>ms-*\<close> and explicit ids alike), made it the new last id, trimmed
  as asked, kept the expiry and touched no other key. The reply parses back to the id.
\<close>

theorem xadd_correct:
  assumes "db_ok db" and "stream_key now db (args ! 1)" and "5 \<le> length args"
    and "xadd_opts (drop 2 args) False None = Inr (False, tspec, id_arg # fvs)"
    and "fvs \<noteq> []" and "even (length fvs)"
    and "s = stream_at now db (args ! 1)" and "resolve_add_id now id_arg s = Inr i"
    and "s1 = s\<lparr>s_entries := s_entries s @ [(i, pairs_of fvs)], s_last_id := i\<rparr>"
  shows "s_last_id s < i \<and> (\<forall>j\<in>fst ` set (s_entries s). j < i)
    \<and> fst (xadd now args db) = Bulk (sid_display i) \<and> parse_id (sid_display i) b = Inr i
    \<and> live now (snd (xadd now args db)) = (live now db)(args ! 1 \<mapsto>
        (StreamV (case tspec of None \<Rightarrow> s1 | Some spec \<Rightarrow> fst (apply_trim spec s1)), live_ttl now db (args ! 1)))"
proof -
  obtain db' where g: "get_or_create_stream now (args ! 1) db = (Inr s, db')" and wf: "stream_wf s"
    and l: "\<And>s'. live now (db_write (args ! 1) (StreamV s') db') = (live now db)(args ! 1 \<mapsto> (StreamV s', live_ttl now db (args ! 1)))"
    using stream_create [OF assms(1,2)] unfolding assms(7) by metis
  have gt: "s_last_id s < i" using assms(8) by (rule resolve_add_id_greater)
  have e: "entries_insert i (pairs_of fvs) (s_entries s) = s_entries s @ [(i, pairs_of fvs)]"
    by (rule stream_wf_snoc(1) [OF wf gt])
  have "xadd now args db = (Bulk (sid_display i),
      db_write (args ! 1) (StreamV (case tspec of None \<Rightarrow> s1 | Some spec \<Rightarrow> fst (apply_trim spec s1))) db')"
    using assms(3-6,8) g e resolve_add_id_nonzero [OF assms(8)]
    unfolding assms(9) by (simp add: xadd_def xadd_put_def Let_def)
  moreover have "\<forall>j\<in>fst ` set (s_entries s). j < i" using wf gt by (auto simp: stream_wf_def)
  ultimately show ?thesis using gt l parse_id_display_aux by simp
qed

theorem xadd_correct_witness:
  "fst (xadd 5 [ascii ''xadd'', [9], ascii ''7-1'', [1], [2]] []) = Bulk (sid_display (StreamId 7 1))"
proof -
  let ?args = "[ascii ''xadd'', [9], ascii ''7-1'', [1], [2]]"
  have k: "stream_key 5 [] (?args ! 1)" and s: "stream_at 5 [] (?args ! 1) = stream_default"
    by (simp_all add: stream_key_def stream_at_def live_def)
  have o: "xadd_opts (drop 2 ?args) False None = Inr (False, None, ascii ''7-1'' # [[1], [2]])" by code_simp
  have r: "resolve_add_id 5 (ascii ''7-1'') stream_default = Inr (StreamId 7 1)" by code_simp
  show ?thesis using xadd_correct [OF db_ok_Nil k _ o _ _ s [symmetric] r refl] by simp
qed

section \<open>Reading\<close>

lemma collect_take: "collect cnt k xs = (case cnt of None \<Rightarrow> xs | Some n \<Rightarrow> take (max 1 (n - k)) xs)"
proof (induction cnt k xs rule: collect.induct)
  case (2 cnt k x xs)
  then show ?case
    by (cases cnt) (auto simp: take_Cons' max_def not_le)
qed (simp split: option.splits)

lemma xrange_eval:
  assumes "live now db (args ! 1) = Some (StreamV s, t)" and "4 \<le> length args"
    and "parse_range_bound (args ! (if reverse then 3 else 2)) False = Inr (start, sx)"
    and "parse_range_bound (args ! (if reverse then 2 else 3)) True = Inr (stop, ex)"
    and "xrange_opts (drop 4 args) None = Inr cnt"
    and "sel = filter (\<lambda>(i, _). (if sx then start < i else start \<le> i) \<and> (if ex then i < stop else i \<le> stop)) (s_entries s)"
  obtains db' where "live now db' = live now db"
    and "xrange now args reverse db = (if stop < start then None
      else Some (Array (map (\<lambda>(i, f). entry_frame i f) (collect cnt 0 (if reverse then rev sel else sel))), db'))"
proof -
  obtain db' where g: "get_stream now (args ! 1) db = (Inr (Some s), db')" and l: "live now db' = live now db"
    using assms(1) by (cases rule: streams.get_cases [of now "args ! 1" db]) (auto simp: get_stream_def)
  let ?range = "filter (\<lambda>(i, _). start \<le> i \<and> i \<le> stop) (s_entries s)"
  let ?kept = "filter (\<lambda>(i, _). \<not> (sx \<and> i = start) \<and> \<not> (ex \<and> i = stop)) (if reverse then rev ?range else ?range)"
  have k: "?kept = (if reverse then rev sel else sel)"
    unfolding assms(6) by (auto simp: rev_filter [symmetric] case_prod_unfold intro!: filter_cong)
  have "xrange now args reverse db = (if stop < start then None
      else Some (Array (map (\<lambda>(i, f). entry_frame i f) (collect cnt 0 ?kept)), db'))"
    using assms(2-5) g by (cases reverse) (simp_all add: xrange_def xrange_reply_def Let_def)
  then show ?thesis using that [of db'] l unfolding k by blast
qed


definition stream_demo :: db where
  "stream_demo = [([120], \<lparr>e_value = StreamV \<lparr>s_entries = [(StreamId 1 0, [([1], [2])]), (StreamId 2 5, [([1], [3])])],
     s_last_id = StreamId 2 5, s_max_deleted_id = sid_min\<rparr>, e_expire_at = Some 9\<rparr>)]"

lemma live_stream_demo:
  "live 5 stream_demo [120] = Some (StreamV \<lparr>s_entries = [(StreamId 1 0, [([1], [2])]), (StreamId 2 5, [([1], [3])])],
     s_last_id = StreamId 2 5, s_max_deleted_id = sid_min\<rparr>, Some 9)"
  by (simp add: live_def stream_demo_def expired_def entry_pair_def)

lemma db_ok_stream_demo: "db_ok stream_demo"
  by (simp add: stream_demo_def db_ok_def stream_wf_def less_stream_id_def less_eq_stream_id_def)


text \<open>
  When the start bound lies beyond the end bound and the stream exists, \<open>XRANGE\<close> and \<open>XREVRANGE\<close>
  panic in \<open>BTreeMap::range\<close>, with the lock on the keyspace held.
\<close>

theorem xrange_inverted_panics:
  assumes "live now db (args ! 1) = Some (StreamV s, t)" and "4 \<le> length args"
    and "parse_range_bound (args ! (if reverse then 3 else 2)) False = Inr (start, sx)"
    and "parse_range_bound (args ! (if reverse then 2 else 3)) True = Inr (stop, ex)"
    and "xrange_opts (drop 4 args) None = Inr cnt" and "stop < start"
  shows "xrange now args reverse db = None"
  using xrange_eval [OF assms(1-5) refl] assms(6) by metis

theorem xrange_inverted_panics_witness:
  "xrange 5 [ascii ''xrange'', [120], ascii ''5'', ascii ''3''] False stream_demo = None"
proof -
  let ?args = "[ascii ''xrange'', [120], ascii ''5'', ascii ''3'']"
  have lo: "parse_range_bound (?args ! (if False then 3 else 2)) False = Inr (StreamId 5 0, False)"
    and hi: "parse_range_bound (?args ! (if False then 2 else 3)) True = Inr (StreamId 3 (- 1), False)"
    and le: "StreamId 3 (- 1) < StreamId 5 0" by code_simp+
  have l: "live 5 stream_demo (?args ! 1) = Some (StreamV \<lparr>s_entries = [(StreamId 1 0, [([1], [2])]), (StreamId 2 5, [([1], [3])])],
     s_last_id = StreamId 2 5, s_max_deleted_id = sid_min\<rparr>, Some 9)" using live_stream_demo by simp
  have o: "xrange_opts (drop 4 ?args) None = Inr None" by simp
  have "4 \<le> length ?args" by simp
  from xrange_inverted_panics [OF l this lo hi o le] show ?thesis .
qed

text \<open>
  The entries that \<open>XREAD\<close> counts as newer than an id: those with a greater id; after the greatest
  possible id (which also stands for \<open>$\<close>) only an entry with that very id.
\<close>

definition newer :: "stream_id \<Rightarrow> stream \<Rightarrow> (stream_id \<times> (bytes \<times> bytes) list) list" where
  "newer frm s = filter (\<lambda>(i, _). frm < i \<or> frm = sid_max \<and> i = sid_max) (s_entries s)"

lemma sid_next_None: "sid_next i = None \<longleftrightarrow> i = sid_max"
  by (cases i) (simp add: sid_next_def sid_max_def)

lemma xread_bound: "(case sid_next frm of Some i \<Rightarrow> i | None \<Rightarrow> sid_max) \<le> j \<longleftrightarrow> frm < j \<or> frm = sid_max \<and> j = sid_max"
proof (cases "sid_next frm")
  case None
  then have "frm = sid_max" by (simp add: sid_next_None)
  with None show ?thesis using sid_max_greatest [of j] by auto
next
  case (Some i)
  moreover from this have "frm \<noteq> sid_max" using sid_next_None [of frm] by auto
  ultimately show ?thesis by (simp add: sid_next_le)
qed

definition xread_part :: "u64 \<Rightarrow> nat option \<Rightarrow> db \<Rightarrow> bytes \<times> stream_id \<Rightarrow> (frame \<times> frame) list" where
  "xread_part now cnt db p =
     (case p of (key, frm) \<Rightarrow>
        let items = collect cnt 0 (newer frm (stream_at now db key))
        in if items = [] then [] else [(Bulk key, Array (map (\<lambda>(i, f). entry_frame i f) items))])"

lemma xread_part_pair:
  "xread_part now cnt db (key, frm) =
     (let items = collect cnt 0 (newer frm (stream_at now db key))
      in if items = [] then [] else [(Bulk key, Array (map (\<lambda>(i, f). entry_frame i f) items))])"
  by (simp add: xread_part_def)

lemma newer_default [simp]: "newer frm stream_default = []"
  by (simp add: newer_def stream_default_def)

lemma xread_loop_spec:
  assumes "\<forall>(k, _)\<in>set pairs. stream_key now db k"
  shows "\<exists>db'. xread_loop now cnt pairs db = (Inr (concat (map (xread_part now cnt db) pairs)), db')
    \<and> live now db' = live now db \<and> (db_ok db \<longrightarrow> db_ok db')"
  using assms
proof (induction pairs arbitrary: db)
  case Nil
  then show ?case by simp
next
  case (Cons p pairs)
  obtain key frm where p: "p = (key, frm)" by (cases p)
  have part: "map (xread_part now cnt db1) pairs = map (xread_part now cnt db) pairs"
    and key: "\<forall>(k, _)\<in>set pairs. stream_key now db1 k" if "live now db1 = live now db" for db1
    using that Cons.prems by (auto simp: xread_part_def stream_at_def stream_key_def split: prod.splits)
  show ?case
  proof (cases rule: streams.get_cases [of now key db])
    case (wrong v t db1)
    with Cons.prems p show ?thesis by (simp add: stream_views)
  next
    case (absent db1)
    then show ?thesis using Cons.IH [OF key [OF absent(3)]] p unfolding part [OF absent(3)]
      by (auto simp: get_stream_def xread_part_pair stream_views)
  next
    case (present s t db1)
    obtain db2 where db2: "xread_loop now cnt pairs db1 = (Inr (concat (map (xread_part now cnt db) pairs)), db2)"
      "live now db2 = live now db" "db_ok db \<longrightarrow> db_ok db2"
      using Cons.IH [OF key [OF present(3)]] present unfolding part [OF present(3)] by auto
    have "filter (\<lambda>(i, _). (case sid_next frm of Some i \<Rightarrow> i | None \<Rightarrow> sid_max) \<le> i) (s_entries s) = newer frm s"
      unfolding newer_def xread_bound ..
    then show ?thesis using present db2 p
      by (simp add: get_stream_def Let_def xread_part_pair stream_views)
  qed
qed

text \<open>
  \<open>XREAD\<close> over keys that hold streams (or nothing) replies, for each key in order, with exactly
  the entries whose id is greater than the given one (the first \<open>n\<close> with \<open>COUNT n\<close>), leaves out the
  keys without any, and with the null array when there are none at all. It changes nothing.
\<close>

theorem xread_correct:
  assumes "parse_xread args = Inr p" and "\<forall>(k, _)\<in>set (px_pairs p). stream_key now db k"
    and "out = concat (map (xread_part now (px_count p) db) (px_pairs p))"
  shows "fst (xread now args db) = (if out = [] then NullArray else XReadReply out)
    \<and> live now (snd (xread now args db)) = live now db"
proof -
  obtain db' where "xread_loop now (px_count p) (px_pairs p) db = (Inr out, db')" and "live now db' = live now db"
    using xread_loop_spec [OF assms(2), of "px_count p"] unfolding assms(3) by blast
  then show ?thesis using assms(1) by (cases out) (simp_all add: xread_def)
qed

theorem xread_correct_witness:
  "fst (xread 5 [ascii ''xread'', ascii ''STREAMS'', [120], ascii ''1-0''] stream_demo) =
     XReadReply [(Bulk [120], Array [entry_frame (StreamId 2 5) [([1], [3])]])]"
proof -
  let ?args = "[ascii ''xread'', ascii ''STREAMS'', [120], ascii ''1-0'']"
  let ?p = "\<lparr>px_pairs = [([120], StreamId 1 0)], px_count = None\<rparr>"
  have p: "parse_xread ?args = Inr ?p" by code_simp
  have k: "\<forall>(k, _)\<in>set (px_pairs ?p). stream_key 5 stream_demo k"
    by (simp add: stream_key_def live_stream_demo)
  have "concat (map (xread_part 5 (px_count ?p) stream_demo) (px_pairs ?p)) =
      [(Bulk [120], Array [entry_frame (StreamId 2 5) [([1], [3])]])]"
    by (simp add: xread_part_def stream_at_def live_stream_demo newer_def less_stream_id_def sid_max_def)
  with xread_correct [OF p k refl] show ?thesis by simp
qed

section \<open>Removal\<close>

lemma stream_wf_drop:
  "stream_wf s \<Longrightarrow> s_entries s' = drop n (s_entries s) \<Longrightarrow> s_last_id s' = s_last_id s \<Longrightarrow> stream_wf s'"
  by (auto simp: stream_wf_def drop_map [symmetric] sorted_wrt_drop dest: in_set_dropD)

lemma apply_trim_facts:
  assumes "stream_wf s"
  shows "stream_wf (fst (apply_trim spec s))" and "s_last_id (fst (apply_trim spec s)) = s_last_id s"
proof -
  have "stream_wf (fst (apply_trim spec s)) \<and> s_last_id (fst (apply_trim spec s)) = s_last_id s"
  proof (cases spec)
    case (MaxLen target limit)
    then show ?thesis using trim_len_drop [OF assms, of target limit 0] stream_wf_drop [OF assms]
      by (auto simp: apply_trim_def)
  next
    case (MinId mn limit)
    then show ?thesis using assms
      by (simp add: apply_trim_def Let_def stream_wf_fold_evict fold_evict_simps)
  qed
  then show "stream_wf (fst (apply_trim spec s))" and "s_last_id (fst (apply_trim spec s)) = s_last_id s" by blast+
qed

text \<open>\<open>MINID\<close> without a limit keeps exactly the entries at or above the id.\<close>

lemma apply_trim_minid:
  "s_entries (fst (apply_trim (MinId mn None) s)) = filter (\<lambda>(i, _). mn \<le> i) (s_entries s)"
  "snd (apply_trim (MinId mn None) s) = length (filter (\<lambda>(i, _). i < mn) (s_entries s))"
  by (auto simp: apply_trim_def Let_def fold_evict_simps image_iff intro!: filter_cong)

text \<open>
  \<open>XTRIM key MAXLEN n\<close> leaves the newest \<open>n\<close> entries of a stream and replies with the number of
  entries dropped, \<open>XTRIM key MINID id\<close> leaves those at or above the id. The last assigned id, the
  expiry and all other keys stay as they are.
\<close>

theorem xtrim_correct:
  assumes "db_ok db" and "live now db (args ! 1) = Some (StreamV s, t)" and "length args = 4"
    and "args ! 3 \<noteq> [126]" and "args ! 3 \<noteq> [61]"
    and "upper (args ! 2) = ascii ''MAXLEN'' \<and> parse_int (args ! 3) = Inr (int n)
           \<and> kept = drop (length (s_entries s) - n) (s_entries s)
       \<or> upper (args ! 2) = ascii ''MINID'' \<and> parse_id (args ! 3) True = Inr mn
           \<and> kept = filter (\<lambda>(i, _). mn \<le> i) (s_entries s)"
  shows "\<exists>s'. s_entries s' = kept \<and> s_last_id s' = s_last_id s
    \<and> live now (snd (xtrim now args db)) = (live now db)(args ! 1 \<mapsto> (StreamV s', t))
    \<and> fst (xtrim now args db) = Integer (int (length (s_entries s) - length kept))"
proof -
  have wf: "stream_wf s" by (rule db_ok_live_stream [OF assms(1,2)])
  obtain db' where g: "get_stream_mut now (args ! 1) db = (Inr (Some s), db')"
    and l: "live now db' = live now db" and f: "fresh now (args ! 1) db'"
    using assms(2) by (cases rule: streams.get_cases [of now "args ! 1" db]) (auto simp: get_stream_mut_def)
  obtain a b c d where args: "args = [a, b, c, d]" using assms(3) by (auto simp: numeral_eq_Suc length_Suc_conv)
  have th: "xtrim_threshold (drop 3 args) = Inr (args ! 3, None)"
    using assms(4,5) by (simp add: args xtrim_threshold_def skip_strategy_def)
  have k: "ascii ''MAXLEN'' \<noteq> ascii ''MINID''" by code_simp
  obtain spec where spec: "make_trim (upper (args ! 2) = ascii ''MINID'') (args ! 3) None = Inr spec"
    "upper (args ! 2) = ascii ''MAXLEN'' \<or> upper (args ! 2) = ascii ''MINID''"
    "s_entries (fst (apply_trim spec s)) = kept" "snd (apply_trim spec s) = length (s_entries s) - length kept"
  proof (cases "upper (args ! 2) = ascii ''MINID''")
    case True
    then have m: "parse_id (args ! 3) True = Inr mn" "kept = filter (\<lambda>(i, _). mn \<le> i) (s_entries s)"
      using assms(6) k by auto
    have "length (filter (\<lambda>(i, _). i < mn) (s_entries s)) + length kept = length (s_entries s)"
      using sum_length_filter_compl [of "\<lambda>(i, _). i < mn" "s_entries s"]
      by (simp add: m(2) case_prod_unfold not_less)
    then show ?thesis using that [of "MinId mn None"] True m(1) apply_trim_minid [of mn s]
      by (simp add: make_trim_def m(2))
  next
    case False
    then have m: "parse_int (args ! 3) = Inr (int n)" "kept = drop (length (s_entries s) - n) (s_entries s)"
      "upper (args ! 2) = ascii ''MAXLEN''" using assms(6) by auto
    then show ?thesis using that [of "MaxLen n None"] trim_len_drop [OF wf, of n None 0] k
      by (simp add: make_trim_def apply_trim_def trim_count_def)
  qed
  have "xtrim now args db = (Integer (int (length (s_entries s) - length kept)),
      db_write (args ! 1) (StreamV (fst (apply_trim spec s))) db')"
    using spec g th assms(3) k by (auto simp: xtrim_def case_prod_unfold Let_def)
  then show ?thesis using spec(3) apply_trim_facts(2) [OF wf] l assms(2)
    by (intro exI [of _ "fst (apply_trim spec s)"]) (simp add: live_simps)
qed

theorem xtrim_correct_witness:
  "fst (xtrim 5 [ascii ''xtrim'', [120], ascii ''maxlen'', dec_int 1] stream_demo) = Integer 1"
proof -
  have u: "upper (ascii ''maxlen'') = ascii ''MAXLEN''" by code_simp
  have d: "dec_int 1 \<noteq> [126]" "dec_int 1 \<noteq> [61]" by code_simp+
  have p: "parse_int (dec_int 1) = Inr (int 1)" by (simp add: i64_ok_def)
  let ?args = "[ascii ''xtrim'', [120], ascii ''maxlen'', dec_int 1]"
  have l: "live 5 stream_demo (?args ! 1) = Some (StreamV \<lparr>s_entries = [(StreamId 1 0, [([1], [2])]), (StreamId 2 5, [([1], [3])])],
     s_last_id = StreamId 2 5, s_max_deleted_id = sid_min\<rparr>, Some 9)" using live_stream_demo by simp
  have len: "length ?args = 4" and d: "?args ! 3 \<noteq> [126]" "?args ! 3 \<noteq> [61]" using d by simp_all
  from u p xtrim_correct [OF db_ok_stream_demo l len d, of 1 "[(StreamId 2 5, [([1], [3])])]"]
  show ?thesis by auto
qed

lemma xdel_one_facts:
  "stream_wf s \<Longrightarrow> stream_wf (fst (xdel_one i s))" "s_last_id (fst (xdel_one i s)) = s_last_id s"
  "s_entries (fst (xdel_one i s)) = filter (\<lambda>e. fst e \<noteq> i) (s_entries s)"
  "snd (xdel_one i s) \<longleftrightarrow> i \<in> fst ` set (s_entries s)"
  by (auto simp: xdel_one_def stream_wf_evict map_of_eq_None_iff image_iff
      intro!: filter_True [symmetric])

lemma entries_insert_Cons:
  assumes "sorted_wrt (<) (map fst ((j, g) # es))"
  shows "entries_insert i f ((j, g) # es) =
    (if j < i then (j, g) # entries_insert i f es else if j = i then (i, f) # es else (i, f) # (j, g) # es)"
proof -
  have "dropWhile (\<lambda>(k, _). k \<le> j) es = es"
    using assms by (cases es) (auto simp: not_le)
  then show ?thesis by (auto simp: entries_insert_def not_less)
qed

lemma entries_insert_sorted:
  "sorted_wrt (<) (map fst es) \<Longrightarrow> sorted_wrt (<) (map fst (entries_insert i f es))
     \<and> fst ` set (entries_insert i f es) = insert i (fst ` set es)"
proof (induction es)
  case Nil
  then show ?case by (simp add: entries_insert_def)
next
  case (Cons e es)
  obtain j g where e: "e = (j, g)" by (cases e)
  have s: "sorted_wrt (<) (map fst ((j, g) # es))" using Cons.prems e by simp
  then have lt: "\<forall>k\<in>fst ` set es. j < k" by auto
  have IH: "sorted_wrt (<) (map fst (entries_insert i f es))"
    "fst ` set (entries_insert i f es) = insert i (fst ` set es)" using Cons by auto
  consider "j < i" | "j = i" | "i < j" by (rule linorder_cases)
  then show ?case
  proof cases
    case 1
    then have "\<forall>k\<in>fst ` set (entries_insert i f es). j < k" using lt IH(2) by simp
    then show ?thesis using 1 IH unfolding e entries_insert_Cons [OF s] by auto
  next
    case 2
    then show ?thesis using s unfolding e entries_insert_Cons [OF s] by simp
  next
    case 3
    then show ?thesis using s lt unfolding e entries_insert_Cons [OF s] by (auto intro: less_trans)
  qed
qed

lemma sorted_fst_filter: "sorted_wrt R (map fst es) \<Longrightarrow> sorted_wrt R (map fst (filter P es))"
  by (simp add: sorted_wrt_map sorted_wrt_filter)

text \<open>The ordered entries form a keyed store: \<open>BTreeMap::insert\<close> and the removal of \<open>XDEL\<close>.\<close>

interpretation entries: keyed_store "\<lambda>s. fst ` set (s_entries s)"
  "\<lambda>(i, fvs) s. (s\<lparr>s_entries := entries_insert i fvs (s_entries s)\<rparr>, i \<notin> fst ` set (s_entries s))"
  xdel_one "\<lambda>s. sorted_wrt (<) (map fst (s_entries s))"
  by unfold_locales
    (auto simp: xdel_one_facts entries_insert_sorted sorted_fst_filter image_iff)

lemma xdel_all_facts:
  "stream_wf s \<Longrightarrow> stream_wf (fst (count_steps xdel_one is s))"
  "s_last_id (fst (count_steps xdel_one is s)) = s_last_id s"
  "s_entries (fst (count_steps xdel_one is s)) = filter (\<lambda>e. fst e \<notin> set is) (s_entries s)"
  by (induction "is" arbitrary: s)
    (auto simp: case_prod_unfold Let_def xdel_one_facts intro: filter_cong)

text \<open>
  \<open>XDEL\<close> removes exactly the listed entries, replies with the number that existed and never
  lowers the last assigned id, so that no later \<open>XADD\<close> can reuse an id; the key stays, even when the
  stream is empty.
\<close>

theorem xdel_correct:
  assumes "db_ok db" and "live now db (args ! 1) = Some (StreamV s, t)" and "3 \<le> length args"
    and "parse_ids (drop 2 args) = Inr is"
  shows "\<exists>s'. s_entries s' = filter (\<lambda>(i, _). i \<notin> set is) (s_entries s) \<and> s_last_id s' = s_last_id s
    \<and> live now (snd (xdel now args db)) = (live now db)(args ! 1 \<mapsto> (StreamV s', t))
    \<and> fst (xdel now args db) = Integer (int (card (set is \<inter> fst ` set (s_entries s))))"
proof -
  have wf: "stream_wf s" by (rule db_ok_live_stream [OF assms(1,2)])
  obtain db' where g: "get_stream_mut now (args ! 1) db = (Inr (Some s), db')" and l: "live now db' = live now db"
    using assms(2) by (cases rule: streams.get_cases [of now "args ! 1" db]) (auto simp: get_stream_mut_def)
  have "xdel now args db = (Integer (int (card (set is \<inter> fst ` set (s_entries s)))),
      db_write (args ! 1) (StreamV (fst (count_steps xdel_one is s))) db')"
    using assms(3,4) g entries.del_all(3) [of s "is"] wf
    by (simp add: xdel_def case_prod_unfold Let_def stream_wf_def)
  then show ?thesis using l assms(2) xdel_all_facts(2,3) [of "is" s]
    by (intro exI [of _ "fst (count_steps xdel_one is s)"]) (simp add: live_simps case_prod_unfold)
qed

theorem xdel_correct_witness:
  "fst (xdel 5 [ascii ''xdel'', [120], ascii ''1-0'', ascii ''7'', ascii ''1''] stream_demo) = Integer 1"
proof -
  let ?args = "[ascii ''xdel'', [120], ascii ''1-0'', ascii ''7'', ascii ''1'']"
  have p: "parse_ids (drop 2 ?args) = Inr [StreamId 1 0, StreamId 7 0, StreamId 1 0]" by code_simp
  have l: "live 5 stream_demo (?args ! 1) = Some (StreamV \<lparr>s_entries = [(StreamId 1 0, [([1], [2])]), (StreamId 2 5, [([1], [3])])],
     s_last_id = StreamId 2 5, s_max_deleted_id = sid_min\<rparr>, Some 9)" using live_stream_demo by simp
  have "set [StreamId 1 0, StreamId 7 0, StreamId 1 0] \<inter> {StreamId 1 0, StreamId 2 5} = {StreamId 1 0}" by auto
  with xdel_correct [OF db_ok_stream_demo l _ p] show ?thesis by auto
qed

text \<open>
  \<open>XADD\<close> of an id that is refused, on a missing key, replies with an error and yet creates the key,
  with an empty stream.
\<close>

theorem xadd_error_creates_key:
  assumes "db_ok db" and "live now db (args ! 1) = None" and "5 \<le> length args"
    and "xadd_opts (drop 2 args) False None = Inr (False, tspec, id_arg # fvs)"
    and "fvs \<noteq> []" and "even (length fvs)" and "resolve_add_id now id_arg stream_default = Inl e"
  shows "fst (xadd now args db) = e
    \<and> live now (snd (xadd now args db)) (args ! 1) = Some (StreamV stream_default, None)"
proof -
  have k: "stream_key now db (args ! 1)" using assms(2) by (rule stream_views(1))
  obtain db' where "get_or_create_stream now (args ! 1) db = (Inr stream_default, db')"
    and "live now db' = (live now db)(args ! 1 \<mapsto> (StreamV stream_default, None))"
    using stream_create [OF assms(1) k] assms(2) by (auto simp: stream_views)
  with assms show ?thesis by (simp add: xadd_def xadd_put_def)
qed

theorem xadd_error_creates_key_witness:
  "live 5 (snd (xadd 5 [ascii ''xadd'', [9], ascii ''0-0'', [1], [2]] [])) [9] = Some (StreamV stream_default, None)"
proof -
  let ?args = "[ascii ''xadd'', [9], ascii ''0-0'', [1], [2]]"
  have o: "xadd_opts (drop 2 ?args) False None = Inr (False, None, ascii ''0-0'' # [[1], [2]])" by code_simp
  have r: "resolve_add_id 5 (ascii ''0-0'') stream_default = Inl small_id" by code_simp
  have l: "live 5 [] (?args ! 1) = None" by (simp add: live_def)
  show ?thesis using xadd_error_creates_key [OF db_ok_Nil l _ o _ _ r] by simp
qed

section \<open>Invariant and frame conditions\<close>

lemma get_stream_db_ok: "db_ok db \<Longrightarrow> db_ok (snd (get_stream now k db))"
  by (cases rule: streams.get_cases [of now k db]) (auto simp: get_stream_def)

lemma get_stream_live: "live now (snd (get_stream now k db)) = live now db"
  by (cases rule: streams.get_cases [of now k db]) (auto simp: get_stream_def)

lemma xadd_put_db_ok:
  assumes "db_ok db"
  shows "db_ok (snd (xadd_put now k id_arg fvs tspec db))"
proof (cases "stream_key now db k")
  case False
  then show ?thesis using assms
    by (cases rule: streams.create_cases [of now k db])
      (auto simp: xadd_put_def get_or_create_stream_def stream_views)
next
  case True
  obtain db' where g: "get_or_create_stream now k db = (Inr (stream_at now db k), db')"
    and wf: "stream_wf (stream_at now db k)" and o: "db_ok db'" by (rule stream_create [OF assms True])
  show ?thesis
  proof (cases "resolve_add_id now id_arg (stream_at now db k)")
    case (Inl e)
    then show ?thesis using g o by (simp add: xadd_put_def)
  next
    case (Inr i)
    note sn = stream_wf_snoc [OF wf resolve_add_id_greater [OF Inr], of "pairs_of fvs"]
    then show ?thesis using g o Inr apply_trim_facts(1) [OF sn(2)]
      by (auto simp: xadd_put_def Let_def intro!: db_ok_write split: option.splits)
  qed
qed

lemma xadd_db_ok:
  assumes "db_ok db"
  shows "db_ok (snd (xadd now args db))"
  using assms get_stream_db_ok [OF assms, of now "args ! 1"] xadd_put_db_ok
  by (auto simp: xadd_def split: sum.splits list.splits option.splits prod.splits)

lemma xread_loop_db_ok: "db_ok db \<Longrightarrow> db_ok (snd (xread_loop now cnt pairs db))"
proof (induction pairs arbitrary: db)
  case (Cons p pairs)
  obtain k frm where p: "p = (k, frm)" by (cases p)
  obtain r db1 where g: "get_stream now k db = (r, db1)" by (cases "get_stream now k db")
  then have o: "db_ok db1" using get_stream_db_ok [OF Cons.prems, of now k] by simp
  from o Cons.IH [OF o] g show ?case
    by (auto simp: p Let_def split: sum.splits option.splits prod.splits)
qed simp

lemma xread_db_ok: "db_ok db \<Longrightarrow> db_ok (snd (xread now args db))"
  using xread_loop_db_ok [of db now]
  by (auto simp: xread_def split: sum.splits list.splits prod.splits) (metis snd_conv)+

lemma stream_modify_db_ok:
  assumes "db_ok db"
  shows "db_ok (snd (xdel now args db))" and "db_ok (snd (xtrim now args db))"
proof -
  have "db_ok (snd (xdel now args db)) \<and> db_ok (snd (xtrim now args db))"
  proof (cases rule: streams.get_cases [of now "args ! 1" db])
    case (present s t db')
    then have "stream_wf s" using assms db_ok_live_stream by blast
    then show ?thesis using present assms xdel_all_facts(1) apply_trim_facts(1)
      by (auto simp: xdel_def xtrim_def get_stream_mut_def case_prod_unfold Let_def intro!: db_ok_write
          split: sum.splits)
  qed (use assms in \<open>auto simp: xdel_def xtrim_def get_stream_mut_def Let_def split: sum.splits prod.splits\<close>)
  then show "db_ok (snd (xdel now args db))" and "db_ok (snd (xtrim now args db))" by blast+
qed

lemma xlen_db_ok: "db_ok db \<Longrightarrow> db_ok (snd (xlen now args db))"
  using get_stream_db_ok [of db now "args ! 1"]
  by (auto simp: xlen_def split: sum.splits option.splits prod.splits)

lemma xrange_db_ok: "db_ok db \<Longrightarrow> xrange now args reverse db = Some (f, db') \<Longrightarrow> db_ok db'"
  using get_stream_db_ok [of db now "args ! 1"]
  by (auto simp: xrange_def Let_def split: sum.splits option.splits prod.splits if_splits)

lemma dollar_loop_db_ok: "db_ok db \<Longrightarrow> db_ok (snd (dollar_loop now sidx n ks as db))"
proof (induction ks arbitrary: as db)
  case (Cons k ks)
  then show ?case using get_stream_db_ok [OF Cons.prems, of now "as ! (sidx + k)"]
    by (auto simp: Let_def split: prod.splits)
qed simp

lemma resolve_dollar_db_ok: "db_ok db \<Longrightarrow> db_ok (snd (resolve_dollar_ids now args db))"
  using dollar_loop_db_ok [of db now]
  by (auto simp: resolve_dollar_ids_def Let_def case_prod_unfold split: option.splits)

text \<open>
  Every stream command keeps the invariant of the database: the ids of a stream are strictly
  increasing and bounded by its last id.
\<close>

theorem stream_commands_db_ok:
  assumes "db_ok db"
    and "c \<in> {xadd now args, xlen now args, xread now args, xdel now args, xtrim now args}"
  shows "db_ok (snd (c db)) \<and> (\<forall>r f db'. xrange now args r db = Some (f, db') \<longrightarrow> db_ok db')"
  using assms(2) xadd_db_ok [OF assms(1)] xlen_db_ok [OF assms(1)] xread_db_ok [OF assms(1)]
    stream_modify_db_ok [OF assms(1)] xrange_db_ok [OF assms(1)] by auto

theorem stream_commands_db_ok_witness:
  "db_ok (snd (xdel 5 [ascii ''xdel'', [120], ascii ''1-0''] stream_demo))"
  using stream_commands_db_ok [OF db_ok_stream_demo, of "xdel 5 [ascii ''xdel'', [120], ascii ''1-0'']" 5 "[ascii ''xdel'', [120], ascii ''1-0'']"] by simp

end
