(* ===== verification/Dispatch.thy ===== *)
theory Dispatch
  imports Admin Lua Cmd_Hash Cmd_Set Cmd_List Cmd_String Cmd_Bit Cmd_Zset Cmd_Stream
begin

text \<open>
  The dispatcher \<open>execute_locked\<close> of src/commands/mod.rs and the scripts that call back into it
  (\<open>redis_pcall\<close>, \<open>run_script\<close> and \<open>eval\<close> of src/commands/scripting/mod.rs). The arms of the match
  that run against the selected database are tables from command names to handlers, in the order
  and the groups of the source; a handler gets the environment, the arguments, the database and the
  state of the generator.
\<close>

section \<open>The tables\<close>

type_synonym handler = "env \<Rightarrow> bytes list \<Rightarrow> db \<Rightarrow> rng \<Rightarrow> (frame \<times> db \<times> rng) option"

definition plain :: "(u64 \<Rightarrow> bytes list \<Rightarrow> db \<Rightarrow> frame \<times> db) \<Rightarrow> handler" where
  "plain f e args db g = (let (r, db) = f (env_now e) args db in Some (r, db, g))"

definition flagged :: "(u64 \<Rightarrow> bytes list \<Rightarrow> 'a \<Rightarrow> db \<Rightarrow> frame \<times> db) \<Rightarrow> 'a \<Rightarrow> handler" where
  "flagged f x = plain (\<lambda>now args. f now args x)"

definition random :: "(u64 \<Rightarrow> u64 \<Rightarrow> bytes list \<Rightarrow> db \<Rightarrow> rng \<Rightarrow> frame \<times> db \<times> rng) \<Rightarrow> handler" where
  "random f e args db g = Some (f (env_now e) (env_nanos e) args db g)"

definition partial :: "(u64 \<Rightarrow> bytes list \<Rightarrow> 'a \<Rightarrow> db \<Rightarrow> (frame \<times> db) option) \<Rightarrow> 'a \<Rightarrow> handler" where
  "partial f x e args db g =
     (case f (env_now e) args x db of None \<Rightarrow> None | Some (r, db) \<Rightarrow> Some (r, db, g))"

definition with_env :: "(env \<Rightarrow> bytes list \<Rightarrow> db \<Rightarrow> frame \<times> db) \<Rightarrow> handler" where
  "with_env f e args db g = (let (r, db) = f e args db in Some (r, db, g))"

definition string_table :: "(string \<times> handler) list" where
  "string_table =
     [(''GET'', plain string_get), (''SET'', plain string_set), (''SETNX'', plain setnx),
      (''SETEX'', flagged setex False), (''PSETEX'', flagged setex True), (''GETSET'', plain getset),
      (''GETDEL'', plain getdel), (''GETEX'', plain getex), (''APPEND'', plain string_append),
      (''STRLEN'', plain strlen), (''INCR'', flagged incr 1), (''DECR'', flagged incr (- 1)),
      (''INCRBY'', flagged incrby False), (''DECRBY'', flagged incrby True),
      (''INCRBYFLOAT'', plain incrbyfloat), (''MGET'', plain mget), (''MSET'', plain mset_cmd),
      (''MSETNX'', plain msetnx), (''GETRANGE'', plain getrange), (''SUBSTR'', plain getrange),
      (''SETRANGE'', plain setrange)]"

definition bitmap_table :: "(string \<times> handler) list" where
  "bitmap_table =
     [(''SETBIT'', plain setbit), (''GETBIT'', plain getbit), (''BITCOUNT'', plain bitcount),
      (''BITPOS'', plain bitpos), (''BITOP'', plain bitop)]"

definition generic_table :: "(string \<times> handler) list" where
  "generic_table =
     [(''DEL'', plain del), (''UNLINK'', plain del), (''EXISTS'', plain exists_cmd),
      (''EXPIRE'', plain (\<lambda>now args. expire now args 1000 True)),
      (''PEXPIRE'', plain (\<lambda>now args. expire now args 1 True)),
      (''EXPIREAT'', plain (\<lambda>now args. expire now args 1000 False)),
      (''PEXPIREAT'', plain (\<lambda>now args. expire now args 1 False)),
      (''TTL'', flagged ttl True), (''PTTL'', flagged ttl False),
      (''EXPIRETIME'', flagged expiretime True), (''PEXPIRETIME'', flagged expiretime False),
      (''PERSIST'', plain persist), (''KEYS'', plain keys_cmd), (''SCAN'', plain scan),
      (''TYPE'', plain type_cmd), (''RENAME'', flagged rename False), (''RENAMENX'', flagged rename True),
      (''RANDOMKEY'', random randomkey), (''TOUCH'', plain exists_cmd)]"

definition hash_table :: "(string \<times> handler) list" where
  "hash_table =
     [(''HSET'', flagged hset False), (''HMSET'', flagged hset True), (''HSETNX'', plain hsetnx),
      (''HGET'', plain hget), (''HMGET'', plain hmget), (''HDEL'', plain hdel),
      (''HGETALL'', plain hgetall), (''HKEYS'', plain hkeys), (''HVALS'', plain hvals),
      (''HLEN'', plain hlen), (''HEXISTS'', plain hexists), (''HSTRLEN'', plain hstrlen),
      (''HINCRBY'', plain hincrby), (''HINCRBYFLOAT'', plain hincrbyfloat),
      (''HSCAN'', plain hscan), (''HRANDFIELD'', random hrandfield)]"

definition list_table :: "(string \<times> handler) list" where
  "list_table =
     [(''LPUSH'', plain (\<lambda>now args. list_push now args True False)),
      (''RPUSH'', plain (\<lambda>now args. list_push now args False False)),
      (''LPUSHX'', plain (\<lambda>now args. list_push now args True True)),
      (''RPUSHX'', plain (\<lambda>now args. list_push now args False True)),
      (''LPOP'', flagged list_pop True), (''RPOP'', flagged list_pop False), (''LLEN'', plain llen),
      (''LRANGE'', plain lrange), (''LINDEX'', plain lindex), (''LSET'', plain lset),
      (''LREM'', plain lrem), (''LTRIM'', plain ltrim), (''LINSERT'', plain linsert),
      (''LPOS'', plain lpos), (''RPOPLPUSH'', plain rpoplpush), (''LMOVE'', plain lmove)]"

definition set_table :: "(string \<times> handler) list" where
  "set_table =
     [(''SADD'', plain sadd), (''SREM'', plain srem), (''SMEMBERS'', plain smembers),
      (''SISMEMBER'', plain sismember), (''SMISMEMBER'', plain smismember), (''SCARD'', plain scard),
      (''SPOP'', random spop), (''SRANDMEMBER'', random srandmember), (''SMOVE'', plain smove),
      (''SUNION'', plain (\<lambda>now args. setop now args setop_kind.Union False)),
      (''SINTER'', plain (\<lambda>now args. setop now args setop_kind.Inter False)),
      (''SDIFF'', plain (\<lambda>now args. setop now args Diff False)),
      (''SUNIONSTORE'', plain (\<lambda>now args. setop now args setop_kind.Union True)),
      (''SINTERSTORE'', plain (\<lambda>now args. setop now args setop_kind.Inter True)),
      (''SDIFFSTORE'', plain (\<lambda>now args. setop now args Diff True)),
      (''SINTERCARD'', plain sintercard), (''SSCAN'', plain sscan)]"

definition zset_table :: "(string \<times> handler) list" where
  "zset_table =
     [(''ZADD'', plain zadd), (''ZREM'', plain zrem), (''ZSCORE'', plain zscore),
      (''ZMSCORE'', plain zmscore), (''ZCARD'', plain zcard), (''ZCOUNT'', plain zcount),
      (''ZINCRBY'', plain zincrby), (''ZRANK'', flagged zrank False), (''ZREVRANK'', flagged zrank True),
      (''ZRANGE'', flagged zrange False), (''ZREVRANGE'', flagged zrange True),
      (''ZRANGEBYSCORE'', flagged zrangebyscore False), (''ZREVRANGEBYSCORE'', flagged zrangebyscore True),
      (''ZRANGEBYLEX'', flagged zrangebylex False), (''ZREVRANGEBYLEX'', flagged zrangebylex True),
      (''ZLEXCOUNT'', plain zlexcount), (''ZPOPMIN'', flagged zpop True), (''ZPOPMAX'', flagged zpop False),
      (''ZREMRANGEBYRANK'', plain zremrangebyrank), (''ZREMRANGEBYSCORE'', plain zremrangebyscore),
      (''ZSCAN'', plain zscan), (''ZRANDMEMBER'', random zrandmember)]"

definition dbsize :: "env \<Rightarrow> bytes list \<Rightarrow> db \<Rightarrow> frame \<times> db" where
  "dbsize e args db = (Integer (int (db_len (env_now e) db)), db)"

definition flushdb :: "env \<Rightarrow> bytes list \<Rightarrow> db \<Rightarrow> frame \<times> db" where
  "flushdb e args db = (frame_ok, db_clear db)"

definition admin_table :: "(string \<times> handler) list" where
  "admin_table =
     [(''DBSIZE'', with_env dbsize), (''FLUSHDB'', with_env flushdb),
      (''XADD'', plain xadd), (''XLEN'', plain xlen), (''XRANGE'', partial xrange False),
      (''XREVRANGE'', partial xrange True), (''XREAD'', plain xread), (''XDEL'', plain xdel),
      (''XTRIM'', plain xtrim), (''OBJECT'', with_env object), (''MEMORY'', with_env memory)]"

definition data_table :: "(string \<times> handler) list" where
  "data_table = string_table @ bitmap_table @ generic_table @ hash_table @ list_table @ set_table
     @ zset_table @ admin_table"

definition find_handler :: "bytes \<Rightarrow> handler option" where
  "find_handler name = map_of (map (\<lambda>(n, h). (ascii n, h)) data_table) name"

section \<open>Publishing and the other arms\<close>

definition publish :: "bytes list \<Rightarrow> shared \<Rightarrow> frame \<times> shared" where
  "publish args sh =
     (if length args \<noteq> 3 then (wrong_args ''publish'', sh)
      else let (n, mail) = ps_publish (args ! 1) (args ! 2) (sh_pubsub sh) (sh_mail sh)
           in (Integer n, sh\<lparr>sh_mail := mail\<rparr>))"

definition pubsub_cmd :: "env \<Rightarrow> bytes list \<Rightarrow> pubsub \<Rightarrow> frame" where
  "pubsub_cmd e args ps =
     (if length args < 2 then wrong_args ''pubsub''
      else
        let sub = upper (args ! 1) in
        if sub = ascii ''CHANNELS'' then
          Array (map Bulk (ps_channels_matching (if 2 < length args then Some (args ! 2) else None) ps))
        else if sub = ascii ''NUMSUB'' then
          Array (concat (map (\<lambda>ch. [Bulk ch, Integer (ps_numsub ch ps)]) (drop 2 args)))
        else if sub = ascii ''NUMPAT'' then Integer (ps_numpat ps)
        else frame_err (ascii ''Unknown PUBSUB subcommand '' @ [39] @ env_lower e sub @ [39]))"

definition unknown_command :: "env \<Rightarrow> bytes \<Rightarrow> bytes list \<Rightarrow> frame" where
  "unknown_command e name args =
     frame_err (ascii ''unknown command '' @ [39] @ env_lower e name @ [39]
       @ ascii '', with args beginning with: ''
       @ (if 1 < length args then [39] @ from_utf8_lossy (args ! 1) @ [39] else []))"

text \<open>The arms of the second match that do not touch a database.\<close>

definition server_command ::
    "lua_impl \<Rightarrow> env \<Rightarrow> bytes \<Rightarrow> bytes list \<Rightarrow> shared \<Rightarrow> conn_state \<Rightarrow> frame \<times> shared \<times> conn_state" where
  "server_command lua e name args sh conn =
     (if name = ascii ''PING'' then (ping args, sh, conn)
      else if name = ascii ''ECHO'' then (echo args, sh, conn)
      else if name = ascii ''HELLO'' then hello args sh conn
      else if name = ascii ''AUTH'' then (let (r, conn) = auth args sh conn in (r, sh, conn))
      else if name = ascii ''CLIENT'' then client e args sh conn
      else if name = ascii ''PUBLISH'' \<or> name = ascii ''SPUBLISH'' then
        (let (r, sh) = publish args sh in (r, sh, conn))
      else if name = ascii ''PUBSUB'' then (pubsub_cmd e args (sh_pubsub sh), sh, conn)
      else if name = ascii ''COMMAND'' then (command args, sh, conn)
      else if name = ascii ''CONFIG'' then (let (r, sh) = config e args sh in (r, sh, conn))
      else if name = ascii ''SCRIPT'' then (let (r, sh) = script lua e args sh in (r, sh, conn))
      else if name = ascii ''TIME'' then (time_cmd e, sh, conn)
      else if name = ascii ''WAIT'' then (Integer 0, sh, conn)
      else if name = ascii ''LOLWUT'' then
        (Bulk (ascii ''meebis: a disposable Redis for ephemeral dev work'' @ [10]), sh, conn)
      else (unknown_command e name args, sh, conn))"

definition db_command ::
    "lua_impl \<Rightarrow> env \<Rightarrow> bytes \<Rightarrow> bytes list \<Rightarrow> shared \<Rightarrow> conn_state \<Rightarrow> step_result" where
  "db_command lua e name args sh conn =
     (case ks_db (c_db_index conn) (sh_ks sh) of
        None \<Rightarrow> Panicked
      | Some db \<Rightarrow>
          (case find_handler name of
             Some h \<Rightarrow>
               (case h e args db (sh_rng sh) of
                  None \<Rightarrow> Panicked
                | Some (r, db, g) \<Rightarrow>
                    Done (r, sh\<lparr>sh_ks := (sh_ks sh)[c_db_index conn := db], sh_rng := g\<rparr>, conn))
           | None \<Rightarrow> Done (server_command lua e name args sh conn)))"

text \<open>A handler that works on the whole keyspace.\<close>

definition on_keyspace :: "(keyspace \<Rightarrow> (frame \<times> keyspace) option) \<Rightarrow> shared \<Rightarrow> conn_state \<Rightarrow> step_result" where
  "on_keyspace f sh conn =
     (case f (sh_ks sh) of
        None \<Rightarrow> Panicked
      | Some (r, ks) \<Rightarrow> Done (r, sh\<lparr>sh_ks := ks\<rparr>, conn))"

text \<open>\<open>execute_locked\<close> but for the \<open>EVAL\<close> family.\<close>

definition execute_plain ::
    "lua_impl \<Rightarrow> env \<Rightarrow> bytes \<Rightarrow> bytes list \<Rightarrow> shared \<Rightarrow> conn_state \<Rightarrow> step_result" where
  "execute_plain lua e name args sh conn =
     (if name = ascii ''SELECT'' then Done (select args sh conn)
      else if name = ascii ''SWAPDB'' then on_keyspace (swapdb args) sh conn
      else if name = ascii ''MOVE'' then on_keyspace (move_key (env_now e) (c_db_index conn) args) sh conn
      else if name = ascii ''COPY'' then on_keyspace (copy (env_now e) (c_db_index conn) args) sh conn
      else if name = ascii ''FLUSHALL'' then on_keyspace (\<lambda>ks. Some (frame_ok, ks_clear_all ks)) sh conn
      else if name = ascii ''INFO'' then Done (info e sh, sh, conn)
      else if name = ascii ''DEBUG'' then
        on_keyspace (debug (env_reload e) (env_now e) (c_db_index conn) args) sh conn
      else if name = ascii ''SAVE'' then
        (let (r, sh) = save (env_save e) (env_now e) False sh in Done (r, sh, conn))
      else if name = ascii ''BGSAVE'' then
        (let (r, sh) = save (env_save e) (env_now e) True sh in Done (r, sh, conn))
      else if name = ascii ''BGREWRITEAOF'' then
        Done (Simple (ascii ''Background append only file rewriting started''), sh, conn)
      else if name = ascii ''LASTSAVE'' then Done (Integer (sint (sh_last_save sh)), sh, conn)
      else if name = ascii ''SHUTDOWN'' then
        outcome_bind (shutdown (env_save e) (env_now e) args sh) (\<lambda>(r, sh). Done (r, sh, conn))
      else db_command lua e name args sh conn)"

section \<open>Scripts\<close>

definition no_arg_error :: bytes where
  "no_arg_error = ascii ''Please specify at least one argument for this redis lib call''"

definition arg_type_error :: bytes where
  "arg_type_error = ascii ''Lua redis lib command arguments must be strings or integers''"

definition blocked_error :: bytes where
  "blocked_error = ascii ''This Redis command is not allowed from script''"

definition redis_pcall ::
    "lua_impl \<Rightarrow> env \<Rightarrow> lua list \<Rightarrow> shared \<Rightarrow> conn_state \<Rightarrow> ((bytes + lua) \<times> shared \<times> conn_state) outcome" where
  "redis_pcall lua e cmd sh conn =
     (if cmd = [] then Done (Inl no_arg_error, sh, conn)
      else case lua_args cmd of
        None \<Rightarrow> Done (Inl arg_type_error, sh, conn)
      | Some argv \<Rightarrow>
          let name = upper (hd argv) in
          if is_blocked name then Done (Inl blocked_error, sh, conn)
          else outcome_bind (execute_plain lua e name argv sh conn)
                 (\<lambda>(f, sh, conn). Done (Inr (frame_to_lua f), sh, conn)))"

text \<open>The calls of a run, one after the other, each with the next reading of the clock.\<close>

primrec run_calls ::
    "lua_impl \<Rightarrow> lua_run \<Rightarrow> (nat \<Rightarrow> env) \<Rightarrow> nat \<Rightarrow> shared \<Rightarrow> conn_state \<Rightarrow> step_result" where
  "run_calls lua (Finish ok v) es i sh conn =
     Done (if ok then lua_to_frame v else error_value_to_frame v, sh, conn)"
| "run_calls lua (Broken err) es i sh conn =
     Done (frame_err (ascii ''Error compiling script (new function): '' @ err), sh, conn)"
| "run_calls lua (Pcall cmd k) es i sh conn =
     outcome_bind (redis_pcall lua (es i) cmd sh conn)
       (\<lambda>(r, sh, conn). run_calls lua (k r) es (Suc i) sh conn)"

definition run_script ::
    "lua_impl \<Rightarrow> (nat \<Rightarrow> env) \<Rightarrow> bytes \<Rightarrow> bytes list \<Rightarrow> bytes list \<Rightarrow> shared \<Rightarrow> conn_state \<Rightarrow> step_result" where
  "run_script lua es body keys argv sh conn =
     (let caller_db = c_db_index conn in
      outcome_bind (run_calls lua (lua_start lua body keys argv) es 0 sh conn)
        (\<lambda>(r, sh, conn).
           if c_db_index conn \<noteq> caller_db then
             let conn = conn\<lparr>c_db_index := caller_db\<rparr> in Done (r, sync_registry_db sh conn, conn)
           else Done (r, sh, conn)))"

datatype script_source = Body | Sha

definition noscript_error :: frame where
  "noscript_error = ErrorF (ascii ''NOSCRIPT No matching script. Please use EVAL.'')"

definition script_body :: "script_source \<Rightarrow> bytes \<Rightarrow> shared \<Rightarrow> (frame + bytes) \<times> shared" where
  "script_body source a sh =
     (case source of
        Sha \<Rightarrow>
          (case map_of (sh_scripts sh) (to_ascii_lowercase (from_utf8_lossy a)) of
             Some b \<Rightarrow> (Inr b, sh)
           | None \<Rightarrow> (Inl noscript_error, sh))
      | Body \<Rightarrow> (Inr a, sh\<lparr>sh_scripts := AList.update (sha1_hex a) a (sh_scripts sh)\<rparr>))"

definition eval ::
    "lua_impl \<Rightarrow> (nat \<Rightarrow> env) \<Rightarrow> bytes list \<Rightarrow> script_source \<Rightarrow> shared \<Rightarrow> conn_state \<Rightarrow> step_result" where
  "eval lua es args source sh conn =
     (if length args < 3 then Done (wrong_args (case source of Body \<Rightarrow> ''eval'' | Sha \<Rightarrow> ''evalsha''), sh, conn)
      else case parse_int (args ! 2) of
        Inl e \<Rightarrow> Done (e, sh, conn)
      | Inr numkeys \<Rightarrow>
          if numkeys < 0 then Done (frame_err (ascii ''Number of keys can't be negative''), sh, conn)
          else if length (drop 3 args) < nat numkeys then
            Done (frame_err (ascii ''Number of keys can't be greater than number of args''), sh, conn)
          else
            (case script_body source (args ! 1) sh of
               (Inl e, sh) \<Rightarrow> Done (e, sh, conn)
             | (Inr body, sh) \<Rightarrow>
                 run_script lua es body (take (nat numkeys) (drop 3 args)) (drop (nat numkeys) (drop 3 args)) sh conn))"

text \<open>\<open>es\<close> gives the readings of the clock: the first one for the command, all of them for a script.\<close>

definition execute_locked ::
    "lua_impl \<Rightarrow> (nat \<Rightarrow> env) \<Rightarrow> bytes \<Rightarrow> bytes list \<Rightarrow> shared \<Rightarrow> conn_state \<Rightarrow> step_result" where
  "execute_locked lua es name args sh conn =
     (if name = ascii ''EVAL'' \<or> name = ascii ''EVAL_RO'' then eval lua es args Body sh conn
      else if name = ascii ''EVALSHA'' \<or> name = ascii ''EVALSHA_RO'' then eval lua es args Sha sh conn
      else execute_plain lua (es 0) name args sh conn)"

text \<open>\<open>execute\<close> takes the lock, which panics once a handler has panicked with it.\<close>

definition execute ::
    "lua_impl \<Rightarrow> (nat \<Rightarrow> env) \<Rightarrow> bytes \<Rightarrow> bytes list \<Rightarrow> shared \<Rightarrow> conn_state \<Rightarrow> step_result" where
  "execute lua es name args sh conn =
     (if sh_poisoned sh then Panicked else execute_locked lua es name args sh conn)"

end
