(* ===== verification/Handle.thy ===== *)
theory Handle
  imports Dispatch
begin

text \<open>
  One request (\<open>handle\<close> of src/commands/mod.rs): the authentication gate, subscribe mode,
  transactions, subscriptions and the blocking commands. The conditions under which \<open>handle\<close> wakes
  the blocked connections are part of the system model.
\<close>

record block_req =
  br_args :: "bytes list"
  br_deadline_ms :: "u64 option"
  br_timeout_reply :: frame

datatype reply = NoReply | One frame | Many "frame list" | Close frame | Block block_req

type_synonym handled = "(reply \<times> shared \<times> conn_state) outcome"

section \<open>Transactions\<close>

definition multi :: "conn_state \<Rightarrow> frame \<times> conn_state" where
  "multi conn =
     (if c_in_multi conn then (frame_err (ascii ''MULTI calls can not be nested''), conn)
      else (frame_ok, conn\<lparr>c_in_multi := True, c_multi_error := False, c_multi_queue := []\<rparr>))"

definition discard :: "conn_state \<Rightarrow> frame \<times> conn_state" where
  "discard conn =
     (if \<not> c_in_multi conn then (frame_err (ascii ''DISCARD without MULTI''), conn)
      else (frame_ok, conn\<lparr>c_in_multi := False, c_multi_error := False, c_multi_queue := [], c_watched := []\<rparr>))"

definition subscribe_names :: "bytes list" where
  "subscribe_names = map ascii [''SUBSCRIBE'', ''UNSUBSCRIBE'', ''PSUBSCRIBE'', ''PUNSUBSCRIBE'']"

definition queue_command :: "bytes \<Rightarrow> bytes list \<Rightarrow> conn_state \<Rightarrow> frame \<times> conn_state" where
  "queue_command name args conn =
     (if name \<in> set subscribe_names then
        (frame_err (name @ ascii '' is not allowed in transactions''), conn\<lparr>c_multi_error := True\<rparr>)
      else (Simple (ascii ''QUEUED''), conn\<lparr>c_multi_queue := c_multi_queue conn @ [args]\<rparr>))"

text \<open>The snapshot of one key: whether it exists, and its fingerprint or 0.\<close>

definition snapshot :: "env \<Rightarrow> bytes \<Rightarrow> db \<Rightarrow> (bool \<times> u64) \<times> db" where
  "snapshot e key db =
     (let (fp, db) = db_fingerprint (env_hash e) (env_now e) key db
      in ((fp \<noteq> None, case fp of Some h \<Rightarrow> h | None \<Rightarrow> 0), db))"

fun watch_keys ::
    "env \<Rightarrow> nat \<Rightarrow> bytes list \<Rightarrow> ((nat \<times> bytes) \<times> (bool \<times> u64)) list \<Rightarrow> db
      \<Rightarrow> ((nat \<times> bytes) \<times> (bool \<times> u64)) list \<times> db" where
  "watch_keys e dbi [] watched db = (watched, db)"
| "watch_keys e dbi (key # keys) watched db =
     (let (snap, db) = snapshot e key db
      in watch_keys e dbi keys (AList.update (dbi, key) snap watched) db)"

definition watch :: "env \<Rightarrow> bytes list \<Rightarrow> shared \<Rightarrow> conn_state \<Rightarrow> step_result" where
  "watch e args sh conn =
     (if length args < 2 then Done (wrong_args ''watch'', sh, conn)
      else if c_in_multi conn then Done (frame_err (ascii ''WATCH inside MULTI is not allowed''), sh, conn)
      else if sh_poisoned sh then Panicked
      else case ks_db (c_db_index conn) (sh_ks sh) of
        None \<Rightarrow> Panicked
      | Some db \<Rightarrow>
          let (watched, db) = watch_keys e (c_db_index conn) (drop 1 args) (c_watched conn) db
          in Done (frame_ok, sh\<lparr>sh_ks := (sh_ks sh)[c_db_index conn := db]\<rparr>, conn\<lparr>c_watched := watched\<rparr>))"

text \<open>The loop over the watched keys: whether all of them are unchanged.\<close>

fun watch_ok ::
    "env \<Rightarrow> ((nat \<times> bytes) \<times> (bool \<times> u64)) list \<Rightarrow> keyspace \<Rightarrow> (bool \<times> keyspace) option" where
  "watch_ok e [] ks = Some (True, ks)"
| "watch_ok e (((dbi, key), snap) # watched) ks =
     (case ks_db dbi ks of
        None \<Rightarrow> None
      | Some db \<Rightarrow>
          let (current, db) = snapshot e key db; ks = ks[dbi := db]
          in if current \<noteq> snap then Some (False, ks) else watch_ok e watched ks)"

text \<open>
  The queue, run in order; the commands of a transaction and the calls of a script take their clock
  readings from the matrix \<open>ess\<close>.
\<close>

fun exec_queue ::
    "lua_impl \<Rightarrow> (nat \<Rightarrow> nat \<Rightarrow> env) \<Rightarrow> nat \<Rightarrow> bytes list list \<Rightarrow> shared \<Rightarrow> conn_state
      \<Rightarrow> (frame list \<times> shared \<times> conn_state) outcome" where
  "exec_queue lua ess i [] sh conn = Done ([], sh, conn)"
| "exec_queue lua ess i (cmd # queue) sh conn =
     (if cmd = [] then Panicked
      else outcome_bind (execute lua (ess i) (upper (hd cmd)) cmd sh conn)
        (\<lambda>(f, sh, conn). outcome_bind (exec_queue lua ess (Suc i) queue sh conn)
           (\<lambda>(fs, sh, conn). Done (f # fs, sh, conn))))"

definition execabort_error :: frame where
  "execabort_error = ErrorF (ascii ''EXECABORT Transaction discarded because of previous errors.'')"

definition exec :: "lua_impl \<Rightarrow> (nat \<Rightarrow> nat \<Rightarrow> env) \<Rightarrow> shared \<Rightarrow> conn_state \<Rightarrow> step_result" where
  "exec lua ess sh conn =
     (if \<not> c_in_multi conn then Done (frame_err (ascii ''EXEC without MULTI''), sh, conn)
      else
        let queue = c_multi_queue conn; watched = c_watched conn;
            conn = conn\<lparr>c_in_multi := False, c_multi_queue := [], c_watched := []\<rparr> in
        if c_multi_error conn then Done (execabort_error, sh, conn\<lparr>c_multi_error := False\<rparr>)
        else if watched \<noteq> [] \<and> sh_poisoned sh then Panicked
        else case watch_ok (ess 0 0) watched (sh_ks sh) of
          None \<Rightarrow> Panicked
        | Some (False, ks) \<Rightarrow> Done (NullArray, sh\<lparr>sh_ks := ks\<rparr>, conn)
        | Some (True, ks) \<Rightarrow>
            outcome_bind (exec_queue lua ess 0 queue (sh\<lparr>sh_ks := ks\<rparr>) conn)
              (\<lambda>(fs, sh, conn). Done (Array fs, sh, conn)))"

section \<open>Subscriptions\<close>

definition ack_frame :: "string \<Rightarrow> frame \<Rightarrow> conn_state \<Rightarrow> frame" where
  "ack_frame kind target conn =
     Push [Bulk (ascii kind), target, Integer (int (subscription_count conn))]"

text \<open>One target of \<open>SUBSCRIBE\<close> or \<open>PSUBSCRIBE\<close>, and of their inverses.\<close>

definition sub_one :: "bool \<Rightarrow> bytes \<Rightarrow> shared \<Rightarrow> conn_state \<Rightarrow> shared \<times> conn_state" where
  "sub_one pattern target sh conn =
     (if pattern then
        if target \<in> set (c_patterns conn) then (sh, conn)
        else (sh\<lparr>sh_pubsub := ps_psubscribe target (c_id conn) (sh_pubsub sh)\<rparr>,
              conn\<lparr>c_patterns := c_patterns conn @ [target]\<rparr>)
      else
        if target \<in> set (c_channels conn) then (sh, conn)
        else (sh\<lparr>sh_pubsub := ps_subscribe target (c_id conn) (sh_pubsub sh)\<rparr>,
              conn\<lparr>c_channels := c_channels conn @ [target]\<rparr>))"

definition unsub_one :: "bool \<Rightarrow> bytes \<Rightarrow> shared \<Rightarrow> conn_state \<Rightarrow> shared \<times> conn_state" where
  "unsub_one pattern target sh conn =
     (if pattern then
        if target \<in> set (c_patterns conn) then
          (sh\<lparr>sh_pubsub := ps_punsubscribe target (c_id conn) (sh_pubsub sh)\<rparr>,
           conn\<lparr>c_patterns := removeAll target (c_patterns conn)\<rparr>)
        else (sh, conn)
      else
        if target \<in> set (c_channels conn) then
          (sh\<lparr>sh_pubsub := ps_unsubscribe target (c_id conn) (sh_pubsub sh)\<rparr>,
           conn\<lparr>c_channels := removeAll target (c_channels conn)\<rparr>)
        else (sh, conn))"

text \<open>The loop over the targets, which acknowledges each one with the count after it.\<close>

fun for_targets ::
    "(bytes \<Rightarrow> shared \<Rightarrow> conn_state \<Rightarrow> shared \<times> conn_state) \<Rightarrow> string \<Rightarrow> bytes list
      \<Rightarrow> shared \<Rightarrow> conn_state \<Rightarrow> frame list \<times> shared \<times> conn_state" where
  "for_targets f kind [] sh conn = ([], sh, conn)"
| "for_targets f kind (t # ts) sh conn =
     (let (sh, conn) = f t sh conn;
          (out, sh', conn') = for_targets f kind ts sh conn
      in (ack_frame kind (Bulk t) conn # out, sh', conn'))"

definition subscribe ::
    "bytes list \<Rightarrow> bool \<Rightarrow> shared \<Rightarrow> conn_state \<Rightarrow> frame list \<times> shared \<times> conn_state" where
  "subscribe args pattern sh conn =
     (let kind = (if pattern then ''psubscribe'' else ''subscribe'') in
      if length args < 2 then ([wrong_args kind], sh, conn)
      else for_targets (sub_one pattern) kind (drop 1 args) sh conn)"

definition unsubscribe ::
    "bytes list \<Rightarrow> bool \<Rightarrow> shared \<Rightarrow> conn_state \<Rightarrow> frame list \<times> shared \<times> conn_state" where
  "unsubscribe args pattern sh conn =
     (let kind = (if pattern then ''punsubscribe'' else ''unsubscribe'');
          targets = (if 1 < length args then drop 1 args
                     else if pattern then c_patterns conn else c_channels conn)
      in if targets = [] then ([ack_frame kind Null conn], sh, conn)
         else for_targets (unsub_one pattern) kind targets sh conn)"

definition reset :: "shared \<Rightarrow> conn_state \<Rightarrow> frame \<times> shared \<times> conn_state" where
  "reset sh conn =
     (let i = c_id conn;
          ps = fold (\<lambda>ch. ps_unsubscribe ch i) (c_channels conn) (sh_pubsub sh);
          ps = fold (\<lambda>pat. ps_punsubscribe pat i) (c_patterns conn) ps;
          conn = conn\<lparr>c_in_multi := False, c_multi_error := False, c_multi_queue := [], c_watched := [],
                      c_channels := [], c_patterns := [], c_resp3 := False, c_name := [],
                      c_authenticated := (if sh_requirepass sh \<noteq> None then False else c_authenticated conn)\<rparr>
      in (Simple (ascii ''RESET''), sh\<lparr>sh_pubsub := ps\<rparr>, conn))"

section \<open>Blocking commands\<close>

text \<open>\<open>(f * 1000.0).round() as u64\<close> for a finite positive \<open>f\<close>.\<close>

definition millis_of_secs :: "f64 \<Rightarrow> u64" where
  "millis_of_secs f =
     (let p = mk_f64 False (round_mag (f64_units f * 1000) 1)
      in if is_infinite p then - 1
         else of_nat (min (2 ^ 64 - 1) ((2 * f64_units p + 2 ^ 1074) div 2 ^ 1075)))"

definition parse_timeout_ms :: "bytes \<Rightarrow> frame + u64 option" where
  "parse_timeout_ms arg =
     (case (if utf8_valid arg then parse_f64 arg else None) of
        None \<Rightarrow> Inl (frame_err (ascii ''timeout is not a float or out of range''))
      | Some f \<Rightarrow>
          if is_nan f \<or> is_infinite f \<or> f64_lt f f64_zero then Inl (frame_err (ascii ''timeout is negative''))
          else if f64_eq f f64_zero then Inr None
          else Inr (Some (millis_of_secs f)))"

definition saturating_add :: "u64 \<Rightarrow> u64 \<Rightarrow> u64" where
  "saturating_add a b = (if unat a + unat b < 2 ^ 64 then a + b else - 1)"

definition try_or_block_bzpop :: "env \<Rightarrow> bytes list \<Rightarrow> bool \<Rightarrow> shared \<Rightarrow> conn_state \<Rightarrow> handled" where
  "try_or_block_bzpop e args mn sh conn =
     (if length args < 3 then Done (One (wrong_args (if mn then ''bzpopmin'' else ''bzpopmax'')), sh, conn)
      else case parse_timeout_ms (last args) of
        Inl err \<Rightarrow> Done (One err, sh, conn)
      | Inr timeout_ms \<Rightarrow>
          if sh_poisoned sh then Panicked
          else case ks_db (c_db_index conn) (sh_ks sh) of
            None \<Rightarrow> Panicked
          | Some db \<Rightarrow>
              let (r, db) = bzpop_try (env_now e) (butlast (drop 1 args)) mn db;
                  sh = sh\<lparr>sh_ks := (sh_ks sh)[c_db_index conn := db]\<rparr>
              in Done (case r of
                         Inr (Some f) \<Rightarrow> One f
                       | Inl err \<Rightarrow> One err
                       | Inr None \<Rightarrow> Block \<lparr>br_args = args,
                           br_deadline_ms = map_option (\<lambda>ms. saturating_add (env_now e) ms) timeout_ms,
                           br_timeout_reply = NullArray\<rparr>, sh, conn))"

definition try_or_block_xread ::
    "lua_impl \<Rightarrow> (nat \<Rightarrow> env) \<Rightarrow> bytes list \<Rightarrow> shared \<Rightarrow> conn_state \<Rightarrow> handled" where
  "try_or_block_xread lua es args sh conn =
     (case xread_block_ms args of
        None \<Rightarrow>
          outcome_bind (execute lua es (ascii ''XREAD'') args sh conn) (\<lambda>(f, sh, conn). Done (One f, sh, conn))
      | Some ms \<Rightarrow>
          if sh_poisoned sh then Panicked
          else case ks_db (c_db_index conn) (sh_ks sh) of
            None \<Rightarrow> Panicked
          | Some db \<Rightarrow>
              let now = env_now (es 0); put = (\<lambda>db. sh\<lparr>sh_ks := (sh_ks sh)[c_db_index conn := db]\<rparr>) in
              (case resolve_dollar_ids now args db of
                 (Inl err, db) \<Rightarrow> Done (One err, put db, conn)
               | (Inr resolved, db) \<Rightarrow>
                   let (first, db) = xread now resolved db in
                   if first \<noteq> NullArray then Done (One first, put db, conn)
                   else Done (Block \<lparr>br_args = resolved,
                     br_deadline_ms = (if ms = 0 then None else Some (saturating_add now (of_nat ms))),
                     br_timeout_reply = NullArray\<rparr>, put db, conn)))"

text \<open>One more attempt of a blocked command; \<open>None\<close> when it has to wait on.\<close>

definition retry_block ::
    "lua_impl \<Rightarrow> (nat \<Rightarrow> env) \<Rightarrow> block_req \<Rightarrow> shared \<Rightarrow> conn_state
      \<Rightarrow> (frame option \<times> shared \<times> conn_state) outcome" where
  "retry_block lua es req sh conn =
     (if br_args req = [] \<or> sh_poisoned sh then Panicked
      else
        let name = upper (hd (br_args req)); now = env_now (es 0) in
        if name = ascii ''BZPOPMIN'' \<or> name = ascii ''BZPOPMAX'' then
          (case ks_db (c_db_index conn) (sh_ks sh) of
             None \<Rightarrow> Panicked
           | Some db \<Rightarrow>
               let (r, db) = bzpop_try now (butlast (drop 1 (br_args req))) (name = ascii ''BZPOPMIN'') db
               in Done (case r of Inr r \<Rightarrow> r | Inl err \<Rightarrow> Some err,
                        sh\<lparr>sh_ks := (sh_ks sh)[c_db_index conn := db]\<rparr>, conn))
        else if name = ascii ''XREAD'' then
          (case ks_db (c_db_index conn) (sh_ks sh) of
             None \<Rightarrow> Panicked
           | Some db \<Rightarrow>
               let (f, db) = xread now (br_args req) db
               in Done (if f = NullArray then None else Some f,
                        sh\<lparr>sh_ks := (sh_ks sh)[c_db_index conn := db]\<rparr>, conn))
        else
          outcome_bind (execute_locked lua es name (br_args req) sh conn) (\<lambda>(f, sh, conn). Done (Some f, sh, conn)))"

section \<open>One request\<close>

definition allowed_in_subscribe :: "bytes \<Rightarrow> bool" where
  "allowed_in_subscribe name \<longleftrightarrow>
     name \<in> set (map ascii [''SUBSCRIBE'', ''UNSUBSCRIBE'', ''PSUBSCRIBE'', ''PUNSUBSCRIBE'', ''PING'', ''QUIT'', ''RESET''])"

definition is_blocking_cmd :: "bytes \<Rightarrow> bool" where
  "is_blocking_cmd name \<longleftrightarrow> name \<in> set (map ascii [''BZPOPMIN'', ''BZPOPMAX'', ''BLPOP'', ''BRPOP''])"

definition noauth_error :: frame where
  "noauth_error = ErrorF (ascii ''NOAUTH Authentication required.'')"

definition subscribe_mode_error :: "env \<Rightarrow> bytes \<Rightarrow> frame" where
  "subscribe_mode_error e name =
     frame_err (ascii ''Can't execute '' @ [39] @ env_lower e name @ [39]
       @ ascii '': only (P|S)SUBSCRIBE / (P|S)UNSUBSCRIBE / PING / QUIT / RESET are allowed in this context'')"

definition before_auth :: "bytes list" where
  "before_auth = map ascii [''AUTH'', ''HELLO'', ''QUIT'', ''RESET'']"

definition one_reply :: "step_result \<Rightarrow> handled" where
  "one_reply r = outcome_bind r (\<lambda>(f, sh, conn). Done (One f, sh, conn))"

text \<open>The last match of \<open>handle\<close>, reached outside a transaction.\<close>

definition handle_plain ::
    "lua_impl \<Rightarrow> (nat \<Rightarrow> env) \<Rightarrow> bytes \<Rightarrow> bytes list \<Rightarrow> shared \<Rightarrow> conn_state \<Rightarrow> handled" where
  "handle_plain lua es name args sh conn =
     (if name = ascii ''QUIT'' then Done (Close frame_ok, sh, conn)
      else if name = ascii ''SUBSCRIBE'' then
        (let (fs, sh, conn) = subscribe args False sh conn in Done (Many fs, sh, conn))
      else if name = ascii ''PSUBSCRIBE'' then
        (let (fs, sh, conn) = subscribe args True sh conn in Done (Many fs, sh, conn))
      else if name = ascii ''UNSUBSCRIBE'' then
        (let (fs, sh, conn) = unsubscribe args False sh conn in Done (Many fs, sh, conn))
      else if name = ascii ''PUNSUBSCRIBE'' then
        (let (fs, sh, conn) = unsubscribe args True sh conn in Done (Many fs, sh, conn))
      else if name = ascii ''RESET'' then
        (let (f, sh, conn) = reset sh conn in Done (One f, sh, conn))
      else if name = ascii ''BZPOPMIN'' then try_or_block_bzpop (es 0) args True sh conn
      else if name = ascii ''BZPOPMAX'' then try_or_block_bzpop (es 0) args False sh conn
      else if name = ascii ''XREAD'' then try_or_block_xread lua es args sh conn
      else one_reply (execute lua es name args sh conn))"

definition handle ::
    "lua_impl \<Rightarrow> (nat \<Rightarrow> nat \<Rightarrow> env) \<Rightarrow> bytes list \<Rightarrow> shared \<Rightarrow> conn_state \<Rightarrow> handled" where
  "handle lua ess args sh conn =
     (if args = [] then Done (NoReply, sh, conn)
      else
        let name = upper (hd args); e = ess 0 0 in
        if sh_requirepass sh \<noteq> None \<and> \<not> c_authenticated conn \<and> name \<notin> set before_auth then
          Done (One noauth_error, sh, conn)
        else if \<not> c_resp3 conn \<and> 0 < subscription_count conn \<and> \<not> allowed_in_subscribe name then
          Done (One (subscribe_mode_error e name), sh, conn)
        else if name = ascii ''MULTI'' then (let (f, conn) = multi conn in Done (One f, sh, conn))
        else if name = ascii ''EXEC'' then one_reply (exec lua ess sh conn)
        else if name = ascii ''DISCARD'' then (let (f, conn) = discard conn in Done (One f, sh, conn))
        else if name = ascii ''WATCH'' then one_reply (watch e args sh conn)
        else if name = ascii ''UNWATCH'' then Done (One frame_ok, sh, conn\<lparr>c_watched := []\<rparr>)
        else if c_in_multi conn then
          (let (f, conn) = queue_command name args conn in Done (One f, sh, conn))
        else handle_plain lua (ess 0) name args sh conn)"

end
