(* ===== verification/Dispatch_Inv.thy ===== *)
theory Dispatch_Inv
  imports Dispatch
begin

text \<open>
  What every command keeps: each handler of the tables preserves the invariant of its database (but
  for an infinite increment of \<open>HINCRBYFLOAT\<close>), and a command of one connection keeps the shared
  state, the connection and all other connections in step.
\<close>

section \<open>Bitmap and generic commands keep the invariant\<close>

lemma read_strings_db_ok: "db_ok db \<Longrightarrow> db_ok (snd (read_strings now ks db))"
proof (induction ks arbitrary: db)
  case (Cons k ks)
  then show ?case using get_str_db_ok [OF Cons.prems, of now k]
    by (auto simp: Let_def split: prod.splits sum.splits option.splits) (metis snd_conv)+
qed simp

lemma setbit_db_ok: "db_ok db \<Longrightarrow> db_ok (snd (setbit now args db))"
  using get_str_db_ok [of db now "args ! 1"]
  by (auto simp: setbit_def Let_def case_prod_unfold intro!: db_ok_set_keep_ttl split: sum.splits option.splits prod.splits)

lemma bit_reads_db_ok:
  assumes "db_ok db"
  shows "db_ok (snd (getbit now args db))" "db_ok (snd (bitcount now args db))" "db_ok (snd (bitpos now args db))"
  using get_str_db_ok [OF assms, of now "args ! 1"] assms
  by (auto simp: getbit_def bitcount_def bitpos_def Let_def split: sum.splits option.splits prod.splits if_splits)

lemma bitop_db_ok: "db_ok db \<Longrightarrow> db_ok (snd (bitop now args db))"
  using read_strings_db_ok [of db now "drop 3 args"]
  by (auto simp: bitop_def Let_def intro!: db_ok_set db_ok_remove split: sum.splits option.splits prod.splits)

lemma count_remove_db_ok: "db_ok db \<Longrightarrow> db_ok (fst (count_steps (db_remove now) ks db))"
  by (induction ks arbitrary: db) (auto simp: case_prod_unfold Let_def db_ok_remove)

lemma count_contains_db_ok:
  "db_ok db \<Longrightarrow> db_ok (fst (count_steps (\<lambda>k db. (snd (db_contains now k db), fst (db_contains now k db))) ks db))"
  by (induction ks arbitrary: db) (auto simp: case_prod_unfold Let_def db_ok_contains)

lemma retain_type_db_ok: "db_ok db \<Longrightarrow> db_ok (snd (retain_type now t ks db))"
  by (induction ks arbitrary: db) (auto simp: case_prod_unfold Let_def db_ok_get)

lemma generic_db_ok:
  assumes "db_ok db"
  shows "db_ok (snd (del now args db))" "db_ok (snd (exists_cmd now args db))"
    "db_ok (snd (ttl now args sec db))" "db_ok (snd (expiretime now args sec db))"
    "db_ok (snd (persist now args db))" "db_ok (snd (keys_cmd now args db))"
    "db_ok (snd (scan now args db))" "db_ok (snd (type_cmd now args db))"
    "db_ok (snd (rename now args nx db))" "db_ok (fst (snd (randomkey now nanos args db st)))"
    "db_ok (snd (expire now args unit rel db))"
  using assms
  by (simp_all add: del_def exists_cmd_def ttl_def expiretime_def persist_def keys_cmd_def scan_def type_cmd_def
      rename_def randomkey_def expire_def Let_def case_prod_unfold count_remove_db_ok count_contains_db_ok
      db_ok_contains db_ok_expire_at db_ok_persist db_ok_get db_ok_rename retain_type_db_ok db_ok_remove db_ok_set_expire
      split: option.splits sum.splits)

section \<open>Adding zero\<close>

lemma bit_len_range: "2 ^ n \<le> x \<Longrightarrow> x < 2 ^ Suc n \<Longrightarrow> bit_len x = Suc n"
proof (induction n arbitrary: x)
  case 0
  then have "x = 1" by simp
  then show ?case by (simp add: bit_len.simps)
next
  case (Suc n)
  then have "2 ^ n \<le> x div 2" "x div 2 < 2 ^ Suc n" by auto
  moreover have "x \<noteq> 0" using Suc.prems by auto
  ultimately show ?case using Suc.IH [of "x div 2"] by (subst bit_len.simps) simp
qed

lemma bit_len_small: "x < 2 ^ n \<Longrightarrow> bit_len x \<le> n"
proof (induction n arbitrary: x)
  case 0
  then show ?case by (simp add: bit_len.simps)
next
  case (Suc n)
  then have "x div 2 < 2 ^ n" by auto
  then show ?case using Suc.IH [of "x div 2"] by (subst bit_len.simps) simp
qed

lemma round_mag_units:
  assumes "f64_mag d < inf_mag"
  shows "round_mag (f64_units d) 1 = f64_mag d"
proof -
  define e m where "e = f64_mag d div 2 ^ 52" and "m = f64_mag d mod 2 ^ 52"
  have em: "f64_mag d = e * 2 ^ 52 + m" "m < 2 ^ 52" by (simp_all add: e_def m_def)
  show ?thesis
  proof (cases "e = 0")
    case True
    then have u: "f64_units d = m" by (simp add: f64_units_def e_def m_def)
    have "bit_len m - 53 = 0" using bit_len_small [OF em(2)] by simp
    then show ?thesis using True em assms by (simp add: round_mag_def u Let_def)
  next
    case False
    then have u: "f64_units d = (2 ^ 52 + m) * 2 ^ (e - 1)" by (simp add: f64_units_def e_def m_def)
    have "2 ^ (52 + (e - 1)) \<le> (2 ^ 52 + m) * 2 ^ (e - 1)" by (simp add: power_add)
    moreover have "(2 ^ 52 + m) * 2 ^ (e - 1) < 2 ^ Suc (52 + (e - 1))"
      using em(2) by (simp add: power_add)
    ultimately have "bit_len (f64_units d) = Suc (52 + (e - 1))" unfolding u by (rule bit_len_range)
    then have k: "bit_len (f64_units d div 1) - 53 = e - 1" by simp
    have "(e - 1) * 2 ^ 52 + (2 ^ 52 + m) = f64_mag d" using False em(1) by (cases e) simp_all
    then show ?thesis using assms unfolding round_mag_def Let_def k unfolding u by simp
  qed
qed

lemma f64_add_zero_finite:
  assumes "\<not> is_nan d" and "\<not> is_infinite d"
  shows "\<not> is_nan (f64_add f64_zero d) \<and> \<not> is_infinite (f64_add f64_zero d)"
proof -
  have m: "f64_mag d < inf_mag" using assms by (auto simp: is_nan_def is_infinite_def)
  have z: "\<not> is_nan f64_zero" "\<not> is_infinite f64_zero" "f64_units f64_zero = 0"
    by (simp_all add: f64_zero_def is_nan_def is_infinite_def mk_f64_simps inf_mag_def f64_units_def)
  have "inf_mag < 2 ^ 63" by (simp add: inf_mag_def)
  then have "f64_mag (mk_f64 s x) < inf_mag" if "x = 0 \<or> x = f64_mag d" for s x
    using that m mk_f64_simps(1) [of x s] by (auto simp: inf_mag_def)
  moreover have "\<exists>s x. (x = 0 \<or> x = f64_mag d) \<and> f64_add f64_zero d = mk_f64 s x"
    using round_mag_units [OF m] z assms
    by (cases "f64_neg d") (auto simp: f64_add_def Let_def)
  ultimately have "f64_mag (f64_add f64_zero d) < inf_mag" by metis
  then show ?thesis by (simp add: is_nan_def is_infinite_def)
qed

section \<open>Every handler keeps the invariant\<close>

definition handler_ok :: "handler \<Rightarrow> bool" where
  "handler_ok h \<longleftrightarrow> (\<forall>e args db g r db' g'. db_ok db \<longrightarrow> h e args db g = Some (r, db', g') \<longrightarrow> db_ok db')"

lemma handler_ok_plain:
  "(\<And>now args db. db_ok db \<Longrightarrow> db_ok (snd (f now args db))) \<Longrightarrow> handler_ok (plain f)"
  by (auto simp: handler_ok_def plain_def Let_def case_prod_unfold)

lemma handler_ok_flagged:
  "(\<And>now args db. db_ok db \<Longrightarrow> db_ok (snd (f now args x db))) \<Longrightarrow> handler_ok (flagged f x)"
  by (auto simp: flagged_def intro: handler_ok_plain)

lemma handler_ok_random:
  "(\<And>now nanos args db g. db_ok db \<Longrightarrow> db_ok (fst (snd (f now nanos args db g)))) \<Longrightarrow> handler_ok (random f)"
  by (auto simp: handler_ok_def random_def) (metis fst_conv snd_conv)

lemma handler_ok_with_env:
  "(\<And>e args db. db_ok db \<Longrightarrow> db_ok (snd (f e args db))) \<Longrightarrow> handler_ok (with_env f)"
  by (auto simp: handler_ok_def with_env_def Let_def case_prod_unfold)

lemma handler_ok_xrange: "handler_ok (partial xrange x)"
  by (auto simp: handler_ok_def partial_def dest: xrange_db_ok split: option.splits)

lemmas handler_oks = handler_ok_plain handler_ok_flagged handler_ok_random handler_ok_with_env handler_ok_xrange

lemma random_db_ok:
  assumes "db_ok db"
  shows "db_ok (fst (snd (hrandfield now nanos args db g)))" "db_ok (fst (snd (srandmember now nanos args db g)))"
    "db_ok (fst (snd (zrandmember now nanos args db g)))"
proof -
  show "db_ok (fst (snd (hrandfield now nanos args db g)))"
    by (cases rule: hashes.get_cases [of now "args ! 1" db])
      (use assms in \<open>auto simp: hrandfield_def get_hash_def Let_def case_prod_unfold split: sum.splits\<close>)
  show "db_ok (fst (snd (srandmember now nanos args db g)))"
    by (cases rule: sets.get_cases [of now "args ! 1" db])
      (use assms in \<open>auto simp: srandmember_def get_set_def Let_def case_prod_unfold split: sum.splits\<close>)
  show "db_ok (fst (snd (zrandmember now nanos args db g)))"
    by (cases rule: zsets.get_cases [of now "args ! 1" db])
      (use assms in \<open>auto simp: zrandmember_def get_zset_def Let_def case_prod_unfold split: sum.splits\<close>)
qed

lemma string_table_ok: "(n, h) \<in> set (string_table @ bitmap_table @ generic_table) \<Longrightarrow> handler_ok h"
proof -
  have s: "db_ok (snd (c db))" if "c \<in> set (string_commands now args @ string_overwrites now args)" "db_ok db"
    for c now args db using string_commands_db_ok that by blast
  show "handler_ok h" if "(n, h) \<in> set (string_table @ bitmap_table @ generic_table)"
    using that
    by (auto simp: string_table_def bitmap_table_def generic_table_def
        intro!: handler_oks setbit_db_ok bit_reads_db_ok bitop_db_ok generic_db_ok
          s [unfolded string_commands_def string_overwrites_def])
qed

lemma hash_table_ok: "(n, h) \<in> set hash_table \<Longrightarrow> n \<noteq> ''HINCRBYFLOAT'' \<Longrightarrow> handler_ok h"
proof -
  have s: "db_ok (snd (c db))" if "c \<in> set (hash_reads now args @ hash_writes now args)" "db_ok db"
    for c now args db using hash_commands_db_ok that by blast
  show "handler_ok h" if "(n, h) \<in> set hash_table" "n \<noteq> ''HINCRBYFLOAT''"
    using that
    by (auto simp: hash_table_def intro!: handler_oks random_db_ok s [unfolded hash_reads_def hash_writes_def])
qed

lemma list_table_ok: "(n, h) \<in> set list_table \<Longrightarrow> handler_ok h"
proof -
  have s: "db_ok (snd (c db))"
    if "c \<in> set (list_reads now args @ list_writes now args @ [rpoplpush now args, lmove now args])" "db_ok db"
    for c now args db using list_commands_db_ok that by blast
  show "handler_ok h" if "(n, h) \<in> set list_table"
    using that by (auto simp: list_table_def intro!: handler_oks s [unfolded list_reads_def list_writes_def])
qed

lemma read_present_db_ok: "db_ok db \<Longrightarrow> db_ok (snd (read_present now ks db))"
proof (induction ks arbitrary: db)
  case (Cons k ks)
  show ?case
    by (cases rule: sets.get_cases [of now k db])
      (use Cons in \<open>auto simp: get_set_def Let_def split: prod.splits sum.splits\<close>, (metis snd_conv)+)
qed simp

lemma sintercard_db_ok: "db_ok db \<Longrightarrow> db_ok (snd (sintercard now args db))"
  using read_present_db_ok [of db now]
  by (auto simp: sintercard_def Let_def case_prod_unfold split: sum.splits)

lemma set_table_ok: "(n, h) \<in> set set_table \<Longrightarrow> handler_ok h"
proof -
  have s: "db_ok (snd (c db))" if "c \<in> set (set_reads now args @ set_writes now args)" "db_ok db"
    for c now args db using set_reads_aux(2) set_writes_aux(1) that by fastforce
  show "handler_ok h" if "(n, h) \<in> set set_table"
    using that
    by (auto simp: set_table_def intro!: handler_oks random_db_ok smove_db_ok spop_db_ok setop_db_ok sintercard_db_ok
        s [unfolded set_reads_def set_writes_def])
qed

lemma zset_table_ok: "(n, h) \<in> set zset_table \<Longrightarrow> handler_ok h"
proof -
  have s: "db_ok (snd (c db))" if "c \<in> set (zset_reads now 0 0 args @ zset_writes now args)" "db_ok db"
    for c now args db using zset_reads_aux(2) zadd_db_ok zincrby_db_ok zrem_db_ok zset_pops_db_ok that
    unfolding zset_writes_def by auto
  show "handler_ok h" if "(n, h) \<in> set zset_table"
    using that
    by (auto simp: zset_table_def intro!: handler_oks random_db_ok s [unfolded zset_reads_def zset_writes_def])
qed

lemma admin_db_ok:
  assumes "db_ok db"
  shows "db_ok (snd (dbsize e args db))" "db_ok (snd (flushdb e args db))"
    "db_ok (snd (object e args db))" "db_ok (snd (memory e args db))"
  using assms
  by (simp_all add: dbsize_def flushdb_def db_clear_def object_def memory_def object_present_def Let_def
      case_prod_unfold db_ok_get db_ok_contains)

lemma admin_table_ok: "(n, h) \<in> set admin_table \<Longrightarrow> handler_ok h"
  by (auto simp: admin_table_def intro!: handler_oks admin_db_ok xadd_db_ok xlen_db_ok xread_db_ok stream_modify_db_ok)

lemma data_table_ok:
  assumes "(n, h) \<in> set data_table" and "n \<noteq> ''HINCRBYFLOAT''"
  shows "handler_ok h"
proof -
  consider "(n, h) \<in> set (string_table @ bitmap_table @ generic_table)" | "(n, h) \<in> set hash_table"
    | "(n, h) \<in> set list_table" | "(n, h) \<in> set set_table" | "(n, h) \<in> set zset_table" | "(n, h) \<in> set admin_table"
    using assms(1) by (auto simp: data_table_def)
  then show ?thesis
    using string_table_ok hash_table_ok [OF _ assms(2)] list_table_ok set_table_ok zset_table_ok admin_table_ok
    by cases blast+
qed

text \<open>The one exception: an infinite increment of \<open>HINCRBYFLOAT\<close>.\<close>

definition tame :: "bytes list \<Rightarrow> bool" where
  "tame args \<longleftrightarrow> \<not> (args \<noteq> [] \<and> upper (hd args) = ascii ''HINCRBYFLOAT'' \<and> length args = 4 \<and>
     (case parse_float (args ! 3) of Inr d \<Rightarrow> is_infinite d | Inl _ \<Rightarrow> False))"

lemma hincrbyfloat_db_ok:
  assumes "db_ok db" and "\<And>d. length args = 4 \<Longrightarrow> parse_float (args ! 3) = Inr d \<Longrightarrow> \<not> is_infinite d"
  shows "db_ok (snd (hincrbyfloat now args db))"
proof (cases "length args = 4 \<and> (\<exists>d. parse_float (args ! 3) = Inr d)")
  case False
  then show ?thesis using assms(1) by (auto simp: hincrbyfloat_def split: sum.splits)
next
  case True
  then obtain d where d: "length args = 4" "parse_float (args ! 3) = Inr d" by blast
  have fin: "\<not> is_nan (f64_add f64_zero d)" "\<not> is_infinite (f64_add f64_zero d)"
    using f64_add_zero_finite [of d] assms(2) [OF d] d(2)
    by (auto simp: parse_float_def Let_def split: if_splits option.splits)
  show ?thesis
  proof (cases rule: hashes.create_cases [of now "args ! 1" db])
    case (wrong v t db')
    then show ?thesis using assms(1) d by (simp add: hincrbyfloat_def get_or_create_hash_def)
  next
    case (created db')
    then show ?thesis using assms(1) d fin
      by (auto simp: hincrbyfloat_def get_or_create_hash_def hm_insert_def Let_def intro!: db_ok_write_but)
  next
    case (present h t db')
    then have "val_ok (HashV h)" using assms(1) db_ok_live by blast
    then have "val_ok (HashV (fst (hm_insert kv h)))" for kv by (simp add: hm_insert_def distinct_update)
    then show ?thesis using present assms(1) d
      by (auto simp: hincrbyfloat_def get_or_create_hash_def Let_def intro!: db_ok_write split: option.splits)
  qed
qed

lemma find_handlerD:
  assumes "find_handler name = Some h"
  obtains n where "(n, h) \<in> set data_table" and "name = ascii n"
  using map_of_SomeD [OF assms [unfolded find_handler_def]] that by auto

lemma find_handler_hincrbyfloat:
  "(n, h) \<in> set data_table \<Longrightarrow> n = ''HINCRBYFLOAT'' \<Longrightarrow> h = plain hincrbyfloat"
  by (simp add: data_table_def string_table_def bitmap_table_def generic_table_def hash_table_def list_table_def
      set_table_def zset_table_def admin_table_def)

lemma find_handler_ok:
  assumes "find_handler (upper (hd args)) = Some h" and "args \<noteq> []" and "tame args"
    and "db_ok db" and "h e args db g = Some (r, db', g')"
  shows "db_ok db'"
proof -
  obtain n where n: "(n, h) \<in> set data_table" "upper (hd args) = ascii n" using assms(1) by (rule find_handlerD)
  show ?thesis
  proof (cases "n = ''HINCRBYFLOAT''")
    case False
    then show ?thesis using data_table_ok [OF n(1) False] assms(4,5) unfolding handler_ok_def by blast
  next
    case True
    then have "h = plain hincrbyfloat" using find_handler_hincrbyfloat n(1) by blast
    moreover have "\<not> is_infinite d" if "length args = 4" "parse_float (args ! 3) = Inr d" for d
      using assms(2,3) n(2) True that by (simp add: tame_def)
    ultimately show ?thesis using assms(5) hincrbyfloat_db_ok [OF assms(4)]
      by (auto simp: plain_def Let_def case_prod_unfold)
  qed
qed

section \<open>The invariant of the server\<close>

definition ks_ok :: "keyspace \<Rightarrow> bool" where
  "ks_ok ks \<longleftrightarrow> (\<forall>db\<in>set ks. db_ok db)"

definition shared_ok :: "shared \<Rightarrow> bool" where
  "shared_ok sh \<longleftrightarrow> ks_ok (sh_ks sh) \<and> pubsub_wf (sh_pubsub sh)"

text \<open>
  A connection is in step with the shared state: its database exists, the registry subscribes it to
  exactly what it believes, and \<open>CLIENT LIST\<close> reports the database it has selected.
\<close>

definition conn_ok :: "shared \<Rightarrow> conn_state \<Rightarrow> bool" where
  "conn_ok sh conn \<longleftrightarrow>
     c_db_index conn < length (sh_ks sh)
     \<and> set (c_channels conn) = {t. (t, c_id conn) \<in> chan_pairs (sh_pubsub sh)}
     \<and> set (c_patterns conn) = {t. (t, c_id conn) \<in> pat_pairs (sh_pubsub sh)}
     \<and> distinct (c_channels conn) \<and> distinct (c_patterns conn)
     \<and> map_option ci_db (map_of (sh_clients sh) (c_id conn)) = Some (c_db_index conn)
     \<and> (\<forall>cmd\<in>set (c_multi_queue conn). cmd \<noteq> [] \<and> tame cmd)
     \<and> (\<forall>((dbi, _), _)\<in>set (c_watched conn). dbi < length (sh_ks sh))"

text \<open>What a step of connection \<open>i\<close> leaves alone.\<close>

definition frames :: "u64 \<Rightarrow> shared \<Rightarrow> shared \<Rightarrow> bool" where
  "frames i sh sh' \<longleftrightarrow>
     length (sh_ks sh') = length (sh_ks sh)
     \<and> (\<forall>j t. j \<noteq> i \<longrightarrow> ((t, j) \<in> chan_pairs (sh_pubsub sh') \<longleftrightarrow> (t, j) \<in> chan_pairs (sh_pubsub sh)))
     \<and> (\<forall>j t. j \<noteq> i \<longrightarrow> ((t, j) \<in> pat_pairs (sh_pubsub sh') \<longleftrightarrow> (t, j) \<in> pat_pairs (sh_pubsub sh)))
     \<and> (\<forall>j. j \<noteq> i \<longrightarrow> map_of (sh_clients sh') j = map_of (sh_clients sh) j)
     \<and> map fst (sh_clients sh') = map fst (sh_clients sh)
     \<and> dom (map_of (sh_mail sh')) = dom (map_of (sh_mail sh))
     \<and> sh_requirepass sh' = sh_requirepass sh \<and> sh_next_client_id sh' = sh_next_client_id sh
     \<and> sh_maxclients sh' = sh_maxclients sh \<and> sh_poisoned sh' = sh_poisoned sh \<and> sh_dumpfile sh' = sh_dumpfile sh"

lemma frames_refl [simp]: "frames i sh sh"
  by (simp add: frames_def)

lemma frames_trans: "frames i a b \<Longrightarrow> frames i b c \<Longrightarrow> frames i a c"
  by (simp add: frames_def)

lemma conn_ok_frames: "conn_ok sh conn \<Longrightarrow> frames i sh sh' \<Longrightarrow> c_id conn \<noteq> i \<Longrightarrow> conn_ok sh' conn"
  by (simp add: conn_ok_def frames_def)

definition inv_step :: "shared \<Rightarrow> conn_state \<Rightarrow> shared \<Rightarrow> conn_state \<Rightarrow> bool" where
  "inv_step sh conn sh' conn' \<longleftrightarrow>
     (shared_ok sh \<and> conn_ok sh conn \<longrightarrow>
        shared_ok sh' \<and> conn_ok sh' conn' \<and> frames (c_id conn) sh sh' \<and> c_id conn' = c_id conn)"

lemma inv_step_refl [simp, intro]: "inv_step sh conn sh conn"
  by (simp add: inv_step_def)

lemma inv_step_trans:
  "inv_step sh conn sh1 conn1 \<Longrightarrow> inv_step sh1 conn1 sh2 conn2 \<Longrightarrow> inv_step sh conn sh2 conn2"
  using frames_trans by (auto simp: inv_step_def)

definition inv_result :: "shared \<Rightarrow> conn_state \<Rightarrow> ('a \<times> shared \<times> conn_state) outcome \<Rightarrow> bool" where
  "inv_result sh conn res \<longleftrightarrow>
     (case res of Done (_, sh', conn') \<Rightarrow> inv_step sh conn sh' conn' | _ \<Rightarrow> True)"

lemma inv_result_Done [simp]: "inv_result sh conn (Done (r, sh', conn')) \<longleftrightarrow> inv_step sh conn sh' conn'"
  by (simp add: inv_result_def)

lemma inv_result_end [simp]: "inv_result sh conn Panicked" "inv_result sh conn Exited"
  by (simp_all add: inv_result_def)

lemma inv_result_bind:
  assumes "inv_result sh conn res"
    and "\<And>r sh' conn'. res = Done (r, sh', conn') \<Longrightarrow> inv_step sh conn sh' conn' \<Longrightarrow> inv_result sh' conn' (f (r, sh', conn'))"
  shows "inv_result sh conn (outcome_bind res f)"
proof (cases res)
  case (Done x)
  obtain r sh' conn' where x: "x = (r, sh', conn')" by (cases x)
  have s: "inv_step sh conn sh' conn'" using assms(1) by (simp add: Done x)
  have "inv_result sh' conn' (f x)" using assms(2) [OF _ s, of r] by (simp add: Done x)
  then show ?thesis using s inv_step_trans by (fastforce simp: Done x inv_result_def split: outcome.splits)
qed simp_all

subsection \<open>Steps that touch little\<close>

text \<open>The fields of the shared state that the invariant does not read.\<close>

lemma inv_step_shared:
  assumes "sh_ks sh' = sh_ks sh" "sh_pubsub sh' = sh_pubsub sh" "sh_clients sh' = sh_clients sh"
    and "dom (map_of (sh_mail sh')) = dom (map_of (sh_mail sh))" "sh_requirepass sh' = sh_requirepass sh"
    and "sh_next_client_id sh' = sh_next_client_id sh" "sh_maxclients sh' = sh_maxclients sh"
    and "sh_poisoned sh' = sh_poisoned sh" "sh_dumpfile sh' = sh_dumpfile sh"
  shows "inv_step sh conn sh' conn"
  using assms by (simp add: inv_step_def shared_ok_def conn_ok_def frames_def)

lemma inv_step_conn:
  assumes "c_id conn' = c_id conn" "c_db_index conn' = c_db_index conn" "c_channels conn' = c_channels conn"
    "c_patterns conn' = c_patterns conn" "set (c_multi_queue conn') \<subseteq> set (c_multi_queue conn)"
    "set (c_watched conn') \<subseteq> set (c_watched conn)"
  shows "inv_step sh conn sh conn'"
  using assms by (auto simp: inv_step_def conn_ok_def)

lemma inv_step_ks:
  assumes "ks_ok (sh_ks sh) \<Longrightarrow> ks_ok ks \<and> length ks = length (sh_ks sh)"
  shows "inv_step sh conn (sh\<lparr>sh_ks := ks, sh_rng := g\<rparr>) conn"
  using assms by (auto simp: inv_step_def shared_ok_def conn_ok_def frames_def)

lemma inv_step_ks':
  assumes "ks_ok (sh_ks sh) \<Longrightarrow> ks_ok ks \<and> length ks = length (sh_ks sh)"
  shows "inv_step sh conn (sh\<lparr>sh_ks := ks\<rparr>) conn"
  using assms by (auto simp: inv_step_def shared_ok_def conn_ok_def frames_def)

lemma map_of_registry_update:
  "map_of (sh_clients (registry_update i f sh)) j = (if i = j then map_option f (map_of (sh_clients sh) i) else map_of (sh_clients sh) j)"
  by (auto simp: registry_update_def update_conv' split: option.splits)

lemma registry_update_other [simp]:
  "sh_ks (registry_update i f sh) = sh_ks sh" "sh_pubsub (registry_update i f sh) = sh_pubsub sh"
  "sh_mail (registry_update i f sh) = sh_mail sh" "sh_requirepass (registry_update i f sh) = sh_requirepass sh"
  "sh_next_client_id (registry_update i f sh) = sh_next_client_id sh"
  "sh_maxclients (registry_update i f sh) = sh_maxclients sh" "sh_poisoned (registry_update i f sh) = sh_poisoned sh"
  "sh_dumpfile (registry_update i f sh) = sh_dumpfile sh"
  by (simp_all add: registry_update_def split: option.splits)

lemma registry_update_fst: "map fst (sh_clients (registry_update i f sh)) = map fst (sh_clients sh)"
  using map_of_eq_None_iff [of "sh_clients sh" i]
  by (auto simp: registry_update_def update_keys split: option.splits)

lemma frames_registry_update: "frames i sh (registry_update i f sh)"
  by (simp add: frames_def map_of_registry_update registry_update_fst)

lemma inv_step_registry:
  assumes "\<And>info. ci_db (f info) = ci_db info"
  shows "inv_step sh conn (registry_update (c_id conn) f sh) conn"
proof -
  have "map_option ci_db (map_option f x) = map_option ci_db x" for x using assms by (cases x) simp_all
  then show ?thesis
    by (simp add: inv_step_def shared_ok_def conn_ok_def frames_registry_update map_of_registry_update)
qed

lemma inv_step_select:
  assumes "i < length (sh_ks sh)"
  shows "inv_step sh conn (sync_registry_db sh (conn\<lparr>c_db_index := i\<rparr>)) (conn\<lparr>c_db_index := i\<rparr>)"
proof -
  have "map_option ci_db (map_option (\<lambda>info. info\<lparr>ci_db := i\<rparr>) x) = map_option (\<lambda>_. i) x" for x by (cases x) simp_all
  then show ?thesis using assms
    by (auto simp: inv_step_def shared_ok_def conn_ok_def sync_registry_db_def frames_registry_update map_of_registry_update)
qed

subsection \<open>The commands\<close>

definition inv_pair :: "shared \<Rightarrow> conn_state \<Rightarrow> 'a \<times> shared \<times> conn_state \<Rightarrow> bool" where
  "inv_pair sh conn res \<longleftrightarrow> inv_step sh conn (fst (snd res)) (snd (snd res))"

lemma inv_pair_simp [simp]: "inv_pair sh conn (r, sh', conn') \<longleftrightarrow> inv_step sh conn sh' conn'"
  by (simp add: inv_pair_def)

lemma inv_result_pair [simp]: "inv_result sh conn (Done res) \<longleftrightarrow> inv_pair sh conn res"
  by (cases res) simp

lemma inv_if:
  "inv_pair sh conn x \<Longrightarrow> inv_pair sh conn y \<Longrightarrow> inv_pair sh conn (if b then x else y)"
  "inv_result sh conn r \<Longrightarrow> inv_result sh conn s \<Longrightarrow> inv_result sh conn (if b then r else s)"
  by simp_all

lemma inv_select: "inv_pair sh conn (select args sh conn)"
proof (cases "parse_int (args ! 1)")
  case (Inr n)
  then have "ks_is_valid n (sh_ks sh) \<Longrightarrow> usize_of_i64 n < length (sh_ks sh)"
    using parse_int_ok [OF Inr] by (auto simp: ks_is_valid_def)
  then show ?thesis using inv_step_select Inr unfolding select_def Let_def by (simp del: One_nat_def)
qed (simp add: select_def)

lemma inv_auth: "inv_step sh conn sh (snd (auth args sh conn))"
  by (auto simp: auth_def intro: inv_step_conn split: option.splits)

lemma hello_opts_conn:
  "snd (hello_opts rp as p au conn) = conn \<or> snd (hello_opts rp as p au conn) = conn\<lparr>c_authenticated := True\<rparr>"
proof (induction rp as p au conn rule: hello_opts.induct)
  case (1 rp as p au conn)
  show ?case
  proof (cases as)
    case Nil
    then show ?thesis by (simp add: hello_opts.simps)
  next
    case (Cons a rest)
    show ?thesis using 1 [OF Cons] unfolding Cons by (subst (1 2) hello_opts.simps) (auto split: option.splits)
  qed
qed

lemma inv_hello_finish: "inv_pair sh conn (hello_finish as sh conn)"
proof -
  obtain r conn1 where h: "hello_opts (sh_requirepass sh) as None False conn = (r, conn1)"
    by (cases "hello_opts (sh_requirepass sh) as None False conn")
  then have s1: "inv_step sh conn sh conn1"
    using hello_opts_conn [of "sh_requirepass sh" as None False conn] by (auto intro: inv_step_conn)
  have reg: "inv_step sh conn (registry_update (c_id conn2) f sh) conn2"
    if "inv_step sh conn sh conn2" "\<And>info. ci_db (f info) = ci_db info" for conn2 f
    using inv_step_trans [OF that(1) inv_step_registry] that(2) by blast
  have named: "inv_step sh conn (registry_update (c_id conn1) (\<lambda>info. info\<lparr>ci_resp3 := b\<rparr>)
      (update_registry_name sh (conn1\<lparr>c_name := n\<rparr>))) (conn1\<lparr>c_name := n\<rparr>)" for n b
  proof -
    have "inv_step sh conn1 sh (conn1\<lparr>c_name := n\<rparr>)" by (rule inv_step_conn) simp_all
    from inv_step_trans [OF s1 this] have "inv_step sh conn sh (conn1\<lparr>c_name := n\<rparr>)" .
    from reg [OF this, of "\<lambda>info. info\<lparr>ci_name := from_utf8_lossy n\<rparr>"]
    have "inv_step sh conn (update_registry_name sh (conn1\<lparr>c_name := n\<rparr>)) (conn1\<lparr>c_name := n\<rparr>)"
      by (simp add: update_registry_name_def)
    from inv_step_trans [OF this inv_step_registry [of "\<lambda>info. info\<lparr>ci_resp3 := b\<rparr>"]] show ?thesis by simp
  qed
  show ?thesis
    using s1 named reg [OF s1, of "\<lambda>info. info\<lparr>ci_resp3 := b\<rparr>" for b]
    by (auto simp: hello_finish_def h Let_def split: sum.splits option.splits)
qed

lemma inv_pair_after:
  assumes "inv_step sh conn sh1 conn1" and "inv_pair sh1 conn1 res"
  shows "inv_pair sh conn res"
  using assms inv_step_trans by (auto simp: inv_pair_def)

lemma inv_hello: "inv_pair sh conn (hello args sh conn)"
proof -
  have "inv_step sh conn sh (conn\<lparr>c_resp3 := b\<rparr>)" for b by (rule inv_step_conn) simp_all
  from inv_pair_after [OF this inv_hello_finish]
  have "inv_pair sh conn (hello_finish as sh (conn\<lparr>c_resp3 := b\<rparr>))" for as b .
  then show ?thesis using inv_hello_finish by (auto simp: hello_def split: sum.splits)
qed

lemma inv_client: "inv_pair sh conn (client e args sh conn)"
proof -
  have "inv_step sh conn (update_registry_name sh (conn\<lparr>c_name := n\<rparr>)) (conn\<lparr>c_name := n\<rparr>)" for n
  proof -
    have "inv_step sh conn sh (conn\<lparr>c_name := n\<rparr>)" by (rule inv_step_conn) simp_all
    from inv_step_trans [OF this inv_step_registry [of "\<lambda>info. info\<lparr>ci_name := from_utf8_lossy n\<rparr>"]]
    show ?thesis by (simp add: update_registry_name_def)
  qed
  then show ?thesis by (simp add: client_def Let_def)
qed

lemma publish_mail_dom: "dom (map_of (snd (ps_publish ch p ps mb))) = dom (map_of mb)"
proof -
  have s: "dom (map_of (snd (send_all msg subs c mb))) = dom (map_of mb)" for msg subs c mb
    by (induction subs arbitrary: c mb) (simp_all add: case_prod_unfold Let_def send_dom)
  have p: "dom (map_of (snd (publish_patterns ch p r c mb))) = dom (map_of mb)" for r c mb
  proof (induction r arbitrary: c mb)
    case (Cons a r)
    then show ?case by (cases a) (simp add: case_prod_unfold Let_def s)
  qed simp
  show ?thesis by (simp add: ps_publish_def case_prod_unfold Let_def s p split: option.splits)
qed

lemma inv_publish: "inv_step sh conn (snd (publish args sh)) conn"
  by (cases "length args = 3")
    (simp_all add: publish_def case_prod_unfold Let_def publish_mail_dom inv_step_shared)

lemma config_set_inv: "inv_step sh conn (config_set as sh) conn"
proof (induction as sh rule: config_set.induct)
  case (1 k v rest sh)
  let ?sh1 = "if to_ascii_lowercase (from_utf8_lossy k) = ascii ''loglevel'' then apply_loglevel (from_utf8_lossy v) sh else sh"
  have "inv_step sh conn (?sh1\<lparr>sh_config := AList.update (from_utf8_lossy k) (from_utf8_lossy v) (sh_config ?sh1)\<rparr>) conn"
    by (rule inv_step_shared) (simp_all add: apply_loglevel_def split: option.splits)
  from inv_step_trans [OF this] 1 show ?case by (simp add: Let_def)
qed simp_all

lemma inv_config: "inv_step sh conn (snd (config e args sh)) conn"
  by (simp add: config_def Let_def config_set_inv)

lemma inv_script: "inv_step sh conn (snd (script lua e args sh)) conn"
  by (auto simp: script_def Let_def intro!: inv_step_shared split: option.splits)

lemma inv_save: "inv_step sh conn (snd (save f now bg sh)) conn"
  by (auto simp: save_def save_dump_def intro!: inv_step_shared split: option.splits)

lemma inv_shutdown: "shutdown f now args sh = Done (r, sh') \<Longrightarrow> inv_step sh conn sh' conn"
  by (cases "sh_dumpfile sh") (auto simp: shutdown_def save_dump_def Let_def split: option.splits if_splits)

lemma inv_server_command: "inv_pair sh conn (server_command lua e name args sh conn)"
  unfolding server_command_def case_prod_unfold Let_def
  by (intro inv_if) (simp_all add: inv_hello inv_client inv_auth inv_publish inv_config inv_script)

lemma ks_ok_update: "ks_ok ks \<Longrightarrow> db_ok db \<Longrightarrow> ks_ok (ks[i := db])"
  using set_update_subset_insert [of ks i db] by (auto simp: ks_ok_def)

lemma ks_db_ok: "ks_ok ks \<Longrightarrow> ks_db i ks = Some db \<Longrightarrow> db_ok db"
  by (auto simp: ks_ok_def ks_db_def split: if_splits)

text \<open>Putting back the selected database.\<close>

lemma inv_step_put:
  assumes "ks_db i (sh_ks sh) = Some db" and "db_ok db \<Longrightarrow> db_ok db'"
  shows "inv_step sh conn (sh\<lparr>sh_ks := (sh_ks sh)[i := db'], sh_rng := g\<rparr>) conn"
    and "inv_step sh conn (sh\<lparr>sh_ks := (sh_ks sh)[i := db']\<rparr>) conn"
  using assms ks_db_ok ks_ok_update by (auto intro!: inv_step_ks inv_step_ks')

lemma inv_db_command:
  assumes "args \<noteq> []" and "tame args"
  shows "inv_result sh conn (db_command lua e (upper (hd args)) args sh conn)"
  using inv_server_command find_handler_ok [OF _ assms] inv_step_put(1)
  by (auto simp: db_command_def split: option.splits)

definition reload_ok :: "env \<Rightarrow> bool" where
  "reload_ok e \<longleftrightarrow> (\<forall>ks ks'. ks_ok ks \<longrightarrow> env_reload e ks = Inr ks' \<longrightarrow> ks_ok ks' \<and> length ks' = length ks)"

lemma inv_on_keyspace:
  assumes "\<And>r ks. ks_ok (sh_ks sh) \<Longrightarrow> i < length (sh_ks sh) \<Longrightarrow> f (sh_ks sh) = Some (r, ks) \<Longrightarrow>
    ks_ok ks \<and> length ks = length (sh_ks sh)" and "i = c_db_index conn"
  shows "inv_result sh conn (on_keyspace f sh conn)"
proof (cases "f (sh_ks sh)")
  case (Some x)
  obtain r ks where x: "x = (r, ks)" by (cases x)
  have "inv_step sh conn (sh\<lparr>sh_ks := ks\<rparr>) conn" if "c_db_index conn < length (sh_ks sh)"
    using assms that Some x by (intro inv_step_ks') auto
  then have "inv_step sh conn (sh\<lparr>sh_ks := ks\<rparr>) conn" by (auto simp: inv_step_def conn_ok_def)
  with Some x show ?thesis by (simp add: on_keyspace_def)
qed (simp add: on_keyspace_def)

lemma debug_ok:
  assumes "reload_ok e" and "ks_ok ks" and "debug (env_reload e) now i args ks = Some (r, ks')"
  shows "ks_ok ks' \<and> length ks' = length ks"
  using assms ks_ok_update [OF assms(2) db_ok_get [OF ks_db_ok [OF assms(2)]]]
  by (auto simp: debug_def Let_def case_prod_unfold reload_ok_def split: if_splits option.splits sum.splits)

lemma inv_execute_plain:
  assumes "args \<noteq> []" and "tame args" and "reload_ok e"
  shows "inv_result sh conn (execute_plain lua e (upper (hd args)) args sh conn)"
proof -
  have "inv_result sh conn (on_keyspace (swapdb args) sh conn)"
    using swapdb_ok [of "sh_ks sh" args] by (intro inv_on_keyspace) (auto simp: ks_ok_def)
  moreover have "inv_result sh conn (on_keyspace (move_key (env_now e) (c_db_index conn) args) sh conn)"
    using move_key_ok [of "c_db_index conn" "sh_ks sh" "env_now e" args] by (intro inv_on_keyspace) (auto simp: ks_ok_def)
  moreover have "inv_result sh conn (on_keyspace (copy (env_now e) (c_db_index conn) args) sh conn)"
    using copy_ok [of "c_db_index conn" "sh_ks sh" "env_now e" args] by (intro inv_on_keyspace) (auto simp: ks_ok_def)
  moreover have "inv_result sh conn (on_keyspace (\<lambda>ks. Some (frame_ok, ks_clear_all ks)) sh conn)"
    by (intro inv_on_keyspace) (auto simp: ks_ok_def ks_clear_all_def db_clear_def)
  moreover have "inv_result sh conn (on_keyspace (debug (env_reload e) (env_now e) (c_db_index conn) args) sh conn)"
    using debug_ok [OF assms(3)] by (intro inv_on_keyspace) auto
  moreover have "inv_result sh conn (outcome_bind (shutdown (env_save e) (env_now e) args sh) (\<lambda>(r, sh). Done (r, sh, conn)))"
    using inv_shutdown by (cases "shutdown (env_save e) (env_now e) args sh") (auto split: prod.splits)
  ultimately show ?thesis
    unfolding execute_plain_def case_prod_unfold Let_def
    by (intro inv_if) (simp_all add: inv_select inv_save inv_db_command [OF assms(1,2)] case_prod_unfold)
qed

end
