(* ===== verification/Handle_Inv.thy ===== *)
theory Handle_Inv
  imports Handle Dispatch_Inv
begin

text \<open>
  Every request keeps the invariant of the server: scripts, transactions, subscriptions and blocking
  commands included.
\<close>

section \<open>Scripts\<close>

text \<open>No call of the run increments a hash field by infinity, whatever the earlier calls answer.\<close>

primrec tame_run :: "lua_run \<Rightarrow> bool" where
  "tame_run (Finish ok v) \<longleftrightarrow> True"
| "tame_run (Broken err) \<longleftrightarrow> True"
| "tame_run (Pcall cmd k) \<longleftrightarrow>
     (case lua_args cmd of None \<Rightarrow> True | Some argv \<Rightarrow> tame argv) \<and> (\<forall>r. tame_run (k r))"

definition tame_lua :: "lua_impl \<Rightarrow> bool" where
  "tame_lua lua \<longleftrightarrow> (\<forall>body keys argv. tame_run (lua_start lua body keys argv))"

lemma lua_args_nonempty: "lua_args cmd = Some argv \<Longrightarrow> cmd \<noteq> [] \<Longrightarrow> argv \<noteq> []"
  by (cases cmd) (auto split: option.splits)

lemma inv_redis_pcall:
  assumes "case lua_args cmd of None \<Rightarrow> True | Some argv \<Rightarrow> tame argv" and "reload_ok e"
  shows "inv_result sh conn (redis_pcall lua e cmd sh conn)"
proof (cases "cmd = [] \<or> lua_args cmd = None")
  case True
  then show ?thesis by (auto simp: redis_pcall_def)
next
  case False
  then obtain argv where a: "lua_args cmd = Some argv" "cmd \<noteq> []" by auto
  then have "inv_result sh conn (execute_plain lua e (upper (hd argv)) argv sh conn)"
    using lua_args_nonempty [OF a] assms by (intro inv_execute_plain) auto
  then show ?thesis using a
    by (auto simp: redis_pcall_def Let_def intro!: inv_result_bind split: prod.splits)
qed

lemma inv_run_calls:
  assumes "tame_run run" and "\<And>n. reload_ok (es n)"
  shows "inv_result sh conn (run_calls lua run es i sh conn)"
  using assms(1)
proof (induction run arbitrary: i sh conn)
  case (Pcall cmd k)
  then have "inv_result sh conn (redis_pcall lua (es i) cmd sh conn)"
    using assms(2) by (intro inv_redis_pcall) auto
  then show ?case
  proof (simp, rule inv_result_bind)
    fix r sh' conn'
    have "inv_result sh' conn' (run_calls lua (k r) es (Suc i) sh' conn')"
      using Pcall by auto
    then show "inv_result sh' conn' (case (r, sh', conn') of (r, sh, conn) \<Rightarrow> run_calls lua (k r) es (Suc i) sh conn)"
      by simp
  qed
qed simp_all

lemma inv_run_script:
  assumes "tame_lua lua" and "\<And>n. reload_ok (es n)"
  shows "inv_result sh conn (run_script lua es body keys argv sh conn)"
proof (cases "run_calls lua (lua_start lua body keys argv) es 0 sh conn")
  case (Done x)
  obtain r sh' conn' where x: "x = (r, sh', conn')" by (cases x)
  have s: "inv_step sh conn sh' conn'"
    using inv_run_calls [of "lua_start lua body keys argv" es sh conn lua 0] assms Done x by (simp add: tame_lua_def)
  have "inv_step sh conn (sync_registry_db sh' (conn'\<lparr>c_db_index := c_db_index conn\<rparr>)) (conn'\<lparr>c_db_index := c_db_index conn\<rparr>)"
  proof (cases "shared_ok sh \<and> conn_ok sh conn")
    case True
    then have "c_db_index conn < length (sh_ks sh')" using s by (auto simp: inv_step_def conn_ok_def frames_def)
    from inv_step_trans [OF s inv_step_select [OF this]] show ?thesis .
  next
    case False
    then show ?thesis unfolding inv_step_def by blast
  qed
  with s Done x show ?thesis by (auto simp: run_script_def Let_def)
qed (simp_all add: run_script_def)

lemma inv_eval:
  assumes "tame_lua lua" and "\<And>n. reload_ok (es n)"
  shows "inv_result sh conn (eval lua es args source sh conn)"
proof -
  have c: "inv_step sh conn (snd (script_body source a sh)) conn" for a
    by (auto simp: script_body_def intro!: inv_step_shared split: script_source.splits option.splits)
  have "inv_result sh conn (run_script lua es b k v (snd (script_body source a sh)) conn)" for a b k v
    using inv_run_script [OF assms, where sh = "snd (script_body source a sh)" and conn = conn and body = b and keys = k and argv = v] c [of a]
      inv_step_trans [OF c [of a]]
    by (fastforce simp: inv_result_def split: outcome.splits)
  note r = this
  show ?thesis using c [of "args ! 1"] r [where a = "args ! 1"]
    by (auto simp: eval_def split: sum.splits prod.splits)
qed

lemma inv_execute_locked:
  assumes "tame_lua lua" and "\<And>n. reload_ok (es n)" and "args \<noteq> []" and "tame args"
  shows "inv_result sh conn (execute_locked lua es (upper (hd args)) args sh conn)"
  using inv_eval [OF assms(1,2)] inv_execute_plain [OF assms(3,4,2)]
  unfolding execute_locked_def by (intro inv_if) simp_all

lemma inv_execute:
  assumes "tame_lua lua" and "\<And>n. reload_ok (es n)" and "args \<noteq> []" and "tame args"
  shows "inv_result sh conn (execute lua es (upper (hd args)) args sh conn)"
  using inv_execute_locked [OF assms] by (simp add: execute_def)

section \<open>Transactions and subscriptions\<close>

lemma snapshot_db_ok: "db_ok db \<Longrightarrow> db_ok (snd (snapshot e key db))"
  by (simp add: snapshot_def db_fingerprint_def Let_def case_prod_unfold db_ok_get)

lemma watch_keys_ok:
  "db_ok db \<Longrightarrow> db_ok (snd (watch_keys e dbi keys watched db))
    \<and> fst ` set (fst (watch_keys e dbi keys watched db)) \<subseteq> fst ` set watched \<union> {dbi} \<times> UNIV"
proof (induction keys arbitrary: watched db)
  case (Cons key keys)
  have "fst ` set (AList.update (dbi, key) s watched) = insert (dbi, key) (fst ` set watched)" for s
    using dom_update [of "(dbi, key)" s watched] by (simp add: dom_map_of_conv_image_fst)
  then show ?case
    using Cons.IH [OF snapshot_db_ok [OF Cons.prems, of e key], of "AList.update (dbi, key) (fst (snapshot e key db)) watched"]
    by (auto simp: case_prod_unfold Let_def)
qed auto

lemma conn_ok_watched:
  assumes "conn_ok sh conn" and "fst ` set w \<subseteq> fst ` set (c_watched conn) \<union> {c_db_index conn} \<times> UNIV"
  shows "conn_ok sh (conn\<lparr>c_watched := w\<rparr>)"
proof -
  have "dbi < length (sh_ks sh)" if "((dbi, k), s) \<in> set w" for dbi k s
  proof -
    from that assms(2) have "(dbi, k) \<in> fst ` set (c_watched conn) \<or> dbi = c_db_index conn" by force
    then show ?thesis using assms(1) by (auto simp: conn_ok_def)
  qed
  then show ?thesis using assms(1) by (auto simp: conn_ok_def)
qed

lemma inv_watch: "inv_result sh conn (watch e args sh conn)"
proof -
  have "inv_step sh conn (sh\<lparr>sh_ks := (sh_ks sh)[c_db_index conn := snd w]\<rparr>) (conn\<lparr>c_watched := fst w\<rparr>)"
    if "ks_db (c_db_index conn) (sh_ks sh) = Some db"
      and w: "w = watch_keys e (c_db_index conn) keys (c_watched conn) db" for db keys w
  proof -
    have p: "inv_step sh conn (sh\<lparr>sh_ks := (sh_ks sh)[c_db_index conn := snd w]\<rparr>) conn"
      using inv_step_put(2) [OF that(1)] watch_keys_ok w by blast
    show ?thesis unfolding inv_step_def
    proof (intro impI)
      assume a: "shared_ok sh \<and> conn_ok sh conn"
      then have "db_ok db" using ks_db_ok [OF _ that(1)] by (simp add: shared_ok_def)
      then have "conn_ok (sh\<lparr>sh_ks := (sh_ks sh)[c_db_index conn := snd w]\<rparr>) (conn\<lparr>c_watched := fst w\<rparr>)"
        using p a watch_keys_ok [of db e "c_db_index conn" keys "c_watched conn"] w
        by (intro conn_ok_watched) (auto simp: inv_step_def)
      with p a show "shared_ok (sh\<lparr>sh_ks := (sh_ks sh)[c_db_index conn := snd w]\<rparr>)
          \<and> conn_ok (sh\<lparr>sh_ks := (sh_ks sh)[c_db_index conn := snd w]\<rparr>) (conn\<lparr>c_watched := fst w\<rparr>)
          \<and> frames (c_id conn) sh (sh\<lparr>sh_ks := (sh_ks sh)[c_db_index conn := snd w]\<rparr>)
          \<and> c_id (conn\<lparr>c_watched := fst w\<rparr>) = c_id conn"
        by (simp add: inv_step_def)
    qed
  qed
  then show ?thesis by (simp add: watch_def Let_def case_prod_unfold split: option.splits)
qed

lemma watch_ok_ok:
  "ks_ok ks \<Longrightarrow> watch_ok e watched ks = Some (b, ks') \<Longrightarrow> ks_ok ks' \<and> length ks' = length ks"
proof (induction watched arbitrary: ks)
  case (Cons w watched)
  obtain dbi key snap where w: "w = ((dbi, key), snap)" by (metis surj_pair)
  from Cons.prems w obtain db where db: "ks_db dbi ks = Some db" by (auto split: option.splits)
  let ?ks = "ks[dbi := snd (snapshot e key db)]"
  have o: "ks_ok ?ks" using ks_ok_update [OF Cons.prems(1)] snapshot_db_ok [OF ks_db_ok [OF Cons.prems(1) db]] by blast
  show ?case
  proof (cases "fst (snapshot e key db) = snap")
    case True
    then show ?thesis using Cons.IH [OF o] Cons.prems(2) db by (simp add: w Let_def case_prod_unfold)
  next
    case False
    then show ?thesis using Cons.prems(2) db o by (auto simp: w Let_def case_prod_unfold)
  qed
qed auto

lemma inv_exec_queue:
  assumes "tame_lua lua" and "\<And>n m. reload_ok (ess n m)" and "\<forall>cmd\<in>set queue. cmd \<noteq> [] \<and> tame cmd"
  shows "inv_result sh conn (exec_queue lua ess i queue sh conn)"
  using assms(3)
proof (induction queue arbitrary: i sh conn)
  case (Cons cmd queue)
  then have "inv_result sh conn (execute lua (ess i) (upper (hd cmd)) cmd sh conn)"
    using assms(1,2) by (intro inv_execute) auto
  then show ?case using Cons
    by (auto intro!: inv_result_bind split: prod.splits)
qed simp

lemma inv_exec:
  assumes "tame_lua lua" and "\<And>n m. reload_ok (ess n m)"
  shows "inv_result sh conn (exec lua ess sh conn)"
proof (cases "shared_ok sh \<and> conn_ok sh conn")
  case False
  then have "inv_step sh conn sh' conn'" for sh' conn' unfolding inv_step_def by blast
  then show ?thesis by (simp add: inv_result_def split: outcome.splits)
next
  case True
  let ?conn = "conn\<lparr>c_in_multi := False, c_multi_queue := [], c_watched := []\<rparr>"
  have c: "inv_step sh conn sh ?conn" by (rule inv_step_conn) simp_all
  have c': "inv_step sh conn sh (?conn\<lparr>c_multi_error := False\<rparr>)" by (rule inv_step_conn) simp_all
  have k: "inv_step sh conn (sh\<lparr>sh_ks := ks\<rparr>) ?conn" if "watch_ok e w (sh_ks sh) = Some (b, ks)" for e w b ks
    by (rule inv_step_trans [OF c inv_step_ks']) (use watch_ok_ok [OF _ that] in auto)
  have q: "inv_result (sh\<lparr>sh_ks := ks\<rparr>) ?conn (exec_queue lua ess 0 (c_multi_queue conn) (sh\<lparr>sh_ks := ks\<rparr>) ?conn)" for ks
    using True assms by (intro inv_exec_queue) (auto simp: conn_ok_def)
  have r: "inv_result sh conn (outcome_bind (exec_queue lua ess 0 (c_multi_queue conn) (sh\<lparr>sh_ks := ks\<rparr>) ?conn)
      (\<lambda>(fs, sh, conn). Done (Array fs, sh, conn)))" if "watch_ok e w (sh_ks sh) = Some (b, ks)" for e w b ks
    using inv_result_bind [OF q, where f = "\<lambda>(fs, sh, conn). Done (Array fs, sh, conn)"] k [OF that] inv_step_trans
    by (fastforce simp: inv_result_def split: outcome.splits)
  show ?thesis using c c' k r r [of "ess 0 0" "[]" True "sh_ks sh"] unfolding exec_def Let_def
    by (auto split: option.splits bool.splits)
qed

text \<open>Subscribing and unsubscribing keep the connection and the registry in step.\<close>

lemma inv_step_pubsub:
  assumes "pubsub_wf (sh_pubsub sh) \<Longrightarrow> pubsub_wf ps"
    and "pubsub_wf (sh_pubsub sh) \<Longrightarrow> chan_pairs ps - UNIV \<times> {c_id conn} = chan_pairs (sh_pubsub sh) - UNIV \<times> {c_id conn}"
    and "pubsub_wf (sh_pubsub sh) \<Longrightarrow> pat_pairs ps - UNIV \<times> {c_id conn} = pat_pairs (sh_pubsub sh) - UNIV \<times> {c_id conn}"
    and "shared_ok sh \<Longrightarrow> conn_ok sh conn \<Longrightarrow> set chs = {t. (t, c_id conn) \<in> chan_pairs ps} \<and> distinct chs"
    and "shared_ok sh \<Longrightarrow> conn_ok sh conn \<Longrightarrow> set pats = {t. (t, c_id conn) \<in> pat_pairs ps} \<and> distinct pats"
  shows "inv_step sh conn (sh\<lparr>sh_pubsub := ps\<rparr>) (conn\<lparr>c_channels := chs, c_patterns := pats\<rparr>)"
  unfolding inv_step_def
proof (intro impI)
  assume a: "shared_ok sh \<and> conn_ok sh conn"
  then have w: "pubsub_wf (sh_pubsub sh)" by (simp add: shared_ok_def)
  have "(t, j) \<in> chan_pairs ps \<longleftrightarrow> (t, j) \<in> chan_pairs (sh_pubsub sh)"
    "(t, j) \<in> pat_pairs ps \<longleftrightarrow> (t, j) \<in> pat_pairs (sh_pubsub sh)" if "j \<noteq> c_id conn" for t j
    using assms(2,3) [OF w] that by blast+
  then show "shared_ok (sh\<lparr>sh_pubsub := ps\<rparr>)
      \<and> conn_ok (sh\<lparr>sh_pubsub := ps\<rparr>) (conn\<lparr>c_channels := chs, c_patterns := pats\<rparr>)
      \<and> frames (c_id conn) sh (sh\<lparr>sh_pubsub := ps\<rparr>)
      \<and> c_id (conn\<lparr>c_channels := chs, c_patterns := pats\<rparr>) = c_id conn"
    using a assms(1) [OF w] assms(4,5) by (simp add: shared_ok_def conn_ok_def frames_def)
qed

lemma inv_sub_one: "inv_step sh conn (fst (sub_one p t sh conn)) (snd (sub_one p t sh conn))"
proof (cases "t \<in> set (if p then c_patterns conn else c_channels conn)")
  case True
  then show ?thesis by (auto simp: sub_one_def)
next
  case False
  have "inv_step sh conn (sh\<lparr>sh_pubsub := ps_psubscribe t (c_id conn) (sh_pubsub sh)\<rparr>)
      (conn\<lparr>c_channels := c_channels conn, c_patterns := c_patterns conn @ [t]\<rparr>)" if p
    using that False
    by (intro inv_step_pubsub) (auto simp: wf_intros pats.pairs_add shared_ok_def conn_ok_def)
  moreover have "inv_step sh conn (sh\<lparr>sh_pubsub := ps_subscribe t (c_id conn) (sh_pubsub sh)\<rparr>)
      (conn\<lparr>c_channels := c_channels conn @ [t], c_patterns := c_patterns conn\<rparr>)" if "\<not> p"
    using that False
    by (intro inv_step_pubsub) (auto simp: wf_intros chans.pairs_add shared_ok_def conn_ok_def)
  ultimately show ?thesis using False by (simp add: sub_one_def)
qed

lemma inv_unsub_one: "inv_step sh conn (fst (unsub_one p t sh conn)) (snd (unsub_one p t sh conn))"
proof (cases "t \<in> set (if p then c_patterns conn else c_channels conn)")
  case False
  then show ?thesis by (auto simp: unsub_one_def)
next
  case True
  have "inv_step sh conn (sh\<lparr>sh_pubsub := ps_punsubscribe t (c_id conn) (sh_pubsub sh)\<rparr>)
      (conn\<lparr>c_channels := c_channels conn, c_patterns := removeAll t (c_patterns conn)\<rparr>)" if p
    using that True
    by (intro inv_step_pubsub) (auto simp: wf_intros pats.pairs_del shared_ok_def conn_ok_def distinct_removeAll)
  moreover have "inv_step sh conn (sh\<lparr>sh_pubsub := ps_unsubscribe t (c_id conn) (sh_pubsub sh)\<rparr>)
      (conn\<lparr>c_channels := removeAll t (c_channels conn), c_patterns := c_patterns conn\<rparr>)" if "\<not> p"
    using that True
    by (intro inv_step_pubsub) (auto simp: wf_intros chans.pairs_del shared_ok_def conn_ok_def distinct_removeAll)
  ultimately show ?thesis using True by (simp add: unsub_one_def)
qed

lemma inv_for_targets:
  assumes "\<And>t sh conn. inv_step sh conn (fst (f t sh conn)) (snd (f t sh conn))"
  shows "inv_pair sh conn (for_targets f kind ts sh conn)"
proof (induction ts arbitrary: sh conn)
  case (Cons t ts)
  show ?case using inv_pair_after [OF assms Cons.IH, of sh conn t]
    by (simp add: case_prod_unfold Let_def inv_pair_def)
qed simp

lemma inv_subscribe: "inv_pair sh conn (subscribe args p sh conn)" "inv_pair sh conn (unsubscribe args p sh conn)"
  by (simp_all add: subscribe_def unsubscribe_def Let_def inv_for_targets inv_sub_one inv_unsub_one)

lemma inv_reset: "inv_pair sh conn (reset sh conn)"
proof -
  let ?i = "c_id conn"
  let ?ps1 = "fold (\<lambda>ch. ps_unsubscribe ch ?i) (c_channels conn) (sh_pubsub sh)"
  let ?ps = "fold (\<lambda>pat. ps_punsubscribe pat ?i) (c_patterns conn) ?ps1"
  have p1: "pat_pairs (fold (\<lambda>ch. ps_unsubscribe ch ?i) cs ps) = pat_pairs ps" for cs ps
    by (induction cs arbitrary: ps) simp_all
  have p2: "chan_pairs (fold (\<lambda>pat. ps_punsubscribe pat ?i) cs ps) = chan_pairs ps" for cs ps
    by (induction cs arbitrary: ps) simp_all
  have w: "pubsub_wf ?ps" "chan_pairs ?ps = chan_pairs (sh_pubsub sh) - set (c_channels conn) \<times> {?i}"
    "pat_pairs ?ps = pat_pairs (sh_pubsub sh) - set (c_patterns conn) \<times> {?i}" if "pubsub_wf (sh_pubsub sh)"
    using chans.del_all [OF that, of ?i "c_channels conn"] pats.del_all [of ?ps1 ?i "c_patterns conn"] p1 p2 by auto
  have s: "inv_step sh conn (sh\<lparr>sh_pubsub := ?ps\<rparr>) (conn\<lparr>c_channels := [], c_patterns := []\<rparr>)"
    using w by (intro inv_step_pubsub) (auto simp: shared_ok_def conn_ok_def)
  show ?thesis unfolding reset_def Let_def inv_pair_simp
    by (rule inv_step_trans [OF s], rule inv_step_conn) simp_all
qed

section \<open>Every request keeps the invariant\<close>

lemma inv_bzpop: "inv_result sh conn (try_or_block_bzpop e args mn sh conn)"
  using inv_step_put(2) bzpop_try_db_ok
  by (auto simp: try_or_block_bzpop_def Let_def case_prod_unfold split: sum.splits option.splits)

lemma inv_xread:
  assumes "tame_lua lua" and "\<And>n. reload_ok (es n)" and "args \<noteq> []" and "tame args" and "upper (hd args) = ascii ''XREAD''"
  shows "inv_result sh conn (try_or_block_xread lua es args sh conn)"
proof (cases "xread_block_ms args")
  case None
  have "inv_result sh conn (execute lua es (ascii ''XREAD'') args sh conn)"
    using inv_execute [OF assms(1-4)] assms(5) by simp
  then show ?thesis using None
    by (auto simp: try_or_block_xread_def intro!: inv_result_bind)
next
  case (Some ms)
  have "inv_step sh conn (sh\<lparr>sh_ks := (sh_ks sh)[c_db_index conn := snd (resolve_dollar_ids now as db)]\<rparr>) conn"
    "inv_step sh conn (sh\<lparr>sh_ks := (sh_ks sh)[c_db_index conn := snd (xread now as' (snd (resolve_dollar_ids now as db)))]\<rparr>) conn"
    if "ks_db (c_db_index conn) (sh_ks sh) = Some db" for now as as' db
    using inv_step_put(2) [OF that] resolve_dollar_db_ok xread_db_ok by blast+
  then show ?thesis using Some
    by (auto simp: try_or_block_xread_def Let_def case_prod_unfold split: sum.splits option.splits prod.splits)
qed

lemma inv_queue:
  assumes "args \<noteq> []" and "tame args"
  shows "inv_step sh conn sh (snd (queue_command name args conn))"
proof -
  have "inv_step sh conn sh (conn\<lparr>c_multi_error := True\<rparr>)" by (rule inv_step_conn) simp_all
  moreover have "inv_step sh conn sh (conn\<lparr>c_multi_queue := c_multi_queue conn @ [args]\<rparr>)"
    using assms by (auto simp: inv_step_def conn_ok_def)
  ultimately show ?thesis by (simp add: queue_command_def)
qed

lemma inv_multi: "inv_step sh conn sh (snd (multi conn))" "inv_step sh conn sh (snd (discard conn))"
  by (auto simp: multi_def discard_def intro!: inv_step_conn)

lemma inv_one_reply: "inv_result sh conn r \<Longrightarrow> inv_result sh conn (one_reply r)"
  by (auto simp: one_reply_def intro!: inv_result_bind)

lemma inv_if_cond:
  "(b \<Longrightarrow> inv_result sh conn r) \<Longrightarrow> inv_result sh conn s \<Longrightarrow> inv_result sh conn (if b then r else s)"
  by simp

lemma inv_handle_plain:
  assumes "tame_lua lua" and "\<And>n. reload_ok (es n)" and "args \<noteq> []" and "tame args"
  shows "inv_result sh conn (handle_plain lua es (upper (hd args)) args sh conn)"
proof -
  have x: "upper (hd args) = ascii ''XREAD'' \<Longrightarrow> inv_result sh conn (try_or_block_xread lua es args sh conn)"
    using assms by (intro inv_xread)
  have e: "inv_result sh conn (one_reply (execute lua es (upper (hd args)) args sh conn))"
    using assms by (intro inv_one_reply inv_execute)
  show ?thesis
    unfolding handle_plain_def case_prod_unfold Let_def
    by (intro inv_if_cond e) (simp_all add: x inv_bzpop inv_pair_def inv_subscribe [unfolded inv_pair_def] inv_reset [unfolded inv_pair_def])
qed

lemma inv_handle:
  assumes "tame_lua lua" and "\<And>n m. reload_ok (ess n m)" and "tame args"
  shows "inv_result sh conn (handle lua ess args sh conn)"
proof (cases "args = []")
  case False
  have "inv_step sh conn sh (conn\<lparr>c_watched := []\<rparr>)" by (rule inv_step_conn) simp_all
  then show ?thesis
    unfolding handle_def Let_def case_prod_unfold if_not_P [OF False]
    using inv_handle_plain [OF assms(1) _ False assms(3), of "ess 0" sh conn] assms(2)
      inv_one_reply [OF inv_exec [OF assms(1,2)], of sh conn] inv_one_reply [OF inv_watch] inv_queue [OF False assms(3)]
    by (intro inv_if(2)) (simp_all add: inv_multi)
qed (simp add: handle_def)

lemma inv_retry_block:
  assumes "tame_lua lua" and "\<And>n. reload_ok (es n)" and "tame (br_args req)"
  shows "inv_result sh conn (retry_block lua es req sh conn)"
proof (cases "br_args req = [] \<or> sh_poisoned sh")
  case True
  then show ?thesis by (auto simp: retry_block_def)
next
  case False
  have b: "inv_step sh conn (sh\<lparr>sh_ks := (sh_ks sh)[c_db_index conn := snd (bzpop_try now keys mn db)]\<rparr>) conn"
    "inv_step sh conn (sh\<lparr>sh_ks := (sh_ks sh)[c_db_index conn := snd (xread now as db)]\<rparr>) conn"
    if "ks_db (c_db_index conn) (sh_ks sh) = Some db" for now keys mn as db
    using inv_step_put(2) [OF that] bzpop_try_db_ok xread_db_ok by blast+
  have e: "inv_result sh conn (outcome_bind (execute_locked lua es (upper (hd (br_args req))) (br_args req) sh conn)
      (\<lambda>(f, sh, conn). Done (Some f, sh, conn)))"
    using False inv_execute_locked [OF assms(1,2) _ assms(3)] by (auto intro!: inv_result_bind)
  show ?thesis unfolding retry_block_def if_not_P [OF False] Let_def
    using b e by (intro inv_if(2)) (auto simp: case_prod_unfold split: option.splits)
qed

end
