(* ===== verification/System.thy ===== *)
theory System
  imports Handle_Inv
begin

text \<open>
  The running server (src/main.rs: \<open>accept_tcp\<close>, \<open>handle_connection\<close>, \<open>block_until_ready\<close> and the
  sweeping task of \<open>serve\<close>) as a step relation over the shared state and the open connections. The
  tasks interleave between their await points; each step is what one task does between two of them.
  The bytes written to a client are appended to \<open>se_out\<close>.
\<close>

section \<open>State\<close>

record session =
  se_conn :: conn_state
  se_blocked :: "block_req option"
  se_buf :: bytes
  se_out :: bytes

record system =
  sys_shared :: shared
  sys_sessions :: "(u64 \<times> session) list"

definition conn_new :: "u64 \<Rightarrow> bytes \<Rightarrow> conn_state" where
  "conn_new i addr =
     \<lparr>c_id = i, c_addr = addr, c_name = [], c_resp3 = False, c_db_index = 0, c_authenticated = False,
      c_channels = [], c_patterns = [], c_in_multi = False, c_multi_queue = [], c_multi_error = False,
      c_watched = []\<rparr>"

text \<open>\<open>Shared::new\<close>, with the configuration table and the run id as arguments.\<close>

definition shared_new ::
    "bytes option \<Rightarrow> nat \<Rightarrow> nat \<Rightarrow> nat \<Rightarrow> bool \<Rightarrow> bytes option \<Rightarrow> (bytes \<times> bytes) list \<Rightarrow> bytes \<Rightarrow> u64 \<Rightarrow> shared" where
  "shared_new requirepass port maxclients databases verbose dumpfile cfg run_id now =
     \<lparr>sh_ks = ks_new databases, sh_poisoned = False, sh_pubsub = pubsub_default, sh_mail = [], sh_rng = 0,
      sh_requirepass = requirepass, sh_config = cfg, sh_scripts = [], sh_clients = [], sh_run_id = run_id,
      sh_commands_processed = 0, sh_connections_received = 0, sh_next_client_id = 1, sh_verbose = verbose,
      sh_dumpfile = dumpfile, sh_last_save = now div 1000, sh_port = port, sh_maxclients = maxclients\<rparr>"

section \<open>Connecting and leaving\<close>

text \<open>The id is taken first; over the limit the client only gets an error.\<close>

definition accept :: "bytes \<Rightarrow> system \<Rightarrow> system" where
  "accept addr s =
     (let sh = sys_shared s; i = sh_next_client_id sh;
          sh = sh\<lparr>sh_next_client_id := i + 1, sh_connections_received := sh_connections_received sh + 1\<rparr>
      in if sh_maxclients sh \<le> length (sh_clients sh) then s\<lparr>sys_shared := sh\<rparr>
         else
           let info = \<lparr>ci_id = i, ci_addr = addr, ci_name = [], ci_resp3 = False, ci_db = 0\<rparr>;
               sh = sh\<lparr>sh_clients := AList.update i info (sh_clients sh), sh_mail := AList.update i [] (sh_mail sh)\<rparr>;
               se = \<lparr>se_conn = conn_new i addr, se_blocked = None, se_buf = [], se_out = []\<rparr>
           in s\<lparr>sys_shared := sh, sys_sessions := AList.update i se (sys_sessions s)\<rparr>)"

text \<open>The end of \<open>handle_connection\<close>; the receiver is dropped with the task.\<close>

definition teardown :: "u64 \<Rightarrow> system \<Rightarrow> system" where
  "teardown i s =
     (let sh = sys_shared s
      in s\<lparr>sys_shared := sh\<lparr>sh_pubsub := ps_remove_client i (sh_pubsub sh),
             sh_clients := AList.delete i (sh_clients sh), sh_mail := AList.delete i (sh_mail sh)\<rparr>,
           sys_sessions := AList.delete i (sys_sessions s)\<rparr>)"

text \<open>A task that ends early, by the \<open>?\<close> after a failed read or write or by a panic.\<close>

definition drop_task :: "u64 \<Rightarrow> system \<Rightarrow> system" where
  "drop_task i s =
     (let sh = sys_shared s
      in s\<lparr>sys_shared := sh\<lparr>sh_mail := AList.delete i (sh_mail sh)\<rparr>,
           sys_sessions := AList.delete i (sys_sessions s)\<rparr>)"

definition crash_task :: "u64 \<Rightarrow> system \<Rightarrow> system" where
  "crash_task i s = drop_task i (s\<lparr>sys_shared := (sys_shared s)\<lparr>sh_poisoned := True\<rparr>\<rparr>)"

section \<open>Serving\<close>

definition write_frames :: "frame list \<Rightarrow> session \<Rightarrow> session" where
  "write_frames fs se = se\<lparr>se_out := se_out se @ concat (map (encode (c_resp3 (se_conn se))) fs)\<rparr>"

datatype served = Idle | Continue session shared | Closing session shared | Crashed | Stopped

text \<open>What the loop does with a handled command.\<close>

fun after_reply :: "handled \<Rightarrow> session \<Rightarrow> served" where
  "after_reply (Done (r, sh, conn)) se =
     (let se = se\<lparr>se_conn := conn\<rparr> in
      case r of
        NoReply \<Rightarrow> Continue se sh
      | One f \<Rightarrow> Continue (write_frames [f] se) sh
      | Many fs \<Rightarrow> Continue (write_frames fs se) sh
      | Close f \<Rightarrow> Closing (write_frames [f] se) sh
      | Block req \<Rightarrow> Continue (se\<lparr>se_blocked := Some req\<rparr>) sh)"
| "after_reply Panicked se = Crashed"
| "after_reply Exited se = Stopped"

definition serve_one :: "lua_impl \<Rightarrow> (nat \<Rightarrow> nat \<Rightarrow> env) \<Rightarrow> session \<Rightarrow> shared \<Rightarrow> served" where
  "serve_one lua ess se sh =
     (case parse_command (se_buf se) of
        (Inr (Some args), buf) \<Rightarrow>
          after_reply
            (handle lua ess args (sh\<lparr>sh_commands_processed := sh_commands_processed sh + 1\<rparr>) (se_conn se))
            (se\<lparr>se_buf := buf\<rparr>)
      | (Inr None, _) \<Rightarrow> Idle
      | (Inl Incomplete, _) \<Rightarrow> Idle
      | (Inl (Protocol msg), buf) \<Rightarrow>
          Closing (write_frames [ErrorF (ascii ''ERR Protocol error: '' @ msg)] (se\<lparr>se_buf := buf\<rparr>)) sh)"

text \<open>One round of \<open>block_until_ready\<close>: the deadline is looked at before the command is retried.\<close>

definition wake :: "lua_impl \<Rightarrow> (nat \<Rightarrow> env) \<Rightarrow> block_req \<Rightarrow> session \<Rightarrow> shared \<Rightarrow> served" where
  "wake lua es req se sh =
     (if (case br_deadline_ms req of Some d \<Rightarrow> d \<le> env_now (es 0) | None \<Rightarrow> False) then
        Continue (write_frames [br_timeout_reply req] (se\<lparr>se_blocked := None\<rparr>)) sh
      else case retry_block lua es req sh (se_conn se) of
        Done (Some f, sh, conn) \<Rightarrow>
          Continue (write_frames [f] (se\<lparr>se_conn := conn, se_blocked := None\<rparr>)) sh
      | Done (None, sh, conn) \<Rightarrow> Continue (se\<lparr>se_conn := conn\<rparr>) sh
      | Panicked \<Rightarrow> Crashed
      | Exited \<Rightarrow> Stopped)"

definition put_session :: "u64 \<Rightarrow> session \<Rightarrow> shared \<Rightarrow> system \<Rightarrow> system" where
  "put_session i se sh s = s\<lparr>sys_shared := sh, sys_sessions := AList.update i se (sys_sessions s)\<rparr>"

text \<open>The other branch of the \<open>select!\<close>: everything in the mailbox is written out.\<close>

definition push_mail :: "u64 \<Rightarrow> frame list \<Rightarrow> session \<Rightarrow> system \<Rightarrow> system" where
  "push_mail i fs se s =
     (let sh = sys_shared s
      in put_session i (write_frames fs se) (sh\<lparr>sh_mail := AList.update i [] (sh_mail sh)\<rparr>) s)"

definition sweep :: "u64 \<Rightarrow> shared \<Rightarrow> shared" where
  "sweep now sh = sh\<lparr>sh_ks := map (db_sweep_expired now) (sh_ks sh)\<rparr>"

section \<open>Steps\<close>

text \<open>
  The surroundings a run may meet: the scripts and requests do not add infinity to a hash field, and
  reloading the keyspace keeps its shape.
\<close>

definition fine_args :: "bytes \<Rightarrow> bool" where
  "fine_args buf \<longleftrightarrow> (case parse_command buf of (Inr (Some args), _) \<Rightarrow> tame args | _ \<Rightarrow> True)"

definition fine_envs :: "(nat \<Rightarrow> nat \<Rightarrow> env) \<Rightarrow> bool" where
  "fine_envs ess \<longleftrightarrow> (\<forall>n m. reload_ok (ess n m))"

inductive step :: "lua_impl \<Rightarrow> system \<Rightarrow> system \<Rightarrow> bool" for lua where
  connect: "sh_next_client_id (sys_shared s) \<noteq> - 1 \<Longrightarrow> step lua s (accept addr s)"
| receive: "map_of (sys_sessions s) i = Some se \<Longrightarrow> se_blocked se = None \<Longrightarrow>
    step lua s (put_session i (se\<lparr>se_buf := se_buf se @ bs\<rparr>) (sys_shared s) s)"
| request: "map_of (sys_sessions s) i = Some se \<Longrightarrow> se_blocked se = None \<Longrightarrow>
    fine_envs ess \<Longrightarrow> fine_args (se_buf se) \<Longrightarrow>
    serve_one lua ess se (sys_shared s) = Continue se' sh' \<Longrightarrow> step lua s (put_session i se' sh' s)"
| quit: "map_of (sys_sessions s) i = Some se \<Longrightarrow> se_blocked se = None \<Longrightarrow>
    fine_envs ess \<Longrightarrow> fine_args (se_buf se) \<Longrightarrow>
    serve_one lua ess se (sys_shared s) = Closing se' sh' \<Longrightarrow> step lua s (teardown i (put_session i se' sh' s))"
| request_crash: "map_of (sys_sessions s) i = Some se \<Longrightarrow> se_blocked se = None \<Longrightarrow>
    serve_one lua ess se (sys_shared s) = Crashed \<Longrightarrow> step lua s (crash_task i s)"
| retry: "map_of (sys_sessions s) i = Some se \<Longrightarrow> se_blocked se = Some req \<Longrightarrow> fine_envs ess \<Longrightarrow>
    wake lua (ess 0) req se (sys_shared s) = Continue se' sh' \<Longrightarrow> step lua s (put_session i se' sh' s)"
| retry_crash: "map_of (sys_sessions s) i = Some se \<Longrightarrow> se_blocked se = Some req \<Longrightarrow>
    wake lua es req se (sys_shared s) = Crashed \<Longrightarrow> step lua s (crash_task i s)"
| deliver: "map_of (sys_sessions s) i = Some se \<Longrightarrow> se_blocked se = None \<Longrightarrow>
    map_of (sh_mail (sys_shared s)) i = Some fs \<Longrightarrow> fs \<noteq> [] \<Longrightarrow> step lua s (push_mail i fs se s)"
| hangup: "map_of (sys_sessions s) i = Some se \<Longrightarrow> se_blocked se = None \<Longrightarrow> step lua s (teardown i s)"
| io_error: "map_of (sys_sessions s) i = Some se \<Longrightarrow> se_blocked se = None \<Longrightarrow> step lua s (drop_task i s)"
| tick: "\<not> sh_poisoned (sys_shared s) \<Longrightarrow> step lua s (s\<lparr>sys_shared := sweep now (sys_shared s)\<rparr>)"

inductive reachable :: "lua_impl \<Rightarrow> system \<Rightarrow> system \<Rightarrow> bool" for lua where
  start: "reachable lua s s"
| next_step: "reachable lua s s' \<Longrightarrow> step lua s' s'' \<Longrightarrow> reachable lua s s''"

definition boot :: "shared \<Rightarrow> system" where
  "boot sh = \<lparr>sys_shared = sh, sys_sessions = []\<rparr>"

section \<open>The invariant\<close>

definition req_ok :: "session \<Rightarrow> bool" where
  "req_ok se \<longleftrightarrow> (case se_blocked se of None \<Rightarrow> True | Some req \<Rightarrow> tame (br_args req))"

text \<open>
  Every open connection is in step with the shared state and owns its mailbox; the ids handed out so
  far, also those of subscriptions and registry entries left behind, lie below the next one.
\<close>

definition sys_ok :: "system \<Rightarrow> bool" where
  "sys_ok s \<longleftrightarrow>
     (let sh = sys_shared s in
      shared_ok sh \<and> sh_ks sh \<noteq> []
      \<and> (\<forall>i se. map_of (sys_sessions s) i = Some se \<longrightarrow>
           c_id (se_conn se) = i \<and> conn_ok sh (se_conn se) \<and> req_ok se)
      \<and> dom (map_of (sh_mail sh)) = dom (map_of (sys_sessions s))
      \<and> dom (map_of (sys_sessions s)) \<subseteq> dom (map_of (sh_clients sh))
      \<and> distinct (map fst (sh_clients sh)) \<and> length (sh_clients sh) \<le> sh_maxclients sh
      \<and> (\<forall>i\<in>dom (map_of (sh_clients sh)). i < sh_next_client_id sh)
      \<and> (\<forall>(t, i)\<in>chan_pairs (sh_pubsub sh) \<union> pat_pairs (sh_pubsub sh). i < sh_next_client_id sh))"

lemma sys_okI:
  assumes "shared_ok (sys_shared s)" and "sh_ks (sys_shared s) \<noteq> []"
    and "\<And>i se. map_of (sys_sessions s) i = Some se \<Longrightarrow>
      c_id (se_conn se) = i \<and> conn_ok (sys_shared s) (se_conn se) \<and> req_ok se"
    and "dom (map_of (sh_mail (sys_shared s))) = dom (map_of (sys_sessions s))"
    and "dom (map_of (sys_sessions s)) \<subseteq> dom (map_of (sh_clients (sys_shared s)))"
    and "distinct (map fst (sh_clients (sys_shared s)))"
    and "length (sh_clients (sys_shared s)) \<le> sh_maxclients (sys_shared s)"
    and "\<And>i. i \<in> dom (map_of (sh_clients (sys_shared s))) \<Longrightarrow> i < sh_next_client_id (sys_shared s)"
    and "\<And>t i. (t, i) \<in> chan_pairs (sh_pubsub (sys_shared s)) \<or> (t, i) \<in> pat_pairs (sh_pubsub (sys_shared s)) \<Longrightarrow>
      i < sh_next_client_id (sys_shared s)"
  shows "sys_ok s"
  unfolding sys_ok_def Let_def using assms by (intro conjI) blast+

lemma sys_ok_facts:
  assumes "sys_ok s"
  shows "shared_ok (sys_shared s)" "sh_ks (sys_shared s) \<noteq> []"
    "dom (map_of (sh_mail (sys_shared s))) = dom (map_of (sys_sessions s))"
    "dom (map_of (sys_sessions s)) \<subseteq> dom (map_of (sh_clients (sys_shared s)))"
    "distinct (map fst (sh_clients (sys_shared s)))"
    "length (sh_clients (sys_shared s)) \<le> sh_maxclients (sys_shared s)"
    "i \<in> dom (map_of (sh_clients (sys_shared s))) \<Longrightarrow> i < sh_next_client_id (sys_shared s)"
    "(t, i) \<in> chan_pairs (sh_pubsub (sys_shared s)) \<or> (t, i) \<in> pat_pairs (sh_pubsub (sys_shared s)) \<Longrightarrow>
      i < sh_next_client_id (sys_shared s)"
  using assms unfolding sys_ok_def Let_def by blast+

lemma sys_okD:
  assumes "sys_ok s" and "map_of (sys_sessions s) i = Some se"
  shows "c_id (se_conn se) = i" "conn_ok (sys_shared s) (se_conn se)" "req_ok se"
    "i \<in> dom (map_of (sh_clients (sys_shared s)))" "i < sh_next_client_id (sys_shared s)"
proof -
  show "c_id (se_conn se) = i" "conn_ok (sys_shared s) (se_conn se)" "req_ok se"
    using assms unfolding sys_ok_def Let_def by blast+
  show d: "i \<in> dom (map_of (sh_clients (sys_shared s)))" using sys_ok_facts(4) [OF assms(1)] assms(2) by blast
  show "i < sh_next_client_id (sys_shared s)" using sys_ok_facts(7) [OF assms(1) d] .
qed

text \<open>A step of the connection \<open>i\<close> that the invariant of the handlers covers.\<close>

lemma sys_ok_put:
  assumes "sys_ok s" and "map_of (sys_sessions s) i = Some se"
    and "inv_step (sys_shared s) (se_conn se) sh' (se_conn se')" and "req_ok se'"
  shows "sys_ok (put_session i se' sh' s)"
proof -
  note d = sys_okD [OF assms(1,2)] and k = sys_ok_facts [OF assms(1)]
  let ?sh = "sys_shared s"
  have i: "shared_ok sh'" "conn_ok sh' (se_conn se')" "frames i ?sh sh'" "c_id (se_conn se') = i"
    using assms(3) d k(1) by (auto simp: inv_step_def)
  have c: "map fst (sh_clients sh') = map fst (sh_clients ?sh)" using i(3) by (simp add: frames_def)
  then have cd: "dom (map_of (sh_clients sh')) = dom (map_of (sh_clients ?sh))"
    by (metis dom_map_of_conv_image_fst list.set_map)
  have cl: "length (sh_clients sh') = length (sh_clients ?sh)" using c by (metis length_map)
  have f: "length (sh_ks sh') = length (sh_ks ?sh)" "dom (map_of (sh_mail sh')) = dom (map_of (sh_mail ?sh))"
    "sh_next_client_id sh' = sh_next_client_id ?sh" "sh_maxclients sh' = sh_maxclients ?sh"
    using i(3) by (simp_all add: frames_def)
  have sd: "dom (map_of (AList.update i se' (sys_sessions s))) = dom (map_of (sys_sessions s))"
    using assms(2) by (auto simp: update_conv')
  show ?thesis
  proof (rule sys_okI)
    show "sh_ks (sys_shared (put_session i se' sh' s)) \<noteq> []"
      using f(1) k(2) by (auto simp: put_session_def)
    show "c_id (se_conn se1) = j \<and> conn_ok (sys_shared (put_session i se' sh' s)) (se_conn se1) \<and> req_ok se1"
      if "map_of (sys_sessions (put_session i se' sh' s)) j = Some se1" for j se1
      using that i assms(4) sys_okD(1-3) [OF assms(1), of j se1] conn_ok_frames [OF _ i(3)]
      by (cases "j = i") (auto simp: put_session_def update_conv')
    show "j < sh_next_client_id (sys_shared (put_session i se' sh' s))"
      if "(t, j) \<in> chan_pairs (sh_pubsub (sys_shared (put_session i se' sh' s)))
        \<or> (t, j) \<in> pat_pairs (sh_pubsub (sys_shared (put_session i se' sh' s)))" for t j
      using that i(3) d(5) k(8) [of t j] by (cases "j = i") (auto simp: frames_def put_session_def)
  qed (use i(1) f c cd cl k sd in \<open>auto simp: put_session_def\<close>)
qed

lemma id_less_next:
  fixes x :: u64
  assumes "x \<noteq> - 1"
  shows "x < x + 1"
proof -
  have "unat x \<noteq> unat (- 1 :: u64)" using assms by (simp add: word_unat_eq_iff)
  moreover have "unat x < 2 ^ 64" using unsigned_less [of x] by simp
  moreover have "unat (- 1 :: u64) = 2 ^ 64 - 1" by (simp add: unsigned_minus_1_eq_mask mask_eq_exp_minus_1)
  ultimately have "unat x + 1 < 2 ^ 64" by linarith
  then have "unat (x + 1) = unat x + 1" by (simp add: unat_word_ariths)
  then show ?thesis by (simp add: word_less_nat_alt)
qed

lemma sys_ok_accept:
  assumes "sys_ok s" and "sh_next_client_id (sys_shared s) \<noteq> - 1"
  shows "sys_ok (accept addr s)"
proof -
  note k = sys_ok_facts [OF assms(1)]
  let ?sh = "sys_shared s"
  let ?i = "sh_next_client_id ?sh"
  have lt: "?i < ?i + 1" using assms(2) by (rule id_less_next)
  have mono: "j < ?i + 1" if "j < ?i" for j using that lt by simp
  have new: "?i \<notin> dom (map_of (sh_clients ?sh))" using k(7) by blast
  have np: "(t, ?i) \<notin> chan_pairs (sh_pubsub ?sh)" "(t, ?i) \<notin> pat_pairs (sh_pubsub ?sh)" for t using k(8) by blast+
  show ?thesis
  proof (cases "sh_maxclients ?sh \<le> length (sh_clients ?sh)")
    case True
    have "conn_ok (?sh\<lparr>sh_next_client_id := ?i + 1, sh_connections_received := n\<rparr>) c = conn_ok ?sh c" for c n
      by (simp add: conn_ok_def)
    then show ?thesis using True k mono sys_okD(1-3) [OF assms(1)]
      by (intro sys_okI) (auto simp: accept_def Let_def shared_ok_def)
  next
    case False
    let ?info = "\<lparr>ci_id = ?i, ci_addr = addr, ci_name = [], ci_resp3 = False, ci_db = 0\<rparr>"
    let ?sh1 = "?sh\<lparr>sh_next_client_id := ?i + 1, sh_connections_received := sh_connections_received ?sh + 1,
        sh_clients := AList.update ?i ?info (sh_clients ?sh), sh_mail := AList.update ?i [] (sh_mail ?sh)\<rparr>"
    let ?se = "\<lparr>se_conn = conn_new ?i addr, se_blocked = None, se_buf = [], se_out = []\<rparr>"
    have e: "accept addr s = s\<lparr>sys_shared := ?sh1, sys_sessions := AList.update ?i ?se (sys_sessions s)\<rparr>"
      using False by (simp add: accept_def Let_def)
    have "conn_ok ?sh1 (se_conn se)" if "conn_ok ?sh (se_conn se)" "c_id (se_conn se) \<noteq> ?i" for se
      using that by (auto simp: conn_ok_def update_conv')
    moreover have "conn_ok ?sh1 (conn_new ?i addr)"
      using k(2) np by (auto simp: conn_ok_def conn_new_def update_conv')
    moreover have "map_of (sys_sessions s) ?i = None" using k(4) new by (auto simp: domIff)
    ultimately have c: "c_id (se_conn se) = j \<and> conn_ok ?sh1 (se_conn se) \<and> req_ok se"
      if "map_of (AList.update ?i ?se (sys_sessions s)) j = Some se" for j se
      using that sys_okD(1-3) [OF assms(1), of j se]
      by (cases "j = ?i") (auto simp: update_conv' conn_new_def req_ok_def)
    have keys: "map fst (sh_clients ?sh1) = map fst (sh_clients ?sh) @ [?i]"
      using new by (simp add: update_keys dom_map_of_conv_image_fst)
    then have "length (sh_clients ?sh1) = length (sh_clients ?sh) + 1"
      by (metis length_append_singleton length_map Suc_eq_plus1)
    moreover have "distinct (map fst (sh_clients ?sh1))" unfolding keys using k(5) new
      by (simp add: dom_map_of_conv_image_fst)
    moreover have "j < ?i" if "map_of (sh_clients ?sh) j = Some y" for j y using k(7) that by blast
    ultimately show ?thesis unfolding e using False k(1-6,8) mono lt c
      by (intro sys_okI) (auto simp: shared_ok_def update_conv')
  qed
qed

lemma sys_ok_leave:
  assumes "sys_ok s" and "pubsub_wf ps"
    and "\<And>j t. j \<noteq> i \<Longrightarrow> (t, j) \<in> chan_pairs ps \<longleftrightarrow> (t, j) \<in> chan_pairs (sh_pubsub (sys_shared s))"
    and "\<And>j t. j \<noteq> i \<Longrightarrow> (t, j) \<in> pat_pairs ps \<longleftrightarrow> (t, j) \<in> pat_pairs (sh_pubsub (sys_shared s))"
    and "\<And>t. (t, i) \<in> chan_pairs ps \<or> (t, i) \<in> pat_pairs ps \<Longrightarrow> i < sh_next_client_id (sys_shared s)"
    and "cl = sh_clients (sys_shared s) \<or> cl = AList.delete i (sh_clients (sys_shared s))"
  shows "sys_ok (s\<lparr>sys_shared := (sys_shared s)\<lparr>sh_poisoned := b, sh_pubsub := ps, sh_clients := cl,
      sh_mail := AList.delete i (sh_mail (sys_shared s))\<rparr>, sys_sessions := AList.delete i (sys_sessions s)\<rparr>)"
    (is "sys_ok ?s")
proof (rule sys_okI)
  note k = sys_ok_facts [OF assms(1)]
  have cl: "map_of cl j = map_of (sh_clients (sys_shared s)) j" if "j \<noteq> i" for j
    using assms(6) that by (auto simp: delete_conv')
  have sub: "dom (map_of cl) \<subseteq> dom (map_of (sh_clients (sys_shared s)))"
    using assms(6) by (auto simp: delete_conv' split: if_splits)
  show "shared_ok (sys_shared ?s)" using k(1) assms(2) by (simp add: shared_ok_def)
  show "sh_ks (sys_shared ?s) \<noteq> []" using k(2) by simp
  show "c_id (se_conn se) = j \<and> conn_ok (sys_shared ?s) (se_conn se) \<and> req_ok se"
    if "map_of (sys_sessions ?s) j = Some se" for j se
  proof -
    from that have j: "j \<noteq> i" "map_of (sys_sessions s) j = Some se" by (auto simp: delete_conv' split: if_splits)
    then have "conn_ok (sys_shared ?s) (se_conn se)"
      using sys_okD(1,2) [OF assms(1) j(2)] cl [OF j(1)] assms(3,4) [OF j(1)] by (simp add: conn_ok_def)
    then show ?thesis using sys_okD [OF assms(1) j(2)] by simp
  qed
  show "dom (map_of (sh_mail (sys_shared ?s))) = dom (map_of (sys_sessions ?s))"
    using k(3) by (auto simp: delete_conv')
  show "dom (map_of (sys_sessions ?s)) \<subseteq> dom (map_of (sh_clients (sys_shared ?s)))"
  proof
    fix j assume "j \<in> dom (map_of (sys_sessions ?s))"
    then have "j \<noteq> i" "j \<in> dom (map_of (sys_sessions s))" by (auto simp: delete_conv' split: if_splits)
    then show "j \<in> dom (map_of (sh_clients (sys_shared ?s)))" using k(4) cl by (auto simp: domIff)
  qed
  show "distinct (map fst (sh_clients (sys_shared ?s)))" using k(5) assms(6) by (auto simp: distinct_delete)
  show "length (sh_clients (sys_shared ?s)) \<le> sh_maxclients (sys_shared ?s)"
    using k(6) assms(6) length_delete_le [of i "sh_clients (sys_shared s)"] by auto
  show "j < sh_next_client_id (sys_shared ?s)" if "j \<in> dom (map_of (sh_clients (sys_shared ?s)))" for j
    using that sub k(7) by auto
  show "j < sh_next_client_id (sys_shared ?s)"
    if "(t, j) \<in> chan_pairs (sh_pubsub (sys_shared ?s)) \<or> (t, j) \<in> pat_pairs (sh_pubsub (sys_shared ?s))" for t j
    using that assms(5) [of t] assms(3,4) [of j t] k(8) [of t j] by (cases "j = i") auto
qed

lemma sys_ok_teardown: "sys_ok s \<Longrightarrow> sys_ok (teardown i s)"
proof -
  assume s: "sys_ok s"
  then have "pubsub_wf (sh_pubsub (sys_shared s))" using sys_ok_facts(1) by (simp add: shared_ok_def)
  then show ?thesis
    using sys_ok_leave [OF s, of "ps_remove_client i (sh_pubsub (sys_shared s))" i
        "AList.delete i (sh_clients (sys_shared s))" "sh_poisoned (sys_shared s)"]
    by (simp add: teardown_def Let_def wf_intros)
qed

lemma sys_ok_drop: "sys_ok s \<Longrightarrow> sys_ok (drop_task i s)" "sys_ok s \<Longrightarrow> sys_ok (crash_task i s)"
proof -
  assume s: "sys_ok s"
  then have "pubsub_wf (sh_pubsub (sys_shared s))" using sys_ok_facts(1) by (simp add: shared_ok_def)
  from sys_ok_leave [OF s this, of i "sh_clients (sys_shared s)"] sys_ok_facts(8) [OF s]
  have l: "sys_ok (s\<lparr>sys_shared := (sys_shared s)\<lparr>sh_poisoned := b, sh_pubsub := sh_pubsub (sys_shared s),
      sh_clients := sh_clients (sys_shared s), sh_mail := AList.delete i (sh_mail (sys_shared s))\<rparr>,
      sys_sessions := AList.delete i (sys_sessions s)\<rparr>)" for b by blast
  show "sys_ok (drop_task i s)" using l [of "sh_poisoned (sys_shared s)"] by (simp add: drop_task_def Let_def)
  show "sys_ok (crash_task i s)" using l [of True] by (simp add: crash_task_def drop_task_def Let_def)
qed

lemma sys_ok_sweep:
  assumes "sys_ok s"
  shows "sys_ok (s\<lparr>sys_shared := sweep now (sys_shared s)\<rparr>)"
proof -
  note k = sys_ok_facts [OF assms]
  have "conn_ok (sweep now (sys_shared s)) c" if "conn_ok (sys_shared s) c" for c
    using that by (simp add: conn_ok_def sweep_def)
  moreover have "shared_ok (sweep now (sys_shared s))"
    using k(1) by (auto simp: shared_ok_def sweep_def ks_ok_def db_ok_sweep)
  ultimately show ?thesis using k sys_okD(1-3) [OF assms] by (intro sys_okI) (auto simp: sweep_def)
qed

lemma sys_ok_push:
  assumes "sys_ok s" and "map_of (sys_sessions s) i = Some se"
    and "map_of (sh_mail (sys_shared s)) i = Some fs"
  shows "sys_ok (push_mail i fs se s)"
  unfolding push_mail_def Let_def
proof (rule sys_ok_put [OF assms(1,2)])
  show "inv_step (sys_shared s) (se_conn se) ((sys_shared s)\<lparr>sh_mail := AList.update i [] (sh_mail (sys_shared s))\<rparr>)
      (se_conn (write_frames fs se))"
    using assms(3) by (auto simp: write_frames_def update_conv' intro!: inv_step_shared split: if_splits)
  show "req_ok (write_frames fs se)" using sys_okD(3) [OF assms(1,2)] by (simp add: req_ok_def write_frames_def)
qed

section \<open>What blocks\<close>

lemma dollar_loop_hd: "0 < sidx \<Longrightarrow> as \<noteq> [] \<Longrightarrow>
    hd (fst (dollar_loop now sidx n ks as db)) = hd as \<and> fst (dollar_loop now sidx n ks as db) \<noteq> []"
proof (induction ks arbitrary: as db)
  case (Cons k ks)
  have "hd (as[sidx + n + k := x]) = hd as" for x using Cons.prems by (cases as) (auto split: nat.splits)
  then show ?case using Cons by (auto simp: Let_def case_prod_unfold)
qed simp

lemma resolve_dollar_hd:
  assumes "fst (resolve_dollar_ids now args db) = Inr as" and "args \<noteq> []"
  shows "hd as = hd args \<and> as \<noteq> []"
  using assms dollar_loop_hd [of "Suc i" args now n ks db for i n ks]
  by (auto simp: resolve_dollar_ids_def Let_def case_prod_unfold split: option.splits if_splits)

definition blocking_names :: "bytes set" where
  "blocking_names = {ascii ''BZPOPMIN'', ascii ''BZPOPMAX'', ascii ''XREAD''}"

lemma blocking_tame: "args \<noteq> [] \<Longrightarrow> upper (hd args) \<in> blocking_names \<Longrightarrow> tame args"
  by (auto simp: tame_def blocking_names_def ascii_def)

lemma one_reply_not_block: "one_reply r \<noteq> Done (Block req, sh, conn)"
  by (cases r) (auto simp: one_reply_def split: prod.splits)

lemma handle_plain_block:
  assumes "handle_plain lua es name args sh conn = Done (Block req, sh', conn')" and "args \<noteq> []" and "name = upper (hd args)"
  shows "br_args req \<noteq> [] \<and> upper (hd (br_args req)) \<in> blocking_names"
proof -
  have b: "br_args req \<noteq> [] \<and> upper (hd (br_args req)) = upper (hd args)"
    if "try_or_block_bzpop (es 0) args mn sh conn = Done (Block req, sh', conn')" for mn
    using that assms(2)
    by (auto simp: try_or_block_bzpop_def Let_def case_prod_unfold split: sum.splits option.splits if_splits)
  have x: "br_args req \<noteq> [] \<and> upper (hd (br_args req)) = upper (hd args)"
    if "try_or_block_xread lua es args sh conn = Done (Block req, sh', conn')"
  proof (cases "xread_block_ms args")
    case None
    then have "try_or_block_xread lua es args sh conn = one_reply (execute lua es (ascii ''XREAD'') args sh conn)"
      by (simp add: try_or_block_xread_def one_reply_def)
    then show ?thesis using that one_reply_not_block by metis
  next
    case (Some ms)
    then show ?thesis using that assms(2) resolve_dollar_hd [OF _ assms(2)]
      by (auto simp: try_or_block_xread_def Let_def case_prod_unfold split: sum.splits option.splits if_splits prod.splits)
  qed
  show ?thesis using assms(1,3) b x one_reply_not_block unfolding handle_plain_def Let_def case_prod_unfold blocking_names_def
    by (simp split: if_splits)
qed

lemma handle_block:
  assumes "handle lua ess args sh conn = Done (Block req, sh', conn')"
  shows "br_args req \<noteq> [] \<and> upper (hd (br_args req)) \<in> blocking_names"
  using assms handle_plain_block one_reply_not_block unfolding handle_def Let_def case_prod_unfold
  by (simp split: if_splits)

section \<open>Every step keeps the invariant\<close>

lemma after_reply_conn:
  assumes "after_reply r se = Continue se' sh' \<or> after_reply r se = Closing se' sh'"
  obtains rep where "r = Done (rep, sh', se_conn se')"
    and "se_blocked se' = (case rep of Block req \<Rightarrow> Some req | _ \<Rightarrow> se_blocked se)"
  using assms that
  by (cases r) (auto simp: Let_def write_frames_def split: prod.splits reply.splits)

lemma serve_inv:
  assumes "tame_lua lua" and "fine_envs ess" and "fine_args (se_buf se)" and "se_blocked se = None"
    and "serve_one lua ess se sh = Continue se' sh' \<or> serve_one lua ess se sh = Closing se' sh'"
  shows "inv_step sh (se_conn se) sh' (se_conn se') \<and> req_ok se'"
proof (cases "\<exists>args buf. parse_command (se_buf se) = (Inr (Some args), buf)")
  case True
  then obtain args buf where p: "parse_command (se_buf se) = (Inr (Some args), buf)" by blast
  let ?sh = "sh\<lparr>sh_commands_processed := sh_commands_processed sh + 1\<rparr>"
  have t: "tame args" using assms(3) p by (simp add: fine_args_def)
  obtain rep where h: "handle lua ess args ?sh (se_conn se) = Done (rep, sh', se_conn se')"
    and b: "se_blocked se' = (case rep of Block req \<Rightarrow> Some req | _ \<Rightarrow> None)"
  proof -
    have "after_reply (handle lua ess args ?sh (se_conn se)) (se\<lparr>se_buf := buf\<rparr>) = Continue se' sh' \<or>
        after_reply (handle lua ess args ?sh (se_conn se)) (se\<lparr>se_buf := buf\<rparr>) = Closing se' sh'"
      using assms(5) p by (simp add: serve_one_def)
    then show ?thesis by (rule after_reply_conn) (use that assms(4) in \<open>auto split: reply.splits\<close>)
  qed
  have "inv_step ?sh (se_conn se) sh' (se_conn se')"
    using inv_handle [OF assms(1) _ t, of ess ?sh "se_conn se"] assms(2) h by (simp add: fine_envs_def)
  then have "inv_step sh (se_conn se) sh' (se_conn se')"
    using inv_step_trans [OF inv_step_shared [of ?sh sh "se_conn se"]] by simp
  moreover have "req_ok se'" using b handle_block h blocking_tame
    by (auto simp: req_ok_def split: reply.splits)
  ultimately show ?thesis by simp
next
  case False
  then show ?thesis using assms(4,5)
    by (auto simp: serve_one_def write_frames_def req_ok_def
        split: prod.splits sum.splits option.splits parse_error.splits)
qed

lemma wake_inv:
  assumes "tame_lua lua" and "\<And>n. reload_ok (es n)" and "tame (br_args req)" and "se_blocked se = Some req"
    and "wake lua es req se sh = Continue se' sh'"
  shows "inv_step sh (se_conn se) sh' (se_conn se') \<and> req_ok se'"
proof -
  have "inv_result sh (se_conn se) (retry_block lua es req sh (se_conn se))"
    using assms(1-3) by (intro inv_retry_block)
  then show ?thesis using assms(3-5)
    by (auto simp: wake_def write_frames_def req_ok_def split: if_splits outcome.splits option.splits)
qed

lemma step_sys_ok:
  assumes "tame_lua lua" and "step lua s s'" and "sys_ok s"
  shows "sys_ok s'"
  using assms(2,3)
proof (cases rule: step.cases)
  case (receive i se bs)
  then show ?thesis using sys_okD(3) [OF assms(3) receive(2)]
    by (auto intro!: sys_ok_put [OF assms(3)] simp: req_ok_def)
next
  case (request i se ess se' sh')
  then show ?thesis using serve_inv [OF assms(1)] sys_ok_put [OF assms(3)] by blast
next
  case (quit i se ess se' sh')
  then show ?thesis using serve_inv [OF assms(1)] sys_ok_put [OF assms(3)] sys_ok_teardown by blast
next
  case (retry i se req ess se' sh')
  have "tame (br_args req)" using sys_okD(3) [OF assms(3) retry(2)] retry(3) by (simp add: req_ok_def)
  then show ?thesis using retry wake_inv [OF assms(1)] sys_ok_put [OF assms(3)] unfolding fine_envs_def by blast
qed (auto simp: assms sys_ok_accept sys_ok_drop sys_ok_teardown sys_ok_sweep sys_ok_push)

section \<open>Panics\<close>

definition handler_total :: "handler \<Rightarrow> bool" where
  "handler_total h \<longleftrightarrow> (\<forall>e args db g. h e args db g \<noteq> None)"

lemma handler_totals:
  "handler_total (plain f)" "handler_total (flagged f' x)" "handler_total (random r)" "handler_total (with_env w)"
  by (simp_all add: handler_total_def plain_def flagged_def random_def with_env_def case_prod_unfold Let_def)

lemma tables_total:
  "list_all (\<lambda>(n, h). handler_total h) string_table" "list_all (\<lambda>(n, h). handler_total h) bitmap_table"
  "list_all (\<lambda>(n, h). handler_total h) generic_table" "list_all (\<lambda>(n, h). handler_total h) hash_table"
  "list_all (\<lambda>(n, h). handler_total h) list_table" "list_all (\<lambda>(n, h). handler_total h) set_table"
  "list_all (\<lambda>(n, h). handler_total h) zset_table"
  "list_all (\<lambda>(n, h). handler_total h \<or> n = ''XRANGE'' \<or> n = ''XREVRANGE'') admin_table"
  by (simp_all add: string_table_def bitmap_table_def generic_table_def hash_table_def list_table_def set_table_def
      zset_table_def admin_table_def handler_totals)

lemma data_table_total:
  assumes "(n, h) \<in> set data_table" and "n \<noteq> ''XRANGE''" and "n \<noteq> ''XREVRANGE''"
  shows "handler_total h"
  using assms tables_total by (auto simp: data_table_def list_all_iff)

definition may_panic :: "bytes list" where
  "may_panic = map ascii [''XRANGE'', ''XREVRANGE'', ''EVAL'', ''EVAL_RO'', ''EVALSHA'', ''EVALSHA_RO'', ''EXEC'']"

lemma find_handler_total:
  assumes "find_handler name = Some h" and "name \<notin> set may_panic"
  shows "handler_total h"
proof -
  obtain n where n: "(n, h) \<in> set data_table" "name = ascii n" using assms(1) by (rule find_handlerD)
  with assms(2) have "n \<noteq> ''XRANGE''" "n \<noteq> ''XREVRANGE''" by (auto simp: may_panic_def)
  with n(1) show ?thesis by (rule data_table_total)
qed

lemma ks_db_valid: "conn_ok sh conn \<Longrightarrow> \<exists>db. ks_db (c_db_index conn) (sh_ks sh) = Some db"
  by (simp add: conn_ok_def ks_db_def)

lemma on_keyspace_total: "f (sh_ks sh) \<noteq> None \<Longrightarrow> on_keyspace f sh conn \<noteq> Panicked"
  by (auto simp: on_keyspace_def)

lemma debug_total: "i < length ks \<Longrightarrow> debug f now i args ks \<noteq> None"
  by (auto simp: debug_def Let_def ks_db_def case_prod_unfold split: sum.splits)

lemma shutdown_total: "outcome_bind (shutdown f now args sh) (\<lambda>(r, sh). Done (r, sh, conn)) \<noteq> Panicked"
  by (auto simp: shutdown_def Let_def case_prod_unfold split: prod.splits option.splits)

lemma if_not_panicked: "x \<noteq> Panicked \<Longrightarrow> y \<noteq> Panicked \<Longrightarrow> (if b then x else y) \<noteq> Panicked"
  by simp

lemma execute_plain_total:
  assumes "shared_ok sh" and "conn_ok sh conn" and "name \<notin> set may_panic"
  shows "execute_plain lua e name args sh conn \<noteq> Panicked"
proof -
  have i: "c_db_index conn < length (sh_ks sh)" using assms(2) by (simp add: conn_ok_def)
  have k: "\<forall>db\<in>set (sh_ks sh). db_ok db" using assms(1) by (simp add: shared_ok_def ks_ok_def)
  have "db_command lua e name args sh conn \<noteq> Panicked"
    using ks_db_valid [OF assms(2)] find_handler_total [OF _ assms(3)]
    by (auto simp: db_command_def handler_total_def split: option.splits) (metis option.distinct(1))
  moreover have "swapdb args (sh_ks sh) \<noteq> None" "move_key (env_now e) (c_db_index conn) args (sh_ks sh) \<noteq> None"
    "copy (env_now e) (c_db_index conn) args (sh_ks sh) \<noteq> None"
    using swapdb_ok [OF k] move_key_ok [OF i k] copy_ok [OF i k] by fastforce+
  ultimately show ?thesis unfolding execute_plain_def case_prod_unfold Let_def
    by (intro if_not_panicked on_keyspace_total debug_total [OF i] shutdown_total [unfolded case_prod_unfold]) simp_all
qed

lemma one_reply_total: "r \<noteq> Panicked \<Longrightarrow> one_reply r \<noteq> Panicked"
  by (cases r) (auto simp: one_reply_def split: prod.splits)

lemma execute_total:
  assumes "shared_ok sh" and "conn_ok sh conn" and "\<not> sh_poisoned sh" and "name \<notin> set may_panic"
  shows "execute lua es name args sh conn \<noteq> Panicked"
proof -
  have "name \<notin> {ascii ''EVAL'', ascii ''EVAL_RO'', ascii ''EVALSHA'', ascii ''EVALSHA_RO''}"
    using assms(4) by (auto simp: may_panic_def)
  then show ?thesis using execute_plain_total [OF assms(1,2,4)] assms(3)
    by (simp add: execute_def execute_locked_def)
qed

lemma handle_total:
  assumes "shared_ok sh" and "conn_ok sh conn" and "\<not> sh_poisoned sh" and "args = [] \<or> upper (hd args) \<notin> set may_panic"
  shows "handle lua ess args sh conn \<noteq> Panicked"
proof (cases "args = []")
  case False
  then have n: "upper (hd args) \<notin> set may_panic" using assms(4) by simp
  then have ne: "upper (hd args) \<noteq> ascii ''EXEC''" by (auto simp: may_panic_def)
  obtain db where db: "ks_db (c_db_index conn) (sh_ks sh) = Some db" using ks_db_valid [OF assms(2)] by blast
  have x: "execute lua es nm args sh conn \<noteq> Panicked" if "nm \<notin> set may_panic" for es nm
    using execute_total [OF assms(1-3)] that by blast
  have xr: "ascii ''XREAD'' \<notin> set may_panic" by (simp add: may_panic_def ascii_def)
  have "try_or_block_xread lua es args sh conn \<noteq> Panicked" for es
    using one_reply_total [OF x [OF xr]] assms(3) db
    by (auto simp: try_or_block_xread_def one_reply_def Let_def case_prod_unfold split: option.splits sum.splits prod.splits)
  moreover have "try_or_block_bzpop e args mn sh conn \<noteq> Panicked" for e mn
    using assms(3) db by (auto simp: try_or_block_bzpop_def Let_def case_prod_unfold split: sum.splits)
  moreover have "one_reply (execute lua es (upper (hd args)) args sh conn) \<noteq> Panicked" for es
    using one_reply_total [OF x [OF n]] .
  ultimately have "handle_plain lua es (upper (hd args)) args sh conn \<noteq> Panicked" for es
    unfolding handle_plain_def Let_def case_prod_unfold by (intro if_not_panicked) simp_all
  moreover have "one_reply (watch e args sh conn) \<noteq> Panicked" for e
    using assms(3) db by (intro one_reply_total) (auto simp: watch_def Let_def case_prod_unfold)
  ultimately show ?thesis unfolding handle_def Let_def case_prod_unfold if_not_P [OF False] if_not_P [OF ne]
    by (intro if_not_panicked) simp_all
qed (simp add: handle_def)

section \<open>Properties\<close>

lemma reachable_sys_ok:
  assumes "tame_lua lua" and "reachable lua s s'" and "sys_ok s"
  shows "sys_ok s'"
  using assms(2,3) by (induction rule: reachable.induct) (auto intro: step_sys_ok [OF assms(1)])

lemma boot_sys_ok: "sys_ok (boot (shared_new rp port mc dbs v df cfg rid now))"
  by (rule sys_okI) (auto simp: boot_def shared_new_def shared_ok_def ks_ok_def ks_new_def wf_intros)

definition quiet_lua :: lua_impl where
  "quiet_lua = \<lparr>lua_compile = (\<lambda>_. None), lua_start = (\<lambda>_ _ _. Finish True LNil)\<rparr>"

lemma quiet_lua_tame: "tame_lua quiet_lua"
  by (simp add: quiet_lua_def tame_lua_def)

definition demo_shared :: shared where
  "demo_shared = shared_new None 6379 10 16 False None [] [] 0"

definition demo_system :: system where
  "demo_system = accept (ascii ''127.0.0.1:5'') (boot demo_shared)"

lemma demo_reachable: "reachable quiet_lua (boot demo_shared) demo_system"
  unfolding demo_system_def
  by (rule next_step [OF start], rule connect) (simp add: boot_def demo_shared_def shared_new_def)

lemma demo_sys_ok: "sys_ok demo_system"
  using reachable_sys_ok [OF quiet_lua_tame demo_reachable] boot_sys_ok by (simp add: demo_shared_def)

lemma demo_session: "map_of (sys_sessions demo_system) 1 =
    Some \<lparr>se_conn = conn_new 1 (ascii ''127.0.0.1:5''), se_blocked = None, se_buf = [], se_out = []\<rparr>"
  by (simp add: demo_system_def accept_def boot_def demo_shared_def shared_new_def Let_def)





lemma step_poisoned:
  assumes "tame_lua lua" and "step lua s s'" and "sys_ok s" and "sh_poisoned (sys_shared s)"
  shows "sh_poisoned (sys_shared s')"
proof -
  have f: "sh_poisoned sh'" if "map_of (sys_sessions s) i = Some se" "inv_step (sys_shared s) (se_conn se) sh' c" for i se sh' c
    using that sys_ok_facts(1) [OF assms(3)] sys_okD(2) [OF assms(3) that(1)] assms(4)
    by (simp add: inv_step_def frames_def)
  show ?thesis using assms(2)
  proof (cases rule: step.cases)
    case (request i se ess se' sh')
    then have "inv_step (sys_shared s) (se_conn se) sh' (se_conn se')" using serve_inv [OF assms(1)] by blast
    then show ?thesis using f [OF request(2)] request(1) by (simp add: put_session_def)
  next
    case (quit i se ess se' sh')
    then have "inv_step (sys_shared s) (se_conn se) sh' (se_conn se')" using serve_inv [OF assms(1)] by blast
    then show ?thesis using f [OF quit(2)] quit(1) by (simp add: put_session_def teardown_def Let_def)
  next
    case (retry i se req ess se' sh')
    have "tame (br_args req)" using sys_okD(3) [OF assms(3) retry(2)] retry(3) by (simp add: req_ok_def)
    then have "inv_step (sys_shared s) (se_conn se) sh' (se_conn se')"
      using retry wake_inv [OF assms(1)] unfolding fine_envs_def by blast
    then show ?thesis using f [OF retry(2)] retry(1) by (simp add: put_session_def)
  qed (auto simp: assms(4) accept_def put_session_def crash_task_def drop_task_def push_mail_def teardown_def sweep_def Let_def)
qed

lemma reachable_poisoned:
  assumes "tame_lua lua" and "reachable lua s s'" and "sys_ok s" and "sh_poisoned (sys_shared s)"
  shows "sh_poisoned (sys_shared s')"
  using assms(2,3,4)
  by (induction rule: reachable.induct)
    (auto intro: step_poisoned [OF assms(1)] reachable_sys_ok [OF assms(1)])

lemma find_xrange: "find_handler (ascii ''XRANGE'') = Some (partial xrange False)"
  by (simp add: find_handler_def data_table_def string_table_def bitmap_table_def generic_table_def hash_table_def
      list_table_def set_table_def zset_table_def admin_table_def ascii_def)

end
