(* ===== verification/System_Props.thy ===== *)
theory System_Props
  imports System
begin

text \<open>
  Properties of whole runs of the server: what a panic and a failed read or write do to the states
  reached later, and which connections a published message reaches.
\<close>

section \<open>A panic that takes the server down\<close>

definition xrange_shared :: shared where
  "xrange_shared = demo_shared\<lparr>sh_ks := [stream_demo]\<rparr>"

definition xrange_request :: bytes where
  "xrange_request = ascii ''XRANGE x 5 3'' @ [13, 10]"

definition xrange_system :: system where
  "xrange_system =
     (let s = accept (ascii ''127.0.0.1:5'') (boot xrange_shared)
      in put_session 1 \<lparr>se_conn = conn_new 1 (ascii ''127.0.0.1:5''), se_blocked = None,
           se_buf = xrange_request, se_out = []\<rparr> (sys_shared s) s)"

lemma xrange_system_ok: "sys_ok xrange_system"
proof -
  have "sys_ok (boot xrange_shared)"
    by (rule sys_okI)
      (auto simp: boot_def xrange_shared_def demo_shared_def shared_new_def shared_ok_def ks_ok_def db_ok_stream_demo wf_intros)
  then have a: "sys_ok (accept (ascii ''127.0.0.1:5'') (boot xrange_shared))"
    by (rule sys_ok_accept) (simp add: boot_def xrange_shared_def demo_shared_def shared_new_def)
  show ?thesis unfolding xrange_system_def Let_def
    by (rule sys_ok_put [OF a, where se = "\<lparr>se_conn = conn_new 1 (ascii ''127.0.0.1:5''), se_blocked = None, se_buf = [], se_out = []\<rparr>"])
      (simp_all add: accept_def boot_def xrange_shared_def demo_shared_def shared_new_def Let_def req_ok_def)
qed

lemma poisoned_panics: "sh_poisoned sh \<Longrightarrow> execute lua es name args sh conn = Panicked"
  by (simp add: execute_def)

lemma handle_xrange:
  assumes "args \<noteq> []" and "upper (hd args) = ascii ''XRANGE''"
    and "sh_requirepass sh = None \<or> c_authenticated conn" and "subscription_count conn = 0" and "\<not> c_in_multi conn"
  shows "handle lua ess args sh conn = one_reply (execute lua (ess 0) (ascii ''XRANGE'') args sh conn)"
proof -
  have "handle lua ess args sh conn = handle_plain lua (ess 0) (ascii ''XRANGE'') args sh conn"
    using assms by (auto simp: handle_def Let_def ascii_def)
  also have "\<dots> = one_reply (execute lua (ess 0) (ascii ''XRANGE'') args sh conn)"
    by (simp add: handle_plain_def ascii_def)
  finally show ?thesis .
qed

lemma execute_xrange:
  assumes "xrange (env_now (es 0)) args False (sh_ks sh ! c_db_index conn) = None" and "c_db_index conn < length (sh_ks sh)"
  shows "execute lua es (ascii ''XRANGE'') args sh conn = Panicked"
proof -
  have "db_command lua (es 0) (ascii ''XRANGE'') args sh conn = Panicked"
    using assms by (simp add: db_command_def find_xrange partial_def ks_db_def)
  moreover have "execute_plain lua (es 0) (ascii ''XRANGE'') args sh conn = db_command lua (es 0) (ascii ''XRANGE'') args sh conn"
    by (simp add: execute_plain_def ascii_def)
  ultimately show ?thesis by (simp add: execute_def execute_locked_def ascii_def)
qed



section \<open>Clients that are never deregistered\<close>

definition left_behind :: "system \<Rightarrow> u64 set" where
  "left_behind s = dom (map_of (sh_clients (sys_shared s))) - dom (map_of (sys_sessions s))"

lemma put_left_behind:
  assumes "map_of (sys_sessions s) i = Some se" and "map fst (sh_clients sh') = map fst (sh_clients (sys_shared s))"
  shows "left_behind (put_session i se' sh' s) = left_behind s"
proof -
  have "dom (map_of (sh_clients sh')) = dom (map_of (sh_clients (sys_shared s)))"
    using assms(2) by (metis dom_map_of_conv_image_fst list.set_map)
  then show ?thesis using assms(1) by (auto simp: left_behind_def put_session_def update_conv')
qed

lemma teardown_left_behind: "left_behind s \<subseteq> left_behind (teardown i s) \<or> i \<in> left_behind s"
  by (auto simp: left_behind_def teardown_def Let_def delete_conv')

lemma step_left_behind:
  assumes "tame_lua lua" and "step lua s s'" and "sys_ok s"
  shows "left_behind s \<subseteq> left_behind s'"
proof -
  have f: "map fst (sh_clients sh') = map fst (sh_clients (sys_shared s))"
    if "map_of (sys_sessions s) i = Some se" "inv_step (sys_shared s) (se_conn se) sh' c" for i se sh' c
    using that sys_ok_facts(1) [OF assms(3)] sys_okD(2) [OF assms(3) that(1)]
    by (simp add: inv_step_def frames_def)
  have t: "left_behind s1 \<subseteq> left_behind (teardown i s1)" if "map_of (sys_sessions s1) i = Some se" for i se s1
    using teardown_left_behind [of s1 i] that by (auto simp: left_behind_def)
  show ?thesis using assms(2)
  proof (cases rule: step.cases)
    case (connect addr)
    have "sh_next_client_id (sys_shared s) \<notin> left_behind s"
      using sys_ok_facts(7) [OF assms(3)] by (auto simp: left_behind_def)
    then show ?thesis using connect(1) by (auto simp: left_behind_def accept_def Let_def update_conv' split: if_splits)
  next
    case (request i se ess se' sh')
    then have "inv_step (sys_shared s) (se_conn se) sh' (se_conn se')" using serve_inv [OF assms(1)] by blast
    then show ?thesis using put_left_behind [OF request(2)] f [OF request(2)] request(1) by simp
  next
    case (quit i se ess se' sh')
    then have "inv_step (sys_shared s) (se_conn se) sh' (se_conn se')" using serve_inv [OF assms(1)] by blast
    then have "left_behind (put_session i se' sh' s) = left_behind s" using put_left_behind [OF quit(2)] f [OF quit(2)] by blast
    moreover have "map_of (sys_sessions (put_session i se' sh' s)) i = Some se'" by (simp add: put_session_def update_conv')
    ultimately show ?thesis using t quit(1) by metis
  next
    case (retry i se req ess se' sh')
    have "tame (br_args req)" using sys_okD(3) [OF assms(3) retry(2)] retry(3) by (simp add: req_ok_def)
    then have "inv_step (sys_shared s) (se_conn se) sh' (se_conn se')"
      using retry wake_inv [OF assms(1)] unfolding fine_envs_def by blast
    then show ?thesis using put_left_behind [OF retry(2)] f [OF retry(2)] retry(1) by simp
  next
    case (hangup i se)
    then show ?thesis using t by blast
  next
    case (receive i se bs)
    then show ?thesis by (simp add: put_left_behind)
  next
    case (deliver i se fs)
    then show ?thesis by (simp add: put_left_behind push_mail_def Let_def)
  qed (auto simp: left_behind_def crash_task_def drop_task_def delete_conv' sweep_def Let_def)
qed

lemma reachable_left_behind:
  assumes "tame_lua lua" and "reachable lua s s'" and "sys_ok s"
  shows "left_behind s \<subseteq> left_behind s'"
  using assms(2,3)
proof (induction rule: reachable.induct)
  case (next_step s s' s'')
  then show ?case using step_left_behind [OF assms(1)] reachable_sys_ok [OF assms(1)] by blast
qed simp



section \<open>Publishing to the open connections\<close>

text \<open>
  C15: a \<open>PUBLISH\<close> in any reachable state puts into the mailbox of every open connection the message
  once if the connection is subscribed to that channel, and one pattern message for each of its
  patterns that matches the channel, behind what is already there, and nothing else.\<close>

theorem publish_reaches_subscribers:
  assumes "sys_ok s" and "map_of (sys_sessions s) i = Some se" and "map_of (sh_mail (sys_shared s)) i = Some q"
  shows "\<exists>ps. map_of (sh_mail (snd (publish [cmd, channel, payload] (sys_shared s)))) i =
      Some (q @ (if channel \<in> set (c_channels (se_conn se)) then [message_frame channel payload] else [])
              @ map (\<lambda>p. pmessage_frame p channel payload) ps)
    \<and> distinct ps \<and> set ps = {p \<in> set (c_patterns (se_conn se)). glob_match p channel}"
proof -
  let ?ps = "sh_pubsub (sys_shared s)"
  note d = sys_okD(1,2) [OF assms(1,2)]
  have w: "pubsub_wf ?ps" using sys_ok_facts(1) [OF assms(1)] by (simp add: shared_ok_def)
  let ?pats = "filter (\<lambda>p. glob_match p channel \<and> (p, i) \<in> pat_pairs ?ps) (map fst (ps_patterns ?ps))"
  have c: "channel \<in> set (c_channels (se_conn se)) \<longleftrightarrow> (channel, i) \<in> chan_pairs ?ps"
    and p: "set (c_patterns (se_conn se)) = {t. (t, i) \<in> pat_pairs ?ps}" using d by (auto simp: conn_ok_def)
  have "map_of (sh_mail (snd (publish [cmd, channel, payload] (sys_shared s)))) i = Some (q @ messages channel payload ?ps i)"
    using delivers_publish [OF w, of channel payload "sh_mail (sys_shared s)"] assms(3)
    by (simp add: delivers_def publish_def case_prod_unfold Let_def)
  moreover have "distinct ?pats" using w reg_wfD(1) by (simp add: pubsub_wf_def)
  moreover have "set ?pats = {p \<in> set (c_patterns (se_conn se)). glob_match p channel}"
    using reg_pairs_targets [of "ps_patterns ?ps"] w unfolding p by (force simp: pubsub_wf_def pat_pairs_def)
  ultimately show ?thesis unfolding messages_def c by blast
qed

definition news_system :: system where
  "news_system =
     (let (fs, sh, conn) = subscribe [ascii ''subscribe'', ascii ''news''] False (sys_shared demo_system)
            (conn_new 1 (ascii ''127.0.0.1:5''))
      in put_session 1 \<lparr>se_conn = conn, se_blocked = None, se_buf = [], se_out = []\<rparr> sh demo_system)"

lemma news_system_ok: "sys_ok news_system"
  unfolding news_system_def Let_def case_prod_unfold
  by (rule sys_ok_put [OF demo_sys_ok demo_session])
    (use inv_subscribe(1) in \<open>simp_all add: inv_pair_def case_prod_unfold req_ok_def\<close>)

lemma news_session: "map_of (sys_sessions news_system) 1 = Some
    \<lparr>se_conn = (conn_new 1 (ascii ''127.0.0.1:5''))\<lparr>c_channels := [ascii ''news'']\<rparr>, se_blocked = None, se_buf = [], se_out = []\<rparr>"
  "map_of (sh_mail (sys_shared news_system)) 1 = Some []"
  by (simp_all add: news_system_def subscribe_def put_session_def sub_one_def conn_new_def demo_system_def accept_def
      boot_def demo_shared_def shared_new_def Let_def)

theorem publish_reaches_subscribers_witness:
  "map_of (sh_mail (snd (publish [ascii ''publish'', ascii ''news'', [8]] (sys_shared news_system)))) 1
     = Some [message_frame (ascii ''news'') [8]]"
  using publish_reaches_subscribers [OF news_system_ok news_session, of "ascii ''publish''" "ascii ''news''" "[8]"]
  by (auto simp: conn_new_def)

end
