(* ===== verification/Transactions.thy ===== *)
theory Transactions
  imports System_Props
begin

text \<open>
  What the requests of one connection do together: which parts of the state a command cannot touch,
  that a transaction is a serial execution of its queue, optimistic locking with \<open>WATCH\<close>, the
  authentication gate, and the isolation of scripts.
\<close>

section \<open>What a command cannot touch\<close>

text \<open>
  A command that is executed, directly, from a transaction or from a script, leaves the transaction
  and the subscriptions of the connection and the registry alone, and does not undo authentication.
\<close>

definition keeps :: "shared \<Rightarrow> conn_state \<Rightarrow> shared \<Rightarrow> conn_state \<Rightarrow> bool" where
  "keeps sh conn sh' conn' \<longleftrightarrow>
     c_id conn' = c_id conn \<and> c_addr conn' = c_addr conn
     \<and> c_in_multi conn' = c_in_multi conn \<and> c_multi_queue conn' = c_multi_queue conn
     \<and> c_multi_error conn' = c_multi_error conn \<and> c_watched conn' = c_watched conn
     \<and> c_channels conn' = c_channels conn \<and> c_patterns conn' = c_patterns conn
     \<and> (c_authenticated conn \<longrightarrow> c_authenticated conn')
     \<and> sh_requirepass sh' = sh_requirepass sh \<and> sh_pubsub sh' = sh_pubsub sh
     \<and> sh_poisoned sh' = sh_poisoned sh"

definition result_keeps :: "shared \<Rightarrow> conn_state \<Rightarrow> ('a \<times> shared \<times> conn_state) outcome \<Rightarrow> bool" where
  "result_keeps sh conn r \<longleftrightarrow>
     (case r of Done (_, sh', conn') \<Rightarrow> keeps sh conn sh' conn' | _ \<Rightarrow> True)"

lemma keeps_refl [simp, intro]: "keeps sh conn sh conn"
  by (simp add: keeps_def)

lemma keeps_trans: "keeps sh conn sh1 conn1 \<Longrightarrow> keeps sh1 conn1 sh2 conn2 \<Longrightarrow> keeps sh conn sh2 conn2"
  by (simp add: keeps_def)

lemma result_keeps_simps [simp]:
  "result_keeps sh conn (Done (x, sh', conn')) \<longleftrightarrow> keeps sh conn sh' conn'"
  "result_keeps sh conn Panicked" "result_keeps sh conn Exited"
  by (simp_all add: result_keeps_def)

lemma result_keepsD: "result_keeps sh conn r \<Longrightarrow> r = Done (x, sh', conn') \<Longrightarrow> keeps sh conn sh' conn'"
  by simp

lemma result_keeps_done_if:
  "result_keeps sh conn (Done x) \<Longrightarrow> result_keeps sh conn (Done y) \<Longrightarrow> result_keeps sh conn (Done (if b then x else y))"
  by simp

lemma result_keeps_if:
  "result_keeps sh conn x \<Longrightarrow> result_keeps sh conn y \<Longrightarrow> result_keeps sh conn (if b then x else y)"
  by simp

lemma result_keeps_bind:
  assumes "result_keeps sh conn r"
    and "\<And>x sh' conn'. keeps sh conn sh' conn' \<Longrightarrow> result_keeps sh' conn' (f (x, sh', conn'))"
  shows "result_keeps sh conn (outcome_bind r f)"
proof (cases r)
  case (Done y)
  obtain x sh' conn' where y: "y = (x, sh', conn')" by (cases y)
  then have k: "keeps sh conn sh' conn'" using assms(1) Done by simp
  from assms(2) [OF this, of x] show ?thesis
    using keeps_trans [OF k] Done y by (auto simp: result_keeps_def split: outcome.splits)
qed simp_all

lemma keeps_registry [simp]:
  "keeps sh conn (registry_update i f sh1) conn' = keeps sh conn sh1 conn'"
  "keeps sh conn (update_registry_name sh1 c) conn' = keeps sh conn sh1 conn'"
  "keeps sh conn (sync_registry_db sh1 c) conn' = keeps sh conn sh1 conn'"
  by (simp_all add: keeps_def registry_update_def update_registry_name_def sync_registry_db_def split: option.splits)

lemma hello_opts_keeps:
  "hello_opts rp as p a conn = (r, conn') \<Longrightarrow> \<exists>b. conn' = conn\<lparr>c_authenticated := b\<rparr> \<and> (c_authenticated conn \<longrightarrow> b)"
proof (induction rp as p a conn rule: hello_opts.induct)
  case (1 rp as p a conn)
  have self: "\<exists>b. conn = conn\<lparr>c_authenticated := b\<rparr> \<and> (c_authenticated conn \<longrightarrow> b)"
    by (rule exI [of _ "c_authenticated conn"]) simp
  show ?case
  proof (cases as)
    case (Cons x rest)
    show ?thesis
    proof (cases "upper x = ascii ''AUTH'' \<and> 2 \<le> length rest")
      case True
      then show ?thesis using 1(3) 1(1) [OF Cons True] self
        by (subst (asm) hello_opts.simps) (fastforce simp: Cons split: option.splits if_splits)
    next
      case False
      then show ?thesis using 1(3) 1(2) [OF Cons False] self
        by (subst (asm) hello_opts.simps) (auto simp: Cons split: if_splits)
    qed
  qed (use 1(3) self in \<open>subst (asm) hello_opts.simps, simp\<close>)
qed

lemma hello_finish_keeps: "hello_finish as sh conn = (r, sh', conn') \<Longrightarrow> keeps sh conn sh' conn'"
proof -
  assume h: "hello_finish as sh conn = (r, sh', conn')"
  obtain res conn1 where o: "hello_opts (sh_requirepass sh) as None False conn = (res, conn1)" by fastforce
  from hello_opts_keeps [OF o] have "keeps sh conn sh conn1" by (auto simp: keeps_def)
  moreover from this have "keeps sh conn sh (conn1\<lparr>c_name := n\<rparr>)" for n by (simp add: keeps_def)
  ultimately show ?thesis using h o
    by (auto simp: hello_finish_def Let_def split: sum.splits option.splits if_splits)
qed

lemma hello_keeps: "hello args sh conn = (r, sh', conn') \<Longrightarrow> keeps sh conn sh' conn'"
proof -
  assume h: "hello args sh conn = (r, sh', conn')"
  have "keeps sh conn sh (conn\<lparr>c_resp3 := b\<rparr>)" for b by (simp add: keeps_def)
  then show ?thesis using h hello_finish_keeps keeps_trans
    by (auto simp: hello_def split: sum.splits if_splits) blast+
qed

lemma config_set_keeps: "keeps sh conn (config_set as sh) conn"
  by (induction as sh rule: config_set.induct)
    (auto simp: keeps_def apply_loglevel_def Let_def split: option.splits if_splits)

lemma server_command_keeps: "result_keeps sh conn (Done (server_command lua e name args sh conn))"
proof -
  have a: "keeps sh conn sh (snd (auth args sh conn))"
    by (auto simp: auth_def keeps_def split: option.splits)
  have p: "keeps sh conn (snd (publish args sh)) conn"
    by (simp add: publish_def keeps_def case_prod_unfold Let_def)
  have c: "keeps sh conn (snd (config e args sh)) conn"
    using config_set_keeps by (simp add: config_def Let_def)
  have s: "keeps sh conn (snd (script lua e args sh)) conn"
    by (simp add: script_def keeps_def Let_def split: option.splits)
  have l: "case client e args sh conn of (r, sh', conn') \<Rightarrow> keeps sh conn sh' conn'"
    by (simp add: client_def Let_def) (simp add: keeps_def)
  have h: "case hello args sh conn of (r, sh', conn') \<Rightarrow> keeps sh conn sh' conn'"
    using hello_keeps by (auto split: prod.splits)
  show ?thesis unfolding server_command_def case_prod_unfold Let_def
    by (intro result_keeps_done_if) (use a p c s l h in \<open>simp_all add: result_keeps_def case_prod_unfold\<close>)
qed

lemma keeps_ks [simp]: "keeps sh conn (sh\<lparr>sh_ks := ks\<rparr>) conn" "keeps sh conn (sh\<lparr>sh_ks := ks, sh_rng := g\<rparr>) conn"
  by (simp_all add: keeps_def)

lemma db_command_keeps: "result_keeps sh conn (db_command lua e name args sh conn)"
  using server_command_keeps by (auto simp: db_command_def split: option.splits)

lemma on_keyspace_keeps: "result_keeps sh conn (on_keyspace f sh conn)"
  by (auto simp: on_keyspace_def split: option.splits)

lemma save_dump_keeps: "save_dump w now sh = (r, sh') \<Longrightarrow> keeps sh conn sh' conn"
  by (auto simp: save_dump_def keeps_def Let_def split: option.splits)

lemma execute_plain_keeps: "result_keeps sh conn (execute_plain lua e name args sh conn)"
proof -
  have se: "result_keeps sh conn (Done (select args sh conn))"
  proof -
    have "keeps sh conn sh (conn\<lparr>c_db_index := i\<rparr>)" for i by (simp add: keeps_def)
    then show ?thesis by (auto simp: select_def Let_def split: sum.splits)
  qed
  have sv: "result_keeps sh conn (let (r, sh) = save w now bg sh in Done (r, sh, conn))" for w now bg
    using save_dump_keeps by (auto simp: save_def Let_def split: prod.splits option.splits)
  have sd: "result_keeps sh conn (outcome_bind (shutdown w now args sh) (\<lambda>(r, sh). Done (r, sh, conn)))" for w now
    using save_dump_keeps by (auto simp: shutdown_def Let_def split: prod.splits option.splits)
  show ?thesis unfolding execute_plain_def
    by (intro result_keeps_if se sv sd on_keyspace_keeps db_command_keeps) simp_all
qed

lemma run_calls_keeps: "result_keeps sh conn (run_calls lua run es i sh conn)"
proof (induction run arbitrary: i sh conn)
  case (Pcall cmd k)
  have "result_keeps sh conn (redis_pcall lua (es i) cmd sh conn)"
    unfolding redis_pcall_def using execute_plain_keeps
    by (auto simp: Let_def split: option.splits intro!: result_keeps_bind)
  then show ?case using Pcall by (auto intro!: result_keeps_bind)
qed simp_all

lemma run_script_keeps: "result_keeps sh conn (run_script lua es body keys argv sh conn)"
proof -
  have "keeps sh conn sh (conn\<lparr>c_db_index := i\<rparr>)" for sh conn i by (simp add: keeps_def)
  then show ?thesis unfolding run_script_def Let_def
    by (intro result_keeps_bind [OF run_calls_keeps]) simp
qed

lemma eval_keeps: "result_keeps sh conn (eval lua es args source sh conn)"
proof -
  have c: "keeps sh conn sh' conn" if "script_body source a sh = (r, sh')" for a r sh'
    using that by (auto simp: script_body_def keeps_def split: script_source.splits option.splits)
  have "result_keeps sh conn (run_script lua es b k v sh' conn)" if "script_body source a sh = (r, sh')" for a r sh' b k v
    using run_script_keeps [of sh' conn lua es b k v] c [OF that] keeps_trans
    by (auto simp: result_keeps_def split: outcome.splits)
  then show ?thesis using c by (auto simp: eval_def split: sum.splits prod.splits)
qed

lemma execute_keeps: "result_keeps sh conn (execute lua es name args sh conn)"
  using eval_keeps execute_plain_keeps by (simp add: execute_def execute_locked_def)

text \<open>A script hands the connection back on the database it came on.\<close>

lemma run_script_db:
  "run_script lua es body keys argv sh conn = Done (f, sh', conn') \<Longrightarrow> c_db_index conn' = c_db_index conn"
  by (cases "run_calls lua (lua_start lua body keys argv) es 0 sh conn")
    (auto simp: run_script_def Let_def split: if_splits)

lemma eval_db: "eval lua es args source sh conn = Done (f, sh', conn') \<Longrightarrow> c_db_index conn' = c_db_index conn"
  using run_script_db by (auto simp: eval_def split: sum.splits prod.splits if_splits)

section \<open>A conversation\<close>

text \<open>The requests of one connection, one after the other, each with its readings of the clock.\<close>

type_synonym request = "(nat \<Rightarrow> nat \<Rightarrow> env) \<times> bytes list"

fun conversation :: "lua_impl \<Rightarrow> request list \<Rightarrow> shared \<Rightarrow> conn_state \<Rightarrow> (reply list \<times> shared \<times> conn_state) outcome" where
  "conversation lua [] sh conn = Done ([], sh, conn)"
| "conversation lua ((ess, args) # reqs) sh conn =
     outcome_bind (handle lua ess args sh conn) (\<lambda>(r, sh, conn).
       outcome_bind (conversation lua reqs sh conn) (\<lambda>(rs, sh, conn). Done (r # rs, sh, conn)))"

lemma outcome_bind_assoc [simp]: "outcome_bind (outcome_bind r f) g = outcome_bind r (\<lambda>x. outcome_bind (f x) g)"
  by (cases r) simp_all

lemma outcome_bind_cong [cong]: "r = r' \<Longrightarrow> (\<And>x. r' = Done x \<Longrightarrow> f x = g x) \<Longrightarrow> outcome_bind r f = outcome_bind r' g"
  by (cases r') simp_all

lemma outcome_bind_Done [simp]: "outcome_bind r Done = r"
  by (cases r) simp_all

lemma converse_append:
  "conversation lua (reqs @ reqs') sh conn =
     outcome_bind (conversation lua reqs sh conn) (\<lambda>(rs, sh, conn).
       outcome_bind (conversation lua reqs' sh conn) (\<lambda>(rs', sh, conn). Done (rs @ rs', sh, conn)))"
  by (induction lua reqs sh conn rule: conversation.induct) (auto simp: split_beta intro!: outcome_bind_cong)

section \<open>Transactions\<close>

definition control_names :: "bytes list" where
  "control_names = map ascii [''MULTI'', ''EXEC'', ''DISCARD'', ''WATCH'', ''UNWATCH'', ''QUIT'', ''SUBSCRIBE'',
     ''PSUBSCRIBE'', ''UNSUBSCRIBE'', ''PUNSUBSCRIBE'', ''RESET'', ''BZPOPMIN'', ''BZPOPMAX'', ''XREAD'']"

text \<open>A connection that may run commands and is not in a transaction.\<close>

definition at_rest :: "shared \<Rightarrow> conn_state \<Rightarrow> bool" where
  "at_rest sh conn \<longleftrightarrow>
     (sh_requirepass sh = None \<or> c_authenticated conn) \<and> subscription_count conn = 0
     \<and> \<not> c_in_multi conn \<and> c_multi_queue conn = [] \<and> \<not> c_multi_error conn \<and> c_watched conn = []"

definition data_request :: "bytes list \<Rightarrow> bool" where
  "data_request args \<longleftrightarrow> args \<noteq> [] \<and> upper (hd args) \<notin> set control_names"

lemma handle_at_rest:
  assumes "at_rest sh conn" and "data_request args"
  shows "handle lua ess args sh conn = one_reply (execute lua (ess 0) (upper (hd args)) args sh conn)"
proof -
  have "handle lua ess args sh conn = handle_plain lua (ess 0) (upper (hd args)) args sh conn"
    using assms by (auto simp: handle_def at_rest_def data_request_def control_names_def Let_def)
  also have "\<dots> = one_reply (execute lua (ess 0) (upper (hd args)) args sh conn)"
    using assms(2) by (simp add: handle_plain_def data_request_def control_names_def)
  finally show ?thesis .
qed

lemma at_rest_keeps: "at_rest sh conn \<Longrightarrow> keeps sh conn sh' conn' \<Longrightarrow> at_rest sh' conn'"
  by (auto simp: at_rest_def keeps_def subscription_count_def)

text \<open>The same commands without a transaction, with the readings the transaction gives them.\<close>

definition serial :: "(nat \<Rightarrow> nat \<Rightarrow> env) \<Rightarrow> nat \<Rightarrow> bytes list list \<Rightarrow> request list" where
  "serial ess i cmds = map (\<lambda>(n, cmd). (\<lambda>_. ess n, cmd)) (enumerate i cmds)"

lemma exec_queue_serial:
  assumes "at_rest sh conn" and "\<forall>cmd\<in>set cmds. data_request cmd"
  shows "conversation lua (serial ess i cmds) sh conn =
      outcome_bind (exec_queue lua ess i cmds sh conn) (\<lambda>(fs, sh, conn). Done (map One fs, sh, conn))"
  using assms
proof (induction cmds arbitrary: i sh conn)
  case (Cons cmd cmds)
  have c: "cmd \<noteq> []" using Cons.prems(2) by (simp add: data_request_def)
  have h: "handle lua (\<lambda>_. ess i) cmd sh conn = one_reply (execute lua (ess i) (upper (hd cmd)) cmd sh conn)"
    using handle_at_rest [OF Cons.prems(1)] Cons.prems(2) by simp
  have s: "serial ess i (cmd # cmds) = (\<lambda>_. ess i, cmd) # serial ess (Suc i) cmds" by (simp add: serial_def)
  show ?case
  proof (cases "execute lua (ess i) (upper (hd cmd)) cmd sh conn")
    case (Done x)
    obtain f sh' conn' where x: "x = (f, sh', conn')" by (cases x)
    have "keeps sh conn sh' conn'" using execute_keeps Done x by (metis result_keepsD)
    then have "at_rest sh' conn'" using at_rest_keeps Cons.prems(1) by blast
    from Cons.IH [OF this] Cons.prems(2) show ?thesis
      by (simp add: s h c Done x one_reply_def split_beta)
  qed (simp_all add: s h c one_reply_def)
qed (simp add: serial_def)

lemma queueing:
  assumes "\<forall>cmd\<in>set cmds. data_request cmd"
    and "sh_requirepass sh = None \<or> c_authenticated conn" and "subscription_count conn = 0" and "c_in_multi conn"
  shows "conversation lua (map (Pair ess) cmds) sh conn =
      Done (replicate (length cmds) (One (Simple (ascii ''QUEUED''))), sh, conn\<lparr>c_multi_queue := c_multi_queue conn @ cmds\<rparr>)"
  using assms
proof (induction cmds arbitrary: conn)
  case (Cons cmd cmds)
  have c: "cmd \<noteq> []" "upper (hd cmd) \<notin> set control_names" using Cons.prems(1) by (simp_all add: data_request_def)
  have "handle lua ess cmd sh conn =
      Done (One (Simple (ascii ''QUEUED'')), sh, conn\<lparr>c_multi_queue := c_multi_queue conn @ [cmd]\<rparr>)"
    using Cons.prems(2-4) c
    by (auto simp: handle_def Let_def control_names_def queue_command_def subscribe_names_def)
  then show ?case using Cons.IH [of "conn\<lparr>c_multi_queue := c_multi_queue conn @ [cmd]\<rparr>"] Cons.prems
    by (simp add: subscription_count_def)
qed simp

lemma in_multi_subscriptions [simp]:
  "subscription_count (conn\<lparr>c_in_multi := b, c_multi_error := b', c_multi_queue := q\<rparr>) = subscription_count conn"
  by (simp add: subscription_count_def)

lemma handle_multi:
  assumes "at_rest sh conn"
  shows "handle lua ess [ascii ''MULTI''] sh conn = Done (One frame_ok, sh, conn\<lparr>c_in_multi := True\<rparr>)"
proof -
  have u: "upper (ascii ''MULTI'') = ascii ''MULTI''" by code_simp
  have "conn\<lparr>c_in_multi := True, c_multi_error := False, c_multi_queue := []\<rparr> = conn\<lparr>c_in_multi := True\<rparr>"
    using assms by (auto simp: at_rest_def)
  then show ?thesis using assms by (auto simp: handle_def u at_rest_def multi_def Let_def)
qed

lemma handle_exec:
  assumes "sh_requirepass sh = None \<or> c_authenticated conn" and "subscription_count conn = 0"
  shows "handle lua ess [ascii ''EXEC''] sh conn = one_reply (exec lua ess sh conn)"
proof -
  have u: "upper (ascii ''EXEC'') = ascii ''EXEC''" by code_simp
  have "ascii ''EXEC'' \<noteq> ascii ''MULTI''" by (simp add: ascii_def)
  then show ?thesis using assms by (auto simp: handle_def u Let_def)
qed

lemma open_transaction:
  assumes "at_rest sh conn" and "\<forall>cmd\<in>set cmds. data_request cmd"
  shows "conversation lua (map (Pair ess0) ([ascii ''MULTI''] # cmds)) sh conn =
      Done (One frame_ok # replicate (length cmds) (One (Simple (ascii ''QUEUED''))), sh,
        conn\<lparr>c_in_multi := True, c_multi_queue := cmds\<rparr>)"
proof -
  have "conversation lua (map (Pair ess0) cmds) sh (conn\<lparr>c_in_multi := True\<rparr>) =
      Done (replicate (length cmds) (One (Simple (ascii ''QUEUED''))), sh, conn\<lparr>c_in_multi := True, c_multi_queue := cmds\<rparr>)"
    using assms by (subst queueing) (auto simp: at_rest_def subscription_count_def)
  then show ?thesis using handle_multi [OF assms(1)] by simp
qed


lemma demo_at_rest: "at_rest demo_shared (conn_new 1 [])"
  by (simp add: at_rest_def conn_new_def demo_shared_def shared_new_def subscription_count_def)

lemma demo_get: "data_request [ascii ''get'', [7]]"
  unfolding data_request_def by code_simp


section \<open>Watched keys\<close>

text \<open>What \<open>WATCH\<close> remembers of a key: the fingerprint of its live value.\<close>

definition fingerprint_at :: "env \<Rightarrow> db \<Rightarrow> bytes \<Rightarrow> u64 option" where
  "fingerprint_at e db key = map_option (\<lambda>(v, _). env_hash e (feed_value (env_hash e) v)) (live (env_now e) db key)"

definition snap :: "u64 option \<Rightarrow> bool \<times> u64" where
  "snap fp = (fp \<noteq> None, case fp of Some h \<Rightarrow> h | None \<Rightarrow> 0)"

lemma snap_inject [simp]: "snap a = snap b \<longleftrightarrow> a = b"
  by (auto simp: snap_def split: option.splits)

lemma snapshot_spec [simp]:
  "fst (snapshot e key db) = snap (fingerprint_at e db key)"
  "live (env_now e) (snd (snapshot e key db)) = live (env_now e) db"
  by (simp_all add: snapshot_def db_fingerprint_def Let_def case_prod_unfold fingerprint_at_def snap_def db_get_live
      option.map_comp comp_def split: option.splits)

lemma fingerprint_live: "live (env_now e) db = live (env_now e) db' \<Longrightarrow> fingerprint_at e db = fingerprint_at e db'"
  by (simp add: fingerprint_at_def fun_eq_iff)

lemma watch_keys_spec:
  assumes "distinct (map fst w)"
  shows "distinct (map fst (fst (watch_keys e dbi keys w db)))
    \<and> map_of (fst (watch_keys e dbi keys w db)) =
        (\<lambda>p. if fst p = dbi \<and> snd p \<in> set keys then Some (snap (fingerprint_at e db (snd p))) else map_of w p)
    \<and> live (env_now e) (snd (watch_keys e dbi keys w db)) = live (env_now e) db"
  using assms
proof (induction keys arbitrary: w db)
  case (Cons key keys)
  let ?db = "snd (snapshot e key db)" and ?w = "AList.update (dbi, key) (fst (snapshot e key db)) w"
  have "distinct (map fst ?w)" using Cons.prems by (simp add: distinct_update)
  from Cons.IH [OF this, of ?db] show ?case using fingerprint_live [of e ?db db]
    by (auto simp: case_prod_unfold Let_def update_conv' fun_eq_iff)
qed simp

definition same_live :: "u64 \<Rightarrow> keyspace \<Rightarrow> keyspace \<Rightarrow> bool" where
  "same_live now ks ks' \<longleftrightarrow> length ks' = length ks \<and> (\<forall>i<length ks. live now (ks' ! i) = live now (ks ! i))"

lemma same_live_refl [simp]: "same_live now ks ks"
  by (simp add: same_live_def)

lemma same_live_update: "i < length ks \<Longrightarrow> live now db = live now (ks ! i) \<Longrightarrow> same_live now ks (ks[i := db])"
  by (auto simp: same_live_def nth_list_update)

lemma same_live_trans: "same_live now a b \<Longrightarrow> same_live now b c \<Longrightarrow> same_live now a c"
  by (simp add: same_live_def)

lemma watch_ok_spec:
  assumes "\<forall>((dbi, key), s)\<in>set w. dbi < length ks"
  shows "\<exists>ks'. same_live (env_now e) ks ks' \<and>
    watch_ok e w ks = Some (\<forall>((dbi, key), s)\<in>set w. snap (fingerprint_at e (ks ! dbi) key) = s, ks')"
  using assms
proof (induction w arbitrary: ks)
  case (Cons p w)
  obtain dbi key s where p: "p = ((dbi, key), s)" by (metis surj_pair)
  have i: "dbi < length ks" using Cons.prems p by simp
  let ?ks = "ks[dbi := snd (snapshot e key (ks ! dbi))]"
  have l: "same_live (env_now e) ks ?ks" using i by (intro same_live_update) simp_all
  have f: "fingerprint_at e (?ks ! j) = fingerprint_at e (ks ! j)" if "j < length ks" for j
    using l that by (intro fingerprint_live) (simp add: same_live_def)
  have w: "\<forall>((dbi, key), s)\<in>set w. dbi < length ?ks" using Cons.prems by simp
  then obtain ks' where ks': "same_live (env_now e) ?ks ks'"
    "watch_ok e w ?ks = Some (\<forall>((dbi, key), s)\<in>set w. snap (fingerprint_at e (?ks ! dbi) key) = s, ks')"
    using Cons.IH by blast
  have "(\<forall>((dbi, key), s)\<in>set w. snap (fingerprint_at e (?ks ! dbi) key) = s)
      \<longleftrightarrow> (\<forall>((dbi, key), s)\<in>set w. snap (fingerprint_at e (ks ! dbi) key) = s)"
    using w f by (intro ball_cong) auto
  then show ?case using ks' l same_live_trans [OF l ks'(1)] i
    by (cases "snap (fingerprint_at e (ks ! dbi) key) = s")
      (auto simp: p ks_db_def Let_def case_prod_unfold)
qed simp

definition watching :: "nat \<Rightarrow> bytes list \<Rightarrow> env \<Rightarrow> db \<Rightarrow> ((nat \<times> bytes) \<times> (bool \<times> u64)) list \<Rightarrow> bool" where
  "watching dbi keys e db w \<longleftrightarrow>
     set w = (\<lambda>key. ((dbi, key), snap (fingerprint_at e db key))) ` set keys"

lemma watch_keys_watching: "watching dbi keys e db (fst (watch_keys e dbi keys [] db))"
proof -
  note s = watch_keys_spec [of "[]" e dbi keys db]
  have d: "distinct (map fst (fst (watch_keys e dbi keys [] db)))" using s by simp
  have m: "map_of (fst (watch_keys e dbi keys [] db)) =
      (\<lambda>p. if fst p = dbi \<and> snd p \<in> set keys then Some (snap (fingerprint_at e db (snd p))) else None)"
    using s by (simp add: fun_eq_iff)
  have "(p, v) \<in> set (fst (watch_keys e dbi keys [] db)) \<longleftrightarrow>
      map_of (fst (watch_keys e dbi keys [] db)) p = Some v" for p v
    using map_of_eq_Some_iff [OF d] by simp
  then have "(p, v) \<in> set (fst (watch_keys e dbi keys [] db)) \<longleftrightarrow>
      fst p = dbi \<and> snd p \<in> set keys \<and> v = snap (fingerprint_at e db (snd p))" for p v
    unfolding m by auto
  moreover have "(p, v) \<in> (\<lambda>key. ((dbi, key), f key)) ` A \<longleftrightarrow> fst p = dbi \<and> snd p \<in> A \<and> v = f (snd p)"
    for p v and f :: "bytes \<Rightarrow> bool \<times> u64" and A by (cases p) auto
  ultimately have "(p, v) \<in> set (fst (watch_keys e dbi keys [] db)) \<longleftrightarrow>
      (p, v) \<in> (\<lambda>key. ((dbi, key), snap (fingerprint_at e db key))) ` set keys" for p v by simp
  then show ?thesis unfolding watching_def by (meson subrelI subset_antisym)
qed

lemma handle_watch:
  assumes "at_rest sh conn" and "keys \<noteq> []"
  shows "handle lua ess (ascii ''WATCH'' # keys) sh conn = one_reply (watch (ess 0 0) (ascii ''WATCH'' # keys) sh conn)"
proof -
  have u: "upper (ascii ''WATCH'') = ascii ''WATCH''" by code_simp
  have "ascii ''WATCH'' \<noteq> ascii ''MULTI''" "ascii ''WATCH'' \<noteq> ascii ''EXEC''" "ascii ''WATCH'' \<noteq> ascii ''DISCARD''"
    by (simp_all add: ascii_def)
  then show ?thesis using assms by (auto simp: handle_def u at_rest_def Let_def)
qed

text \<open>\<open>WATCH\<close>, \<open>MULTI\<close> and the queueing.\<close>

lemma watched_transaction:
  assumes "at_rest sh conn" and "c_db_index conn < length (sh_ks sh)" and "\<not> sh_poisoned sh" and "keys \<noteq> []"
    and "\<forall>cmd\<in>set cmds. data_request cmd"
  obtains ks w where "watching (c_db_index conn) keys (ess0 0 0) (sh_ks sh ! c_db_index conn) w"
    and "same_live (env_now (ess0 0 0)) (sh_ks sh) ks"
    and "conversation lua (map (Pair ess0) ((ascii ''WATCH'' # keys) # [ascii ''MULTI''] # cmds)) sh conn =
      Done (One frame_ok # One frame_ok # replicate (length cmds) (One (Simple (ascii ''QUEUED''))), sh\<lparr>sh_ks := ks\<rparr>,
        conn\<lparr>c_watched := w, c_in_multi := True, c_multi_queue := cmds\<rparr>)"
proof -
  let ?i = "c_db_index conn" and ?e = "ess0 0 0"
  obtain w db where r: "watch_keys ?e ?i keys [] (sh_ks sh ! ?i) = (w, db)" by fastforce
  let ?sh = "sh\<lparr>sh_ks := (sh_ks sh)[?i := db]\<rparr>"
  have u: "upper (ascii ''MULTI'') = ascii ''MULTI''" by code_simp
  have w: "watching ?i keys ?e (sh_ks sh ! ?i) w" using watch_keys_watching [of ?i keys ?e] r by (metis fst_conv)
  have l: "same_live (env_now ?e) (sh_ks sh) ((sh_ks sh)[?i := db])"
    using assms(2) watch_keys_spec [of "[]" ?e ?i keys "sh_ks sh ! ?i"] r by (intro same_live_update) simp_all
  have "watch ?e (ascii ''WATCH'' # keys) sh conn = Done (frame_ok, ?sh, conn\<lparr>c_watched := w\<rparr>)"
    using assms(1-4) r by (simp add: watch_def ks_db_def at_rest_def Suc_le_eq)
  then have 1: "handle lua ess0 (ascii ''WATCH'' # keys) sh conn = Done (One frame_ok, ?sh, conn\<lparr>c_watched := w\<rparr>)"
    using handle_watch [OF assms(1,4)] by (simp add: one_reply_def)
  have 2: "handle lua ess0 [ascii ''MULTI''] ?sh (conn\<lparr>c_watched := w\<rparr>) =
      Done (One frame_ok, ?sh, conn\<lparr>c_watched := w, c_in_multi := True, c_multi_error := False, c_multi_queue := []\<rparr>)"
    using assms(1) by (auto simp: handle_def u at_rest_def multi_def Let_def subscription_count_def)
  have "conversation lua (map (Pair ess0) cmds) ?sh (conn\<lparr>c_watched := w, c_in_multi := True, c_multi_error := False, c_multi_queue := []\<rparr>) =
      Done (replicate (length cmds) (One (Simple (ascii ''QUEUED''))), ?sh,
        conn\<lparr>c_watched := w, c_in_multi := True, c_multi_error := False, c_multi_queue := cmds\<rparr>)"
    using assms(1,5) by (subst queueing) (auto simp: at_rest_def subscription_count_def)
  moreover have "conn\<lparr>c_watched := w, c_in_multi := True, c_multi_error := False, c_multi_queue := cmds\<rparr>
      = conn\<lparr>c_watched := w, c_in_multi := True, c_multi_queue := cmds\<rparr>" using assms(1) by (auto simp: at_rest_def)
  ultimately show ?thesis using that [OF w l] 1 2 by simp
qed

text \<open>\<open>EXEC\<close> with watched keys.\<close>

lemma exec_watched:
  assumes "at_rest sh conn" and "c_db_index conn < length (sh_ks sh)" and "\<not> sh_poisoned sh"
    and "watching (c_db_index conn) keys e0 db0 w"
  obtains ks where "same_live (env_now (ess 0 0)) (sh_ks sh) ks"
    and "exec lua ess sh (conn\<lparr>c_watched := w, c_in_multi := True, c_multi_queue := cmds\<rparr>) =
      (if \<forall>key\<in>set keys. fingerprint_at (ess 0 0) (sh_ks sh ! c_db_index conn) key = fingerprint_at e0 db0 key
       then outcome_bind (exec_queue lua ess 0 cmds (sh\<lparr>sh_ks := ks\<rparr>) conn) (\<lambda>(fs, sh, conn). Done (Array fs, sh, conn))
       else Done (NullArray, sh\<lparr>sh_ks := ks\<rparr>, conn))"
proof -
  let ?i = "c_db_index conn"
  let ?same = "\<forall>key\<in>set keys. fingerprint_at (ess 0 0) (sh_ks sh ! ?i) key = fingerprint_at e0 db0 key"
  have w: "set w = (\<lambda>key. ((?i, key), snap (fingerprint_at e0 db0 key))) ` set keys"
    using assms(4) by (simp add: watching_def)
  then have "\<forall>((dbi, key), s)\<in>set w. dbi < length (sh_ks sh)" using assms(2) by auto
  from watch_ok_spec [OF this, of "ess 0 0"] obtain ks where l: "same_live (env_now (ess 0 0)) (sh_ks sh) ks"
    and ok: "watch_ok (ess 0 0) w (sh_ks sh) =
      Some (\<forall>((dbi, key), s)\<in>set w. snap (fingerprint_at (ess 0 0) (sh_ks sh ! dbi) key) = s, ks)" by blast
  have "(\<forall>((dbi, key), s)\<in>set w. snap (fingerprint_at (ess 0 0) (sh_ks sh ! dbi) key) = s) \<longleftrightarrow> ?same"
    unfolding w by simp
  then have ok: "watch_ok (ess 0 0) w (sh_ks sh) = Some (?same, ks)" using ok by simp
  have r: "conn\<lparr>c_in_multi := False, c_multi_queue := [], c_watched := []\<rparr> = conn" using assms(1) by (auto simp: at_rest_def)
  have "exec lua ess sh (conn\<lparr>c_watched := w, c_in_multi := True, c_multi_queue := cmds\<rparr>) =
      (if b
       then outcome_bind (exec_queue lua ess 0 cmds (sh\<lparr>sh_ks := ks\<rparr>) (conn\<lparr>c_in_multi := False, c_multi_queue := [], c_watched := []\<rparr>))
              (\<lambda>(fs, sh, conn). Done (Array fs, sh, conn))
       else Done (NullArray, sh\<lparr>sh_ks := ks\<rparr>, conn\<lparr>c_in_multi := False, c_multi_queue := [], c_watched := []\<rparr>))"
    if "watch_ok (ess 0 0) w (sh_ks sh) = Some (b, ks)" for b
    using assms(1,3) that by (cases b) (simp_all add: exec_def Let_def at_rest_def)
  from this [OF ok] show ?thesis using that [OF l] unfolding r by blast
qed

text \<open>
  C13: optimistic locking. A connection sends \<open>WATCH\<close> for some keys, opens a transaction and queues
  commands; nothing of that changes what is stored. When \<open>EXEC\<close> comes, in whatever state the other
  clients have left, the commands run if each watched key has the fingerprint it had at the time of
  \<open>WATCH\<close> (no value, or the hash of its value); otherwise \<open>EXEC\<close> replies with a null array and again
  nothing that is stored changes.\<close>

theorem watch_guards_exec:
  assumes "at_rest sh conn" and "at_rest sh2 conn" and "c_db_index conn < length (sh_ks sh)"
    and "c_db_index conn < length (sh_ks sh2)" and "\<not> sh_poisoned sh" and "\<not> sh_poisoned sh2" and "keys \<noteq> []"
    and "\<forall>cmd\<in>set cmds. data_request cmd"
  shows "\<exists>ks conn' ks'. conversation lua (map (Pair ess0) ((ascii ''WATCH'' # keys) # [ascii ''MULTI''] # cmds)) sh conn =
      Done (One frame_ok # One frame_ok # replicate (length cmds) (One (Simple (ascii ''QUEUED''))), sh\<lparr>sh_ks := ks\<rparr>, conn')
    \<and> same_live (env_now (ess0 0 0)) (sh_ks sh) ks \<and> same_live (env_now (ess 0 0)) (sh_ks sh2) ks'
    \<and> handle lua ess [ascii ''EXEC''] sh2 conn' =
        (if \<forall>key\<in>set keys. fingerprint_at (ess 0 0) (sh_ks sh2 ! c_db_index conn) key
             = fingerprint_at (ess0 0 0) (sh_ks sh ! c_db_index conn) key
         then outcome_bind (exec_queue lua ess 0 cmds (sh2\<lparr>sh_ks := ks'\<rparr>) conn)
                (\<lambda>(fs, sh, conn). Done (One (Array fs), sh, conn))
         else Done (One NullArray, sh2\<lparr>sh_ks := ks'\<rparr>, conn))"
proof -
  obtain ks w where w: "watching (c_db_index conn) keys (ess0 0 0) (sh_ks sh ! c_db_index conn) w"
    and l: "same_live (env_now (ess0 0 0)) (sh_ks sh) ks"
    and c: "conversation lua (map (Pair ess0) ((ascii ''WATCH'' # keys) # [ascii ''MULTI''] # cmds)) sh conn =
      Done (One frame_ok # One frame_ok # replicate (length cmds) (One (Simple (ascii ''QUEUED''))), sh\<lparr>sh_ks := ks\<rparr>,
        conn\<lparr>c_watched := w, c_in_multi := True, c_multi_queue := cmds\<rparr>)"
    using watched_transaction [OF assms(1,3,5,7,8)] .
  let ?conn = "conn\<lparr>c_watched := w, c_in_multi := True, c_multi_queue := cmds\<rparr>"
  obtain ks' where l': "same_live (env_now (ess 0 0)) (sh_ks sh2) ks'"
    and x: "exec lua ess sh2 ?conn =
      (if \<forall>key\<in>set keys. fingerprint_at (ess 0 0) (sh_ks sh2 ! c_db_index conn) key
             = fingerprint_at (ess0 0 0) (sh_ks sh ! c_db_index conn) key
       then outcome_bind (exec_queue lua ess 0 cmds (sh2\<lparr>sh_ks := ks'\<rparr>) conn) (\<lambda>(fs, sh, conn). Done (Array fs, sh, conn))
       else Done (NullArray, sh2\<lparr>sh_ks := ks'\<rparr>, conn))"
    using exec_watched [OF assms(2,4,6) w] .
  have "handle lua ess [ascii ''EXEC''] sh2 ?conn = one_reply (exec lua ess sh2 ?conn)"
    using assms(2) by (intro handle_exec) (auto simp: at_rest_def subscription_count_def)
  also have "\<dots> = (if \<forall>key\<in>set keys. fingerprint_at (ess 0 0) (sh_ks sh2 ! c_db_index conn) key
             = fingerprint_at (ess0 0 0) (sh_ks sh ! c_db_index conn) key
       then outcome_bind (exec_queue lua ess 0 cmds (sh2\<lparr>sh_ks := ks'\<rparr>) conn) (\<lambda>(fs, sh, conn). Done (One (Array fs), sh, conn))
       else Done (One NullArray, sh2\<lparr>sh_ks := ks'\<rparr>, conn))"
    unfolding x by (simp add: one_reply_def split_beta)
  finally show ?thesis using c l l' by blast
qed

theorem watch_guards_exec_witness:
  "\<forall>ess. \<exists>conn' ks'. conversation quiet_lua (map (Pair ess) ((ascii ''WATCH'' # [[7]]) # [ascii ''MULTI''] # [[ascii ''get'', [7]]]))
       demo_shared (conn_new 1 []) = Done ([One frame_ok, One frame_ok, One (Simple (ascii ''QUEUED''))], demo_shared\<lparr>sh_ks := ks'\<rparr>, conn')"
proof
  fix ess :: "nat \<Rightarrow> nat \<Rightarrow> env"
  have "c_db_index (conn_new 1 []) < length (sh_ks demo_shared)" "\<not> sh_poisoned demo_shared" "[[7]] \<noteq> ([] :: bytes list)"
    "\<forall>cmd\<in>set [[ascii ''get'', [7]]]. data_request cmd"
    using demo_get by (simp_all add: demo_shared_def shared_new_def conn_new_def ks_new_def)
  from watch_guards_exec [OF demo_at_rest demo_at_rest this(1,1,2,2,3,4), of quiet_lua ess ess]
  show "\<exists>conn' ks'. conversation quiet_lua (map (Pair ess) ((ascii ''WATCH'' # [[7]]) # [ascii ''MULTI''] # [[ascii ''get'', [7]]]))
       demo_shared (conn_new 1 []) = Done ([One frame_ok, One frame_ok, One (Simple (ascii ''QUEUED''))], demo_shared\<lparr>sh_ks := ks'\<rparr>, conn')"
    by simp blast
qed

section \<open>Before authentication\<close>

lemma hello_opts_unauth:
  assumes "pw \<notin> set as"
  shows "\<exists>res. hello_opts (Some pw) as p a conn = (res, conn) \<and> (\<forall>p' a'. res = Inr (p', a') \<longrightarrow> a' = a)"
  using assms
proof (induction "Some pw" as p a conn rule: hello_opts.induct)
  case (1 as p a conn)
  show ?case
  proof (cases as)
    case (Cons x rest)
    show ?thesis
    proof (cases "upper x = ascii ''AUTH'' \<and> 2 \<le> length rest")
      case True
      then have "rest ! 1 \<in> set rest" by simp
      then have "rest ! 1 \<noteq> pw" using 1(3) Cons by auto
      then show ?thesis using True by (subst hello_opts.simps) (simp add: Cons)
    next
      case False
      have "pw \<notin> set (drop 1 rest)" using 1(3) Cons by (auto dest: in_set_dropD)
      then show ?thesis using 1(2) [OF Cons False] False by (subst hello_opts.simps) (auto simp: Cons)
    qed
  qed (subst hello_opts.simps, simp)
qed

lemma hello_unauth:
  assumes "sh_requirepass sh = Some pw" and "\<not> c_authenticated conn" and "pw \<notin> set args"
  shows "\<exists>f conn'. \<not> c_authenticated conn' \<and> c_db_index conn' = c_db_index conn
    \<and> (\<forall>ks. hello args (sh\<lparr>sh_ks := ks\<rparr>) conn = (f, sh\<lparr>sh_ks := ks\<rparr>, conn'))"
proof -
  have fin: "\<exists>f. \<forall>ks. hello_finish as (sh\<lparr>sh_ks := ks\<rparr>) c = (f, sh\<lparr>sh_ks := ks\<rparr>, c)"
    if "pw \<notin> set as" "\<not> c_authenticated c" for as c
  proof -
    note t = that
    obtain res where "hello_opts (Some pw) as None False c = (res, c)" "\<forall>p' a'. res = Inr (p', a') \<longrightarrow> a' = False"
      using hello_opts_unauth [OF t(1)] by blast
    then show ?thesis using assms(1) t(2) by (cases res) (auto simp: hello_finish_def)
  qed
  have d: "pw \<notin> set (drop 2 args)" using assms(3) by (meson in_set_dropD)
  obtain f2 f3 f0 where "\<forall>ks. hello_finish (drop 2 args) (sh\<lparr>sh_ks := ks\<rparr>) (conn\<lparr>c_resp3 := False\<rparr>) = (f2, sh\<lparr>sh_ks := ks\<rparr>, conn\<lparr>c_resp3 := False\<rparr>)"
    "\<forall>ks. hello_finish (drop 2 args) (sh\<lparr>sh_ks := ks\<rparr>) (conn\<lparr>c_resp3 := True\<rparr>) = (f3, sh\<lparr>sh_ks := ks\<rparr>, conn\<lparr>c_resp3 := True\<rparr>)"
    "\<forall>ks. hello_finish [] (sh\<lparr>sh_ks := ks\<rparr>) conn = (f0, sh\<lparr>sh_ks := ks\<rparr>, conn)"
    using fin [OF d, of "conn\<lparr>c_resp3 := False\<rparr>"] fin [OF d, of "conn\<lparr>c_resp3 := True\<rparr>"] fin [of "[]" conn] assms(2) by auto
  moreover define conn' where "conn' = conn\<lparr>c_resp3 := (if 1 < length args then
      (case parse_int (args ! 1) of Inr n \<Rightarrow> if n = 2 then False else if n = 3 then True else c_resp3 conn | Inl _ \<Rightarrow> c_resp3 conn)
      else c_resp3 conn)\<rparr>"
  ultimately have "\<exists>f. \<forall>ks. hello args (sh\<lparr>sh_ks := ks\<rparr>) conn = (f, sh\<lparr>sh_ks := ks\<rparr>, conn')"
    by (cases "parse_int (args ! 1)") (auto simp: hello_def)
  then show ?thesis using assms(2) by (auto simp: conn'_def)
qed

lemma tables_connection:
  "list_all (\<lambda>(n, h). ascii n \<noteq> ascii ''AUTH'' \<and> ascii n \<noteq> ascii ''HELLO'') string_table"
  "list_all (\<lambda>(n, h). ascii n \<noteq> ascii ''AUTH'' \<and> ascii n \<noteq> ascii ''HELLO'') bitmap_table"
  "list_all (\<lambda>(n, h). ascii n \<noteq> ascii ''AUTH'' \<and> ascii n \<noteq> ascii ''HELLO'') generic_table"
  "list_all (\<lambda>(n, h). ascii n \<noteq> ascii ''AUTH'' \<and> ascii n \<noteq> ascii ''HELLO'') hash_table"
  "list_all (\<lambda>(n, h). ascii n \<noteq> ascii ''AUTH'' \<and> ascii n \<noteq> ascii ''HELLO'') list_table"
  "list_all (\<lambda>(n, h). ascii n \<noteq> ascii ''AUTH'' \<and> ascii n \<noteq> ascii ''HELLO'') set_table"
  "list_all (\<lambda>(n, h). ascii n \<noteq> ascii ''AUTH'' \<and> ascii n \<noteq> ascii ''HELLO'') zset_table"
  "list_all (\<lambda>(n, h). ascii n \<noteq> ascii ''AUTH'' \<and> ascii n \<noteq> ascii ''HELLO'') admin_table"
  by (simp_all add: string_table_def bitmap_table_def generic_table_def hash_table_def list_table_def set_table_def
      zset_table_def admin_table_def ascii_def)

lemma find_handler_connection:
  assumes "name = ascii ''AUTH'' \<or> name = ascii ''HELLO''"
  shows "find_handler name = None"
proof (rule ccontr)
  assume "find_handler name \<noteq> None"
  then obtain h n where n: "(n, h) \<in> set data_table" "name = ascii n" using find_handlerD by blast
  then have "ascii n \<noteq> ascii ''AUTH'' \<and> ascii n \<noteq> ascii ''HELLO''"
    using tables_connection unfolding data_table_def list_all_iff by auto
  with assms n(2) show False by simp
qed

lemma execute_plain_connection:
  "execute_plain lua e (ascii ''AUTH'') args sh conn = db_command lua e (ascii ''AUTH'') args sh conn"
  "execute_plain lua e (ascii ''HELLO'') args sh conn = db_command lua e (ascii ''HELLO'') args sh conn"
  by (simp_all add: execute_plain_def ascii_def)

lemma execute_connection:
  assumes "name = ascii ''AUTH'' \<or> name = ascii ''HELLO''" and "\<not> sh_poisoned sh" and "c_db_index conn < length (sh_ks sh)"
  shows "execute lua es name args sh conn = Done (server_command lua (es 0) name args sh conn)"
proof -
  have "db_command lua (es 0) name args sh conn = Done (server_command lua (es 0) name args sh conn)"
    using assms(3) find_handler_connection [OF assms(1)] by (simp add: db_command_def ks_db_def)
  moreover have "execute_plain lua (es 0) name args sh conn = db_command lua (es 0) name args sh conn"
    using assms(1) execute_plain_connection by blast
  moreover have "execute_locked lua es name args sh conn = execute_plain lua (es 0) name args sh conn"
  proof -
    have "name \<noteq> ascii ''EVAL'' \<and> name \<noteq> ascii ''EVAL_RO'' \<and> name \<noteq> ascii ''EVALSHA'' \<and> name \<noteq> ascii ''EVALSHA_RO''"
      using assms(1) by (auto simp: ascii_def)
    then show ?thesis by (simp add: execute_locked_def)
  qed
  ultimately show ?thesis using assms(2) by (simp add: execute_def)
qed

text \<open>What one request of an unauthenticated connection does, for every content of the keyspace.\<close>

definition blind :: "shared \<Rightarrow> conn_state \<Rightarrow> (shared \<Rightarrow> ('a \<times> shared \<times> conn_state) outcome) \<Rightarrow> bool" where
  "blind sh conn f \<longleftrightarrow>
     (\<exists>r conn' ps. \<not> c_authenticated conn' \<and> c_db_index conn' = c_db_index conn
       \<and> (\<forall>ks. c_db_index conn < length ks \<longrightarrow>
            f (sh\<lparr>sh_ks := ks\<rparr>) = Done (r, sh\<lparr>sh_ks := ks, sh_pubsub := ps\<rparr>, conn')))"

lemma blindI:
  assumes "\<not> c_authenticated conn'" and "c_db_index conn' = c_db_index conn"
    and "\<And>ks. c_db_index conn < length ks \<Longrightarrow> f (sh\<lparr>sh_ks := ks\<rparr>) = Done (r, sh\<lparr>sh_ks := ks, sh_pubsub := ps\<rparr>, conn')"
  shows "blind sh conn f"
  using assms unfolding blind_def by blast

lemma blind_same:
  assumes "\<not> c_authenticated conn'" and "c_db_index conn' = c_db_index conn"
    and "\<And>ks. c_db_index conn < length ks \<Longrightarrow> f (sh\<lparr>sh_ks := ks\<rparr>) = Done (r, sh\<lparr>sh_ks := ks\<rparr>, conn')"
  shows "blind sh conn f"
  using assms by (intro blindI [where ps = "sh_pubsub sh"]) auto

lemma blind_execute:
  assumes "sh_requirepass sh = Some pw" and "\<not> c_authenticated conn" and "pw \<notin> set args" and "\<not> sh_poisoned sh"
    and "name = ascii ''AUTH'' \<or> name = ascii ''HELLO''" and "args \<noteq> []"
  shows "blind sh conn (\<lambda>sh. one_reply (execute lua es name args sh conn))"
proof -
  have x: "execute lua es name args (sh\<lparr>sh_ks := ks\<rparr>) conn = Done (server_command lua (es 0) name args (sh\<lparr>sh_ks := ks\<rparr>) conn)"
    if "c_db_index conn < length ks" for ks
    using assms(4,5) that by (intro execute_connection) simp_all
  show ?thesis
  proof (cases "name = ascii ''AUTH''")
    case True
    have "last args \<noteq> pw" using assms(3,6) by (meson last_in_set)
    then have "auth args (sh\<lparr>sh_ks := ks\<rparr>) conn = (fst (auth args sh conn), conn)" for ks
      using assms(1) by (auto simp: auth_def)
    then show ?thesis using assms(2) x True
      by (intro blind_same [where conn' = conn and r = "One (fst (auth args sh conn))"])
        (simp_all add: one_reply_def server_command_def ascii_def)
  next
    case False
    obtain f conn' where "\<not> c_authenticated conn'" "c_db_index conn' = c_db_index conn"
      "\<forall>ks. hello args (sh\<lparr>sh_ks := ks\<rparr>) conn = (f, sh\<lparr>sh_ks := ks\<rparr>, conn')"
      using hello_unauth [OF assms(1-3)] by blast
    then show ?thesis using assms(5) x False
      by (intro blind_same [where conn' = conn' and r = "One f"]) (auto simp: one_reply_def server_command_def ascii_def)
  qed
qed

lemma reset_unauth:
  assumes "\<not> c_authenticated conn"
  shows "\<exists>conn' ps f. \<not> c_authenticated conn' \<and> c_db_index conn' = c_db_index conn
    \<and> (\<forall>ks. reset (sh\<lparr>sh_ks := ks\<rparr>) conn = (f, sh\<lparr>sh_ks := ks, sh_pubsub := ps\<rparr>, conn'))"
  using assms
  by (intro exI [of _ "snd (snd (reset sh conn))"] exI [of _ "sh_pubsub (fst (snd (reset sh conn)))"]
      exI [of _ "Simple (ascii ''RESET'')"]) (auto simp: reset_def Let_def)

lemma handle_before_auth:
  assumes "args \<noteq> []" and "upper (hd args) \<in> set before_auth"
    and "c_resp3 conn \<or> subscription_count conn = 0 \<or> allowed_in_subscribe (upper (hd args))"
  shows "handle lua ess args sh conn =
      (if c_in_multi conn then
         Done (One (fst (queue_command (upper (hd args)) args conn)), sh, snd (queue_command (upper (hd args)) args conn))
       else handle_plain lua (ess 0) (upper (hd args)) args sh conn)"
proof -
  have "upper (hd args) \<noteq> ascii ''MULTI''" "upper (hd args) \<noteq> ascii ''EXEC''" "upper (hd args) \<noteq> ascii ''DISCARD''"
    "upper (hd args) \<noteq> ascii ''WATCH''" "upper (hd args) \<noteq> ascii ''UNWATCH''"
    using assms(2) by (auto simp: before_auth_def ascii_def)
  moreover have "\<not> (\<not> c_resp3 conn \<and> 0 < subscription_count conn \<and> \<not> allowed_in_subscribe (upper (hd args)))"
    using assms(3) by auto
  ultimately show ?thesis using assms(1,2) unfolding handle_def Let_def split_beta by (simp only: if_False simp_thms)
qed

lemma blind_plain:
  assumes "sh_requirepass sh = Some pw" and "\<not> c_authenticated conn" and "pw \<notin> set args" and "\<not> sh_poisoned sh"
    and "args \<noteq> []" and "name \<in> set before_auth"
  shows "blind sh conn (\<lambda>sh. handle_plain lua es name args sh conn)"
proof -
  consider "name = ascii ''QUIT''" | "name = ascii ''RESET''" | "name = ascii ''AUTH'' \<or> name = ascii ''HELLO''"
    using assms(6) by (auto simp: before_auth_def)
  then show ?thesis
  proof cases
    case 1
    then show ?thesis using assms(2) by (intro blind_same [where conn' = conn]) (simp_all add: handle_plain_def)
  next
    case 2
    obtain conn' ps f where r: "\<not> c_authenticated conn'" "c_db_index conn' = c_db_index conn"
      "\<And>ks. reset (sh\<lparr>sh_ks := ks\<rparr>) conn = (f, sh\<lparr>sh_ks := ks, sh_pubsub := ps\<rparr>, conn')"
      using reset_unauth [OF assms(2), of sh] by blast
    have "handle_plain lua es name args sh conn = (let (f, sh, conn) = reset sh conn in Done (One f, sh, conn))" for sh
      unfolding 2 by (simp add: handle_plain_def ascii_def)
    then show ?thesis using r by (intro blindI [where conn' = conn']) simp_all
  next
    case 3
    have "handle_plain lua es name args sh conn = one_reply (execute lua es name args sh conn)" for sh
      using 3 by (elim disjE) (simp_all add: handle_plain_def ascii_def)
    then show ?thesis using blind_execute [OF assms(1-4) 3 assms(5), of lua es] by simp
  qed
qed

lemma blind_handle:
  assumes "sh_requirepass sh = Some pw" and "\<not> c_authenticated conn" and "pw \<notin> set args" and "\<not> sh_poisoned sh"
  shows "blind sh conn (\<lambda>sh. handle lua ess args sh conn)"
proof -
  have s: "blind sh conn (\<lambda>sh. Done (r, sh, conn))" for r :: reply
    using assms(2) by (intro blind_same [where conn' = conn]) simp_all
  consider "args = []" | "args \<noteq> []" "upper (hd args) \<notin> set before_auth"
    | "args \<noteq> []" "upper (hd args) \<in> set before_auth" "\<not> c_resp3 conn" "0 < subscription_count conn"
        "\<not> allowed_in_subscribe (upper (hd args))"
    | "args \<noteq> []" "upper (hd args) \<in> set before_auth"
        "c_resp3 conn \<or> subscription_count conn = 0 \<or> allowed_in_subscribe (upper (hd args))"
    by auto
  then show ?thesis
  proof cases
    case 1
    then show ?thesis using s by (simp add: handle_def)
  next
    case 2
    have "handle lua ess args (sh\<lparr>sh_ks := ks\<rparr>) conn = Done (One noauth_error, sh\<lparr>sh_ks := ks\<rparr>, conn)" for ks
      using 2 assms(1,2) by (simp add: handle_def Let_def)
    then show ?thesis using assms(2) by (intro blind_same [where conn' = conn]) simp_all
  next
    case 3
    have "handle lua ess args sh1 conn = Done (One (subscribe_mode_error (ess 0 0) (upper (hd args))), sh1, conn)" for sh1
      using 3 by (simp add: handle_def Let_def)
    then show ?thesis using s by simp
  next
    case 4
    note h = handle_before_auth [OF 4, of lua ess]
    show ?thesis
    proof (cases "c_in_multi conn")
      case True
      have "\<not> c_authenticated (snd (queue_command n a conn))" "c_db_index (snd (queue_command n a conn)) = c_db_index conn" for n a
        using assms(2) by (simp_all add: queue_command_def)
      then show ?thesis unfolding h if_P [OF True] by (intro blind_same) simp_all
    next
      case False
      show ?thesis unfolding h if_not_P [OF False] by (rule blind_plain [OF assms 4(1,2)])
    qed
  qed
qed

text \<open>
  C14: on a server with a password, a connection that has not authenticated and never sends the
  password as an argument stays unauthenticated, and its requests, any number of them, neither change
  nor see anything of the keyspace: the replies are the same whatever the databases contain, and
  nothing of the shared state changes but its own subscriptions.\<close>

theorem auth_gate:
  assumes "sh_requirepass sh = Some pw" and "\<not> c_authenticated conn" and "\<not> sh_poisoned sh"
    and "\<forall>(ess, args)\<in>set reqs. pw \<notin> set args"
  shows "\<exists>rs conn' ps. \<not> c_authenticated conn' \<and>
    (\<forall>ks. c_db_index conn < length ks \<longrightarrow> conversation lua reqs (sh\<lparr>sh_ks := ks\<rparr>) conn =
       Done (rs, sh\<lparr>sh_ks := ks, sh_pubsub := ps\<rparr>, conn'))"
proof -
  have "blind sh conn (\<lambda>sh. conversation lua reqs sh conn)" using assms
  proof (induction reqs arbitrary: sh conn)
    case Nil
    then show ?case by (intro blind_same [where conn' = conn]) simp_all
  next
    case (Cons req reqs)
    obtain ess args where req: "req = (ess, args)" by (cases req)
    then have "pw \<notin> set args" using Cons.prems(4) by simp
    from blind_handle [OF Cons.prems(1,2) this Cons.prems(3), of lua ess]
    obtain r conn1 ps1 where 1: "\<not> c_authenticated conn1" "c_db_index conn1 = c_db_index conn"
      "\<And>ks. c_db_index conn < length ks \<Longrightarrow>
         handle lua ess args (sh\<lparr>sh_ks := ks\<rparr>) conn = Done (r, sh\<lparr>sh_ks := ks, sh_pubsub := ps1\<rparr>, conn1)"
      unfolding blind_def by blast
    have "blind (sh\<lparr>sh_pubsub := ps1\<rparr>) conn1 (\<lambda>sh. conversation lua reqs sh conn1)"
      using Cons.prems 1(1) by (intro Cons.IH) simp_all
    then obtain rs conn2 ps2 where 2: "\<not> c_authenticated conn2" "c_db_index conn2 = c_db_index conn1"
      "\<And>ks. c_db_index conn1 < length ks \<Longrightarrow> conversation lua reqs (sh\<lparr>sh_pubsub := ps1, sh_ks := ks\<rparr>) conn1 =
         Done (rs, sh\<lparr>sh_pubsub := ps1, sh_ks := ks, sh_pubsub := ps2\<rparr>, conn2)"
      unfolding blind_def by blast
    have e: "sh\<lparr>sh_ks := ks, sh_pubsub := ps1\<rparr> = sh\<lparr>sh_pubsub := ps1, sh_ks := ks\<rparr>" for ks by simp
    show ?case
      by (rule blindI [where conn' = conn2 and r = "r # rs" and ps = ps2]) (use 1 2 e in \<open>simp_all add: req\<close>)
  qed
  then show ?thesis unfolding blind_def by blast
qed

theorem auth_gate_witness:
  "\<forall>ess ks. \<exists>rs ps conn'. 0 < length ks \<longrightarrow>
     conversation quiet_lua [(ess, [ascii ''flushall'']), (ess, [ascii ''auth'', [1]]), (ess, [ascii ''get'', [7]])]
       (demo_shared\<lparr>sh_requirepass := Some [9, 9], sh_ks := ks\<rparr>) (conn_new 1 []) =
     Done (rs, demo_shared\<lparr>sh_requirepass := Some [9, 9], sh_ks := ks, sh_pubsub := ps\<rparr>, conn')"
proof (intro allI)
  fix ess :: "nat \<Rightarrow> nat \<Rightarrow> env" and ks
  let ?reqs = "[(ess, [ascii ''flushall'']), (ess, [ascii ''auth'', [1]]), (ess, [ascii ''get'', [7]])]"
  let ?sh = "demo_shared\<lparr>sh_requirepass := Some [9, 9]\<rparr>"
  have "sh_requirepass ?sh = Some [9, 9]" "\<not> c_authenticated (conn_new 1 [])" "\<not> sh_poisoned ?sh"
    "\<forall>(ess, args)\<in>set ?reqs. [9, 9] \<notin> set args"
    by (simp_all add: demo_shared_def shared_new_def conn_new_def ascii_def)
  from auth_gate [OF this, of quiet_lua]
  show "\<exists>rs ps conn'. 0 < length ks \<longrightarrow> conversation quiet_lua ?reqs
       (demo_shared\<lparr>sh_requirepass := Some [9, 9], sh_ks := ks\<rparr>) (conn_new 1 []) =
     Done (rs, demo_shared\<lparr>sh_requirepass := Some [9, 9], sh_ks := ks, sh_pubsub := ps\<rparr>, conn')"
    by (fastforce simp: conn_new_def)
qed

section \<open>Scripts\<close>

text \<open>
  whatever a script does, the connection that ran it keeps its selected database, its transaction,
  watched keys, subscriptions and authentication, and the pub/sub registry is as before.\<close>

theorem script_isolation:
  assumes "eval lua es args source sh conn = Done (f, sh', conn')"
  shows "c_db_index conn' = c_db_index conn \<and> c_in_multi conn' = c_in_multi conn
    \<and> c_multi_queue conn' = c_multi_queue conn \<and> c_watched conn' = c_watched conn
    \<and> c_channels conn' = c_channels conn \<and> c_patterns conn' = c_patterns conn
    \<and> (c_authenticated conn \<longrightarrow> c_authenticated conn') \<and> sh_pubsub sh' = sh_pubsub sh"
  using eval_db [OF assms] result_keepsD [OF eval_keeps assms] by (simp add: keeps_def)

text \<open>A script that selects another database and leaves.\<close>

definition select_lua :: lua_impl where
  "select_lua = \<lparr>lua_compile = (\<lambda>_. None),
     lua_start = (\<lambda>_ _ _. Pcall [LString (ascii ''SELECT''), LString (ascii ''3'')] (\<lambda>_. Finish True LNil))\<rparr>"

theorem script_isolation_witness:
  "\<forall>es. \<exists>f sh' conn'. eval select_lua es [ascii ''EVAL'', [], ascii ''0''] Body demo_shared (conn_new 1 []) = Done (f, sh', conn')
     \<and> c_db_index conn' = 0"
proof
  fix es :: "nat \<Rightarrow> env"
  have p: "parse_int (ascii ''0'') = Inr 0" "parse_int (ascii ''3'') = Inr 3" by code_simp+
  have u: "upper (ascii ''SELECT'') = ascii ''SELECT''" "is_blocked (ascii ''SELECT'') = False" by code_simp+
  have "\<exists>f sh' conn'. eval select_lua es [ascii ''EVAL'', [], ascii ''0''] Body demo_shared (conn_new 1 []) = Done (f, sh', conn')"
    by (simp add: eval_def p script_body_def run_script_def select_lua_def redis_pcall_def u
        execute_plain_def select_def Let_def case_prod_unfold split: sum.splits)
  then show "\<exists>f sh' conn'. eval select_lua es [ascii ''EVAL'', [], ascii ''0''] Body demo_shared (conn_new 1 []) = Done (f, sh', conn')
     \<and> c_db_index conn' = 0"
    using script_isolation [of select_lua es "[ascii ''EVAL'', [], ascii ''0'']" Body demo_shared "conn_new 1 []"]
    by (fastforce simp: conn_new_def)
qed

end
