(* ===== verification/Fingerprint.thy ===== *)
theory Fingerprint
  imports Db_Spec "HOL-Library.Multiset"
begin

text \<open>
  The content fingerprints of src/db.rs that \<open>WATCH\<close> and \<open>EXEC\<close> compare: the XOR fold makes them
  independent of iteration order, for any hash function.
\<close>

section \<open>Fingerprints\<close>

lemma foldl_xor_mset:
  assumes "mset xs = mset ys"
  shows "foldl (\<lambda>acc x. acc XOR f x) (0 :: u64) xs = foldl (\<lambda>acc x. acc XOR f x) 0 ys"
proof -
  have "fold (\<lambda>x acc. acc XOR f x) xs = (fold (\<lambda>x acc. acc XOR f x) ys :: u64 \<Rightarrow> u64)"
    using assms by (intro fold_multiset_equiv) (auto simp: fun_eq_iff xor.assoc xor.commute xor.left_commute)
  then show ?thesis by (simp add: foldl_conv_fold)
qed

text \<open>
  The fingerprint that \<open>WATCH\<close> takes of a set, a hash or a sorted set does not depend on the
  iteration order of the container, whatever the hash function, so reordering never fails an
  \<open>EXEC\<close>.
\<close>

theorem fingerprint_order:
  assumes "mset s = mset s'" and "mset h = mset h'" and "mset (z_scores z) = mset (z_scores z')"
  shows "feed_value hash (SetV s) = feed_value hash (SetV s')
    \<and> feed_value hash (HashV h) = feed_value hash (HashV h')
    \<and> feed_value hash (ZSetV z) = feed_value hash (ZSetV z')"
  using foldl_xor_mset [OF assms(1), of "\<lambda>m. hash (feed_bytes m)"]
    foldl_xor_mset [OF assms(2), of "\<lambda>(k, v). hash_pair hash k (hash (feed_bytes v))"]
    foldl_xor_mset [OF assms(3), of "\<lambda>(m, d). hash_pair hash m (f64_bits d)"]
    assms [THEN mset_eq_length]
  by (simp add: zset_len_def case_prod_unfold)

theorem fingerprint_order_witness:
  "feed_value (\<lambda>b. of_nat (length b)) (SetV [[1], [2, 3]]) = feed_value (\<lambda>b. of_nat (length b)) (SetV [[2, 3], [1]])"
  using fingerprint_order [of "[[1], [2, 3]]" "[[2, 3], [1]]" "[]" "[]" zset_new zset_new "\<lambda>b. of_nat (length b)"]
  by (simp add: add_mset_commute)

end
