(* ===== verification/Rdb_Codec.thy ===== *)
theory Rdb_Codec
  imports Db_Spec
begin

text \<open>
  The primitives of the snapshot format: numbers as bytes, the checksum (src/rdb/crc64.rs) and LZF
  decompression (src/rdb/lzf.rs).
\<close>

section \<open>Bytes as numbers\<close>

fun be_bytes :: "nat \<Rightarrow> nat \<Rightarrow> bytes" where
  "be_bytes 0 n = []"
| "be_bytes (Suc w) n = be_bytes w (n div 256) @ [of_nat (n mod 256)]"

fun le_nat :: "bytes \<Rightarrow> nat" where
  "le_nat [] = 0"
| "le_nat (b # bs) = unat b + 256 * le_nat bs"

definition be_nat :: "bytes \<Rightarrow> nat" where
  "be_nat bs = foldl (\<lambda>n b. 256 * n + unat b) 0 bs"

lemma length_le_bytes [simp]: "length (le_bytes w n) = w"
  by (induction w n rule: le_bytes.induct) simp_all

lemma length_be_bytes [simp]: "length (be_bytes w n) = w"
  by (induction w n rule: be_bytes.induct) simp_all

lemma unat_byte [simp]: "unat (of_nat (n mod 256) :: u8) = n mod 256"
  by (simp add: unat_of_nat)

lemma unat_byte_less: "unat (b :: u8) < 256"
  using unsigned_less [of b] by simp

lemma le_nat_le_bytes: "le_nat (le_bytes w n) = n mod 256 ^ w"
  by (induction w n rule: le_bytes.induct) (simp_all add: mod_mult2_eq add.commute)

lemma be_nat_snoc [simp]: "be_nat (bs @ [b]) = 256 * be_nat bs + unat b"
  by (simp add: be_nat_def)

lemma be_nat_be_bytes: "be_nat (be_bytes w n) = n mod 256 ^ w"
  by (induction w n rule: be_bytes.induct) (simp add: be_nat_def, simp add: mod_mult2_eq)

section \<open>The checksum\<close>

definition crc_poly :: u64 where
  "crc_poly = 0xad93d23594c935a9"

text \<open>\<open>reverse\<close>: one round of its loop, 64 times.\<close>

definition reverse_round :: "u64 \<times> u64 \<Rightarrow> u64 \<times> u64" where
  "reverse_round = (\<lambda>(r, v). (push_bit 1 r OR (v AND 1), drop_bit 1 v))"

definition crc_reverse :: "u64 \<Rightarrow> u64" where
  "crc_reverse v = fst ((reverse_round ^^ 64) (0, v))"

text \<open>One round of the inner loop of \<open>TABLE\<close>, and an entry of the table.\<close>

definition crc_round :: "u64 \<Rightarrow> u64" where
  "crc_round crc =
     (if crc AND 1 = 1 then drop_bit 1 crc XOR crc_reverse crc_poly else drop_bit 1 crc)"

definition crc_table :: "nat \<Rightarrow> u64" where
  "crc_table n = (crc_round ^^ 8) (of_nat n)"

definition crc_update :: "u64 \<Rightarrow> bytes \<Rightarrow> u64" where
  "crc_update crc data =
     foldl (\<lambda>crc b. crc_table (unat ((crc XOR ucast b) AND 0xff)) XOR drop_bit 8 crc) crc data"

definition crc_checksum :: "bytes \<Rightarrow> u64" where
  "crc_checksum data = crc_update 0 data"

subsection \<open>The bit-serial definition\<close>

lemma reverse_rounds:
  "k \<le> 64 \<Longrightarrow> snd ((reverse_round ^^ k) (0, v)) = drop_bit k v
     \<and> (\<forall>n. bit (fst ((reverse_round ^^ k) (0, v))) n \<longleftrightarrow> n < k \<and> bit v (k - 1 - n))"
proof (induction k)
  case (Suc k)
  obtain r w where s: "(reverse_round ^^ k) (0, v) = (r, w)" by fastforce
  have w: "w = drop_bit k v" and r: "bit r n \<longleftrightarrow> n < k \<and> bit v (k - 1 - n)" for n
    using Suc s by simp_all
  have e: "(reverse_round ^^ Suc k) (0, v) = (push_bit 1 r OR (w AND 1), drop_bit 1 w)"
    using s by (simp add: reverse_round_def)
  have "bit (push_bit 1 r OR (w AND 1)) n \<longleftrightarrow> n < Suc k \<and> bit v (k - n)" for n
  proof (cases n)
    case 0
    have "\<not> bit (push_bit 1 r) 0" by (simp only: bit_push_bit_iff) simp
    moreover have "bit (w AND 1) 0 \<longleftrightarrow> bit v k"
      unfolding bit_and_iff bit_1_iff w bit_drop_bit_eq by simp
    ultimately show ?thesis unfolding 0 bit_or_iff by simp
  next
    case (Suc m)
    have "bit (push_bit 1 r) (Suc m) \<longleftrightarrow> bit r m"
      using Suc.prems r [of m] unfolding bit_push_bit_iff by auto
    moreover have "\<not> bit (w AND 1) (Suc m)" unfolding bit_and_iff bit_1_iff by simp
    ultimately show ?thesis unfolding Suc bit_or_iff r by auto
  qed
  then show ?case unfolding e by (simp add: w)
qed simp

lemma bit_crc_reverse: "bit (crc_reverse v) n \<longleftrightarrow> n < 64 \<and> bit v (63 - n)"
  using reverse_rounds [of 64 v] by (simp add: crc_reverse_def)

lemma xor_cancel:
  fixes a b c :: u64
  shows "a XOR b = 0 \<longleftrightarrow> a = b" "a XOR b = a XOR c \<longleftrightarrow> b = c" "b XOR a = c XOR a \<longleftrightarrow> b = c"
  by (auto simp: bit_eq_iff bit_xor_iff)

lemma crc_round_alt: "crc_round c = drop_bit 1 c XOR (if odd c then crc_reverse crc_poly else 0)"
  by (simp add: crc_round_def and_one_eq odd_iff_mod_2_eq_one)

lemma crc_round_xor: "crc_round (a XOR b) = crc_round a XOR crc_round b"
proof -
  have "odd (a XOR b) \<longleftrightarrow> odd a \<noteq> odd b" by (simp add: even_xor_iff)
  then show ?thesis by (auto simp: crc_round_alt drop_bit_xor xor.assoc xor.left_commute xor.commute)
qed

lemma crc_rounds_xor: "(crc_round ^^ n) (a XOR b) = (crc_round ^^ n) a XOR (crc_round ^^ n) b"
  by (induction n) (simp_all add: crc_round_xor)

lemma crc_rounds_drop: "take_bit n x = 0 \<Longrightarrow> (crc_round ^^ n) x = drop_bit n x"
proof (induction n arbitrary: x)
  case (Suc n)
  have b: "\<not> bit x i" if "i < Suc n" for i
    using Suc.prems that bit_take_bit_iff [of "Suc n" x i] by simp
  then have "even x" by (metis bit_0 zero_less_Suc)
  then have r: "crc_round x = drop_bit 1 x" by (simp add: crc_round_alt)
  have "take_bit n (drop_bit 1 x) = 0"
    using b by (intro bit_eqI) (auto simp: bit_take_bit_iff bit_drop_bit_eq)
  then have "(crc_round ^^ n) (crc_round x) = drop_bit n (drop_bit 1 x)" using Suc.IH r by simp
  then show ?case by (simp add: funpow_swap1)
qed simp

lemma take_xor_self: "take_bit n (x XOR take_bit n x) = 0" for x :: u64
  by (intro bit_eqI) (auto simp: bit_take_bit_iff bit_xor_iff)

lemma crc_round_split: "(crc_round ^^ 8) c = crc_table (unat (c AND 0xff)) XOR drop_bit 8 c"
proof -
  have m: "c AND 0xff = take_bit 8 c" by (simp add: take_bit_eq_mask mask_eq_exp_minus_1)
  have "(crc_round ^^ 8) c = (crc_round ^^ 8) (take_bit 8 c) XOR (crc_round ^^ 8) (c XOR take_bit 8 c)"
    unfolding crc_rounds_xor [symmetric] by (simp add: xor.left_commute)
  also have "(crc_round ^^ 8) (c XOR take_bit 8 c) = drop_bit 8 (c XOR take_bit 8 c)"
    by (rule crc_rounds_drop [OF take_xor_self])
  also have "drop_bit 8 (c XOR take_bit 8 c) = drop_bit 8 c"
    by (intro bit_eqI) (auto simp: bit_drop_bit_eq bit_xor_iff bit_take_bit_iff)
  finally show ?thesis by (simp add: crc_table_def m)
qed

text \<open>One byte, shifted in bit by bit.\<close>

definition crc_serial :: "u64 \<Rightarrow> u8 \<Rightarrow> u64" where
  "crc_serial crc b = (crc_round ^^ 8) (crc XOR ucast b)"

lemma crc_update_serial: "crc_update crc data = foldl crc_serial crc data"
proof -
  have "drop_bit 8 (crc XOR ucast (b :: u8)) = (drop_bit 8 crc :: u64)" for crc b
    by (intro bit_eqI) (auto simp: bit_drop_bit_eq bit_xor_iff bit_ucast_iff dest: bit_imp_le_length)
  then have "crc_table (unat ((crc XOR ucast b) AND 0xff)) XOR drop_bit 8 crc = crc_serial crc b" for crc and b :: u8
    using crc_round_split [of "crc XOR ucast b"] by (simp add: crc_serial_def)
  then show ?thesis by (simp add: crc_update_def)
qed

subsection \<open>Error detection\<close>

lemma crc_round_zero: "crc_round d = 0 \<Longrightarrow> d = 0"
proof -
  assume r: "crc_round d = 0"
  have e: "even d"
  proof (rule ccontr)
    assume "odd d"
    then have "drop_bit 1 d XOR crc_reverse crc_poly = 0" using r by (simp add: crc_round_alt)
    then have "drop_bit 1 d = crc_reverse crc_poly" by (simp only: xor_cancel)
    then have "bit (drop_bit 1 d) 63 \<longleftrightarrow> bit (crc_reverse crc_poly) 63" by simp
    then have "\<not> bit crc_poly 0" using bit_imp_le_length [of d 64] by (auto simp: bit_drop_bit_eq bit_crc_reverse)
    then show False by (simp add: crc_poly_def)
  qed
  then have z: "drop_bit 1 d = 0" using r by (simp add: crc_round_alt)
  have "\<not> bit d n" for n
  proof (cases n)
    case 0
    then show ?thesis using e by (simp add: bit_0)
  next
    case (Suc m)
    have "bit (drop_bit 1 d) m \<longleftrightarrow> False" unfolding z by simp
    then show ?thesis using Suc by (simp add: bit_drop_bit_eq)
  qed
  then show "d = 0" by (intro bit_eqI) simp
qed

lemma crc_rounds_inj: "(crc_round ^^ n) a = (crc_round ^^ n) b \<Longrightarrow> a = b"
proof (induction n)
  case (Suc n)
  have "crc_round ((crc_round ^^ n) a XOR (crc_round ^^ n) b) = 0"
    using Suc.prems by (simp add: crc_round_xor)
  then have "(crc_round ^^ n) a XOR (crc_round ^^ n) b = 0" by (rule crc_round_zero)
  then have "(crc_round ^^ n) a = (crc_round ^^ n) b" by (simp only: xor_cancel)
  then show ?case by (rule Suc.IH)
qed simp

lemma le_nat_less: "le_nat bs < 256 ^ length bs"
proof (induction bs)
  case (Cons b bs)
  then have "256 * Suc (le_nat bs) \<le> 256 * 256 ^ length bs" by (intro mult_le_mono2 Suc_leI)
  then show ?case using unat_byte_less [of b] by simp
qed simp

lemma le_nat_inject: "length xs = length ys \<Longrightarrow> le_nat xs = le_nat ys \<Longrightarrow> xs = ys"
proof (induction xs ys rule: list_induct2)
  case (Cons x xs y ys)
  have m: "(unat b + 256 * n) mod 256 = unat b" "(unat b + 256 * n) div 256 = n" for b :: u8 and n
    using unat_byte_less [of b] by simp_all
  have "unat x = unat y \<and> le_nat xs = le_nat ys"
    using Cons.prems m [of x "le_nat xs"] m [of y "le_nat ys"] by simp
  then show ?case using Cons.IH by (simp add: word_unat_eq_iff)
qed simp

text \<open>Up to eight bytes are shifted in as one number.\<close>

lemma crc_serial_block:
  "length xs \<le> 8 \<Longrightarrow> foldl crc_serial c xs = (crc_round ^^ (8 * length xs)) (c XOR of_nat (le_nat xs))"
proof (induction xs arbitrary: c)
  case (Cons x xs)
  let ?w = "of_nat (le_nat xs) :: u64"
  have "le_nat xs < 256 ^ 7"
    using le_nat_less [of xs] Cons.prems power_increasing [of "length xs" 7 "256 :: nat"] by simp
  then have u: "unat ?w = le_nat xs" and lt: "le_nat xs < 2 ^ 56" by (simp_all add: unat_of_nat)
  have p: "(crc_round ^^ 8) (push_bit 8 ?w) = ?w"
  proof -
    have "take_bit 8 (push_bit 8 ?w) = 0" by (intro bit_eqI) (auto simp: bit_take_bit_iff bit_push_bit_iff)
    then have "(crc_round ^^ 8) (push_bit 8 ?w) = drop_bit 8 (push_bit 8 ?w)" by (rule crc_rounds_drop)
    also have "\<dots> = ?w"
    proof -
      have "unat (drop_bit 8 (push_bit 8 ?w)) = le_nat xs"
        using lt u by (simp add: unat_drop_bit_eq drop_bit_eq_div push_bit_eq_mult unat_word_ariths)
      then show ?thesis using u by (simp add: word_unat_eq_iff)
    qed
    finally show ?thesis .
  qed
  have o: "ucast x XOR push_bit 8 ?w = of_nat (le_nat (x # xs))"
  proof -
    have "ucast x AND push_bit 8 ?w = 0"
      by (intro bit_eqI) (auto simp: bit_and_iff bit_push_bit_iff bit_ucast_iff dest: bit_imp_le_length)
    then have a: "ucast x XOR push_bit 8 ?w = ucast x + push_bit 8 ?w" by (simp only: disjunctive_add_eq_xor)
    have b: "ucast x = (of_nat (unat x) :: u64)" by (simp only: of_nat_unat)
    have c: "push_bit 8 ?w = 256 * ?w" by (simp add: push_bit_eq_mult)
    have "of_nat (le_nat (x # xs)) = (ucast x + push_bit 8 ?w :: u64)"
      unfolding b c by (simp only: le_nat.simps of_nat_add of_nat_mult of_nat_numeral)
    then show ?thesis by (rule trans [OF a sym])
  qed
  have "foldl crc_serial c (x # xs) = (crc_round ^^ (8 * length xs)) (crc_serial c x XOR ?w)"
    using Cons by simp
  also have "crc_serial c x XOR ?w = (crc_round ^^ 8) ((c XOR ucast x) XOR push_bit 8 ?w)"
    unfolding crc_serial_def by (subst (2) crc_rounds_xor) (simp add: p)
  also have "(c XOR ucast x) XOR push_bit 8 ?w = c XOR of_nat (le_nat (x # xs))"
    by (simp only: xor.assoc o)
  finally have "foldl crc_serial c (x # xs) =
      (crc_round ^^ (8 * length xs)) ((crc_round ^^ 8) (c XOR of_nat (le_nat (x # xs))))" .
  also have "\<dots> = (crc_round ^^ (8 * length xs + 8)) (c XOR of_nat (le_nat (x # xs)))"
    unfolding funpow_add by simp
  also have "8 * length xs + 8 = 8 * length (x # xs)" by simp
  finally show ?case .
qed simp

lemma crc_serial_inj: "foldl crc_serial c ys = foldl crc_serial d ys \<Longrightarrow> c = d"
proof (induction ys arbitrary: c d)
  case (Cons y ys)
  then have "crc_serial c y = crc_serial d y" by simp
  then have "c XOR ucast y = d XOR ucast y" unfolding crc_serial_def by (rule crc_rounds_inj)
  then show ?case by (simp only: xor_cancel)
qed simp

lemma crc_detects:
  assumes "length xs = length ys" and "length xs \<le> 8"
    and "crc_checksum (pre @ xs @ post) = crc_checksum (pre @ ys @ post)"
  shows "xs = ys"
proof -
  let ?c = "foldl crc_serial 0 pre"
  have "foldl crc_serial ?c xs = foldl crc_serial ?c ys"
  proof (rule crc_serial_inj)
    show "foldl crc_serial (foldl crc_serial ?c xs) post = foldl crc_serial (foldl crc_serial ?c ys) post"
      using assms(3) by (simp add: crc_checksum_def crc_update_serial)
  qed
  then have "(crc_round ^^ (8 * length ys)) (?c XOR of_nat (le_nat xs)) = (crc_round ^^ (8 * length ys)) (?c XOR of_nat (le_nat ys))"
    using assms(1,2) crc_serial_block [of xs ?c] crc_serial_block [of ys ?c] by (simp only:)
  from crc_rounds_inj [OF this] have e: "(of_nat (le_nat xs) :: u64) = of_nat (le_nat ys)" by (simp only: xor_cancel)
  have u: "unat (of_nat (le_nat zs) :: u64) = le_nat zs" if "length zs \<le> 8" for zs
  proof -
    have "le_nat zs < 256 ^ 8" using le_nat_less [of zs] power_increasing [OF that, of "256 :: nat"] by linarith
    then show ?thesis by (simp add: unat_of_nat)
  qed
  have "le_nat xs = le_nat ys" using u [OF assms(2)] u [of ys] assms(1,2) unfolding e by (simp only:)
  then show ?thesis using le_nat_inject assms(1) by blast
qed

section \<open>Decompression\<close>

text \<open>The copy loop of a back reference, a byte at a time.\<close>

fun copy_back :: "nat \<Rightarrow> nat \<Rightarrow> bytes \<Rightarrow> bytes option" where
  "copy_back 0 src out = Some out"
| "copy_back (Suc n) src out =
     (if src < length out then copy_back n (Suc src) (out @ [out ! src]) else None)"

function lzf_loop :: "bytes \<Rightarrow> nat \<Rightarrow> bytes \<Rightarrow> bytes option" where
  "lzf_loop input i out =
     (if i < length input then
        let ctrl = unat (input ! i); i' = i + 1 in
        if ctrl < 32 then
          let run = ctrl + 1 in
          if length input < i' + run then None
          else lzf_loop input (i' + run) (out @ take run (drop i' input))
        else
          let len = drop_bit 5 ctrl in
          case (if len = 7 then
                  (if i' < length input then Some (len + unat (input ! i'), i' + 1) else None)
                else Some (len, i')) of
            None \<Rightarrow> None
          | Some (len, j) \<Rightarrow>
              if j < length input then
                let dist = push_bit 8 (ctrl AND 0x1f) OR unat (input ! j) in
                if length out < dist + 1 then None
                else (case copy_back (len + 2) (length out - (dist + 1)) out of
                        None \<Rightarrow> None
                      | Some out \<Rightarrow> lzf_loop input (j + 1) out)
              else None
      else Some out)"
  by pat_completeness auto
termination
  by (relation "measure (\<lambda>(input, i, _). length input - i)") (auto split: if_splits)

declare lzf_loop.simps [simp del]

text \<open>
  The outer \<open>None\<close> is the panic of \<open>Vec::with_capacity\<close>, which reserves no more than \<open>isize::MAX\<close> bytes.
\<close>

definition lzf_decompress :: "bytes \<Rightarrow> nat \<Rightarrow> bytes option option" where
  "lzf_decompress input expected_len =
     (if 2 ^ 63 \<le> expected_len then None
      else Some
        (case lzf_loop input 0 [] of
           Some out \<Rightarrow> if length out = expected_len then Some out else None
         | None \<Rightarrow> None))"

subsection \<open>What a block denotes\<close>

text \<open>
  A block is a sequence of literal runs and back references; a reference of length \<open>n\<close> and distance
  \<open>d\<close> continues the output with period \<open>d\<close>.
\<close>

datatype lzf_token = Lit bytes | Back nat nat

fun token_ok :: "nat \<Rightarrow> lzf_token \<Rightarrow> bool" where
  "token_ok l (Lit bs) \<longleftrightarrow> bs \<noteq> [] \<and> length bs \<le> 32"
| "token_ok l (Back n d) \<longleftrightarrow> 3 \<le> n \<and> n \<le> 264 \<and> 1 \<le> d \<and> d \<le> 8192 \<and> d \<le> l"

fun token_bytes :: "lzf_token \<Rightarrow> bytes" where
  "token_bytes (Lit bs) = of_nat (length bs - 1) # bs"
| "token_bytes (Back n d) =
     (if n < 9 then [of_nat (32 * (n - 2) + (d - 1) div 256), of_nat ((d - 1) mod 256)]
      else [of_nat (224 + (d - 1) div 256), of_nat (n - 9), of_nat ((d - 1) mod 256)])"

fun token_expand :: "bytes \<Rightarrow> lzf_token \<Rightarrow> bytes" where
  "token_expand out (Lit bs) = out @ bs"
| "token_expand out (Back n d) = out @ map (\<lambda>k. out ! (length out - d + k mod d)) [0..<n]"

fun tokens_ok :: "bytes \<Rightarrow> lzf_token list \<Rightarrow> bool" where
  "tokens_ok out [] \<longleftrightarrow> True"
| "tokens_ok out (t # ts) \<longleftrightarrow> token_ok (length out) t \<and> tokens_ok (token_expand out t) ts"

lemma copy_back_periodic:
  assumes "0 < d" and "d \<le> length out"
  shows "copy_back n (length out - d + j) (out @ map (\<lambda>k. out ! (length out - d + k mod d)) [0..<j]) =
    Some (out @ map (\<lambda>k. out ! (length out - d + k mod d)) [0..<j + n])"
proof (induction n arbitrary: j)
  case (Suc n)
  let ?f = "\<lambda>k. out ! (length out - d + k mod d)"
  let ?out = "out @ map ?f [0..<j]"
  have n: "?out ! (length out - d + j) = ?f j"
  proof (cases "j < d")
    case True
    then have "length out - d + j < length out" "j mod d = j" using assms by simp_all
    then show ?thesis by (simp only: nth_append if_True)
  next
    case False
    then have "\<not> length out - d + j < length out" "length out - d + j - length out = j - d" "j - d < j"
      using assms by simp_all
    then have "?out ! (length out - d + j) = ?f (j - d)" by (simp only: nth_append if_False) simp
    also have "(j - d) mod d = j mod d" using False by (simp add: mod_if)
    finally show ?thesis .
  qed
  have "?out @ [?f j] = out @ map ?f [0..<Suc j]" by simp
  moreover have "length out - d + j < length ?out" using assms by simp
  ultimately have "copy_back (Suc n) (length out - d + j) ?out = copy_back n (length out - d + Suc j) (out @ map ?f [0..<Suc j])"
    by (simp only: copy_back.simps if_True n add_Suc_right)
  then show ?case using Suc.IH [of "Suc j"] by simp
qed simp

lemma or_push:
  fixes a b :: nat
  assumes "b < 2 ^ n"
  shows "push_bit n a OR b = a * 2 ^ n + b"
proof -
  have "take_bit n b = b" using assms by (simp add: take_bit_nat_eq_self)
  then have "\<not> bit b i" if "n \<le> i" for i using that by (metis bit_take_bit_iff not_less)
  then have "push_bit n a AND b = 0" by (intro bit_eqI) (auto simp: bit_and_iff bit_push_bit_iff)
  then have "push_bit n a OR b = push_bit n a + b" by (simp add: disjunctive_add_eq_or)
  then show ?thesis by (simp add: push_bit_eq_mult)
qed

lemma and_low [simp]: "(n :: nat) AND 0x1f = n mod 32" "(n :: nat) AND 0x3f = n mod 64" "(n :: nat) AND 0xff = n mod 256"
  "(n :: nat) AND 0x7f = n mod 128" "(n :: nat) AND 0x0f = n mod 16"
  using take_bit_eq_mask [of 5 n] take_bit_eq_mask [of 6 n] take_bit_eq_mask [of 8 n] take_bit_eq_mask [of 7 n]
    take_bit_eq_mask [of 4 n] by (simp_all add: take_bit_eq_mod mask_eq_exp_minus_1)

lemma unat_small: "n < 256 \<Longrightarrow> unat (of_nat n :: u8) = n"
  by (simp add: unat_of_nat)

lemma lzf_step_lit:
  assumes "i < length input" and "unat (input ! i) = c" and "c < 32" and "i + c + 2 \<le> length input"
  shows "lzf_loop input i out = lzf_loop input (i + c + 2) (out @ take (c + 1) (drop (i + 1) input))"
  by (subst lzf_loop.simps) (use assms in \<open>simp add: Let_def\<close>)

lemma lzf_step_back:
  assumes "i < length input" and "unat (input ! i) = c" and "\<not> c < 32"
    and "(if c div 32 = 7 then if i + 1 < length input then Some (c div 32 + unat (input ! (i + 1)), i + 1 + 1) else None
          else Some (c div 32, i + 1)) = Some (len, j)"
    and "j < length input" and "c mod 32 * 256 + unat (input ! j) + 1 = d" and "\<not> length out < d"
    and "copy_back (len + 2) (length out - d) out = Some out'"
  shows "lzf_loop input i out = lzf_loop input (j + 1) out'"
proof -
  have "unat (input ! j) < 2 ^ 8" using unat_byte_less [of "input ! j"] by simp
  then have "push_bit 8 (c mod 32) OR unat (input ! j) = c mod 32 * 2 ^ 8 + unat (input ! j)" by (rule or_push)
  then have d: "(push_bit 8 (c AND 0x1f) OR unat (input ! j)) + 1 = d" using assms(6) by simp
  have c: "drop_bit 5 c = c div 32" by (simp add: drop_bit_eq_div)
  show ?thesis
    by (subst lzf_loop.simps)
      (simp only: assms Let_def d c
        if_True if_False option.case prod.case)
qed

lemma lzf_token:
  assumes "token_ok (length out) t"
  shows "lzf_loop (pre @ token_bytes t @ post) (length pre) out =
    lzf_loop (pre @ token_bytes t @ post) (length (pre @ token_bytes t)) (token_expand out t)"
proof (cases t)
  case (Lit bs)
  then obtain x xs where x: "bs = x # xs" using assms by (cases bs) auto
  then have l: "length xs < 32" "unat (of_nat (length xs) :: u8) = length xs" using assms Lit by (auto intro: unat_small)
  show ?thesis using lzf_step_lit [of "length pre" "pre @ token_bytes t @ post" "length xs" out] l Lit x
    by (simp add: nth_append)
next
  case (Back n d)
  then have o: "3 \<le> n" "n \<le> 264" "1 \<le> d" "d \<le> 8192" "d \<le> length out" "\<not> length out < d" using assms Back by simp_all
  define q r where "q = (d - 1) div 256" and "r = (d - 1) mod 256"
  have qr: "q < 32" "r < 256" "q * 256 + r = d - 1" using o by (auto simp: q_def r_def)
  have c: "copy_back n (length out - d) out = Some (token_expand out t)"
    using copy_back_periodic [of d out n 0] o Back by simp
  have dd: "q * 256 + r + 1 = d" using qr o by simp
  have ur: "unat (of_nat r :: u8) = r" using qr by (simp add: unat_small)
  show ?thesis
  proof (cases "n < 9")
    case True
    have u: "unat (of_nat (32 * (n - 2) + q) :: u8) = 32 * (n - 2) + q"
      by (rule unat_small) (use True o qr in linarith)
    have ge: "\<not> 32 * (n - 2) + q < 32" "(32 * (n - 2) + q) div 32 = n - 2" "(32 * (n - 2) + q) mod 32 = q"
      "n - 2 \<noteq> 7" "n - 2 + 2 = n"
      using True o qr by simp_all
    have b: "token_bytes t = [of_nat (32 * (n - 2) + q), of_nat r]" using True Back by (simp add: q_def r_def)
    let ?in = "pre @ token_bytes t @ post"
    have nth: "?in ! length pre = of_nat (32 * (n - 2) + q)" "?in ! (length pre + 1) = of_nat r"
      unfolding b by (simp_all add: nth_append)
    have len: "length pre + 1 < length ?in" "length (pre @ token_bytes t) = length pre + 1 + 1" unfolding b by simp_all
    show ?thesis unfolding len(2)
      by (rule lzf_step_back [where c = "32 * (n - 2) + q" and d = d and len = "n - 2"])
        (use len(1) in \<open>simp_all only: nth u ge ur dd o c\<close>, simp_all)
  next
    case False
    have u: "unat (of_nat (224 + q) :: u8) = 224 + q" by (rule unat_small) (use qr in linarith)
    have un: "unat (of_nat (n - 9) :: u8) = n - 9" by (rule unat_small) (use o in linarith)
    have ge: "\<not> 224 + q < 32" "(224 + q) div 32 = 7" "7 + (n - 9) + 2 = n" using False o qr by simp_all
    have gm: "(224 + q) mod 32 = q" using mod_mult_self2 [of q 32 7] qr by (simp add: add.commute)
    have b: "token_bytes t = [of_nat (224 + q), of_nat (n - 9), of_nat r]" using False Back by (simp add: q_def r_def)
    let ?in = "pre @ token_bytes t @ post"
    have nth: "?in ! length pre = of_nat (224 + q)" "?in ! (length pre + 1) = of_nat (n - 9)"
      "?in ! (length pre + 2) = of_nat r"
      unfolding b by (simp_all add: nth_append)
    have len: "length pre + 2 < length ?in" "length (pre @ token_bytes t) = length pre + 2 + 1" unfolding b by simp_all
    show ?thesis unfolding len(2)
      by (rule lzf_step_back [where c = "224 + q" and d = d and len = "7 + (n - 9)"])
        (use len(1) in \<open>simp_all only: nth u un ge gm ur dd o c\<close>, simp_all)
  qed
qed

lemma lzf_tokens:
  "tokens_ok out ts \<Longrightarrow> lzf_loop (pre @ concat (map token_bytes ts)) (length pre) out = Some (foldl token_expand out ts)"
proof (induction ts arbitrary: pre out)
  case Nil
  then show ?case by (subst lzf_loop.simps) simp
next
  case (Cons t ts)
  then show ?case
    using lzf_token [of out t pre "concat (map token_bytes ts)"] Cons.IH [of "token_expand out t" "pre @ token_bytes t"]
    by simp
qed

text \<open>
  C33: decompression inverts every way to spell a string as literal runs and back references, also
  references that overlap their own output; a stated length that is wrong is refused.\<close>

theorem lzf_correct:
  assumes "tokens_ok [] ts" and "n < 2 ^ 63"
  shows "lzf_decompress (concat (map token_bytes ts)) n =
    Some (if n = length (foldl token_expand [] ts) then Some (foldl token_expand [] ts) else None)"
  using assms(2) lzf_tokens [OF assms(1), of "[]"] by (simp add: lzf_decompress_def)

theorem lzf_correct_witness: "lzf_decompress [0, 97, 96, 0] 6 = Some (Some [97, 97, 97, 97, 97, 97])"
proof -
  have "tokens_ok [] [Lit [97], Back 5 1]" by simp
  from lzf_correct [OF this, of 6] show ?thesis by (simp add: upt_rec)
qed

section \<open>Evaluating the checksum\<close>

fun reverse_rec :: "nat \<Rightarrow> u64 \<Rightarrow> u64 \<Rightarrow> u64" where
  "reverse_rec 0 r v = r"
| "reverse_rec (Suc n) r v = reverse_rec n (push_bit 1 r OR (v AND 1)) (drop_bit 1 v)"

lemma reverse_rec: "fst ((reverse_round ^^ n) (r, v)) = reverse_rec n r v"
  by (induction n arbitrary: r v) (simp_all add: funpow_Suc_right reverse_round_def del: funpow.simps)

lemma reverse_rec_numeral:
  "reverse_rec (numeral k) r v = reverse_rec (pred_numeral k) (push_bit 1 r OR (v AND 1)) (drop_bit 1 v)"
  by (simp add: numeral_eq_Suc)

lemma crc_poly_reversed: "crc_reverse crc_poly = 0x95ac9329ac4bc9b5"
  by (simp add: crc_reverse_def reverse_rec crc_poly_def reverse_rec_numeral)

lemma crc_round_eval [eval_simps]:
  "crc_round c = (if odd c then drop_bit 1 c XOR 0x95ac9329ac4bc9b5 else drop_bit 1 c)"
  using crc_round_alt [of c] by (simp add: crc_poly_reversed)

lemma crc_serial_eval [eval_simps]:
  "crc_serial c b = crc_round (crc_round (crc_round (crc_round (crc_round (crc_round (crc_round (crc_round (c XOR ucast b))))))))"
  by (simp add: crc_serial_def numeral_eq_Suc)

lemmas [eval_simps] = crc_checksum_def crc_update_serial

end
