(* ===== verification/Rdb_Cursor.thy ===== *)
theory Rdb_Cursor
  imports Rdb_Codec
begin

text \<open>
  The cursor over a snapshot (src/rdb/cursor.rs) and the length and string encodings that
  src/rdb/write.rs produces for it. A reader takes the image and a position; \<open>reads p e x\<close> says that
  \<open>p\<close>, standing before the bytes \<open>e\<close> anywhere in an image, yields \<open>x\<close> and stops behind them.
\<close>

section \<open>Errors\<close>

text \<open>\<open>Io\<close> carries the message of the operating system.\<close>

datatype rdb_error = Io bytes | Corrupt bytes | Unsupported bytes

fun rdb_error_display :: "rdb_error \<Rightarrow> bytes" where
  "rdb_error_display (Io e) = e"
| "rdb_error_display (Corrupt m) = ascii ''corrupt dump: '' @ m"
| "rdb_error_display (Unsupported m) = ascii ''unsupported dump: '' @ m"

section \<open>The cursor\<close>

text \<open>
  A reader takes the image \<open>buf\<close> and the position \<open>pos\<close>, and returns the position it stops at, or
  stops early: with an error of the code, or with a panic.
\<close>

datatype stop = Fail rdb_error | Panic

type_synonym 'a rd = "bytes \<Rightarrow> nat \<Rightarrow> stop + 'a \<times> nat"

definition rd_ret :: "'a \<Rightarrow> 'a rd" where
  "rd_ret x = (\<lambda>buf pos. Inr (x, pos))"

definition rd_bind :: "'a rd \<Rightarrow> ('a \<Rightarrow> 'b rd) \<Rightarrow> 'b rd" where
  "rd_bind p f = (\<lambda>buf pos. case p buf pos of Inl e \<Rightarrow> Inl e | Inr (x, pos') \<Rightarrow> f x buf pos')"

definition rd_throw :: "rdb_error \<Rightarrow> 'a rd" where
  "rd_throw e = (\<lambda>buf pos. Inl (Fail e))"

definition rd_panic :: "'a rd" where
  "rd_panic = (\<lambda>buf pos. Inl Panic)"

definition rd_corrupt :: "bytes \<Rightarrow> nat \<Rightarrow> stop" where
  "rd_corrupt what pos = Fail (Corrupt (what @ ascii '' at byte '' @ dec_nat pos))"

definition rd_fail :: "bytes \<Rightarrow> 'a rd" where
  "rd_fail what = (\<lambda>buf pos. Inl (rd_corrupt what pos))"

definition rd_some :: "bytes \<Rightarrow> 'a option \<Rightarrow> 'a rd" where
  "rd_some what x = (case x of Some x \<Rightarrow> rd_ret x | None \<Rightarrow> rd_fail what)"

text \<open>\<open>for _ in 0..n\<close>, with the state the body threads.\<close>

fun rd_times :: "nat \<Rightarrow> ('s \<Rightarrow> 's rd) \<Rightarrow> 's \<Rightarrow> 's rd" where
  "rd_times 0 f s = rd_ret s"
| "rd_times (Suc n) f s = rd_bind (f s) (rd_times n f)"

definition rd_byte :: "u8 rd" where
  "rd_byte = (\<lambda>buf pos.
     if pos < length buf then Inr (buf ! pos, pos + 1)
     else Inl (rd_corrupt (ascii ''unexpected end of file'') pos))"

definition rd_take :: "nat \<Rightarrow> bytes rd" where
  "rd_take n = (\<lambda>buf pos.
     if 2 ^ 64 \<le> pos + n then Inl (rd_corrupt (ascii ''length overflow'') pos)
     else if length buf < pos + n then Inl (rd_corrupt (ascii ''unexpected end of file'') pos)
     else Inr (take n (drop pos buf), pos + n))"

definition rd_u32le :: "nat rd" where
  "rd_u32le = rd_bind (rd_take 4) (\<lambda>bs. rd_ret (le_nat bs))"

definition rd_u64le :: "nat rd" where
  "rd_u64le = rd_bind (rd_take 8) (\<lambda>bs. rd_ret (le_nat bs))"

datatype len = Plain nat | Special nat

definition rd_length :: "len rd" where
  "rd_length = rd_bind rd_byte (\<lambda>b.
     let n = unat b; top = drop_bit 6 n in
     if top = 0 then rd_ret (Plain (n AND 0x3f))
     else if top = 1 then rd_bind rd_byte (\<lambda>lo. rd_ret (Plain (push_bit 8 (n AND 0x3f) OR unat lo)))
     else if top = 3 then rd_ret (Special (n AND 0x3f))
     else if b = 0x80 then rd_bind (rd_take 4) (\<lambda>bs. rd_ret (Plain (be_nat bs)))
     else if b = 0x81 then rd_bind (rd_take 8) (\<lambda>bs. rd_ret (Plain (be_nat bs)))
     else rd_fail (ascii ''unknown length encoding''))"

text \<open>On a 64-bit target \<open>usize::try_from\<close> never fails, so \<open>count\<close> and \<open>count_u64\<close> agree.\<close>

definition rd_count :: "nat rd" where
  "rd_count = rd_bind rd_length (\<lambda>l. case l of
       Plain n \<Rightarrow> rd_ret n
     | Special _ \<Rightarrow> rd_fail (ascii ''expected a length, found a string encoding''))"

definition rd_count_u64 :: "u64 rd" where
  "rd_count_u64 = rd_bind rd_length (\<lambda>l. case l of
       Plain n \<Rightarrow> rd_ret (of_nat n)
     | Special _ \<Rightarrow> rd_fail (ascii ''expected a length, found a string encoding''))"

definition rd_string :: "bytes rd" where
  "rd_string = rd_bind rd_length (\<lambda>l. case l of
       Plain n \<Rightarrow> rd_take n
     | Special k \<Rightarrow>
         if k = 0 then rd_bind rd_byte (\<lambda>b. rd_ret (dec_int (sint b)))
         else if k = 1 then
           rd_bind (rd_take 2) (\<lambda>bs. rd_ret (dec_int (sint (of_nat (le_nat bs) :: u16))))
         else if k = 2 then
           rd_bind (rd_take 4) (\<lambda>bs. rd_ret (dec_int (sint (of_nat (le_nat bs) :: u32))))
         else if k = 3 then
           rd_bind rd_count (\<lambda>compressed. rd_bind rd_count (\<lambda>expanded.
             rd_bind (rd_take compressed) (\<lambda>block.
               case lzf_decompress block expanded of
                 None \<Rightarrow> rd_panic
               | Some out \<Rightarrow> rd_some (ascii ''malformed LZF block'') out)))
         else rd_fail (ascii ''unknown string encoding '' @ dec_nat k))"

definition rd_binary_double :: "f64 rd" where
  "rd_binary_double = rd_bind (rd_take 8) (\<lambda>bs. rd_ret (F64 (of_nat (le_nat bs))))"

definition rd_string_double :: "f64 rd" where
  "rd_string_double = rd_bind rd_byte (\<lambda>b.
     if b = 255 then rd_ret f64_neg_inf
     else if b = 254 then rd_ret f64_inf
     else if b = 253 then rd_ret f64_nan
     else rd_bind (rd_take (unat b)) (\<lambda>raw.
       rd_some (ascii ''unparseable score'') (if utf8_valid raw then parse_f64 raw else None)))"

section \<open>The length and string encodings\<close>

text \<open>What \<open>put_length\<close> and \<open>put_raw_string\<close> of src/rdb/write.rs append.\<close>

definition put_length :: "nat \<Rightarrow> bytes" where
  "put_length n =
     (if n < 64 then [of_nat n]
      else if n < 16384 then [of_nat (0x40 OR drop_bit 8 n), of_nat (n AND 0xff)]
      else if n \<le> 2 ^ 32 - 1 then 0x80 # be_bytes 4 n
      else 0x81 # be_bytes 8 n)"

definition put_raw_string :: "bytes \<Rightarrow> bytes" where
  "put_raw_string s = put_length (length s) @ s"

section \<open>Readers move forward\<close>

definition rd_forward :: "'a rd \<Rightarrow> bool" where
  "rd_forward p \<longleftrightarrow> (\<forall>buf pos x pos'. p buf pos = Inr (x, pos') \<longrightarrow> pos \<le> pos')"

named_theorems forward_intros "a reader never moves back"

lemma rd_forwardD: "rd_forward p \<Longrightarrow> p buf pos = Inr (x, pos') \<Longrightarrow> pos \<le> pos'"
  by (simp add: rd_forward_def)

lemma forward_ret [forward_intros]: "rd_forward (rd_ret x)"
  by (simp add: rd_forward_def rd_ret_def)

lemma forward_throw [forward_intros]: "rd_forward (rd_throw e)"
  by (simp add: rd_forward_def rd_throw_def)

lemma forward_panic [forward_intros]: "rd_forward rd_panic"
  by (simp add: rd_forward_def rd_panic_def)

lemma forward_fail [forward_intros]: "rd_forward (rd_fail w)"
  by (simp add: rd_forward_def rd_fail_def)

lemma forward_some [forward_intros]: "rd_forward (rd_some w x)"
  by (auto simp: rd_some_def intro: forward_intros split: option.split)

lemma forward_bind [forward_intros]:
  "rd_forward p \<Longrightarrow> (\<And>x. rd_forward (f x)) \<Longrightarrow> rd_forward (rd_bind p f)"
  unfolding rd_forward_def rd_bind_def by (fastforce split: sum.splits intro: le_trans)

lemma forward_if [forward_intros]: "rd_forward p \<Longrightarrow> rd_forward q \<Longrightarrow> rd_forward (if b then p else q)"
  by simp

lemma forward_len [forward_intros]:
  "(\<And>n. rd_forward (f n)) \<Longrightarrow> (\<And>n. rd_forward (g n)) \<Longrightarrow> rd_forward (case l of Plain n \<Rightarrow> f n | Special n \<Rightarrow> g n)"
  by (simp split: len.split)

lemma forward_option [forward_intros]:
  "rd_forward f \<Longrightarrow> (\<And>n. rd_forward (g n)) \<Longrightarrow> rd_forward (case x of None \<Rightarrow> f | Some n \<Rightarrow> g n)"
  by (simp split: option.split)

lemma forward_times [forward_intros]: "(\<And>s. rd_forward (f s)) \<Longrightarrow> rd_forward (rd_times n f s)"
  by (induction n arbitrary: s) (auto intro: forward_intros)

lemma forward_byte [forward_intros]: "rd_forward rd_byte"
  by (auto simp: rd_forward_def rd_byte_def)

lemma forward_take [forward_intros]: "rd_forward (rd_take n)"
  by (auto simp: rd_forward_def rd_take_def)

lemma forward_cursor [forward_intros]:
  "rd_forward rd_u32le" "rd_forward rd_u64le" "rd_forward rd_length" "rd_forward rd_count" "rd_forward rd_count_u64"
  "rd_forward rd_string" "rd_forward rd_binary_double" "rd_forward rd_string_double"
  unfolding rd_u32le_def rd_u64le_def rd_length_def rd_count_def rd_count_u64_def rd_string_def
    rd_binary_double_def rd_string_double_def Let_def
  by (intro forward_intros)+

section \<open>Encodings a reader accepts\<close>

definition reads :: "'a rd \<Rightarrow> bytes \<Rightarrow> 'a \<Rightarrow> bool" where
  "reads p e x \<longleftrightarrow> (\<forall>pre post. length (pre @ e @ post) < 2 ^ 64 \<longrightarrow>
     p (pre @ e @ post) (length pre) = Inr (x, length pre + length e))"

named_theorems reads_intros "which encodings a reader accepts"

lemma readsD:
  "reads p e x \<Longrightarrow> length (pre @ e @ post) < 2 ^ 64 \<Longrightarrow>
     p (pre @ e @ post) (length pre) = Inr (x, length pre + length e)"
  by (simp add: reads_def)

lemma reads_ret [reads_intros]: "reads (rd_ret x) [] x"
  by (simp add: reads_def rd_ret_def)

lemma reads_bind [reads_intros]:
  assumes "reads p e x" and "reads (f x) e' y"
  shows "reads (rd_bind p f) (e @ e') y"
  unfolding reads_def
proof (intro allI impI)
  fix pre post
  assume l: "length (pre @ (e @ e') @ post) < 2 ^ 64"
  have "p (pre @ e @ e' @ post) (length pre) = Inr (x, length (pre @ e))"
    using readsD [OF assms(1), of pre "e' @ post"] l by simp
  moreover have "f x ((pre @ e) @ e' @ post) (length (pre @ e)) = Inr (y, length (pre @ e) + length e')"
    by (rule readsD [OF assms(2)]) (use l in simp)
  ultimately show "rd_bind p f (pre @ (e @ e') @ post) (length pre) = Inr (y, length pre + length (e @ e'))"
    by (simp add: rd_bind_def)
qed

lemma reads_last: "reads p e x \<Longrightarrow> reads (rd_bind p (\<lambda>x. rd_ret (f x))) e (f x)"
  using reads_bind [OF _ reads_ret, of p e x f] by simp

lemma reads_byte [reads_intros]: "reads rd_byte [b] b"
  by (simp add: reads_def rd_byte_def)

lemma reads_take [reads_intros]: "n = length e \<Longrightarrow> reads (rd_take n) e e"
  by (simp add: reads_def rd_take_def)

lemma reads_times:
  assumes "\<And>i. i < length xs \<Longrightarrow> reads (f (foldl g s (take i xs))) (enc (xs ! i)) (g (foldl g s (take i xs)) (xs ! i))"
  shows "reads (rd_times (length xs) f s) (concat (map enc xs)) (foldl g s xs)"
  using assms
proof (induction xs arbitrary: s)
  case (Cons a xs)
  have "reads (f s) (enc a) (g s a)" using Cons.prems [of 0] by simp
  moreover have "reads (rd_times (length xs) f (g s a)) (concat (map enc xs)) (foldl g (g s a) xs)"
    using Cons.prems [of "Suc i" for i] by (intro Cons.IH) fastforce
  ultimately show ?case by (simp add: reads_bind)
qed (simp add: reads_ret)

subsection \<open>Lengths and strings\<close>

lemma reads_length:
  assumes "n < 2 ^ 64"
  shows "reads rd_length (put_length n) (Plain n)"
proof -
  consider "n < 64" | "64 \<le> n" "n < 16384" | "16384 \<le> n" "n \<le> 2 ^ 32 - 1" | "2 ^ 32 - 1 < n" by linarith
  then show ?thesis
  proof cases
    case 1
    then have "unat (of_nat n :: u8) = n" by (simp add: unat_of_nat)
    then have "reads rd_length ([of_nat n] @ []) (Plain n)"
      unfolding rd_length_def using 1
      by (intro reads_bind [OF reads_byte]) (simp add: Let_def drop_bit_eq_div reads_ret)
    then show ?thesis using 1 by (simp add: put_length_def)
  next
    case 2
    have q: "drop_bit 8 n = n div 256" "n div 256 < 64" using 2 by (simp_all add: drop_bit_eq_div)
    have o: "0x40 OR n div 256 = 64 + n div 256"
      using or_push [of "n div 256" 6 1] q by (simp add: push_bit_eq_mult)
    have u: "unat (of_nat (64 + n div 256) :: u8) = 64 + n div 256" by (rule unat_small) (use q in linarith)
    have t: "drop_bit 6 (64 + n div 256) = 1" "(64 + n div 256) mod 64 = n div 256"
      using q by (simp_all add: drop_bit_eq_div)
    have m: "push_bit 8 (n div 256) OR n mod 256 = n" using or_push [of "n mod 256" 8 "n div 256"] by simp
    have "reads rd_length ([of_nat (64 + n div 256)] @ [of_nat (n mod 256)] @ []) (Plain n)"
      unfolding rd_length_def
      by (rule reads_bind [OF reads_byte], simp only: Let_def u t, simp,
          rule reads_bind [OF reads_byte, where e' = "[]", simplified], simp add: t m q mod_less reads_ret)
    then show ?thesis using 2 by (simp add: put_length_def q o)
  next
    case 3
    have "be_nat (be_bytes 4 n) = n" using 3 by (simp add: be_nat_be_bytes)
    then have "reads rd_length ([0x80] @ be_bytes 4 n) (Plain n)"
      unfolding rd_length_def using reads_last [OF reads_take, of 4 "be_bytes 4 n" "\<lambda>bs. Plain (be_nat bs)"]
      by (intro reads_bind [OF reads_byte]) (simp add: Let_def drop_bit_eq_div)
    then show ?thesis using 3 by (simp add: put_length_def)
  next
    case 4
    have "be_nat (be_bytes 8 n) = n" using assms by (simp add: be_nat_be_bytes)
    then have "reads rd_length ([0x81] @ be_bytes 8 n) (Plain n)"
      unfolding rd_length_def using reads_last [OF reads_take, of 8 "be_bytes 8 n" "\<lambda>bs. Plain (be_nat bs)"]
      by (intro reads_bind [OF reads_byte]) (simp add: Let_def drop_bit_eq_div)
    then show ?thesis using 4 by (simp add: put_length_def)
  qed
qed

lemma reads_count [reads_intros]: "n < 2 ^ 64 \<Longrightarrow> reads rd_count (put_length n) n"
  unfolding rd_count_def using reads_bind [OF reads_length, of n _ "[]" n] by (simp add: reads_ret)

lemma reads_count_u64 [reads_intros]: "reads rd_count_u64 (put_length (unat w)) w"
proof -
  have "unat w < 2 ^ 64" using unsigned_less [of w] by simp
  then show ?thesis
    unfolding rd_count_u64_def using reads_bind [OF reads_length, of "unat w" _ "[]" w] by (simp add: reads_ret)
qed

lemma reads_string [reads_intros]: "length s < 2 ^ 64 \<Longrightarrow> reads rd_string (put_raw_string s) s"
  unfolding rd_string_def put_raw_string_def
  by (rule reads_bind [OF reads_length]) (simp_all add: reads_take)

lemma reads_u64le [reads_intros]: "n < 2 ^ 64 \<Longrightarrow> reads rd_u64le (le_bytes 8 n) n"
  unfolding rd_u64le_def
  using reads_last [OF reads_take, of 8 "le_bytes 8 n" le_nat] by (simp add: le_nat_le_bytes)

lemma reads_binary_double [reads_intros]: "reads rd_binary_double (le_bytes 8 (unat (f64_bits d))) d"
proof -
  have "unat (f64_bits d) < 2 ^ 64" using unsigned_less [of "f64_bits d"] by simp
  then show ?thesis unfolding rd_binary_double_def
    using reads_last [OF reads_take, of 8 "le_bytes 8 (unat (f64_bits d))" "\<lambda>bs. F64 (of_nat (le_nat bs))"]
    by (simp add: le_nat_le_bytes)
qed

end
