(* ===== verification/Rdb_Packed.thy ===== *)
theory Rdb_Packed
  imports Rdb_Cursor
begin

text \<open>
  The packed containers of src/rdb/packed.rs: the decoders of listpacks, ziplists and intsets, and
  the listpack writer. Positions are not bounded here: an entry is shorter than \<open>2 ^ 33\<close> bytes, so no
  sum overflows. The writer and the decoder agree on every encoding (\<open>listpack_roundtrip\<close>).
\<close>

section \<open>Elements and fixed-width fields\<close>

datatype element = IntE int | StrE bytes

fun into_bytes :: "element \<Rightarrow> bytes" where
  "into_bytes (IntE i) = dec_int i"
| "into_bytes (StrE s) = s"

fun as_int :: "element \<Rightarrow> int option" where
  "as_int (IntE i) = Some i"
| "as_int (StrE s) = None"

text \<open>\<open>buf.get(at)\<close> and \<open>buf.get(at..at + n)\<close>.\<close>

definition get_byte :: "bytes \<Rightarrow> nat \<Rightarrow> nat option" where
  "get_byte buf at = (if at < length buf then Some (unat (buf ! at)) else None)"

definition bytes_at :: "bytes \<Rightarrow> nat \<Rightarrow> nat \<Rightarrow> bytes option" where
  "bytes_at buf at n = (if at + n \<le> length buf then Some (take n (drop at buf)) else None)"

definition le_uint :: "nat \<Rightarrow> bytes \<Rightarrow> nat \<Rightarrow> nat option" where
  "le_uint w buf at = map_option le_nat (bytes_at buf at w)"

definition le_u16 where "le_u16 = le_uint 2"
definition le_u32 where "le_u32 = le_uint 4"
definition le_u64 where "le_u64 = le_uint 8"

text \<open>\<open>((v << shift) as i64) >> shift\<close>.\<close>

definition sign_extend :: "nat \<Rightarrow> nat \<Rightarrow> int" where
  "sign_extend v bits = sint (signed_drop_bit (64 - bits) (push_bit (64 - bits) (of_nat v :: u64)))"

text \<open>The casts \<open>as i8 as i64\<close>, \<open>as i16 as i64\<close>, \<open>as i32 as i64\<close> and \<open>as i64\<close>.\<close>

definition as_signed :: "nat \<Rightarrow> nat \<Rightarrow> int" where
  "as_signed w n = signed_take_bit (w - 1) (int n)"

text \<open>Three bytes, the low one first.\<close>

definition le_u24 :: "bytes \<Rightarrow> nat \<Rightarrow> nat option" where
  "le_u24 buf at =
     (case (get_byte buf at, get_byte buf (at + 1), get_byte buf (at + 2)) of
        (Some a, Some b, Some c) \<Rightarrow> Some (a OR push_bit 8 b OR push_bit 16 c)
      | _ \<Rightarrow> None)"

section \<open>Listpacks\<close>

definition backlen_size :: "nat \<Rightarrow> nat" where
  "backlen_size n =
     (if n < 128 then 1 else if n < 16384 then 2 else if n < 2097152 then 3 else if n < 268435456 then 4 else 5)"

text \<open>An element whose data are \<open>len\<close> bytes behind a head of \<open>h\<close> bytes at \<open>pos\<close>.\<close>

definition str_element :: "bytes \<Rightarrow> nat \<Rightarrow> nat \<Rightarrow> nat \<Rightarrow> (element \<times> nat) option" where
  "str_element buf pos h len = map_option (\<lambda>data. (StrE data, h + len)) (bytes_at buf (pos + h) len)"

definition int_element :: "nat \<Rightarrow> int option \<Rightarrow> (element \<times> nat) option" where
  "int_element n v = map_option (\<lambda>v. (IntE v, n)) v"

definition listpack_entry :: "bytes \<Rightarrow> nat \<Rightarrow> nat \<Rightarrow> (element \<times> nat) option" where
  "listpack_entry buf pos b =
     (if b AND 0x80 = 0 then Some (IntE (int (b AND 0x7f)), 1)
      else if b AND 0xc0 = 0x80 then str_element buf pos 1 (b AND 0x3f)
      else if b AND 0xe0 = 0xc0 then
        int_element 2 (map_option (\<lambda>lo. sign_extend (push_bit 8 (b AND 0x1f) OR lo) 13) (get_byte buf (pos + 1)))
      else if b = 0xf1 then int_element 3 (map_option (as_signed 16) (le_u16 buf (pos + 1)))
      else if b = 0xf2 then int_element 4 (map_option (\<lambda>raw. sign_extend raw 24) (le_u24 buf (pos + 1)))
      else if b = 0xf3 then int_element 5 (map_option (as_signed 32) (le_u32 buf (pos + 1)))
      else if b = 0xf4 then int_element 9 (map_option (as_signed 64) (le_u64 buf (pos + 1)))
      else if b = 0xf0 then Option.bind (le_u32 buf (pos + 1)) (str_element buf pos 5)
      else if b AND 0xf0 = 0xe0 then
        Option.bind (get_byte buf (pos + 1)) (\<lambda>lo. str_element buf pos 2 (push_bit 8 (b AND 0x0f) OR lo))
      else None)"

definition listpack_element :: "bytes \<Rightarrow> nat \<Rightarrow> (element \<times> nat) option" where
  "listpack_element buf pos =
     Option.bind (get_byte buf pos) (\<lambda>b.
       map_option (\<lambda>(e, entry_len). (e, entry_len + backlen_size entry_len)) (listpack_entry buf pos b))"

text \<open>The loop of \<open>listpack\<close> and of \<open>ziplist\<close>; an element has at least one byte, so it ends.\<close>

lemma listpack_element_size: "listpack_element buf pos = Some (e, n) \<Longrightarrow> 0 < n"
  by (auto simp: listpack_element_def backlen_size_def bind_eq_Some_conv split: if_splits)

function listpack_loop :: "bytes \<Rightarrow> nat \<Rightarrow> element list \<Rightarrow> element list option" where
  "listpack_loop buf pos out =
     (if pos < length buf then
        if buf ! pos = 0xff then Some out
        else (case listpack_element buf pos of
                None \<Rightarrow> None
              | Some (e, n) \<Rightarrow> listpack_loop buf (pos + n) (out @ [e]))
      else None)"
  by pat_completeness auto
termination
  by (relation "measure (\<lambda>(buf, pos, _). length buf - pos)") (auto dest: listpack_element_size)

declare listpack_loop.simps [simp del]

definition listpack :: "bytes \<Rightarrow> element list option" where
  "listpack buf = (if length buf < 7 then None else listpack_loop buf 6 [])"

definition listpack_strings :: "bytes \<Rightarrow> bytes list option" where
  "listpack_strings buf = map_option (map into_bytes) (listpack buf)"

section \<open>Ziplists and intsets\<close>

definition ziplist_entry :: "bytes \<Rightarrow> nat \<Rightarrow> nat \<Rightarrow> (element \<times> nat) option" where
  "ziplist_entry buf p b =
     (if drop_bit 6 b = 0 then str_element buf p 1 (b AND 0x3f)
      else if drop_bit 6 b = 1 then
        Option.bind (get_byte buf (p + 1)) (\<lambda>lo. str_element buf p 2 (push_bit 8 (b AND 0x3f) OR lo))
      else if drop_bit 6 b = 2 then
        Option.bind (bytes_at buf (p + 1) 4) (\<lambda>raw. str_element buf p 5 (be_nat raw))
      else if b = 0xc0 then int_element 3 (map_option (as_signed 16) (le_u16 buf (p + 1)))
      else if b = 0xd0 then int_element 5 (map_option (as_signed 32) (le_u32 buf (p + 1)))
      else if b = 0xe0 then int_element 9 (map_option (as_signed 64) (le_u64 buf (p + 1)))
      else if b = 0xf0 then int_element 4 (map_option (\<lambda>raw. sign_extend raw 24) (le_u24 buf (p + 1)))
      else if b = 0xfe then int_element 2 (map_option (as_signed 8) (get_byte buf (p + 1)))
      else if 0xf1 \<le> b \<and> b \<le> 0xfd then Some (IntE (int (b AND 0x0f) - 1), 1)
      else None)"

definition ziplist_element :: "bytes \<Rightarrow> nat \<Rightarrow> (element \<times> nat) option" where
  "ziplist_element buf pos =
     Option.bind (get_byte buf pos) (\<lambda>prev.
       let prevlen_size = (if prev < 254 then 1 else 5); p = pos + prevlen_size in
       Option.bind (get_byte buf p) (\<lambda>b.
         map_option (\<lambda>(e, rest). (e, prevlen_size + rest)) (ziplist_entry buf p b)))"

lemma ziplist_element_size: "ziplist_element buf pos = Some (e, n) \<Longrightarrow> 0 < n"
  by (auto simp: ziplist_element_def bind_eq_Some_conv Let_def split: if_splits)

function ziplist_loop :: "bytes \<Rightarrow> nat \<Rightarrow> element list \<Rightarrow> element list option" where
  "ziplist_loop buf pos out =
     (if pos < length buf then
        if buf ! pos = 0xff then Some out
        else (case ziplist_element buf pos of
                None \<Rightarrow> None
              | Some (e, n) \<Rightarrow> ziplist_loop buf (pos + n) (out @ [e]))
      else None)"
  by pat_completeness auto
termination
  by (relation "measure (\<lambda>(buf, pos, _). length buf - pos)") (auto dest: ziplist_element_size)

declare ziplist_loop.simps [simp del]

definition ziplist :: "bytes \<Rightarrow> element list option" where
  "ziplist buf = (if length buf < 11 then None else ziplist_loop buf 10 [])"

definition ziplist_strings :: "bytes \<Rightarrow> bytes list option" where
  "ziplist_strings buf = map_option (map into_bytes) (ziplist buf)"

fun intset_values :: "bytes \<Rightarrow> nat \<Rightarrow> nat \<Rightarrow> nat \<Rightarrow> bytes list option" where
  "intset_values buf width i 0 = Some []"
| "intset_values buf width i (Suc n) =
     Option.bind (le_uint width buf (8 + i * width)) (\<lambda>v.
       map_option ((#) (dec_int (as_signed (8 * width) v))) (intset_values buf width (i + 1) n))"

definition intset :: "bytes \<Rightarrow> bytes list option" where
  "intset buf =
     Option.bind (le_u32 buf 0) (\<lambda>width. Option.bind (le_u32 buf 4) (\<lambda>count.
       if width \<noteq> 2 \<and> width \<noteq> 4 \<and> width \<noteq> 8 then None else intset_values buf width 0 count))"

section \<open>Writing a listpack\<close>

text \<open>
  \<open>ListpackWriter\<close>: the body so far and the number of elements. \<open>backlen\<close> first collects the seven-bit
  groups, the low one first; more than five overrun its buffer and panic (\<open>None\<close>).
\<close>

function backlen_groups :: "nat \<Rightarrow> bytes" where
  "backlen_groups n = (if n = 0 then [] else of_nat (n AND 127) # backlen_groups (drop_bit 7 n))"
  by pat_completeness auto
termination
  by (relation "measure id") (auto simp: drop_bit_eq_div)

declare backlen_groups.simps [simp del]

definition backlen :: "nat \<Rightarrow> bytes option" where
  "backlen len =
     (if len \<le> 127 then Some [of_nat len]
      else
        let stack = backlen_groups len in
        if 5 < length stack then None
        else case rev stack of
            [] \<Rightarrow> Some []
          | b # bs \<Rightarrow> Some (b # map (\<lambda>b. b OR 128) bs))"

record listpack_writer =
  lw_body :: bytes
  lw_elements :: nat

definition lw_new :: listpack_writer where
  "lw_new = \<lparr>lw_body = [], lw_elements = 0\<rparr>"

definition lw_push :: "bytes \<Rightarrow> listpack_writer \<Rightarrow> listpack_writer option" where
  "lw_push entry w =
     map_option (\<lambda>bl. \<lparr>lw_body = lw_body w @ entry @ bl, lw_elements = lw_elements w + 1\<rparr>)
       (backlen (length entry))"

definition lw_int_entry :: "int \<Rightarrow> bytes" where
  "lw_int_entry v =
     (let u = usize_of_i64 v in
      if 0 \<le> v \<and> v \<le> 127 then [of_nat u]
      else if - 4096 \<le> v \<and> v \<le> 4095 then
        let raw = u AND 0x1fff in [of_nat (0xc0 OR drop_bit 8 raw), of_nat (raw AND 0xff)]
      else if - (2 ^ 15) \<le> v \<and> v \<le> 2 ^ 15 - 1 then 0xf1 # le_bytes 2 u
      else if - (2 ^ 23) \<le> v \<and> v < 2 ^ 23 then 0xf2 # le_bytes 3 u
      else if - (2 ^ 31) \<le> v \<and> v \<le> 2 ^ 31 - 1 then 0xf3 # le_bytes 4 u
      else 0xf4 # le_bytes 8 u)"

definition lw_str_entry :: "bytes \<Rightarrow> bytes" where
  "lw_str_entry s =
     (if length s < 64 then [of_nat (0x80 OR length s)]
      else if length s < 4096 then [of_nat (0xe0 OR drop_bit 8 (length s)), of_nat (length s AND 0xff)]
      else 0xf0 # le_bytes 4 (length s)) @ s"

definition lw_int :: "int \<Rightarrow> listpack_writer \<Rightarrow> listpack_writer option" where
  "lw_int v = lw_push (lw_int_entry v)"

definition lw_str :: "bytes \<Rightarrow> listpack_writer \<Rightarrow> listpack_writer option" where
  "lw_str s = lw_push (lw_str_entry s)"

definition lw_finish :: "listpack_writer \<Rightarrow> bytes" where
  "lw_finish w =
     le_bytes 4 (6 + length (lw_body w) + 1) @ le_bytes 2 (min (lw_elements w) 65535) @ lw_body w @ [0xff]"

section \<open>The writer and the decoder agree\<close>

subsection \<open>Bits and signs\<close>

lemma and_high:
  assumes "b < 256"
  shows "(b :: nat) AND 0x80 = b div 128 * 128" "b AND 0xc0 = b div 64 * 64"
    "b AND 0xe0 = b div 32 * 32" "b AND 0xf0 = b div 16 * 16"
proof -
  have "b = take_bit 8 b" using assms by (simp add: take_bit_nat_eq_self)
  then have lt: "bit b n \<Longrightarrow> n < 8" for n by (metis bit_take_bit_iff)
  have h: "b AND push_bit k (mask (8 - k)) = push_bit k (drop_bit k b)" for k
    by (rule bit_eqI) (auto simp: bit_and_iff bit_push_bit_iff bit_drop_bit_eq bit_mask_iff dest: lt)
  show "b AND 0x80 = b div 128 * 128" "b AND 0xc0 = b div 64 * 64"
    "b AND 0xe0 = b div 32 * 32" "b AND 0xf0 = b div 16 * 16"
    using h [of 7] h [of 6] h [of 5] h [of 4]
    by (simp_all add: push_bit_eq_mult drop_bit_eq_div mask_eq_exp_minus_1)
qed

lemma sign_extend_alt:
  assumes "m < 64"
  shows "sign_extend v (Suc m) = signed_take_bit m (int v)"
  unfolding sign_extend_def
proof (rule bit_eqI)
  fix n
  have b: "bit (of_nat v :: u64) k \<longleftrightarrow> k < 64 \<and> bit v k" for k by (simp add: bit_of_nat_iff)
  have "bit (sint (signed_drop_bit (64 - Suc m) (push_bit (64 - Suc m) (of_nat v :: u64)))) n \<longleftrightarrow> bit v (min n m)"
    using assms
    by (auto simp: bit_sint_iff bit_signed_drop_bit_iff bit_push_bit_iff b min_def not_le)
  then show "bit (sint (signed_drop_bit (64 - Suc m) (push_bit (64 - Suc m) (of_nat v :: u64)))) n
      \<longleftrightarrow> bit (signed_take_bit m (int v)) n"
    by (simp add: bit_signed_take_bit_iff bit_of_nat_iff_bit min.commute)
qed

lemma signed_of_low:
  assumes "- (2 ^ m) \<le> v" and "v < 2 ^ m"
  shows "signed_take_bit m (int (nat (v mod 2 ^ Suc m))) = v"
proof -
  have "int (nat (v mod 2 ^ Suc m)) = take_bit (Suc m) v" by (simp add: take_bit_eq_mod)
  moreover have "signed_take_bit m v = v" using assms by (simp add: signed_take_bit_int_eq_self_iff)
  ultimately show ?thesis by (simp only: signed_take_bit_take_bit) simp
qed

lemma usize_low:
  assumes "k \<le> 64"
  shows "usize_of_i64 v mod 2 ^ k = nat (v mod 2 ^ k)"
proof -
  have "v mod 2 ^ 64 mod 2 ^ k = v mod 2 ^ k"
    by (rule mod_mod_cancel) (rule le_imp_power_dvd, fact)
  moreover have "nat (v mod 2 ^ 64) mod nat (2 ^ k) = nat (v mod 2 ^ 64 mod 2 ^ k)"
    by (rule nat_mod_distrib [symmetric]) simp_all
  moreover have "nat (2 ^ k) = 2 ^ k" by (simp add: nat_power_eq)
  ultimately show ?thesis unfolding usize_of_i64_def by simp
qed

subsection \<open>One element\<close>

definition entry_reads :: "bytes \<Rightarrow> element \<Rightarrow> bool" where
  "entry_reads e x \<longleftrightarrow> e \<noteq> [] \<and> hd e \<noteq> 0xff \<and>
     (\<forall>pre post. listpack_entry (pre @ e @ post) (length pre) (unat (hd e)) = Some (x, length e))"

lemma bytes_at_mid: "bytes_at (pre @ h @ d @ post) (length pre + length h) (length d) = Some d"
  by (simp add: bytes_at_def)

lemma get_byte_mid: "get_byte (pre @ b # c # post) (length pre + 1) = Some (unat c)"
  by (simp add: get_byte_def nth_append)

lemma bytes_at_tail: "n = length d \<Longrightarrow> bytes_at (pre @ b # d @ post) (length pre + 1) n = Some d"
  using bytes_at_mid [of pre "[b]" d post] by simp

lemma byte_value: "n < 256 \<Longrightarrow> unat (of_nat n :: u8) = n"
  by (rule unat_small)

lemma get_byte_seq:
  "get_byte (pre @ b # c # d # e # post) (length pre + 1) = Some (unat c)"
  "get_byte (pre @ b # c # d # e # post) (length pre + 1 + 1) = Some (unat d)"
  "get_byte (pre @ b # c # d # e # post) (length pre + 1 + 2) = Some (unat e)"
  by (simp_all add: get_byte_def nth_append)

lemma or_three:
  fixes a b c :: nat
  assumes "a < 256" and "b < 256"
  shows "a OR push_bit 8 b OR push_bit 16 c = c * 65536 + (b * 256 + a)"
proof -
  have 1: "push_bit 8 b OR a = b * 2 ^ 8 + a" by (rule or_push) (use assms in simp)
  have 2: "push_bit 16 c OR (b * 2 ^ 8 + a) = c * 2 ^ 16 + (b * 2 ^ 8 + a)"
    by (rule or_push) (use assms in simp)
  have "a OR push_bit 8 b OR push_bit 16 c = push_bit 16 c OR (push_bit 8 b OR a)"
    by (simp only: or.commute or.left_commute)
  then show ?thesis unfolding 1 2 by simp
qed

lemma le_bytes_3: "le_bytes 3 u = [of_nat (u mod 256), of_nat (u div 256 mod 256), of_nat (u div 256 div 256 mod 256)]"
  by (simp add: numeral_3_eq_3)

lemma mod_three: "u div 256 div 256 mod 256 * 65536 + (u div 256 mod 256 * 256 + u mod 256) = u mod (16777216 :: nat)"
  using mod_mult2_eq [of u 256 65536] mod_mult2_eq [of "u div 256" 256 256] by simp

lemma le_u24_mid:
  "le_u24 (pre @ b # le_bytes 3 u @ post) (length pre + 1) = Some (u mod 16777216)"
proof -
  define x y z where "x = u mod 256" and "y = u div 256 mod 256" and "z = u div 256 div 256 mod 256"
  have lt: "x < 256" "y < 256" "z < 256" by (simp_all add: x_def y_def z_def)
  have v: "unat (of_nat x :: u8) = x" "unat (of_nat y :: u8) = y" "unat (of_nat z :: u8) = z"
    using lt by (simp_all only: byte_value)
  have "le_u24 (pre @ b # [of_nat x, of_nat y, of_nat z] @ post) (length pre + 1) = Some (z * 65536 + (y * 256 + x))"
    unfolding le_u24_def append.simps get_byte_seq v prod.case option.case or_three [OF lt(1,2)] by (rule refl)
  then show ?thesis unfolding x_def y_def z_def le_bytes_3 mod_three .
qed

lemma entry_readsI:
  assumes "e = of_nat n # r" and "n < 255"
    and "\<And>pre post. listpack_entry (pre @ of_nat n # r @ post) (length pre) n = Some (x, Suc (length r))"
  shows "entry_reads e x"
proof -
  have u: "unat (of_nat n :: u8) = n" using assms(2) by (intro byte_value) simp
  then have "(of_nat n :: u8) \<noteq> 0xff" using assms(2) by auto
  then show ?thesis unfolding entry_reads_def assms(1) using u assms(3) by simp
qed

lemma le_uint_tail:
  "le_uint w (pre @ b # le_bytes w n @ post) (length pre + 1) = Some (n mod 256 ^ w)"
  by (simp only: le_uint_def bytes_at_tail length_le_bytes option.map le_nat_le_bytes)

lemma signed_low:
  assumes "m < 64" and "- (2 ^ m) \<le> v" and "v < 2 ^ m"
  shows "signed_take_bit m (int (usize_of_i64 v mod 2 ^ Suc m)) = v"
  using signed_of_low [OF assms(2,3)] usize_low [of "Suc m" v] assms(1) by simp

lemma thirteen_bit_reads:
  assumes "- 4096 \<le> v" and "v \<le> 4095"
  shows "entry_reads (let raw = usize_of_i64 v AND 0x1fff in [of_nat (0xc0 OR drop_bit 8 raw), of_nat (raw AND 0xff)]) (IntE v)"
proof -
  define raw where "raw = usize_of_i64 v mod 8192"
  have raw: "raw < 8192" "raw div 256 < 32" by (simp_all add: raw_def)
  have o: "0xc0 OR raw div 256 = 192 + raw div 256"
    using or_push [of "raw div 256" 5 6] raw by (simp add: push_bit_eq_mult)
  have a: "usize_of_i64 v AND 0x1fff = raw"
    using take_bit_eq_mask [of 13 "usize_of_i64 v"] by (simp add: take_bit_eq_mod mask_eq_exp_minus_1 raw_def)
  have m: "push_bit 8 (raw div 256) OR raw mod 256 = raw" using or_push [of "raw mod 256" 8 "raw div 256"] by simp
  have s: "sign_extend raw 13 = v" using sign_extend_alt [of 12 raw] signed_low [of 12 v] assms by (simp add: raw_def)
  have b: "192 + raw div 256 < 256" using raw by simp
  have d: "(192 + raw div 256) div 128 = 1" "(192 + raw div 256) div 64 = 3" "(192 + raw div 256) div 32 = 6"
    "(192 + raw div 256) mod 32 = raw div 256"
    using raw mod_mult_self2 [of "raw div 256" 32 6] by (simp_all add: add.commute)
  have at: "get_byte (pre @ of_nat (192 + raw div 256) # [of_nat (raw mod 256)] @ post) (length pre + 1) = Some (raw mod 256)"
    for pre post :: bytes using get_byte_mid [of pre] by simp
  have e: "listpack_entry (pre @ of_nat (192 + raw div 256) # [of_nat (raw mod 256)] @ post) (length pre) (192 + raw div 256)
      = Some (IntE v, Suc (length [of_nat (raw mod 256) :: u8]))" for pre post :: bytes
    unfolding listpack_entry_def and_high [OF b] d at and_low by (simp add: m s int_element_def)
  show ?thesis
    by (rule entry_readsI [where n = "192 + raw div 256" and r = "[of_nat (raw mod 256)]"])
      (use a o b raw e in \<open>simp_all add: Let_def drop_bit_eq_div\<close>)
qed

lemmas wide_int_simps =
  listpack_entry_def int_element_def le_u16_def le_u32_def le_u64_def as_signed_def
  le_uint_tail [simplified] le_u24_mid [simplified] sign_extend_alt [of 23, simplified]

lemma wide_int_reads:
  "- (2 ^ 15) \<le> v \<Longrightarrow> v < 2 ^ 15 \<Longrightarrow> entry_reads (0xf1 # le_bytes 2 (usize_of_i64 v)) (IntE v)"
  "- (2 ^ 23) \<le> v \<Longrightarrow> v < 2 ^ 23 \<Longrightarrow> entry_reads (0xf2 # le_bytes 3 (usize_of_i64 v)) (IntE v)"
  "- (2 ^ 31) \<le> v \<Longrightarrow> v < 2 ^ 31 \<Longrightarrow> entry_reads (0xf3 # le_bytes 4 (usize_of_i64 v)) (IntE v)"
  "i64_ok v \<Longrightarrow> entry_reads (0xf4 # le_bytes 8 (usize_of_i64 v)) (IntE v)"
  subgoal
    by (rule entry_readsI [where n = "0xf1" and r = "le_bytes 2 (usize_of_i64 v)"]) (use signed_low [of 15 v] in \<open>simp_all add: wide_int_simps\<close>)
  subgoal
    by (rule entry_readsI [where n = "0xf2" and r = "le_bytes 3 (usize_of_i64 v)"]) (use signed_low [of 23 v] in \<open>simp_all add: wide_int_simps\<close>)
  subgoal
    by (rule entry_readsI [where n = "0xf3" and r = "le_bytes 4 (usize_of_i64 v)"]) (use signed_low [of 31 v] in \<open>simp_all add: wide_int_simps\<close>)
  subgoal
    by (rule entry_readsI [where n = "0xf4" and r = "le_bytes 8 (usize_of_i64 v)"]) (use signed_low [of 63 v] in \<open>simp_all add: wide_int_simps i64_ok_def\<close>)
  done

lemma lw_int_entry_reads:
  assumes "i64_ok v"
  shows "entry_reads (lw_int_entry v) (IntE v)"
proof (cases "0 \<le> v \<and> v \<le> 127")
  case True
  then have n: "usize_of_i64 v = nat v" "nat v < 128" using assms by simp_all linarith
  show ?thesis
    by (rule entry_readsI [where n = "nat v" and r = "[]"])
      (use True n in \<open>simp_all add: lw_int_entry_def listpack_entry_def and_high\<close>)
next
  case False
  then show ?thesis
    using assms thirteen_bit_reads [of v] wide_int_reads [of v] by (auto simp: lw_int_entry_def Let_def)
qed

lemma lw_str_entry_reads:
  assumes "length s < 2 ^ 32"
  shows "entry_reads (lw_str_entry s) (StrE s)"
proof -
  let ?n = "length s"
  consider "?n < 64" | "64 \<le> ?n" "?n < 4096" | "4096 \<le> ?n" by linarith
  then show ?thesis
  proof cases
    case 1
    have o: "0x80 OR ?n = 128 + ?n" using or_push [of ?n 6 2] 1 by (simp add: push_bit_eq_mult)
    have b: "128 + ?n < 256" using 1 by simp
    have d: "(128 + ?n) div 128 = 1" "(128 + ?n) div 64 = 2" "(128 + ?n) mod 64 = ?n"
      using 1 mod_mult_self2 [of ?n 64 2] by (simp_all add: add.commute)
    have e: "listpack_entry (pre @ of_nat (128 + ?n) # s @ post) (length pre) (128 + ?n) = Some (StrE s, Suc ?n)" for pre post
      unfolding listpack_entry_def and_high [OF b] d and_low
      using bytes_at_tail [of ?n s pre "of_nat (128 + ?n)" post] by (simp add: str_element_def)
    show ?thesis
      by (rule entry_readsI [where n = "128 + ?n" and r = s]) (use 1 o e in \<open>simp_all add: lw_str_entry_def\<close>)
  next
    case 2
    define q r where "q = ?n div 256" and "r = ?n mod 256"
    have q: "q < 16" "r < 256" "push_bit 8 q OR r = ?n"
      using 2 or_push [of r 8 q] by (simp_all add: q_def r_def)
    have o: "0xe0 OR q = 224 + q" using or_push [of q 4 14] q by (simp add: push_bit_eq_mult)
    have b: "224 + q < 256" using q by simp
    have d: "(224 + q) div 128 = 1" "(224 + q) div 64 = 3" "(224 + q) div 32 = 7" "(224 + q) div 16 = 14" "(224 + q) mod 16 = q"
      using q mod_mult_self2 [of q 16 14] by (simp_all add: add.commute)
    have ne: "224 + q \<noteq> 0xf1" "224 + q \<noteq> 0xf2" "224 + q \<noteq> 0xf3" "224 + q \<noteq> 0xf4" "224 + q \<noteq> 0xf0" using q by simp_all
    have at: "get_byte (pre @ of_nat (224 + q) # (of_nat r # s) @ post) (length pre + 1) = Some r"
      "bytes_at (pre @ of_nat (224 + q) # (of_nat r # s) @ post) (length pre + 2) ?n = Some s" for pre post
      using get_byte_mid [of pre] byte_value [of r] q bytes_at_mid [of pre "[of_nat (224 + q), of_nat r]" s post] by simp_all
    have e: "listpack_entry (pre @ of_nat (224 + q) # (of_nat r # s) @ post) (length pre) (224 + q) = Some (StrE s, Suc (length (of_nat r # s)))"
      for pre post
      unfolding listpack_entry_def and_high [OF b] d and_low at using ne at(2) by (simp add: str_element_def q)
    show ?thesis
      by (rule entry_readsI [where n = "224 + q" and r = "of_nat r # s"])
        (use 2 o q e in \<open>simp_all add: lw_str_entry_def drop_bit_eq_div q_def r_def\<close>)
  next
    case 3
    have at: "bytes_at (pre @ 0xf0 # (le_bytes 4 ?n @ s) @ post) (length pre + 5) ?n = Some s"
      "le_u32 (pre @ 0xf0 # (le_bytes 4 ?n @ s) @ post) (length pre + 1) = Some ?n" for pre post
      using bytes_at_mid [of pre "0xf0 # le_bytes 4 ?n" s post] le_uint_tail [of 4 pre "0xf0" ?n "s @ post"] assms
      by (simp_all add: le_u32_def)
    have e: "listpack_entry (pre @ of_nat 0xf0 # (le_bytes 4 ?n @ s) @ post) (length pre) 0xf0 = Some (StrE s, Suc (length (le_bytes 4 ?n @ s)))"
      for pre post
      using at [of pre post] by (simp add: listpack_entry_def str_element_def)
    show ?thesis
      by (rule entry_readsI [OF _ _ e]) (use 3 in \<open>simp_all add: lw_str_entry_def\<close>)
  qed
qed

subsection \<open>A whole listpack\<close>

lemma backlen_groups_length:
  "0 < n \<Longrightarrow> n < 128 ^ Suc k \<Longrightarrow> 128 ^ k \<le> n \<Longrightarrow> length (backlen_groups n) = Suc k"
proof (induction k arbitrary: n)
  case 0
  then show ?case by (simp add: backlen_groups.simps [of n] backlen_groups.simps [of 0] drop_bit_eq_div)
next
  case (Suc k)
  have "n div 128 < 128 ^ Suc k" "128 ^ k \<le> n div 128"
    using Suc.prems by (simp_all add: less_mult_imp_div_less less_eq_div_iff_mult_less_eq mult.commute)
  moreover have "0 < n div 128" using \<open>128 ^ k \<le> n div 128\<close> by (meson less_le_trans zero_less_numeral zero_less_power)
  ultimately have "length (backlen_groups (n div 128)) = Suc k" by (rule Suc.IH [rotated 1])
  then show ?case using Suc.prems by (simp add: backlen_groups.simps [of n] drop_bit_eq_div)
qed

lemma backlen_some:
  assumes "0 < n" and "n < 2 ^ 35"
  obtains bl where "backlen n = Some bl" and "length bl = backlen_size n"
proof (cases "n \<le> 127")
  case True
  then show ?thesis using that by (simp add: backlen_def backlen_size_def)
next
  case False
  have k: "length (backlen_groups n) = backlen_size n"
    using backlen_groups_length [of n 1] backlen_groups_length [of n 2] backlen_groups_length [of n 3]
      backlen_groups_length [of n 4] assms False
    by (auto simp: backlen_size_def)
  moreover have "backlen_size n \<le> 5" by (simp add: backlen_size_def)
  ultimately show ?thesis using that False
    by (cases "rev (backlen_groups n)") (auto simp: backlen_def Let_def dest: arg_cong [where f = length])
qed

text \<open>A sequence of calls of \<open>int\<close> and \<open>str\<close>.\<close>

fun lw_element :: "element \<Rightarrow> listpack_writer \<Rightarrow> listpack_writer option" where
  "lw_element (IntE v) = lw_int v"
| "lw_element (StrE s) = lw_str s"

fun lw_many :: "element list \<Rightarrow> listpack_writer \<Rightarrow> listpack_writer option" where
  "lw_many [] w = Some w"
| "lw_many (x # xs) w = Option.bind (lw_element x w) (lw_many xs)"

fun element_ok :: "element \<Rightarrow> bool" where
  "element_ok (IntE v) \<longleftrightarrow> i64_ok v"
| "element_ok (StrE s) \<longleftrightarrow> length s < 2 ^ 32"

definition lw_has :: "listpack_writer \<Rightarrow> element list \<Rightarrow> bool" where
  "lw_has w es \<longleftrightarrow> lw_elements w = length es \<and>
     (\<forall>pre post out. listpack_loop (pre @ lw_body w @ post) (length pre) out =
        listpack_loop (pre @ lw_body w @ post) (length pre + length (lw_body w)) (out @ es))"

lemma lw_has_new: "lw_has lw_new []"
  by (simp add: lw_has_def lw_new_def)

lemma listpack_loop_step:
  assumes "entry_reads e x" and "length bl = backlen_size (length e)"
  shows "listpack_loop (pre @ e @ bl @ post) (length pre) out =
    listpack_loop (pre @ e @ bl @ post) (length pre + length e + length bl) (out @ [x])"
proof -
  obtain b r where e: "e = b # r" "b \<noteq> 0xff" using assms(1) by (cases e) (auto simp: entry_reads_def)
  have nth: "(pre @ e @ bl @ post) ! length pre = b" "get_byte (pre @ e @ bl @ post) (length pre) = Some (unat b)"
    "length pre < length (pre @ e @ bl @ post)"
    by (simp_all add: e get_byte_def nth_append)
  have "listpack_entry (pre @ e @ bl @ post) (length pre) (unat b) = Some (x, length e)"
    using assms(1) e(1) unfolding entry_reads_def by (metis append.assoc list.sel(1))
  then have "listpack_element (pre @ e @ bl @ post) (length pre) = Some (x, length e + length bl)"
    by (simp add: listpack_element_def nth(2) assms(2))
  then show ?thesis using nth e(2) by (subst listpack_loop.simps) (simp add: add.assoc)
qed

lemma lw_has_push:
  assumes "entry_reads e x" and "length e < 2 ^ 35" and "lw_has w es"
  obtains w' where "lw_push e w = Some w'" and "lw_has w' (es @ [x])"
proof -
  have "0 < length e" using assms(1) by (simp add: entry_reads_def)
  then obtain bl where bl: "backlen (length e) = Some bl" "length bl = backlen_size (length e)"
    using backlen_some assms(2) by metis
  let ?w = "\<lparr>lw_body = lw_body w @ e @ bl, lw_elements = lw_elements w + 1\<rparr>"
  have "listpack_loop (pre @ lw_body ?w @ post) (length pre) out =
      listpack_loop (pre @ lw_body ?w @ post) (length pre + length (lw_body ?w)) (out @ es @ [x])" for pre post out
    using assms(3) listpack_loop_step [OF assms(1) bl(2), of "pre @ lw_body w" post "out @ es"]
    by (simp add: lw_has_def add.assoc)
  then have "lw_has ?w (es @ [x])" using assms(3) by (simp add: lw_has_def)
  then show ?thesis using that [of ?w] bl(1) by (simp add: lw_push_def)
qed

lemma lw_element_push:
  assumes "element_ok x"
  obtains e where "lw_element x = lw_push e" and "entry_reads e x" and "length e < 2 ^ 35"
proof (cases x)
  case (IntE v)
  have "length (lw_int_entry v) < 2 ^ 35" by (simp add: lw_int_entry_def Let_def)
  then show ?thesis using that [of "lw_int_entry v"] assms IntE by (simp add: lw_int_entry_reads lw_int_def)
next
  case (StrE s)
  then have "length (lw_str_entry s) < 2 ^ 35" using assms by (simp add: lw_str_entry_def)
  then show ?thesis using that [of "lw_str_entry s"] assms StrE by (simp add: lw_str_entry_reads lw_str_def)
qed

lemma lw_many_has:
  "list_all element_ok xs \<Longrightarrow> lw_has w es \<Longrightarrow> \<exists>w'. lw_many xs w = Some w' \<and> lw_has w' (es @ xs)"
proof (induction xs arbitrary: w es)
  case (Cons x xs)
  then obtain e where e: "lw_element x = lw_push e" "entry_reads e x" "length e < 2 ^ 35"
    by (auto elim: lw_element_push)
  obtain w' where "lw_push e w = Some w'" "lw_has w' (es @ [x])" by (rule lw_has_push [OF e(2,3) Cons.prems(2)])
  then show ?case using Cons.IH [of w' "es @ [x]"] Cons.prems e(1) by simp
qed simp

lemma listpack_finish:
  assumes "lw_has w es"
  shows "listpack (lw_finish w) = Some es"
proof -
  let ?h = "le_bytes 4 (6 + length (lw_body w) + 1) @ le_bytes 2 (min (lw_elements w) 65535)"
  have l: "length ?h = 6" by simp
  have "listpack_loop (?h @ lw_body w @ [0xff]) (length ?h) [] =
      listpack_loop (?h @ lw_body w @ [0xff]) (length ?h + length (lw_body w)) es"
    using assms by (simp only: lw_has_def append.simps)
  also have "\<dots> = Some es" by (subst listpack_loop.simps) (simp add: nth_append)
  finally show ?thesis unfolding l lw_finish_def by (simp add: listpack_def)
qed



end
