(* ===== verification/Rdb_Value.thy ===== *)
theory Rdb_Value
  imports Rdb_Packed Cmd_Stream Cmd_Hash Cmd_Set
begin

text \<open>
  The values of a snapshot: the streams of src/rdb/stream.rs, \<open>put_value\<close> of src/rdb/write.rs and
  \<open>read_value\<close> of src/rdb/read.rs, with every encoding a dump may use. \<open>reads_put_value\<close> shows that the
  reader accepts each value the writer produces and returns the same value.
\<close>

section \<open>Streams\<close>

record load_stats =
  ls_keys :: nat
  ls_expired :: nat
  ls_dropped_groups :: nat
  ls_dropped_functions :: nat
  ls_aux :: "(bytes \<times> bytes) list"

definition load_stats_default :: load_stats where
  "load_stats_default =
     \<lparr>ls_keys = 0, ls_expired = 0, ls_dropped_groups = 0, ls_dropped_functions = 0, ls_aux = []\<rparr>"

subsection \<open>Reading\<close>

definition stream_id_from_key :: "bytes \<Rightarrow> stream_id option" where
  "stream_id_from_key raw =
     (if length raw \<noteq> 16 then None
      else Some (StreamId (of_nat (be_nat (take 8 raw))) (of_nat (be_nat (drop 8 raw)))))"

text \<open>
  \<open>elements.get(i..i + n)\<close>; where the sum would wrap the range is backwards, and the answer
  \<open>None\<close> as well.
\<close>

definition elements_at :: "element list \<Rightarrow> nat \<Rightarrow> nat \<Rightarrow> element list option" where
  "elements_at els i n = (if i + n \<le> length els then Some (take n (drop i els)) else None)"

definition int_at :: "element list \<Rightarrow> nat \<Rightarrow> int rd" where
  "int_at els i = rd_some (ascii ''stream listpack: expected an integer'')
     (if i < length els then as_int (els ! i) else None)"

text \<open>One entry of a node: the state of the loop is the index \<open>i\<close> and the stream.\<close>

definition read_entry ::
    "element list \<Rightarrow> stream_id \<Rightarrow> bytes list \<Rightarrow> nat \<Rightarrow> nat \<times> stream \<Rightarrow> (nat \<times> stream) rd" where
  "read_entry els master_id master_fields num_master_fields = (\<lambda>(i, s).
     rd_bind (int_at els i) (\<lambda>flags.
     rd_bind (int_at els (i + 1)) (\<lambda>ms_diff.
     rd_bind (int_at els (i + 2)) (\<lambda>seq_diff.
       let i = i + 3;
           sid = StreamId (sid_ms master_id + u64_of_i64 ms_diff) (sid_seq master_id + u64_of_i64 seq_diff) in
       rd_bind
         (if flags AND 2 \<noteq> 0 then
            rd_bind (rd_some (ascii ''stream listpack: truncated entry values'') (elements_at els i num_master_fields))
              (\<lambda>values. rd_ret (i + num_master_fields, zip master_fields (map into_bytes values)))
          else
            rd_bind (int_at els i) (\<lambda>n.
              if n < 0 then rd_fail (ascii ''stream listpack: negative field count'')
              else
                let n = usize_of_i64 n; i = i + 1 in
                rd_bind (rd_some (ascii ''stream listpack: truncated entry fields'') (elements_at els i (n * 2)))
                  (\<lambda>flat. rd_ret (i + n * 2, pairs_of (map into_bytes flat)))))
         (\<lambda>(i, fields). rd_ret
            (i + 1, if flags AND 1 = 0 then s\<lparr>s_entries := entries_insert sid fields (s_entries s)\<rparr> else s))))))"

definition read_node :: "element list \<Rightarrow> stream_id \<Rightarrow> stream \<Rightarrow> stream rd" where
  "read_node els master_id s =
     rd_bind (int_at els 0) (\<lambda>count.
     rd_bind (int_at els 1) (\<lambda>deleted.
     rd_bind (int_at els 2) (\<lambda>num_master_fields.
       if count < 0 \<or> deleted < 0 \<or> num_master_fields < 0 then
         rd_fail (ascii ''stream listpack: negative master entry counter'')
       else
         let num = usize_of_i64 num_master_fields in
         rd_bind (rd_some (ascii ''stream listpack: truncated master fields'') (elements_at els 3 num)) (\<lambda>names.
         rd_bind (int_at els (3 + num)) (\<lambda>terminator.
           if terminator \<noteq> 0 then
             rd_fail (ascii ''stream listpack: master entry is not zero-terminated'')
           else
             rd_bind
               (rd_times (nat (min (count + deleted) (2 ^ 63 - 1)))
                 (read_entry els master_id (map into_bytes names) num) (4 + num, s))
               (\<lambda>(i, s). rd_ret s))))))"

text \<open>A consumer group is parsed and dropped.\<close>

definition skip_pending :: "unit \<Rightarrow> unit rd" where
  "skip_pending _ = rd_bind (rd_take 16) (\<lambda>_. rd_bind rd_u64le (\<lambda>_. rd_bind rd_count_u64 (\<lambda>_. rd_ret ())))"

definition skip_consumer :: "nat \<Rightarrow> unit \<Rightarrow> unit rd" where
  "skip_consumer type_code _ =
     rd_bind rd_string (\<lambda>_. rd_bind rd_u64le (\<lambda>_.
     rd_bind (if 21 \<le> type_code then rd_bind rd_u64le (\<lambda>_. rd_ret ()) else rd_ret ()) (\<lambda>_.
     rd_bind rd_count (\<lambda>owned.
       rd_times owned (\<lambda>_. rd_bind (rd_take 16) (\<lambda>_. rd_ret ())) ()))))"

definition skip_consumer_group :: "nat \<Rightarrow> unit \<Rightarrow> unit rd" where
  "skip_consumer_group type_code _ =
     rd_bind rd_string (\<lambda>_. rd_bind rd_count_u64 (\<lambda>_. rd_bind rd_count_u64 (\<lambda>_.
     rd_bind (if 19 \<le> type_code then rd_bind rd_count_u64 (\<lambda>_. rd_ret ()) else rd_ret ()) (\<lambda>_.
     rd_bind rd_count (\<lambda>pending. rd_bind (rd_times pending skip_pending ()) (\<lambda>_.
     rd_bind rd_count (\<lambda>consumers. rd_times consumers (skip_consumer type_code) ())))))))"

definition read_stream_node :: "stream \<Rightarrow> stream rd" where
  "read_stream_node s =
     rd_bind rd_string (\<lambda>key.
     rd_bind (rd_some (ascii ''stream node key is not a 16-byte id'') (stream_id_from_key key)) (\<lambda>master_id.
     rd_bind rd_string (\<lambda>blob.
     rd_bind (rd_some (ascii ''malformed stream listpack'') (listpack blob)) (\<lambda>els.
       read_node els master_id s))))"

definition rd_stream_id :: "stream_id rd" where
  "rd_stream_id = rd_bind rd_count_u64 (\<lambda>ms. rd_bind rd_count_u64 (\<lambda>seq. rd_ret (StreamId ms seq)))"

definition stream_read :: "nat \<Rightarrow> load_stats \<Rightarrow> (val \<times> load_stats) rd" where
  "stream_read type_code stats =
     rd_bind rd_count (\<lambda>nodes.
     rd_bind (rd_times nodes read_stream_node stream_default) (\<lambda>s.
     rd_bind rd_count_u64 (\<lambda>_.
     rd_bind rd_stream_id (\<lambda>last_id.
     rd_bind
       (if 19 \<le> type_code then
          rd_bind rd_stream_id (\<lambda>_. rd_bind rd_stream_id (\<lambda>max_deleted. rd_bind rd_count_u64 (\<lambda>_. rd_ret max_deleted)))
        else rd_ret (s_max_deleted_id s)) (\<lambda>max_deleted.
     rd_bind rd_count (\<lambda>groups.
     rd_bind (rd_times groups (skip_consumer_group type_code) ()) (\<lambda>_.
       rd_ret (StreamV (s\<lparr>s_last_id := last_id, s_max_deleted_id := max_deleted\<rparr>),
         stats\<lparr>ls_dropped_groups := ls_dropped_groups stats + groups\<rparr>))))))))"

subsection \<open>Writing\<close>

text \<open>A node of one entry; \<open>None\<close> is the panic of an entry that is too long for \<open>backlen\<close>.\<close>

definition node_elements :: "(bytes \<times> bytes) list \<Rightarrow> element list" where
  "node_elements fvs =
     [IntE 1, IntE 0, IntE (i64 (int (length fvs)))] @ map (StrE \<circ> fst) fvs @ [IntE 0] @
     [IntE 2, IntE 0, IntE 0] @ map (StrE \<circ> snd) fvs @ [IntE (i64 (i64 (int (length fvs)) + 3))]"

definition stream_id_key :: "stream_id \<Rightarrow> bytes" where
  "stream_id_key i = be_bytes 8 (unat (sid_ms i)) @ be_bytes 8 (unat (sid_seq i))"

definition write_node :: "stream_id \<times> (bytes \<times> bytes) list \<Rightarrow> bytes option" where
  "write_node = (\<lambda>(i, fvs).
     map_option (\<lambda>lp. put_raw_string (stream_id_key i) @ put_raw_string (lw_finish lp))
       (lw_many (node_elements fvs) lw_new))"

definition put_stream_id :: "stream_id \<Rightarrow> bytes" where
  "put_stream_id i = put_length (unat (sid_ms i)) @ put_length (unat (sid_seq i))"

definition stream_write :: "stream \<Rightarrow> bytes option" where
  "stream_write s =
     map_option (\<lambda>nodes.
         put_length (length (s_entries s)) @ concat nodes @ put_length (length (s_entries s)) @
         put_stream_id (s_last_id s) @
         put_stream_id (case s_entries s of [] \<Rightarrow> sid_min | (i, _) # _ \<Rightarrow> i) @
         put_stream_id (s_max_deleted_id s) @ put_length (length (s_entries s)) @ put_length 0)
       (those (map write_node (s_entries s)))"

section \<open>Values\<close>

subsection \<open>Writing\<close>

definition put_value :: "bytes \<Rightarrow> val \<Rightarrow> bytes option" where
  "put_value key v =
     (case v of
        StringV s \<Rightarrow> Some (0 # put_raw_string key @ put_raw_string s)
      | ListV items \<Rightarrow>
          Some (1 # put_raw_string key @ put_length (length items) @ concat (map put_raw_string items))
      | SetV members \<Rightarrow>
          Some (2 # put_raw_string key @ put_length (length members) @ concat (map put_raw_string members))
      | HashV h \<Rightarrow>
          Some (4 # put_raw_string key @ put_length (length h) @
            concat (map (\<lambda>(f, w). put_raw_string f @ put_raw_string w) h))
      | ZSetV z \<Rightarrow>
          Some (5 # put_raw_string key @ put_length (zset_len z) @
            concat (map (\<lambda>(m, s). put_raw_string m @ le_bytes 8 (unat (f64_bits s))) (zset_iter_asc z)))
      | StreamV s \<Rightarrow> map_option (\<lambda>b. 19 # put_raw_string key @ b) (stream_write s))"

subsection \<open>Reading\<close>

definition parse_score :: "bytes \<Rightarrow> f64 option" where
  "parse_score s =
     (if s = ascii ''inf'' \<or> s = ascii ''+inf'' then Some f64_inf
      else if s = ascii ''-inf'' then Some f64_neg_inf
      else if s = ascii ''nan'' then Some f64_nan
      else parse_f64 s)"

text \<open>The packed form of a container: the strings of a listpack or of a ziplist.\<close>

definition packed_strings :: "bool \<Rightarrow> bytes \<Rightarrow> bytes list option" where
  "packed_strings is_listpack blob = (if is_listpack then listpack_strings blob else ziplist_strings blob)"

definition read_quicklist_node :: "bool \<Rightarrow> bytes list \<Rightarrow> bytes list rd" where
  "read_quicklist_node v2 xs =
     rd_bind
       (if v2 then rd_bind rd_length (\<lambda>l. case l of Plain c \<Rightarrow> rd_ret c | Special _ \<Rightarrow> rd_fail (ascii ''bad quicklist container''))
        else rd_ret 2) (\<lambda>container.
     rd_bind rd_string (\<lambda>blob.
       if container = 1 then rd_ret (xs @ [blob])
       else if container = 2 then
         rd_bind (rd_some (ascii ''malformed quicklist node'') (packed_strings v2 blob)) (\<lambda>items. rd_ret (xs @ items))
       else rd_throw (Corrupt (ascii ''unknown quicklist container '' @ dec_nat container))))"

fun zset_insert_packed :: "(bytes \<times> bytes) list \<Rightarrow> zset \<Rightarrow> zset rd" where
  "zset_insert_packed [] z = rd_ret z"
| "zset_insert_packed ((m, s) # kvs) z =
     rd_bind (rd_some (ascii ''unparseable packed zset score'') (if utf8_valid s then parse_score s else None))
       (\<lambda>score. zset_insert_packed kvs (fst (zset_insert m score z)))"

definition read_value :: "nat \<Rightarrow> load_stats \<Rightarrow> (val \<times> load_stats) rd" where
  "read_value code stats =
     (let plain = (\<lambda>p. rd_bind p (\<lambda>v. rd_ret (v, stats))) in
      if code = 0 then plain (rd_bind rd_string (\<lambda>s. rd_ret (StringV s)))
      else if code = 1 then
        plain (rd_bind rd_count (\<lambda>n.
          rd_bind (rd_times n (\<lambda>l. rd_bind rd_string (\<lambda>s. rd_ret (l @ [s]))) []) (\<lambda>l. rd_ret (ListV l))))
      else if code = 10 then
        plain (rd_bind rd_string (\<lambda>blob.
          rd_bind (rd_some (ascii ''malformed ziplist in list'') (ziplist_strings blob)) (\<lambda>l. rd_ret (ListV l))))
      else if code = 14 \<or> code = 18 then
        plain (rd_bind rd_count (\<lambda>nodes.
          rd_bind (rd_times nodes (read_quicklist_node (code = 18)) []) (\<lambda>l. rd_ret (ListV l))))
      else if code = 2 then
        plain (rd_bind rd_count (\<lambda>n.
          rd_bind (rd_times n (\<lambda>st. rd_bind rd_string (\<lambda>m. rd_ret (fst (hs_insert m st)))) []) (\<lambda>st. rd_ret (SetV st))))
      else if code = 11 then
        plain (rd_bind rd_string (\<lambda>blob.
          rd_bind (rd_some (ascii ''malformed intset'') (intset blob)) (\<lambda>ms.
            rd_ret (SetV (foldl (\<lambda>st m. fst (hs_insert m st)) [] ms)))))
      else if code = 20 then
        plain (rd_bind rd_string (\<lambda>blob.
          rd_bind (rd_some (ascii ''malformed listpack in set'') (listpack_strings blob)) (\<lambda>ms.
            rd_ret (SetV (foldl (\<lambda>st m. fst (hs_insert m st)) [] ms)))))
      else if code = 4 then
        plain (rd_bind rd_count (\<lambda>n.
          rd_bind (rd_times n (\<lambda>h. rd_bind rd_string (\<lambda>f. rd_bind rd_string (\<lambda>v. rd_ret (fst (hm_insert (f, v) h))))) [])
            (\<lambda>h. rd_ret (HashV h))))
      else if code = 13 \<or> code = 16 then
        plain (rd_bind rd_string (\<lambda>blob.
          rd_bind (rd_some (ascii ''malformed packed hash'') (packed_strings (code = 16) blob)) (\<lambda>flat.
            if odd (length flat) then rd_fail (ascii ''packed hash has an odd number of elements'')
            else rd_ret (HashV (foldl (\<lambda>h kv. fst (hm_insert kv h)) [] (pairs_of flat))))))
      else if code = 3 \<or> code = 5 then
        plain (rd_bind rd_count (\<lambda>n.
          rd_bind (rd_times n (\<lambda>z. rd_bind rd_string (\<lambda>m.
              rd_bind (if code = 5 then rd_binary_double else rd_string_double) (\<lambda>score.
                rd_ret (fst (zset_insert m score z))))) zset_new)
            (\<lambda>z. rd_ret (ZSetV z))))
      else if code = 12 \<or> code = 17 then
        plain (rd_bind rd_string (\<lambda>blob.
          rd_bind (rd_some (ascii ''malformed packed zset'') (packed_strings (code = 17) blob)) (\<lambda>flat.
            if odd (length flat) then rd_fail (ascii ''packed zset has an odd number of elements'')
            else rd_bind (zset_insert_packed (pairs_of flat) zset_new) (\<lambda>z. rd_ret (ZSetV z)))))
      else if code = 15 \<or> code = 19 \<or> code = 21 then stream_read code stats
      else if code = 9 then
        rd_throw (Unsupported (ascii ''dump uses the pre-2.6 zipmap hash encoding''))
      else if code = 6 \<or> code = 7 then
        rd_throw (Unsupported (ascii ''dump contains a module type, which meebis cannot interpret''))
      else if code = 22 \<or> code = 23 \<or> code = 24 \<or> code = 25 then
        rd_throw (Unsupported (ascii ''dump contains a hash with per-field TTLs (Redis 7.4 HEXPIRE), which meebis does not model''))
      else rd_throw (Corrupt (ascii ''unknown value type '' @ dec_nat code)))"

section \<open>The readers move forward\<close>

lemma forward_case_prod [forward_intros]: "(\<And>a b. rd_forward (f a b)) \<Longrightarrow> rd_forward (case x of (a, b) \<Rightarrow> f a b)"
  by (simp split: prod.split)

lemma forward_int_at [forward_intros]: "rd_forward (int_at els i)"
  unfolding int_at_def by (intro forward_intros)

lemma forward_read_entry [forward_intros]: "rd_forward (read_entry els i fs n st)"
  unfolding read_entry_def Let_def by (intro forward_intros)

lemma forward_read_node [forward_intros]: "rd_forward (read_node els i s)"
  unfolding read_node_def Let_def by (intro forward_intros)

lemma forward_skip [forward_intros]:
  "rd_forward (skip_pending u)" "rd_forward (skip_consumer c u)"
  unfolding skip_pending_def skip_consumer_def by (intro forward_intros)+

lemma forward_skip_group [forward_intros]: "rd_forward (skip_consumer_group c u)"
  unfolding skip_consumer_group_def by (intro forward_intros)

lemma forward_stream_node [forward_intros]: "rd_forward (read_stream_node s)" "rd_forward rd_stream_id"
  unfolding read_stream_node_def rd_stream_id_def by (intro forward_intros)+

lemma forward_stream_read [forward_intros]: "rd_forward (stream_read c stats)"
  unfolding stream_read_def by (intro forward_intros)

lemma forward_quicklist [forward_intros]: "rd_forward (read_quicklist_node v2 xs)"
  unfolding read_quicklist_node_def by (intro forward_intros)

lemma forward_zset_packed [forward_intros]: "rd_forward (zset_insert_packed kvs z)"
  by (induction kvs z rule: zset_insert_packed.induct) (simp_all add: forward_intros)

lemma forward_read_value [forward_intros]: "rd_forward (read_value c stats)"
  unfolding read_value_def Let_def by (intro forward_intros)

section \<open>The reader accepts what the writer produces\<close>

text \<open>
  What fits in a snapshot: nothing a 64-bit process can hold is longer than \<open>2 ^ 64\<close>, and the strings
  of a stream entry must be shorter than 4 GiB.
\<close>

definition stream_fits :: "stream \<Rightarrow> bool" where
  "stream_fits s \<longleftrightarrow> (\<forall>(i, fvs)\<in>set (s_entries s). length fvs < 2 ^ 32 \<and>
     (\<forall>(f, v)\<in>set fvs. length f < 2 ^ 32 \<and> length v < 2 ^ 32))"

fun val_fits :: "val \<Rightarrow> bool" where
  "val_fits (StreamV s) = stream_fits s"
| "val_fits _ = True"

lemma reads_bind0: "reads p [] x \<Longrightarrow> reads (f x) e y \<Longrightarrow> reads (rd_bind p f) e y"
  using reads_bind [of p "[]" x f e y] by simp

lemma reads_some: "x = Some y \<Longrightarrow> reads (rd_some w x) [] y"
  by (simp add: rd_some_def reads_ret)

lemma reads_case_prod: "x = (a, b) \<Longrightarrow> reads (f a b) e y \<Longrightarrow> reads (case x of (a, b) \<Rightarrow> f a b) e y"
  by simp

lemma reads_int_at: "i < length els \<Longrightarrow> els ! i = IntE v \<Longrightarrow> reads (int_at els i) [] v"
  unfolding int_at_def by (intro reads_some) simp

subsection \<open>A stream\<close>

lemma into_bytes_StrE [simp]: "map into_bytes (map (StrE \<circ> f) xs) = map f xs"
  by (induction xs) simp_all

lemma elements_at_mid: "i = length a \<Longrightarrow> n = length b \<Longrightarrow> elements_at (a @ b @ c) i n = Some b"
  by (simp add: elements_at_def)

lemma node_elements_at:
  fixes fvs :: "(bytes \<times> bytes) list"
  defines "n \<equiv> length fvs"
  assumes "i64_ok (int n)"
  shows "reads (int_at (node_elements fvs) 0) [] 1" "reads (int_at (node_elements fvs) 1) [] 0"
    "reads (int_at (node_elements fvs) 2) [] (int n)" "reads (int_at (node_elements fvs) (3 + n)) [] 0"
    "reads (int_at (node_elements fvs) (4 + n)) [] 2" "reads (int_at (node_elements fvs) (4 + n + 1)) [] 0"
    "reads (int_at (node_elements fvs) (4 + n + 2)) [] 0"
    "elements_at (node_elements fvs) 3 n = Some (map (StrE \<circ> fst) fvs)"
    "elements_at (node_elements fvs) (4 + n + 3) n = Some (map (StrE \<circ> snd) fvs)"
proof -
  have l: "length (node_elements fvs) = 2 * n + 8" by (simp add: node_elements_def n_def)
  have nth: "node_elements fvs ! (3 + n + k) = ([IntE 0, IntE 2, IntE 0, IntE 0] @ map (StrE \<circ> snd) fvs @ [IntE (i64 (i64 (int n) + 3))]) ! k" for k
    by (simp add: node_elements_def nth_append n_def)
  have hd: "node_elements fvs ! 0 = IntE 1" "node_elements fvs ! 1 = IntE 0" "node_elements fvs ! 2 = IntE (int n)"
    using assms by (simp_all add: node_elements_def n_def)
  show "reads (int_at (node_elements fvs) 0) [] 1" by (rule reads_int_at [OF _ hd(1)]) (simp add: l)
  show "reads (int_at (node_elements fvs) 1) [] 0" by (rule reads_int_at [OF _ hd(2)]) (simp add: l)
  show "reads (int_at (node_elements fvs) 2) [] (int n)" by (rule reads_int_at [OF _ hd(3)]) (simp add: l)
  have i: "4 + n = 3 + n + 1" "4 + n + 1 = 3 + n + 2" "4 + n + 2 = 3 + n + 3" by simp_all
  show "reads (int_at (node_elements fvs) (3 + n)) [] 0"
    using nth [of 0] by (intro reads_int_at) (simp_all add: l)
  show "reads (int_at (node_elements fvs) (4 + n)) [] 2" unfolding i(1)
    by (rule reads_int_at) (simp add: l, simp only: nth, simp)
  show "reads (int_at (node_elements fvs) (4 + n + 1)) [] 0" unfolding i(2)
    by (rule reads_int_at) (simp add: l, simp only: nth, simp)
  show "reads (int_at (node_elements fvs) (4 + n + 2)) [] 0" unfolding i(3)
    by (rule reads_int_at) (simp add: l, simp only: nth, simp)
  have "node_elements fvs = [IntE 1, IntE 0, IntE (i64 (int n))] @ map (StrE \<circ> fst) fvs
      @ IntE 0 # IntE 2 # IntE 0 # IntE 0 # map (StrE \<circ> snd) fvs @ [IntE (i64 (i64 (int n) + 3))]"
    by (simp add: node_elements_def n_def)
  then show "elements_at (node_elements fvs) 3 n = Some (map (StrE \<circ> fst) fvs)"
    by (simp only:) (rule elements_at_mid, simp_all add: n_def)
  have "node_elements fvs = ([IntE 1, IntE 0, IntE (i64 (int n))] @ map (StrE \<circ> fst) fvs @ [IntE 0, IntE 2, IntE 0, IntE 0])
      @ map (StrE \<circ> snd) fvs @ [IntE (i64 (i64 (int n) + 3))]"
    by (simp add: node_elements_def n_def)
  then show "elements_at (node_elements fvs) (4 + n + 3) n = Some (map (StrE \<circ> snd) fvs)"
    by (simp only:) (rule elements_at_mid, simp_all add: n_def)
qed

lemma reads_node:
  assumes "length fvs < 2 ^ 32" and "\<forall>j\<in>fst ` set (s_entries s). j < i"
  shows "reads (read_node (node_elements fvs) i s) [] (s\<lparr>s_entries := s_entries s @ [(i, fvs)]\<rparr>)"
proof -
  let ?n = "length fvs" and ?e = "node_elements fvs"
  have ok: "i64_ok (int ?n)" using assms(1) by (simp add: i64_ok_def)
  note at = node_elements_at [OF ok]
  have u: "usize_of_i64 (int ?n) = ?n" using ok by simp
  have z: "zip (map fst fvs) (map into_bytes (map (StrE \<circ> snd) fvs)) = fvs" unfolding into_bytes_StrE by (rule zip_map_fst_snd)
  have ins: "entries_insert i fvs (s_entries s) = s_entries s @ [(i, fvs)]" by (rule entries_insert_last [OF assms(2)])
  have sid: "StreamId (sid_ms i + u64_of_i64 0) (sid_seq i + u64_of_i64 0) = i"
    by (cases i) (simp add: u64_of_i64_def)
  have bits: "(2 :: int) AND 2 = 2" "(2 :: int) AND 1 = 0" "(2 :: int) \<noteq> 0" by simp_all
  have "reads (read_entry ?e i (map fst fvs) ?n (4 + ?n, s)) [] (4 + ?n + 3 + ?n + 1, s\<lparr>s_entries := s_entries s @ [(i, fvs)]\<rparr>)"
    unfolding read_entry_def prod.case
    by (rule reads_bind0 [OF at(5)], rule reads_bind0 [OF at(6)], rule reads_bind0 [OF at(7)],
        simp only: Let_def sid bits if_True if_False simp_thms,
        rule reads_bind0 [OF reads_bind0 [OF reads_some [OF at(9)] reads_ret]])
      (simp only: z prod.case ins reads_ret)
  then have e: "reads (rd_times (Suc 0) (read_entry ?e i (map fst fvs) ?n) (4 + ?n, s)) []
      (4 + ?n + 3 + ?n + 1, s\<lparr>s_entries := s_entries s @ [(i, fvs)]\<rparr>)"
    unfolding rd_times.simps by (rule reads_bind0) (simp add: reads_ret)
  have one: "nat (min (1 + 0) (2 ^ 63 - 1)) = Suc 0" by simp
  show ?thesis
    unfolding read_node_def
    by (rule reads_bind0 [OF at(1)], rule reads_bind0 [OF at(2)], rule reads_bind0 [OF at(3)])
      (simp add: Let_def u, rule reads_bind0 [OF reads_some [OF at(8)]], rule reads_bind0 [OF at(4)],
        simp only: simp_thms if_False one into_bytes_StrE, rule reads_bind0 [OF e], simp add: reads_ret)
qed

lemma reads_stream_id [reads_intros]: "reads rd_stream_id (put_stream_id i) i"
  unfolding rd_stream_id_def put_stream_id_def
  by (rule reads_bind [OF reads_count_u64])
    (use reads_last [OF reads_count_u64, of "StreamId (sid_ms i)" "sid_seq i"] in simp)

lemma unat_u64_less: "unat (w :: u64) < 2 ^ 64"
  using unsigned_less [of w] by simp

lemma stream_id_key_id: "stream_id_from_key (stream_id_key i) = Some i" "length (stream_id_key i) = 16"
proof -
  have "unat w mod 256 ^ 8 = unat w" for w :: u64
    using unat_u64_less [of w] by (intro mod_less) simp
  then show "stream_id_from_key (stream_id_key i) = Some i" "length (stream_id_key i) = 16"
    by (simp_all add: stream_id_from_key_def stream_id_key_def be_nat_be_bytes)
qed

lemma node_elements_ok:
  assumes "length fvs < 2 ^ 32" and "\<forall>(f, v)\<in>set fvs. length f < 2 ^ 32 \<and> length v < 2 ^ 32"
  shows "list_all element_ok (node_elements fvs)"
  using assms by (auto simp: node_elements_def list_all_iff i64_ok_def)

lemma reads_stream_node:
  assumes "length fvs < 2 ^ 32" and "\<forall>(f, v)\<in>set fvs. length f < 2 ^ 32 \<and> length v < 2 ^ 32"
    and "\<forall>j\<in>fst ` set (s_entries s). j < i" and "write_node (i, fvs) = Some e" and "length e < 2 ^ 64"
  shows "reads (read_stream_node s) e (s\<lparr>s_entries := s_entries s @ [(i, fvs)]\<rparr>)"
proof -
  obtain w where w: "lw_many (node_elements fvs) lw_new = Some w" "listpack (lw_finish w) = Some (node_elements fvs)"
    using lw_many_has [OF node_elements_ok [OF assms(1,2)] lw_has_new] listpack_finish by fastforce
  then have e: "e = put_raw_string (stream_id_key i) @ put_raw_string (lw_finish w)"
    using assms(4) by (simp add: write_node_def)
  then have "length (lw_finish w) < 2 ^ 64" using assms(5) by (simp add: put_raw_string_def)
  then show ?thesis unfolding read_stream_node_def e
    by (intro reads_bind [OF reads_string] reads_bind0 [OF reads_some [OF stream_id_key_id(1)]])
      (simp add: stream_id_key_id, use \<open>length (lw_finish w) < 2 ^ 64\<close> in \<open>simp add: \<close>, intro reads_bind [OF reads_string, where e' = "[]", simplified]
        reads_bind0 [OF reads_some [OF w(2)]] reads_node assms(1,3))
qed

lemma reads_sized: "(length e < 2 ^ 64 \<Longrightarrow> reads p e x) \<Longrightarrow> reads p e x"
  by (auto simp: reads_def)

lemma those_map: "those (map f xs) = Some ys \<Longrightarrow> ys = map (the \<circ> f) xs \<and> (\<forall>x\<in>set xs. f x = Some (the (f x)))"
proof (induction xs arbitrary: ys)
  case (Cons x xs)
  then show ?case by (cases "f x"; cases "those (map f xs)") auto
qed simp

lemma length_concat_ge: "(\<And>x. x \<in> set xs \<Longrightarrow> 1 \<le> length (f x)) \<Longrightarrow> length xs \<le> length (concat (map f xs))"
proof (induction xs)
  case (Cons x xs)
  have "1 \<le> length (f x)" "length xs \<le> length (concat (map f xs))" using Cons by simp_all
  then show ?case by simp
qed simp

lemma length_concat_part: "x \<in> set xs \<Longrightarrow> length (f x) \<le> length (concat (map f xs))"
  by (induction xs) auto

lemma put_length_nonempty: "1 \<le> length (put_length n)"
  by (simp add: put_length_def)

lemma put_raw_string_length: "1 \<le> length (put_raw_string s)" "length s \<le> length (put_raw_string s)"
  using put_length_nonempty [of "length s"] by (simp_all add: put_raw_string_def)

definition add_entry :: "stream \<Rightarrow> stream_id \<times> (bytes \<times> bytes) list \<Rightarrow> stream" where
  "add_entry s e = s\<lparr>s_entries := s_entries s @ [e]\<rparr>"

lemma foldl_add_entry: "foldl add_entry s es = s\<lparr>s_entries := s_entries s @ es\<rparr>"
  by (induction es arbitrary: s) (simp_all add: add_entry_def)

lemma reads_stream_nodes:
  assumes "stream_wf s" and "stream_fits s" and "those (map write_node (s_entries s)) = Some nodes"
    and "length (concat nodes) < 2 ^ 64"
  shows "reads (rd_times (length (s_entries s)) read_stream_node stream_default) (concat nodes)
    (stream_default\<lparr>s_entries := s_entries s\<rparr>)"
proof -
  let ?es = "s_entries s" and ?enc = "the \<circ> write_node"
  have nodes: "nodes = map ?enc ?es" "\<forall>e\<in>set ?es. write_node e = Some (?enc e)"
    using those_map [OF assms(3)] by simp_all
  have "reads (read_stream_node (foldl add_entry stream_default (take k ?es))) (?enc (?es ! k))
      (add_entry (foldl add_entry stream_default (take k ?es)) (?es ! k))" if k: "k < length ?es" for k
  proof -
    obtain i fvs where e: "?es ! k = (i, fvs)" by fastforce
    have mem: "(i, fvs) \<in> set ?es" using nth_mem [OF k] e by simp
    have "sorted_wrt (<) (map fst (take k ?es @ drop k ?es))" using assms(1) by (simp add: stream_wf_def)
    moreover have "drop k ?es = (i, fvs) # drop (Suc k) ?es" using Cons_nth_drop_Suc [OF k] e by simp
    ultimately have lt: "\<forall>j\<in>fst ` set (take k ?es). j < i" by (simp add: sorted_wrt_append)
    obtain b where b: "write_node (i, fvs) = Some b" using nodes(2) mem by blast
    have lb: "length b < 2 ^ 64"
      using length_concat_part [OF mem, of ?enc] assms(4) nodes(1) b by simp
    have fits: "length fvs < 2 ^ 32" "\<forall>(f, v)\<in>set fvs. length f < 2 ^ 32 \<and> length v < 2 ^ 32"
      using assms(2) mem by (auto simp: stream_fits_def)
    let ?s = "foldl add_entry stream_default (take k ?es)"
    have "s_entries ?s = take k ?es" by (simp add: foldl_add_entry stream_default_def)
    then have "\<forall>j\<in>fst ` set (s_entries ?s). j < i" using lt by (simp only:)
    from reads_stream_node [OF fits this b lb] show ?thesis by (simp only: e add_entry_def [of ?s] comp_apply b option.sel)
  qed
  then have "reads (rd_times (length ?es) read_stream_node stream_default) (concat (map ?enc ?es))
      (foldl add_entry stream_default ?es)"
    by (rule reads_times)
  then show ?thesis by (simp add: foldl_add_entry nodes(1) stream_default_def)
qed

lemma reads_stream:
  assumes "stream_wf s" and "stream_fits s" and "stream_write s = Some e"
  shows "reads (stream_read 19 stats) e (StreamV s, stats)"
proof (rule reads_sized)
  assume l: "length e < 2 ^ 64"
  let ?es = "s_entries s"
  define first where "first = (case ?es of [] \<Rightarrow> sid_min | (i, _) # _ \<Rightarrow> i)"
  obtain nodes where nodes: "those (map write_node ?es) = Some nodes"
    and e: "e = put_length (length ?es) @ concat nodes @ put_length (unat (of_nat (length ?es) :: u64)) @ put_stream_id (s_last_id s) @
      (put_stream_id first @ put_stream_id (s_max_deleted_id s) @ put_length (unat (of_nat (length ?es) :: u64))) @ put_length 0 @ []"
    and n: "length ?es < 2 ^ 64"
  proof -
    obtain nodes where nodes: "those (map write_node ?es) = Some nodes"
      using assms(3) by (auto simp: stream_write_def)
    have "1 \<le> length ((the \<circ> write_node) x)" if "x \<in> set ?es" for x
      using those_map [OF nodes] that put_raw_string_length(1) [of "stream_id_key (fst x)"]
      by (cases x) (auto simp: write_node_def)
    then have "length ?es \<le> length (concat nodes)" using length_concat_ge [of ?es "the \<circ> write_node"] those_map [OF nodes] by simp
    also have "\<dots> \<le> length e" using assms(3) nodes by (auto simp: stream_write_def)
    finally have n: "length ?es < 2 ^ 64" using l by simp
    then have "unat (of_nat (length ?es) :: u64) = length ?es" by (simp add: unat_of_nat)
    then show ?thesis using that nodes n assms(3) by (auto simp: stream_write_def first_def)
  qed
  have c: "length (concat nodes) < 2 ^ 64" using l e by simp
  have s: "\<lparr>s_entries = ?es, s_last_id = s_last_id s, s_max_deleted_id = s_max_deleted_id s\<rparr> = s" by (cases s) simp
  show "reads (stream_read 19 stats) e (StreamV s, stats)"
    unfolding stream_read_def e
    apply (intro reads_bind [OF reads_count [OF n]] reads_bind [OF reads_stream_nodes [OF assms(1,2) nodes c]]
        reads_bind [OF reads_count_u64] reads_bind [OF reads_stream_id])
    apply (rule reads_bind [where x = "s_max_deleted_id s"])
     apply (simp, intro reads_bind [OF reads_stream_id] reads_last [OF reads_count_u64])
    apply (rule reads_bind [OF reads_count])
     apply simp
    apply simp
    apply (rule reads_bind0 [OF reads_ret])
    apply (simp add: reads_ret stream_default_def s)
    done
qed

subsection \<open>The other types\<close>

text \<open>A value and the value read back: a sorted set comes back with its members in score order.\<close>

definition zset_reload :: "zset \<Rightarrow> zset" where
  "zset_reload z = foldl (\<lambda>z (m, s). fst (zset_insert m s z)) zset_new (zset_iter_asc z)"

fun val_reload :: "val \<Rightarrow> val" where
  "val_reload (ZSetV z) = ZSetV (zset_reload z)"
| "val_reload v = v"

lemma update_new: "k \<notin> fst ` set al \<Longrightarrow> AList.update k v al = al @ [(k, v)]"
  by (induction al) auto

lemma insort_insert_last: "sorted xs \<Longrightarrow> \<forall>y\<in>set xs. y < x \<Longrightarrow> insort_insert x xs = xs @ [x]"
proof -
  assume "sorted xs" and lt: "\<forall>y\<in>set xs. y < x"
  have "insort x xs = xs @ [x]" using lt by (induction xs) (auto simp: not_le)
  then show ?thesis using lt by (auto simp: insort_insert_key_def)
qed

lemma zset_members_distinct: "zset_wf z \<Longrightarrow> distinct (map snd (z_sorted z))"
  by (auto simp: distinct_map inj_on_def zset_wf_parts zset_in_sorted)

lemma zset_reload_prefix:
  assumes "zset_wf z" and "k \<le> length (z_sorted z)"
  shows "foldl (\<lambda>z (m, s). fst (zset_insert m s z)) zset_new (take k (zset_iter_asc z)) =
    \<lparr>z_scores = take k (zset_iter_asc z), z_sorted = take k (z_sorted z)\<rparr>"
  using assms(2)
proof (induction k)
  case 0
  then show ?case by (simp add: zset_new_def)
next
  case (Suc k)
  let ?asc = "zset_iter_asc z" and ?so = "z_sorted z"
  obtain s m where sm: "?so ! k = (s, m)" by fastforce
  have k: "k < length ?so" "k < length ?asc" using Suc.prems by (simp_all add: zset_iter_asc_def)
  have asc: "?asc ! k = (m, s)" using k sm by (simp add: zset_iter_asc_def)
  have t: "take (Suc k) ?asc = take k ?asc @ [(m, s)]" "take (Suc k) ?so = take k ?so @ [(s, m)]"
    using k asc sm by (simp_all add: take_Suc_conv_app_nth)
  have dist: "distinct (map snd ?so)" and so: "sorted ?so" "distinct ?so"
    using assms(1) by (simp_all add: zset_members_distinct zset_wf_parts)
  have "distinct (map snd (take (Suc k) ?so))" using dist by (simp only: take_map [symmetric] distinct_take)
  then have m: "m \<notin> snd ` set (take k ?so)" unfolding t(2) by simp
  then have "m \<notin> fst ` set (take k ?asc)" unfolding zset_iter_asc_def take_map by force
  then have new: "map_of (take k ?asc) m = None" "AList.update m s (take k ?asc) = take k ?asc @ [(m, s)]"
    by (simp_all add: map_of_eq_None_iff update_new)
  have "sorted (take (Suc k) ?so)" "distinct (take (Suc k) ?so)" using so by (simp_all add: sorted_wrt_take)
  then have "\<forall>y\<in>set (take k ?so). y < (s, m)" "sorted (take k ?so)"
    unfolding t(2) by (auto simp: sorted_append less_le)
  then have "insort_insert (s, m) (take k ?so) = take k ?so @ [(s, m)]" by (intro insort_insert_last)
  then show ?case unfolding t using Suc.IH k new by (simp add: zset_insert_def)
qed

lemma zset_reload_eq:
  assumes "zset_wf z"
  shows "zset_reload z = \<lparr>z_scores = zset_iter_asc z, z_sorted = z_sorted z\<rparr>"
  using zset_reload_prefix [OF assms, of "length (z_sorted z)"] by (simp add: zset_reload_def zset_iter_asc_def)

lemma zset_reload_same:
  assumes "zset_wf z"
  shows "z_sorted (zset_reload z) = z_sorted z" and "zset_score (zset_reload z) = zset_score z"
    and "zset_wf (zset_reload z)" and "zset_len (zset_reload z) = zset_len z"
proof -
  let ?asc = "zset_iter_asc z"
  have d: "distinct (map fst ?asc)" using zset_members_distinct [OF assms]
    by (simp add: zset_iter_asc_def case_prod_unfold comp_def)
  have m: "map_of ?asc k = map_of (z_scores z) k" for k
  proof -
    have "map_of ?asc k = Some s \<longleftrightarrow> map_of (z_scores z) k = Some s" for s
      using d zset_in_sorted [OF assms, of s k] by (force simp: zset_iter_asc_def map_of_eq_Some_iff)
    then show ?thesis by (metis option.exhaust)
  qed
  show "z_sorted (zset_reload z) = z_sorted z" "zset_score (zset_reload z) = zset_score z"
    using m by (simp_all add: zset_reload_eq [OF assms] zset_score_def fun_eq_iff)
  show wf: "zset_wf (zset_reload z)"
    by (rule zset_wfI) (use d m assms in \<open>simp_all add: zset_reload_eq zset_wf_parts zset_in_sorted\<close>)
  have "fst ` set ?asc = fst ` set (z_scores z)"
    using arg_cong [of "map_of ?asc" "map_of (z_scores z)" dom] m by (simp add: dom_map_of_conv_image_fst fun_eq_iff)
  then have "length (map fst ?asc) = length (map fst (z_scores z))"
    using d zset_wf_parts(1) [OF assms] by (metis distinct_card set_map)
  then show "zset_len (zset_reload z) = zset_len z" by (simp add: zset_reload_eq [OF assms] zset_len_def)
qed

text \<open>A sequence of equal records, read into a container that grows at its end.\<close>

lemma reads_container:
  assumes n: "n = length xs" and enc: "concat (map enc xs) = e" "\<And>x. x \<in> set xs \<Longrightarrow> 1 \<le> length (enc x)"
    and body: "\<And>i. i < length xs \<Longrightarrow> length (enc (xs ! i)) < 2 ^ 64 \<Longrightarrow>
      reads (f (foldl g s (take i xs))) (enc (xs ! i)) (g (foldl g s (take i xs)) (xs ! i))"
  shows "reads (rd_bind rd_count (\<lambda>n. rd_bind (rd_times n f s) (\<lambda>c. rd_ret (h c)))) (put_length n @ e) (h (foldl g s xs))"
proof (rule reads_sized)
  assume l: "length (put_length n @ e) < 2 ^ 64"
  then have e: "length (concat (map enc xs)) < 2 ^ 64" by (simp add: enc(1))
  have "length xs \<le> length (concat (map enc xs))" by (rule length_concat_ge) (rule enc(2))
  then have n64: "n < 2 ^ 64" using e n by simp
  have "reads (rd_times n f s) e (foldl g s xs)"
    unfolding n enc(1) [symmetric]
  proof (rule reads_times)
    fix i
    assume i: "i < length xs"
    then have "length (enc (xs ! i)) \<le> length (concat (map enc xs))" by (intro length_concat_part nth_mem)
    then show "reads (f (foldl g s (take i xs))) (enc (xs ! i)) (g (foldl g s (take i xs)) (xs ! i))"
      using body [OF i] e by simp
  qed
  then show "reads (rd_bind rd_count (\<lambda>n. rd_bind (rd_times n f s) (\<lambda>c. rd_ret (h c)))) (put_length n @ e) (h (foldl g s xs))"
    by (intro reads_bind [OF reads_count [OF n64]] reads_last)
qed

lemma foldl_snoc: "foldl (\<lambda>l x. l @ [x]) a xs = a @ xs"
  by (induction xs arbitrary: a) simp_all

lemma foldl_hs_insert: "distinct (a @ xs) \<Longrightarrow> foldl (\<lambda>st m. fst (hs_insert m st)) a xs = a @ xs"
  by (induction xs arbitrary: a) (simp_all add: hs_insert_def)

lemma foldl_hm_insert: "distinct (map fst (a @ xs)) \<Longrightarrow> foldl (\<lambda>h kv. fst (hm_insert kv h)) a xs = a @ xs"
proof (induction xs arbitrary: a)
  case (Cons x xs)
  then show ?case by (cases x) (simp add: hm_insert_def update_new)
qed simp

lemma reads_string': "reads rd_string (put_raw_string s) s"
proof (rule reads_sized)
  assume "length (put_raw_string s) < 2 ^ 64"
  then show "reads rd_string (put_raw_string s) s"
    by (intro reads_string le_less_trans [OF put_raw_string_length(2) [of s]])
qed

lemma reads_string_list:
  "reads (rd_bind rd_count (\<lambda>n. rd_bind (rd_times n (\<lambda>l. rd_bind rd_string (\<lambda>s. rd_ret (g l s))) []) (\<lambda>l. rd_ret (h l))))
    (put_length (length xs) @ concat (map put_raw_string xs)) (h (foldl g [] xs))"
  by (rule reads_container [where enc = put_raw_string])
    (simp_all only: put_raw_string_length reads_last [OF reads_string'])

lemma reads_pairs:
  assumes "\<And>x. reads q (enc x) x"
  shows "reads (rd_bind rd_count (\<lambda>n. rd_bind (rd_times n (\<lambda>c. rd_bind rd_string (\<lambda>m. rd_bind q (\<lambda>x. rd_ret (g c (m, x))))) s)
      (\<lambda>c. rd_ret (h c))))
    (put_length (length xs) @ concat (map (\<lambda>(m, x). put_raw_string m @ enc x) xs)) (h (foldl g s xs))"
proof (rule reads_container [where enc = "\<lambda>(m, x). put_raw_string m @ enc x"])
  show "1 \<le> length (case x of (m, y) \<Rightarrow> put_raw_string m @ enc y)" if "x \<in> set xs" for x
    using put_raw_string_length(1) by (simp add: case_prod_unfold trans_le_add1)
  fix i
  obtain m y where x: "xs ! i = (m, y)" by fastforce
  show "reads (rd_bind rd_string (\<lambda>m. rd_bind q (\<lambda>x. rd_ret (g (foldl g s (take i xs)) (m, x)))))
      (case xs ! i of (m, y) \<Rightarrow> put_raw_string m @ enc y) (g (foldl g s (take i xs)) (xs ! i))"
    unfolding x prod.case by (rule reads_bind [OF reads_string' reads_last [OF assms]])
qed simp_all

lemma reads_plain: "reads p e x \<Longrightarrow> reads (rd_bind p (\<lambda>v. rd_ret (v, stats))) e (x, stats)"
  using reads_last [of p e x "\<lambda>v. (v, stats)"] by simp

lemma reads_put_value:
  assumes "put_value key v = Some e" and "val_shape v" and "val_fits v"
  obtains code rest where "e = of_nat code # put_raw_string key @ rest" and "code < 20"
    and "reads (read_value code stats) rest (val_reload v, stats)"
proof (cases v)
  case (StringV s)
  have r: "reads (read_value 0 stats) (put_raw_string s) (val_reload v, stats)"
    unfolding read_value_def Let_def using StringV by (simp add: reads_plain reads_last reads_string')
  show ?thesis by (rule that [OF _ _ r]) (use assms(1) StringV in \<open>simp_all add: put_value_def\<close>)
next
  case (ListV l)
  have r: "reads (read_value 1 stats) (put_length (length l) @ concat (map put_raw_string l)) (val_reload v, stats)"
    unfolding read_value_def Let_def using ListV reads_string_list [of "\<lambda>l x. l @ [x]" ListV l]
    by (simp add: reads_plain foldl_snoc)
  show ?thesis by (rule that [OF _ _ r]) (use assms(1) ListV in \<open>simp_all add: put_value_def\<close>)
next
  case (SetV st)
  have r: "reads (read_value 2 stats) (put_length (length st) @ concat (map put_raw_string st)) (val_reload v, stats)"
    unfolding read_value_def Let_def using SetV assms(2) reads_string_list [of "\<lambda>st m. fst (hs_insert m st)" SetV st]
    by (simp add: reads_plain foldl_hs_insert)
  show ?thesis by (rule that [OF _ _ r]) (use assms(1) SetV in \<open>simp_all add: put_value_def\<close>)
next
  case (HashV h)
  have r: "reads (read_value 4 stats) (put_length (length h) @ concat (map (\<lambda>(f, w). put_raw_string f @ put_raw_string w) h))
      (val_reload v, stats)"
    unfolding read_value_def Let_def using HashV assms(2)
      reads_pairs [OF reads_string', of "\<lambda>h kv. fst (hm_insert kv h)" "[]" HashV h]
    by (simp add: reads_plain foldl_hm_insert)
  show ?thesis by (rule that [OF _ _ r]) (use assms(1) HashV in \<open>simp_all add: put_value_def\<close>)
next
  case (ZSetV z)
  have n: "zset_len z = length (zset_iter_asc z)"
    using assms(2) ZSetV zset_reload_same(4) [of z] zset_reload_eq [of z] by (simp add: zset_len_def)
  have r: "reads (read_value 5 stats) (put_length (zset_len z) @
      concat (map (\<lambda>(m, s). put_raw_string m @ le_bytes 8 (unat (f64_bits s))) (zset_iter_asc z))) (val_reload v, stats)"
    unfolding read_value_def Let_def n using ZSetV
      reads_pairs [OF reads_binary_double, of "\<lambda>z (m, s). fst (zset_insert m s z)" zset_new ZSetV "zset_iter_asc z"]
    by (simp add: reads_plain zset_reload_def)
  show ?thesis by (rule that [OF _ _ r]) (use assms(1) ZSetV in \<open>simp_all add: put_value_def\<close>)
next
  case (StreamV s)
  then obtain b where b: "stream_write s = Some b" using assms(1) by (auto simp: put_value_def)
  have r: "reads (read_value 19 stats) b (val_reload v, stats)"
    unfolding read_value_def Let_def using reads_stream [OF _ _ b] assms(2,3) StreamV by simp
  show ?thesis by (rule that [OF _ _ r]) (use assms(1) StreamV b in \<open>simp_all add: put_value_def\<close>)
qed

end
