(* ===== verification/Rdb.thy ===== *)
theory Rdb
  imports Rdb_Value Sha1
begin

text \<open>
  The snapshot file: \<open>to_bytes\<close> of src/rdb/write.rs, \<open>from_bytes\<close> of src/rdb/read.rs with every opcode, and
  the statistics of src/rdb/mod.rs. The clock is read once per snapshot. \<open>loads now st e st'\<close> says that the
  loop, standing before the bytes \<open>e\<close> anywhere in an image, goes from \<open>st\<close> to \<open>st'\<close> and stops behind them;
  the round trip is composed of such steps.
\<close>

section \<open>Writing a snapshot\<close>

definition rdb_version :: nat where
  "rdb_version = 11"

definition put_aux :: "bytes \<Rightarrow> bytes \<Rightarrow> bytes" where
  "put_aux key v = 0xfa # put_raw_string key @ put_raw_string v"

text \<open>\<open>REDIS\<close> and the version, padded to four digits.\<close>

definition rdb_magic :: bytes where
  "rdb_magic = ascii ''REDIS'' @ replicate (4 - length (dec_nat rdb_version)) 48 @ dec_nat rdb_version"

definition put_key :: "bytes \<times> val \<times> u64 option \<Rightarrow> bytes option" where
  "put_key = (\<lambda>(key, v, expire_at).
     map_option ((@) (case expire_at of Some at \<Rightarrow> 0xfc # le_bytes 8 (unat at) | None \<Rightarrow> [])) (put_value key v))"

definition put_db :: "u64 \<Rightarrow> nat \<times> db \<Rightarrow> bytes option" where
  "put_db now = (\<lambda>(index, db).
     if db_len now db = 0 then Some []
     else map_option (\<lambda>ks. 0xfe # put_length index @ 0xfb # put_length (db_len now db) @
            put_length (db_expires_count now db) @ concat ks)
          (those (map put_key (db_iter_live now db))))"

text \<open>The version of the package is the parameter \<open>ver\<close>; \<open>None\<close> is a panic.\<close>

definition to_bytes :: "bytes \<Rightarrow> u64 \<Rightarrow> keyspace \<Rightarrow> bytes option" where
  "to_bytes ver now ks =
     map_option (\<lambda>dbs.
         let out = rdb_magic @ put_aux (ascii ''redis-ver'') (ascii ''7.4.0'') @
               put_aux (ascii ''redis-bits'') (ascii ''64'') @ put_aux (ascii ''meebis-ver'') ver @
               concat dbs @ [0xff]
         in out @ le_bytes 8 (unat (crc_checksum out)))
       (those (map (put_db now) (enumerate 0 ks)))"

section \<open>Reading a snapshot\<close>

record load_state =
  ld_ks :: keyspace
  ld_stats :: load_stats
  ld_db_index :: nat
  ld_pending :: "u64 option"

text \<open>
  One pass of the loop; \<open>None\<close> is the end of the file. \<open>ld_db_index\<close> has been checked when it was
  set, and database 0 always exists. A load that fails keeps the keys it has already stored.
\<close>

definition load_select :: "load_state \<Rightarrow> load_state rd" where
  "load_select st = rd_bind rd_count (\<lambda>n.
     if \<not> ks_is_valid (i64 (int n)) (ld_ks st) then
       rd_throw (Unsupported (ascii ''dump selects database '' @ dec_nat n @ ascii '' but this server has only '' @
         dec_nat (length (ld_ks st)) @ ascii '' (restart meebis with --databases '' @
         dec_nat ((n + 1) mod 2 ^ 64) @ ascii '')''))
     else rd_ret (st\<lparr>ld_db_index := n, ld_pending := None\<rparr>))"

definition load_key :: "u64 \<Rightarrow> nat \<Rightarrow> load_state \<Rightarrow> load_state rd" where
  "load_key now type_code st =
     rd_bind rd_string (\<lambda>key.
     rd_bind (read_value type_code (ld_stats st)) (\<lambda>(v, stats).
       let expire_at = ld_pending st;
           st = st\<lparr>ld_pending := None\<rparr> in
       rd_ret
         (if (case expire_at of Some at \<Rightarrow> at \<le> now | None \<Rightarrow> False) then
            st\<lparr>ld_stats := stats\<lparr>ls_expired := ls_expired stats + 1\<rparr>\<rparr>
          else
            st\<lparr>ld_ks := (ld_ks st)[ld_db_index st := db_put key v expire_at (ld_ks st ! ld_db_index st)],
               ld_stats := stats\<lparr>ls_keys := ls_keys stats + 1\<rparr>\<rparr>)))"

definition load_case :: "u64 \<Rightarrow> load_state \<Rightarrow> nat \<Rightarrow> load_state option rd" where
  "load_case now st op =
      (let next = (\<lambda>p. rd_bind p (\<lambda>st. rd_ret (Some st))) in
       if op = 0xff then rd_ret None
       else if op = 0xfe then next (load_select st)
       else if op = 0xfb then next (rd_bind rd_count (\<lambda>_. rd_bind rd_count (\<lambda>_. rd_ret st)))
       else if op = 0xfa then
         next (rd_bind rd_string (\<lambda>key. rd_bind rd_string (\<lambda>v.
           rd_ret (st\<lparr>ld_stats := (ld_stats st)\<lparr>ls_aux := ls_aux (ld_stats st) @ [(key, v)]\<rparr>\<rparr>))))
       else if op = 0xfc then next (rd_bind rd_u64le (\<lambda>at. rd_ret (st\<lparr>ld_pending := Some (of_nat at)\<rparr>)))
       else if op = 0xfd then next (rd_bind rd_u32le (\<lambda>at. rd_ret (st\<lparr>ld_pending := Some (of_nat at * 1000)\<rparr>)))
       else if op = 0xf8 then next (rd_bind rd_count (\<lambda>_. rd_ret st))
       else if op = 0xf9 then next (rd_bind rd_byte (\<lambda>_. rd_ret st))
       else if op = 0xf5 \<or> op = 0xf6 then
         next (rd_bind rd_string (\<lambda>_.
           rd_ret (st\<lparr>ld_stats := (ld_stats st)\<lparr>ls_dropped_functions := ls_dropped_functions (ld_stats st) + 1\<rparr>\<rparr>)))
       else if op = 0xf4 then
         next (rd_bind rd_count (\<lambda>_. rd_bind rd_count (\<lambda>_. rd_bind rd_count (\<lambda>_. rd_ret st))))
       else if op = 0xf7 then
         rd_throw (Unsupported (ascii ''dump contains module data, which meebis cannot interpret''))
       else next (load_key now op st))"

definition load_op :: "u64 \<Rightarrow> load_state \<Rightarrow> load_state option rd" where
  "load_op now st = rd_bind rd_byte (\<lambda>op. load_case now st (unat op))"

text \<open>Every pass consumes its opcode, so the loop ends.\<close>

lemma load_op_progress:
  assumes "load_op now st buf pos = Inr (x, pos')"
  shows "pos < length buf \<and> pos < pos'"
proof -
  have "rd_forward (load_select st)" "rd_forward (load_key now c st)" for c
    unfolding load_select_def load_key_def Let_def by (intro forward_intros)+
  then have f: "rd_forward (load_case now st op)" for op
    unfolding load_case_def Let_def by (intro forward_intros) assumption+
  have "pos < length buf" "load_case now st (unat (buf ! pos)) buf (pos + 1) = Inr (x, pos')"
    using assms by (auto simp: load_op_def rd_bind_def rd_byte_def split: if_splits)
  then show ?thesis using rd_forwardD [OF f] by fastforce
qed

function load_loop :: "u64 \<Rightarrow> bytes \<Rightarrow> nat \<Rightarrow> load_state \<Rightarrow> (stop + load_stats) \<times> keyspace" where
  "load_loop now buf pos st =
     (case load_op now st buf pos of
        Inl e \<Rightarrow> (Inl e, ld_ks st)
      | Inr (None, _) \<Rightarrow> (Inr (ld_stats st), ld_ks st)
      | Inr (Some st', pos') \<Rightarrow> load_loop now buf pos' st')"
  by pat_completeness auto
termination
  by (relation "measure (\<lambda>(_, buf, pos, _). length buf - pos)") (auto dest!: load_op_progress)

declare load_loop.simps [simp del]

definition max_rdb_version :: nat where
  "max_rdb_version = 11"

text \<open>\<open>str::parse::<u32>\<close>.\<close>

definition parse_u32 :: "bytes \<Rightarrow> nat option" where
  "parse_u32 bs =
     (case bs of
        [] \<Rightarrow> None
      | b # rest \<Rightarrow>
          (case parse_nat (if b = 43 then rest else bs) of
             None \<Rightarrow> None
           | Some n \<Rightarrow> if n < 2 ^ 32 then Some n else None))"

text \<open>The format \<open>{:#018x}\<close>.\<close>

definition hex_u64 :: "u64 \<Rightarrow> bytes" where
  "hex_u64 w = ascii ''0x'' @ map (\<lambda>i. hex_digit (ucast (drop_bit (4 * i) w AND 15))) (rev [0..<16])"

definition verify_checksum :: "bytes \<Rightarrow> nat \<Rightarrow> rdb_error option" where
  "verify_checksum buf version =
     (if version < 5 \<or> length buf < 8 then None
      else
        let split = length buf - 8; stored = of_nat (le_nat (drop split buf)) :: u64 in
        if stored = 0 then None
        else
          let computed = crc_checksum (take split buf) in
          if stored \<noteq> computed then
            Some (Corrupt (ascii ''checksum mismatch: file says '' @ hex_u64 stored @
              ascii '', contents hash to '' @ hex_u64 computed))
          else None)"

definition load_start :: "keyspace \<Rightarrow> load_state" where
  "load_start ks = \<lparr>ld_ks = ks, ld_stats = load_stats_default, ld_db_index = 0, ld_pending = None\<rparr>"

definition from_bytes :: "u64 \<Rightarrow> bytes \<Rightarrow> keyspace \<Rightarrow> (stop + load_stats) \<times> keyspace" where
  "from_bytes now buf ks =
     (if length buf < 9 \<or> take 5 buf \<noteq> ascii ''REDIS'' then
        (Inl (Fail (Corrupt (ascii ''not an RDB file (bad magic)''))), ks)
      else
        let text = take 4 (drop 5 buf) in
        case (if utf8_valid text then parse_u32 text else None) of
          None \<Rightarrow> (Inl (Fail (Corrupt (ascii ''unparseable RDB version''))), ks)
        | Some version \<Rightarrow>
            if max_rdb_version < version then
              (Inl (Fail (Unsupported (ascii ''RDB version '' @ dec_nat version @ ascii '' is newer than the '' @
                 dec_nat max_rdb_version @ ascii '' meebis understands''))), ks)
            else
              case verify_checksum buf version of
                Some e \<Rightarrow> (Inl (Fail e), ks)
              | None \<Rightarrow> load_loop now buf 9 (load_start ks))"

section \<open>What a load reports\<close>

definition find_aux :: "bytes \<Rightarrow> load_stats \<Rightarrow> bytes option" where
  "find_aux name stats = map_option (from_utf8_lossy \<circ> snd) (find (\<lambda>(k, _). k = name) (ls_aux stats))"

definition writer_version :: "load_stats \<Rightarrow> bytes option" where
  "writer_version stats =
     (case find_aux (ascii ''meebis-ver'') stats of
        Some v \<Rightarrow> Some (ascii ''meebis '' @ v)
      | None \<Rightarrow> map_option ((@) (ascii ''Redis '')) (find_aux (ascii ''redis-ver'') stats))"

definition losses :: "load_stats \<Rightarrow> bytes list" where
  "losses stats =
     (if 0 < ls_dropped_groups stats then
        [dec_nat (ls_dropped_groups stats) @ ascii '' consumer group(s) dropped '' @ [0xe2, 0x80, 0x94] @
         ascii '' meebis implements streams without them''] else []) @
     (if 0 < ls_dropped_functions stats then
        [dec_nat (ls_dropped_functions stats) @ ascii '' function library/libraries dropped '' @ [0xe2, 0x80, 0x94] @
         ascii '' meebis has EVAL but not FUNCTION''] else [])"

section \<open>The reader accepts what the writer produces\<close>

definition loads :: "u64 \<Rightarrow> load_state \<Rightarrow> bytes \<Rightarrow> load_state \<Rightarrow> bool" where
  "loads now st e st' \<longleftrightarrow> (\<forall>pre post. length (pre @ e @ post) < 2 ^ 64 \<longrightarrow>
     load_loop now (pre @ e @ post) (length pre) st = load_loop now (pre @ e @ post) (length pre + length e) st')"

lemma loads_Nil: "loads now st [] st"
  by (simp add: loads_def)

lemma loads_append:
  assumes "loads now st e st'" and "loads now st' e' st''"
  shows "loads now st (e @ e') st''"
  unfolding loads_def
proof (intro allI impI)
  fix pre post
  assume l: "length (pre @ (e @ e') @ post) < 2 ^ 64"
  have "load_loop now (pre @ e @ e' @ post) (length pre) st = load_loop now (pre @ e @ e' @ post) (length pre + length e) st'"
    using assms(1) l by (simp add: loads_def)
  also have "\<dots> = load_loop now ((pre @ e) @ e' @ post) (length (pre @ e)) st'" by simp
  also have "\<dots> = load_loop now ((pre @ e) @ e' @ post) (length (pre @ e) + length e') st''"
    using assms(2) l unfolding loads_def by (metis append.assoc)
  finally show "load_loop now (pre @ (e @ e') @ post) (length pre) st =
      load_loop now (pre @ (e @ e') @ post) (length pre + length (e @ e')) st''" by (simp add: add.assoc)
qed

lemma loads_op:
  assumes "op < 256" and "load_case now st op = rd_bind p (\<lambda>st. rd_ret (Some st))" and "reads p e st'"
  shows "loads now st (of_nat op # e) st'"
proof -
  have "reads (load_op now st) ([of_nat op] @ e) (Some st')"
    unfolding load_op_def
    by (rule reads_bind [OF reads_byte]) (simp add: byte_value [OF assms(1)] assms(2) reads_last [OF assms(3)])
  then show ?thesis unfolding loads_def reads_def
    by (auto simp: load_loop.simps [of now _ _ st])
qed

lemma loads_sized: "(length e < 2 ^ 64 \<Longrightarrow> loads now st e st') \<Longrightarrow> loads now st e st'"
  by (auto simp: loads_def)

lemma loads_fold:
  assumes "\<And>i. i < length xs \<Longrightarrow> loads now (foldl g st (take i xs)) (enc (xs ! i)) (g (foldl g st (take i xs)) (xs ! i))"
  shows "loads now st (concat (map enc xs)) (foldl g st xs)"
  using assms
proof (induction xs arbitrary: st)
  case (Cons x xs)
  have "loads now st (enc x) (g st x)" using Cons.prems [of 0] by simp
  moreover have "loads now (g st x) (concat (map enc xs)) (foldl g (g st x) xs)"
    using Cons.prems [of "Suc i" for i] by (intro Cons.IH) fastforce
  ultimately show ?case using loads_append by simp
qed (simp add: loads_Nil)

subsection \<open>One key\<close>

definition note_aux :: "bytes \<times> bytes \<Rightarrow> load_state \<Rightarrow> load_state" where
  "note_aux kv st = st\<lparr>ld_stats := (ld_stats st)\<lparr>ls_aux := ls_aux (ld_stats st) @ [kv]\<rparr>\<rparr>"

lemma loads_aux: "loads now st (put_aux k v) (note_aux (k, v) st)"
proof -
  have "loads now st (of_nat 0xfa # put_raw_string k @ put_raw_string v) (note_aux (k, v) st)"
    by (rule loads_op, simp, simp only: load_case_def Let_def, simp, intro reads_bind [OF reads_string'])
      (simp add: note_aux_def, rule reads_last [OF reads_string'])
  then show ?thesis by (simp add: put_aux_def)
qed

text \<open>What loading a live entry does to the state.\<close>

definition store_key :: "u64 \<Rightarrow> load_state \<Rightarrow> bytes \<times> val \<times> u64 option \<Rightarrow> load_state" where
  "store_key now st = (\<lambda>(key, v, expire_at).
     if stale now expire_at then
       st\<lparr>ld_stats := (ld_stats st)\<lparr>ls_expired := ls_expired (ld_stats st) + 1\<rparr>\<rparr>
     else
       st\<lparr>ld_ks := (ld_ks st)[ld_db_index st := db_put key (val_reload v) expire_at (ld_ks st ! ld_db_index st)],
          ld_stats := (ld_stats st)\<lparr>ls_keys := ls_keys (ld_stats st) + 1\<rparr>\<rparr>)"

lemma load_case_key:
  "code < 20 \<Longrightarrow> load_case now st code = rd_bind (load_key now code st) (\<lambda>st. rd_ret (Some st))"
  by (simp add: load_case_def)

lemma loads_value:
  assumes "put_value key v = Some e" and "val_shape v" and "val_fits v"
  shows "loads now st e ((store_key now (st\<lparr>ld_pending := None\<rparr>) (key, v, ld_pending st)))"
proof -
  obtain code rest where e: "e = of_nat code # put_raw_string key @ rest" and c: "code < 20"
    and r: "reads (read_value code (ld_stats st)) rest (val_reload v, ld_stats st)"
    by (rule reads_put_value [OF assms])
  have "reads (load_key now code st) (put_raw_string key @ rest)
      (store_key now (st\<lparr>ld_pending := None\<rparr>) (key, v, ld_pending st))"
    unfolding load_key_def
    by (rule reads_bind [OF reads_string'], rule reads_bind [OF r, where e' = "[]", simplified])
      (simp add: Let_def store_key_def stale_def reads_ret split: option.split)
  then show ?thesis unfolding e using c load_case_key [OF c] by (intro loads_op) simp_all
qed

lemma loads_key:
  assumes "put_key (key, v, at) = Some e" and "val_shape v" and "val_fits v" and "ld_pending st = None"
  shows "loads now st e (store_key now st (key, v, at))"
proof -
  obtain b where b: "put_value key v = Some b" using assms(1) by (auto simp: put_key_def)
  show ?thesis
  proof (cases "at")
    case None
    have st: "st\<lparr>ld_pending := None\<rparr> = st" using assms(4) by (cases st) simp
    have "e = b" using assms(1) b None by (simp add: put_key_def)
    then show ?thesis using loads_value [OF b assms(2,3), of now st] unfolding st assms(4) None by (simp only:)
  next
    case (Some t)
    have "loads now st (of_nat 0xfc # le_bytes 8 (unat t)) (st\<lparr>ld_pending := Some (of_nat (unat t))\<rparr>)"
      by (rule loads_op, simp, simp only: load_case_def Let_def, simp, rule reads_last [OF reads_u64le])
        (rule unat_u64_less)
    then have t: "loads now st (0xfc # le_bytes 8 (unat t)) (st\<lparr>ld_pending := Some t\<rparr>)" by simp
    have st: "st\<lparr>ld_pending := Some t, ld_pending := None\<rparr> = st" using assms(4) by (cases st) simp
    have v: "loads now (st\<lparr>ld_pending := Some t\<rparr>) b (store_key now st (key, v, Some t))"
      using loads_value [OF b assms(2,3), of now "st\<lparr>ld_pending := Some t\<rparr>"] unfolding st by simp
    have "e = (0xfc # le_bytes 8 (unat t)) @ b" using assms(1) b Some by (simp add: put_key_def)
    then show ?thesis unfolding Some by (simp only: loads_append [OF t v])
  qed
qed

subsection \<open>One database\<close>

definition reload_entry :: "bytes \<times> val \<times> u64 option \<Rightarrow> bytes \<times> entry" where
  "reload_entry = (\<lambda>(key, v, at). (key, \<lparr>e_value = val_reload v, e_expire_at = at\<rparr>))"

definition reload_entries :: "u64 \<Rightarrow> (bytes \<times> val \<times> u64 option) list \<Rightarrow> db" where
  "reload_entries now xs = map reload_entry (filter (\<lambda>(key, v, at). \<not> stale now at) xs)"

definition bump_stats :: "nat \<Rightarrow> nat \<Rightarrow> load_stats \<Rightarrow> load_stats" where
  "bump_stats n m stats = stats\<lparr>ls_keys := ls_keys stats + n, ls_expired := ls_expired stats + m\<rparr>"

definition count_stale :: "u64 \<Rightarrow> (bytes \<times> val \<times> u64 option) list \<Rightarrow> nat" where
  "count_stale now xs = length (filter (\<lambda>(key, v, at). stale now at) xs)"

lemma store_keys:
  assumes "distinct (map fst xs)" and "i < length (ld_ks st)" and "ld_db_index st = i"
    and "fst ` set (ld_ks st ! i) \<inter> fst ` set xs = {}"
  shows "foldl (store_key now) st xs = st\<lparr>ld_ks := (ld_ks st)[i := ld_ks st ! i @ reload_entries now xs],
    ld_stats := bump_stats (length (reload_entries now xs)) (count_stale now xs) (ld_stats st)\<rparr>"
  using assms
proof (induction xs arbitrary: st)
  case Nil
  then show ?case by (simp add: reload_entries_def count_stale_def bump_stats_def)
next
  case (Cons x xs)
  obtain key v "at" where x: "x = (key, v, at)" by (cases x)
  show ?case
  proof (cases "stale now at")
    case True
    let ?st = "st\<lparr>ld_stats := bump_stats 0 1 (ld_stats st)\<rparr>"
    have "store_key now st x = ?st" using True by (simp add: store_key_def x bump_stats_def)
    then show ?thesis using Cons.IH [of ?st] Cons.prems True x
      by (simp add: reload_entries_def count_stale_def bump_stats_def)
  next
    case False
    have u: "db_put key (val_reload v) at (ld_ks st ! i) = ld_ks st ! i @ [reload_entry x]"
      unfolding db_put_def x reload_entry_def prod.case by (rule update_new) (use Cons.prems(4) x in auto)
    let ?st = "st\<lparr>ld_ks := (ld_ks st)[i := ld_ks st ! i @ [reload_entry x]], ld_stats := bump_stats 1 0 (ld_stats st)\<rparr>"
    have "store_key now st x = ?st" using False Cons.prems(3) u by (simp add: store_key_def x bump_stats_def)
    moreover have "fst ` set (ld_ks ?st ! i) \<inter> fst ` set xs = {}"
      using Cons.prems x by (auto simp: reload_entry_def)
    ultimately show ?thesis using Cons.IH [of ?st] Cons.prems False x
      by (simp add: reload_entries_def count_stale_def bump_stats_def)
  qed
qed

definition load_db :: "u64 \<Rightarrow> u64 \<Rightarrow> load_state \<Rightarrow> nat \<times> db \<Rightarrow> load_state" where
  "load_db now' now st = (\<lambda>(i, db).
     if db_len now db = 0 then st
     else foldl (store_key now') (st\<lparr>ld_db_index := i, ld_pending := None\<rparr>) (db_iter_live now db))"

definition db_fits :: "db \<Rightarrow> bool" where
  "db_fits db \<longleftrightarrow> (\<forall>(k, e)\<in>set db. val_fits (e_value e))"

lemma live_keys_ok:
  assumes "db_ok db" and "db_fits db"
  shows "distinct (map fst (db_iter_live now db))"
    and "(key, v, at) \<in> set (db_iter_live now db) \<Longrightarrow> val_shape v \<and> val_fits v"
proof -
  have "map fst (db_iter_live now db) = map fst (filter (\<lambda>(k, e). \<not> expired now e) db)"
    by (simp add: db_iter_live_def case_prod_unfold)
  then show "distinct (map fst (db_iter_live now db))" using assms(1) by (simp add: db_ok_def distinct_map_filter)
  show "(key, v, at) \<in> set (db_iter_live now db) \<Longrightarrow> val_shape v \<and> val_fits v"
    using assms by (auto simp: db_iter_live_def db_ok_def db_fits_def val_ok_def)
qed

lemma store_key_pending [simp]: "ld_pending (store_key now st x) = ld_pending st" "ld_db_index (store_key now st x) = ld_db_index st"
  by (simp_all add: store_key_def split: prod.splits)

lemma foldl_store_pending [simp]: "ld_pending (foldl (store_key now) st xs) = ld_pending st"
  by (induction xs arbitrary: st) simp_all

lemma loads_keys:
  assumes "\<And>key v at. (key, v, at) \<in> set xs \<Longrightarrow> val_shape v \<and> val_fits v"
    and "those (map put_key xs) = Some es" and "ld_pending st = None"
  shows "loads now st (concat es) (foldl (store_key now) st xs)"
proof -
  have es: "es = map (the \<circ> put_key) xs" "\<forall>x\<in>set xs. put_key x = Some ((the \<circ> put_key) x)"
    using those_map [OF assms(2)] by simp_all
  have "loads now (foldl (store_key now) st (take k xs)) ((the \<circ> put_key) (xs ! k)) (store_key now (foldl (store_key now) st (take k xs)) (xs ! k))"
    if "k < length xs" for k
  proof -
    have mem: "xs ! k \<in> set xs" using that by simp
    obtain key v "at" where x: "xs ! k = (key, v, at)" by (cases "xs ! k")
    obtain b where b: "put_key (key, v, at) = Some b" using es(2) mem x by auto
    show ?thesis unfolding x comp_def b option.sel
      by (rule loads_key [OF b]) (use assms(1,3) mem x in auto)
  qed
  then show ?thesis unfolding es(1) by (rule loads_fold)
qed

lemma put_key_nonempty: "put_key x = Some b \<Longrightarrow> 1 \<le> length b"
proof -
  have "put_value k v = Some b \<Longrightarrow> 1 \<le> length b" for k v b by (cases v) (auto simp: put_value_def)
  then show "put_key x = Some b \<Longrightarrow> 1 \<le> length b" by (cases x) (fastforce simp: put_key_def)
qed

lemma loads_db:
  assumes "db_ok db" and "db_fits db" and "put_db now (i, db) = Some e" and "i < length (ld_ks st)"
    and "length (ld_ks st) < 2 ^ 63" and "ld_pending st = None"
  shows "loads now' st e (load_db now' now st (i, db))"
proof (cases "db_len now db = 0")
  case True
  then show ?thesis using assms(3) by (simp add: put_db_def load_db_def loads_Nil)
next
  case False
  let ?xs = "db_iter_live now db" and ?st = "st\<lparr>ld_db_index := i, ld_pending := None\<rparr>"
  obtain es where es: "those (map put_key ?xs) = Some es" using assms(3) False by (auto simp: put_db_def)
  show ?thesis
  proof (rule loads_sized)
    assume l: "length e < 2 ^ 64"
    have e: "e = (of_nat 0xfe # put_length i) @ (of_nat 0xfb # put_length (db_len now db) @ put_length (db_expires_count now db)) @ concat es"
      using assms(3) False es by (simp add: put_db_def)
    have n: "i < 2 ^ 64" "db_len now db < 2 ^ 64" "db_expires_count now db < 2 ^ 64" "i64_ok (int i)"
    proof -
      have "1 \<le> length ((the \<circ> put_key) x)" if "x \<in> set ?xs" for x
        using put_key_nonempty those_map [OF es] that by (metis comp_apply option.sel)
      then have "length ?xs \<le> length (concat es)" using length_concat_ge [of ?xs "the \<circ> put_key"] those_map [OF es] by simp
      then show "db_len now db < 2 ^ 64" using l e by (simp add: db_len_def db_iter_live_def)
      moreover have "db_expires_count now db \<le> db_len now db"
        unfolding db_expires_count_def db_len_def
        by (induction db) (auto simp: expired_def split: option.splits)
      ultimately show "db_expires_count now db < 2 ^ 64" by simp
      show "i < 2 ^ 64" "i64_ok (int i)" using assms(4,5) by (simp_all add: i64_ok_def)
    qed
    have "loads now' st (of_nat 0xfe # put_length i) ?st"
      by (rule loads_op, simp, simp only: load_case_def Let_def, simp, unfold load_select_def,
          rule reads_bind [OF reads_count [OF n(1)], where e' = "[]", simplified])
        (use assms(4) n(4) in \<open>simp add: ks_is_valid_def reads_ret\<close>)
    moreover have "loads now' ?st (of_nat 0xfb # put_length (db_len now db) @ put_length (db_expires_count now db)) ?st"
    proof (rule loads_op)
      show "reads (rd_bind rd_count (\<lambda>_. rd_bind rd_count (\<lambda>_. rd_ret ?st)))
          (put_length (db_len now db) @ put_length (db_expires_count now db)) ?st"
        by (rule reads_bind [OF reads_count [OF n(2)]], rule reads_last [OF reads_count [OF n(3)], where f = "\<lambda>_. ?st"])
    qed (simp_all add: load_case_def)
    moreover have "loads now' ?st (concat es) (load_db now' now st (i, db))"
      using loads_keys [OF live_keys_ok(2) [OF assms(1,2)] es, where st = ?st and now = now'] False by (simp add: load_db_def)
    ultimately show "loads now' st e (load_db now' now st (i, db))" unfolding e by (intro loads_append)
  qed
qed

subsection \<open>The whole file\<close>

lemma db_len_iter: "db_len now db = length (db_iter_live now db)"
  by (simp add: db_len_def db_iter_live_def)

lemma load_db_effect:
  fixes now now' :: u64
  assumes "db_ok db" and "db_fits db" and "i < length (ld_ks st)" and "ld_ks st ! i = []" and "ld_pending st = None"
  defines "xs \<equiv> db_iter_live now db"
  shows "ld_ks (load_db now' now st (i, db)) = (ld_ks st)[i := reload_entries now' xs]"
    and "ld_stats (load_db now' now st (i, db)) = bump_stats (length (reload_entries now' xs)) (count_stale now' xs) (ld_stats st)"
    and "ld_pending (load_db now' now st (i, db)) = None"
proof -
  have k: "foldl (store_key now') (st\<lparr>ld_db_index := i, ld_pending := None\<rparr>) xs = st\<lparr>ld_ks := (ld_ks st)[i := reload_entries now' xs],
      ld_stats := bump_stats (length (reload_entries now' xs)) (count_stale now' xs) (ld_stats st), ld_db_index := i, ld_pending := None\<rparr>"
    using store_keys [of xs i "st\<lparr>ld_db_index := i, ld_pending := None\<rparr>" now'] live_keys_ok(1) [OF assms(1,2), of now] assms(3,4)
    by (simp add: xs_def)
  have e: "xs = [] \<Longrightarrow> (ld_ks st)[i := reload_entries now' xs] = ld_ks st"
    using list_update_id [of "ld_ks st" i] assms(4) by (simp add: reload_entries_def)
  show "ld_ks (load_db now' now st (i, db)) = (ld_ks st)[i := reload_entries now' xs]"
    "ld_stats (load_db now' now st (i, db)) = bump_stats (length (reload_entries now' xs)) (count_stale now' xs) (ld_stats st)"
    "ld_pending (load_db now' now st (i, db)) = None"
    using k e assms(5) unfolding load_db_def prod.case db_len_iter xs_def [symmetric]
    by (auto simp: reload_entries_def count_stale_def bump_stats_def)
qed

lemma load_dbs_effect:
  fixes now now' :: u64
  assumes "\<forall>db\<in>set ks. db_ok db \<and> db_fits db" and "ld_ks st = replicate (length ks) []" and "ld_pending st = None"
    and "k \<le> length ks"
  defines "R \<equiv> \<lambda>db. reload_entries now' (db_iter_live now db)" and "S \<equiv> \<lambda>db. count_stale now' (db_iter_live now db)"
  defines "st' \<equiv> foldl (load_db now' now) st (take k (enumerate 0 ks))"
  shows "ld_ks st' = map R (take k ks) @ replicate (length ks - k) [] \<and> ld_pending st' = None \<and>
    ld_stats st' = bump_stats (sum_list (map (\<lambda>db. length (R db)) (take k ks))) (sum_list (map S (take k ks))) (ld_stats st)"
  using assms(4) unfolding st'_def
proof (induction k)
  case 0
  then show ?case using assms(2,3) by (simp add: bump_stats_def)
next
  case (Suc k)
  let ?st = "foldl (load_db now' now) st (take k (enumerate 0 ks))"
  have IH: "ld_ks ?st = map R (take k ks) @ replicate (length ks - k) []" "ld_pending ?st = None"
    "ld_stats ?st = bump_stats (sum_list (map (\<lambda>db. length (R db)) (take k ks))) (sum_list (map S (take k ks))) (ld_stats st)"
    using Suc by simp_all
  have k: "k < length ks" "length ks - k = Suc (length ks - Suc k)" using Suc.prems by simp_all
  have t: "take (Suc k) (enumerate 0 ks) = take k (enumerate 0 ks) @ [(k, ks ! k)]" "take (Suc k) ks = take k ks @ [ks ! k]"
    using k by (simp_all add: take_Suc_conv_app_nth nth_enumerate_eq)
  have i: "k < length (ld_ks ?st)" "ld_ks ?st ! k = []" using IH(1) k by (simp_all add: nth_append)
  have d: "db_ok (ks ! k)" "db_fits (ks ! k)" using assms(1) k by simp_all
  have "(ld_ks ?st)[k := R (ks ! k)] = map R (take (Suc k) ks) @ replicate (length ks - Suc k) []"
    unfolding IH(1) t(2) k(2) using k by (simp add: list_update_append)
  then show ?case using load_db_effect [OF d i IH(2), of now' now] IH(3)
    by (simp add: t R_def S_def bump_stats_def add.assoc)
qed

lemma rdb_magic_eval: "rdb_magic = [82, 69, 68, 73, 83, 48, 48, 49, 49]"
  by (simp add: rdb_magic_def rdb_version_def ascii_def dec_nat.simps of_char_def numeral_2_eq_2)

lemma version_parses: "utf8_valid [48, 48, 49, 49] \<and> parse_u32 [48, 48, 49, 49] = Some 11"
proof -
  have "is_ascii [48, 48, 49, 49]" by (simp add: is_ascii_def)
  then show ?thesis by (simp add: utf8_valid_ascii parse_u32_def parse_nat_def is_digit_def digit_val_def)
qed

lemma verify_own: "verify_checksum (out @ le_bytes 8 (unat (crc_checksum out))) v = None"
proof -
  have "unat (crc_checksum out) mod 256 ^ 8 = unat (crc_checksum out)"
    using unat_u64_less [of "crc_checksum out"] by (intro mod_less) simp
  then show ?thesis by (simp add: verify_checksum_def Let_def le_nat_le_bytes)
qed

lemma load_loop_eof:
  assumes "pos < length buf" and "buf ! pos = 0xff"
  shows "load_loop now buf pos st = (Inr (ld_stats st), ld_ks st)"
  using assms by (simp add: load_loop.simps [of now buf pos st] load_op_def rd_bind_def rd_byte_def load_case_def rd_ret_def)

definition after_aux :: "bytes \<Rightarrow> load_state \<Rightarrow> load_state" where
  "after_aux ver st =
     note_aux (ascii ''meebis-ver'', ver) (note_aux (ascii ''redis-bits'', ascii ''64'')
       (note_aux (ascii ''redis-ver'', ascii ''7.4.0'') st))"

lemma after_aux_sel [simp]: "ld_ks (after_aux ver st) = ld_ks st" "ld_pending (after_aux ver st) = ld_pending st"
  by (simp_all add: after_aux_def note_aux_def)

lemma from_bytes_image:
  fixes now now' :: u64
  assumes "\<forall>db\<in>set ks. db_ok db \<and> db_fits db" and "to_bytes ver now ks = Some img" and "length img < 2 ^ 64"
    and "ks \<noteq> []" and "length ks < 2 ^ 63"
  defines "start \<equiv> after_aux ver (load_start (ks_new (length ks)))"
  shows "from_bytes now' img (ks_new (length ks)) =
    (Inr (bump_stats (sum_list (map (\<lambda>db. length (reload_entries now' (db_iter_live now db))) ks))
            (sum_list (map (\<lambda>db. count_stale now' (db_iter_live now db)) ks)) (ld_stats start)),
     map (\<lambda>db. reload_entries now' (db_iter_live now db)) ks)"
proof -
  let ?n = "length ks" and ?dbs = "enumerate 0 ks"
  define aux where "aux = put_aux (ascii ''redis-ver'') (ascii ''7.4.0'') @
    put_aux (ascii ''redis-bits'') (ascii ''64'') @ put_aux (ascii ''meebis-ver'') ver"
  define st where "st = foldl (load_db now' now) start ?dbs"
  obtain dbs where dbs: "those (map (put_db now) ?dbs) = Some dbs"
    and img: "img = (rdb_magic @ aux @ concat dbs @ [0xff]) @ le_bytes 8 (unat (crc_checksum (rdb_magic @ aux @ concat dbs @ [0xff])))"
    using assms(2) by (auto simp: to_bytes_def aux_def Let_def)
  have s0: "ld_ks start = replicate ?n []" "ld_pending start = None"
    using assms(4) by (simp_all add: start_def load_start_def ks_new_def max_absorb1 Suc_le_eq)
  have eff: "ld_ks st = map (\<lambda>db. reload_entries now' (db_iter_live now db)) ks"
    "ld_stats st = bump_stats (sum_list (map (\<lambda>db. length (reload_entries now' (db_iter_live now db))) ks))
            (sum_list (map (\<lambda>db. count_stale now' (db_iter_live now db)) ks)) (ld_stats start)"
    using load_dbs_effect [OF assms(1) s0, of ?n now' now] by (simp_all add: st_def)
  have la: "loads now' (load_start (ks_new ?n)) aux start"
    unfolding aux_def start_def after_aux_def by (rule loads_append [OF loads_aux loads_append [OF loads_aux loads_aux]])
  have ld: "loads now' start (concat dbs) st"
  proof -
    have d: "dbs = map (the \<circ> put_db now) ?dbs" "\<forall>x\<in>set ?dbs. put_db now x = Some ((the \<circ> put_db now) x)"
      using those_map [OF dbs] by simp_all
    have "loads now' (foldl (load_db now' now) start (take k ?dbs)) ((the \<circ> put_db now) (?dbs ! k))
        (load_db now' now (foldl (load_db now' now) start (take k ?dbs)) (?dbs ! k))" if k: "k < length ?dbs" for k
    proof -
      have e: "?dbs ! k = (k, ks ! k)" using k by (simp add: nth_enumerate_eq)
      have "(k, ks ! k) \<in> set ?dbs" using nth_mem [OF k] e by simp
      then obtain b where b: "put_db now (k, ks ! k) = Some b" using d(2) by blast
      have f: "ld_ks (foldl (load_db now' now) start (take k ?dbs)) =
          map (\<lambda>db. reload_entries now' (db_iter_live now db)) (take k ks) @ replicate (?n - k) []
        \<and> ld_pending (foldl (load_db now' now) start (take k ?dbs)) = None"
        using load_dbs_effect [OF assms(1) s0, of k now' now] k by simp
      show ?thesis unfolding e comp_def b option.sel
        by (rule loads_db [OF _ _ b]) (use assms(1,5) f k in simp_all)
    qed
    then show ?thesis unfolding d(1) st_def by (rule loads_fold)
  qed
  have nine: "length rdb_magic = 9" by (simp add: rdb_magic_eval)
  have loop: "load_loop now' img 9 (load_start (ks_new ?n)) = (Inr (ld_stats st), ld_ks st)"
  proof -
    let ?post = "[0xff] @ le_bytes 8 (unat (crc_checksum (rdb_magic @ aux @ concat dbs @ [0xff])))"
    have "load_loop now' (rdb_magic @ (aux @ concat dbs) @ ?post) (length rdb_magic) (load_start (ks_new ?n)) =
        load_loop now' (rdb_magic @ (aux @ concat dbs) @ ?post) (length rdb_magic + length (aux @ concat dbs)) st"
      using loads_append [OF la ld] assms(3) img unfolding loads_def by auto
    also have "\<dots> = (Inr (ld_stats st), ld_ks st)"
      by (rule load_loop_eof) (simp_all add: nth_append)
    finally show ?thesis unfolding nine img by simp
  qed
  have h: "take 5 img = ascii ''REDIS''" "take 4 (drop 5 img) = [48, 48, 49, 49]" "\<not> length img < 9"
    by (simp_all add: img rdb_magic_eval ascii_def of_char_def)
  have v: "verify_checksum img 11 = None" unfolding img by (rule verify_own)
  show ?thesis unfolding from_bytes_def using h v loop version_parses by (simp add: Let_def max_rdb_version_def eff)
qed

section \<open>Saving and loading\<close>

text \<open>The values a client cannot tell apart: a sorted set is its members, scores and order.\<close>

fun same_value :: "val \<Rightarrow> val \<Rightarrow> bool" where
  "same_value (ZSetV z) (ZSetV z') \<longleftrightarrow>
     z_sorted z = z_sorted z' \<and> zset_score z = zset_score z' \<and> zset_len z = zset_len z'"
| "same_value v v' \<longleftrightarrow> v = v'"

definition same_contents :: "(bytes \<Rightarrow> (val \<times> u64 option) option) \<Rightarrow> (bytes \<Rightarrow> (val \<times> u64 option) option) \<Rightarrow> bool" where
  "same_contents m m' \<longleftrightarrow> (\<forall>k. rel_option (\<lambda>(v, at) (v', at'). same_value v v' \<and> at = at') (m k) (m' k))"

lemma same_value_reload: "val_shape v \<Longrightarrow> same_value v (val_reload v)"
  by (cases v) (simp_all add: zset_reload_same)

lemma val_ok_reload: "val_ok v \<Longrightarrow> val_ok (val_reload v)"
proof (cases v)
  case (ZSetV z)
  have "zset_is_empty w \<longleftrightarrow> zset_len w = 0" for w by (simp add: zset_is_empty_def zset_len_def)
  then show "val_ok v \<Longrightarrow> val_ok (val_reload v)" using ZSetV by (simp add: zset_reload_same)
qed simp_all

lemma reload_entries_alt:
  assumes "now \<le> now'"
  shows "reload_entries now' (db_iter_live now db) =
    map (\<lambda>(k, e). (k, \<lparr>e_value = val_reload (e_value e), e_expire_at = e_expire_at e\<rparr>)) (db_sweep_expired now' db)"
proof -
  have "expired now e \<Longrightarrow> expired now' e" for e using assms by (auto simp: expired_def split: option.splits)
  then show ?thesis
    by (induction db) (auto simp: reload_entries_def db_iter_live_def db_sweep_expired_def reload_entry_def expired_stale)
qed

lemma reload_entries_live:
  assumes "db_ok db" and "now \<le> now'"
  shows "same_contents (live now' db) (live now' (reload_entries now' (db_iter_live now db)))"
    and "db_ok (reload_entries now' (db_iter_live now db))"
proof -
  let ?f = "\<lambda>e. \<lparr>e_value = val_reload (e_value e), e_expire_at = e_expire_at e\<rparr>"
  have f: "expired now' (?f e) = expired now' e" "entry_pair (?f e) = (val_reload (e_value e), e_expire_at e)" for e
    by (simp_all add: expired_def entry_pair_def)
  have ok: "db_ok (db_sweep_expired now' db)" by (rule db_ok_sweep [OF assms(1)])
  have m: "map_of (map (\<lambda>(k, e). (k, ?f e)) d) k = map_option ?f (map_of d k)" for d k
    by (simp add: map_of_map)
  have l: "live now' (map (\<lambda>(k, e). (k, ?f e)) d) k = map_option (\<lambda>(v, at). (val_reload v, at)) (live now' d k)" for d k
    unfolding live_def m by (simp add: f entry_pair_def split: option.split)
  have shape: "val_shape v" if "live now' db k = Some (v, at)" for k v "at"
    using that assms(1) by (auto simp: live_def db_ok_def entry_pair_def val_ok_def dest!: map_of_SomeD split: option.splits if_splits)
  show "same_contents (live now' db) (live now' (reload_entries now' (db_iter_live now db)))"
    unfolding reload_entries_alt [OF assms(2)] same_contents_def l live_sweep [OF assms(1) order_refl]
    by (auto simp: same_value_reload dest: shape split: option.split intro!: option.rel_map(2) [THEN iffD2] option.rel_refl_strong)
  show "db_ok (reload_entries now' (db_iter_live now db))"
    using ok unfolding reload_entries_alt [OF assms(2)] by (auto simp: db_ok_def val_ok_reload comp_def case_prod_unfold)
qed

subsection \<open>Writing never panics on what fits\<close>

lemma those_some: "(\<And>x. x \<in> set xs \<Longrightarrow> f x \<noteq> None) \<Longrightarrow> those (map f xs) \<noteq> None"
proof (induction xs)
  case (Cons x xs)
  then obtain y where "f x = Some y" by fastforce
  then show ?case using Cons by simp
qed simp

lemma put_value_some:
  assumes "val_fits v"
  shows "put_value key v \<noteq> None"
proof (cases v)
  case (StreamV s)
  have "write_node e \<noteq> None" if "e \<in> set (s_entries s)" for e
  proof -
    obtain i fvs where e: "e = (i, fvs)" by fastforce
    then have "list_all element_ok (node_elements fvs)"
      using assms StreamV that by (intro node_elements_ok) (auto simp: stream_fits_def)
    then show ?thesis using lw_many_has [OF _ lw_has_new] e by (auto simp: write_node_def)
  qed
  then have "those (map write_node (s_entries s)) \<noteq> None" by (rule those_some)
  then show ?thesis using StreamV by (simp add: put_value_def stream_write_def)
qed (simp_all add: put_value_def)

lemma to_bytes_some:
  assumes "\<forall>db\<in>set ks. db_fits db"
  shows "to_bytes ver now ks \<noteq> None"
proof -
  have "put_db now (i, db) \<noteq> None" if "db \<in> set ks" for i db
  proof -
    have "put_key (k, v, at) \<noteq> None" if "(k, v, at) \<in> set (db_iter_live now db)" for k v "at"
    proof -
      have "val_fits v" using assms \<open>db \<in> set ks\<close> that by (auto simp: db_iter_live_def db_fits_def)
      then show ?thesis using put_value_some [of v k] by (simp add: put_key_def)
    qed
    then have "those (map put_key (db_iter_live now db)) \<noteq> None" by (intro those_some) auto
    then show ?thesis by (simp add: put_db_def)
  qed
  then have "those (map (put_db now) (enumerate 0 ks)) \<noteq> None"
    by (intro those_some) (auto simp: in_set_enumerate_eq)
  then show ?thesis by (simp add: to_bytes_def)
qed

text \<open>
  C17: a snapshot survives the round trip: a keyspace that fits in memory is written without a panic,
  and reading the image back at any later time, into a fresh server with as many databases,
  succeeds, gives every database the contents that are still alive by then, with their expiry
  times, keeps the invariant of stored values, and reports as many keys as are alive, no losses,
  and meebis as the writer.\<close>

theorem dump_roundtrip:
  assumes "\<forall>db\<in>set ks. db_ok db \<and> db_fits db" and "ks \<noteq> []" and "length ks < 2 ^ 63" and "now \<le> now'"
  shows "\<exists>img. to_bytes ver now ks = Some img \<and> (length img < 2 ^ 64 \<longrightarrow>
    (\<exists>stats ks'. from_bytes now' img (ks_new (length ks)) = (Inr stats, ks') \<and> length ks' = length ks \<and>
       (\<forall>i<length ks. same_contents (live now' (ks ! i)) (live now' (ks' ! i)) \<and> db_ok (ks' ! i)) \<and>
       ls_keys stats = sum_list (map (db_len now') ks) \<and> losses stats = [] \<and>
       writer_version stats = Some (ascii ''meebis '' @ from_utf8_lossy ver)))"
proof -
  obtain img where img: "to_bytes ver now ks = Some img" using to_bytes_some [of ks ver now] assms(1) by auto
  have len: "length (reload_entries now' (db_iter_live now db)) = db_len now' db" for db
    unfolding reload_entries_alt [OF assms(4)] by (simp add: db_len_def db_sweep_expired_def)
  have aux: "ls_aux (ld_stats (after_aux ver (load_start ks0))) = [(ascii ''redis-ver'', ascii ''7.4.0''),
      (ascii ''redis-bits'', ascii ''64''), (ascii ''meebis-ver'', ver)]"
    "ls_keys (ld_stats (after_aux ver (load_start ks0))) = 0" "ls_dropped_groups (ld_stats (after_aux ver (load_start ks0))) = 0"
    "ls_dropped_functions (ld_stats (after_aux ver (load_start ks0))) = 0" for ks0
    by (simp_all add: after_aux_def note_aux_def load_start_def load_stats_default_def)
  have names: "ascii ''redis-ver'' \<noteq> ascii ''meebis-ver''" "ascii ''redis-bits'' \<noteq> ascii ''meebis-ver''"
    by (simp_all add: ascii_def)
  show ?thesis
    using img from_bytes_image [OF assms(1) img _ assms(2,3), of now'] reload_entries_live [OF _ assms(4)] assms(1)
    by (auto simp: bump_stats_def len aux names losses_def writer_version_def find_aux_def)
qed

definition demo_keyspace :: keyspace where
  "demo_keyspace = [[([107], \<lparr>e_value = StringV [118], e_expire_at = Some 9\<rparr>)]]"

lemma demo_keyspace_length: "to_bytes [] 0 demo_keyspace = Some img \<Longrightarrow> length img < 2 ^ 64"
  by (auto simp: demo_keyspace_def to_bytes_def put_db_def db_len_def put_aux_def put_raw_string_def put_length_def
      put_key_def put_value_def db_iter_live_def expired_def Let_def rdb_magic_eval)

theorem dump_roundtrip_witness:
  "\<exists>img stats ks'. to_bytes [] 0 demo_keyspace = Some img \<and> from_bytes 5 img [[]] = (Inr stats, ks') \<and>
     same_contents (live 5 (demo_keyspace ! 0)) (live 5 (ks' ! 0)) \<and> ls_keys stats = 1"
proof -
  have "\<forall>db\<in>set demo_keyspace. db_ok db \<and> db_fits db" "length demo_keyspace = 1" "ks_new 1 = [[]]" "demo_keyspace \<noteq> []"
    "sum_list (map (db_len 5) demo_keyspace) = 1"
    by (simp_all add: demo_keyspace_def db_ok_def db_fits_def ks_new_def db_len_def expired_def)
  then show ?thesis using dump_roundtrip [of demo_keyspace 0 5 "[]"] demo_keyspace_length by auto
qed

subsection \<open>Corruption\<close>

text \<open>
  C19: damage is detected: take any dump the server accepts, of version 5 or newer and with its
  checksum turned on, and overwrite up to eight consecutive bytes behind the header and before the
  checksum with different ones. Loading it is refused as corrupt, and not one key is stored.\<close>

theorem corruption_detected:
  assumes "from_bytes now (a @ b @ c) ks = (Inr stats, ks')"
    and "9 \<le> length a" and "parse_u32 (take 4 (drop 5 a)) = Some v" and "5 \<le> v"
    and "8 \<le> length c" and "of_nat (le_nat (drop (length c - 8) c)) \<noteq> (0 :: u64)"
    and "length b = length b'" and "length b \<le> 8" and "b \<noteq> b'"
  shows "\<exists>m. from_bytes now' (a @ b' @ c) ks'' = (Inl (Fail (Corrupt m)), ks'')"
proof -
  let ?stored = "of_nat (le_nat (drop (length c - 8) c)) :: u64" and ?rest = "take (length c - 8) c"
  have t: "take 5 (a @ x @ c) = take 5 a" "take 4 (drop 5 (a @ x @ c)) = take 4 (drop 5 a)" "\<not> length (a @ x @ c) < 9"
    "\<not> length (a @ x @ c) < 8" for x
    using assms(2) by simp_all
  have magic: "take 5 a = ascii ''REDIS''" and utf: "utf8_valid (take 4 (drop 5 a))" and v: "v \<le> 11"
    and ver: "verify_checksum (a @ b @ c) v = None"
    using assms(1) unfolding from_bytes_def t
    by (auto simp: Let_def assms(3) max_rdb_version_def split: if_splits option.splits)
  have d: "drop (length (a @ x @ c) - 8) (a @ x @ c) = drop (length c - 8) c"
    "take (length (a @ x @ c) - 8) (a @ x @ c) = a @ x @ ?rest" for x
    using assms(5) by simp_all
  have "crc_checksum (a @ b @ ?rest) = ?stored"
    using ver assms(2,4,6) unfolding verify_checksum_def Let_def d by (auto split: if_splits)
  moreover have "crc_checksum (a @ b @ ?rest) \<noteq> crc_checksum (a @ b' @ ?rest)"
    using crc_detects [OF assms(7,8)] assms(9) by blast
  ultimately have ne: "?stored \<noteq> crc_checksum (a @ b' @ ?rest)" by simp
  obtain m where "verify_checksum (a @ b' @ c) v = Some (Corrupt m)"
    unfolding verify_checksum_def Let_def d using assms(4,6) ne t(4) by simp
  then show ?thesis unfolding from_bytes_def t using magic utf v assms(3) by (simp add: Let_def max_rdb_version_def)
qed

lemma tiny_dump:
  "from_bytes now ([82, 69, 68, 73, 83, 48, 48, 49, 49] @ [255] @ le_bytes 8 7104209010442248896) [[]]
     = (Inr load_stats_default, [[]])"
proof -
  let ?d = "[82, 69, 68, 73, 83, 48, 48, 49, 49, 255] :: bytes"
  have c: "crc_checksum ?d = 7104209010442248896" by (simp add: eval_simps)
  have "verify_checksum (?d @ le_bytes 8 7104209010442248896) 11 = None"
    using verify_own [of ?d 11] unfolding c by simp
  moreover have "load_loop now (?d @ le_bytes 8 7104209010442248896) 9 (load_start [[]]) = (Inr load_stats_default, [[]])"
    by (simp add: load_loop_eof load_start_def)
  ultimately show ?thesis using version_parses
    by (simp add: from_bytes_def ascii_def of_char_def Let_def max_rdb_version_def)
qed

theorem corruption_detected_witness:
  "\<exists>m. from_bytes 0 ([82, 69, 68, 73, 83, 48, 48, 49, 49] @ [254] @ le_bytes 8 7104209010442248896) [[]] = (Inl (Fail (Corrupt m)), [[]])"
proof (rule corruption_detected [OF tiny_dump [of 0]])
  show "parse_u32 (take 4 (drop 5 [82, 69, 68, 73, 83, 48, 48, 49, 49])) = Some 11" using version_parses by simp
  have "of_nat (le_nat (le_bytes 8 7104209010442248896)) = (7104209010442248896 :: u64)" by (simp add: le_nat_le_bytes)
  then show "of_nat (le_nat (drop (length (le_bytes 8 7104209010442248896) - 8) (le_bytes 8 7104209010442248896))) \<noteq> (0 :: u64)"
    by simp
qed simp_all

lemma loads_header:
  assumes "loads now st e st'" and "length h = 9" and "length (h @ e @ post) < 2 ^ 64"
  shows "load_loop now (h @ e @ post) 9 st = load_loop now (h @ e @ post) (9 + length e) st'"
  using assms unfolding loads_def by metis

lemma version_one: "utf8_valid [48, 48, 48, 49] \<and> parse_u32 [48, 48, 48, 49] = Some 1"
  using utf8_valid_ascii [of "[48, 48, 48, 49]"]
  by (simp add: is_ascii_def parse_u32_def parse_nat_def is_digit_def digit_val_def)

text \<open>
  a dump can smuggle in what no command creates: a list without elements is loaded as a key that
  exists and holds the empty list, so the invariant of stored values breaks.\<close>

theorem empty_list_loaded:
  "\<exists>stats ks'. from_bytes now [82, 69, 68, 73, 83, 48, 48, 48, 49, 1, 1, 107, 0, 255] [[]] = (Inr stats, ks') \<and>
     live now (ks' ! 0) [107] = Some (ListV [], None) \<and> \<not> db_ok (ks' ! 0)"
proof -
  let ?img = "[82, 69, 68, 73, 83, 48, 48, 48, 49, 1, 1, 107, 0, 255] :: bytes"
  have v: "put_value [107] (ListV []) = Some [1, 1, 107, 0]"
    by (simp add: put_value_def put_raw_string_def put_length_def)
  have "loads now (load_start [[]]) [1, 1, 107, 0] (store_key now (load_start [[]]) ([107], ListV [], None))"
    using loads_value [OF v, of now "load_start [[]]"] by (simp add: load_start_def)
  from loads_header [OF this, of "[82, 69, 68, 73, 83, 48, 48, 48, 49]" "[255]"]
  have "load_loop now ?img 9 (load_start [[]]) = load_loop now ?img 13 (store_key now (load_start [[]]) ([107], ListV [], None))"
    by simp
  also have "\<dots> = (Inr (load_stats_default\<lparr>ls_keys := 1\<rparr>), [[([107], \<lparr>e_value = ListV [], e_expire_at = None\<rparr>)]])"
    by (simp add: load_loop_eof store_key_def load_start_def db_put_def load_stats_default_def)
  finally have "from_bytes now ?img [[]] = (Inr (load_stats_default\<lparr>ls_keys := 1\<rparr>), [[([107], \<lparr>e_value = ListV [], e_expire_at = None\<rparr>)]])"
    using version_one by (simp add: from_bytes_def ascii_def of_char_def Let_def max_rdb_version_def verify_checksum_def)
  then show ?thesis by (simp add: live_def expired_def entry_pair_def db_ok_def)
qed

end
