(* ===== verification/Rdb_File.thy ===== *)
theory Rdb_File
  imports Rdb
begin

text \<open>
  Snapshots on disk: \<open>load\<close>, \<open>save\<close> and \<open>temp_path\<close> of src/rdb/mod.rs, and what src/main.rs does with the
  snapshot and the port file at boot (\<open>load_dump\<close>, \<open>set_aside\<close>, \<open>write_port_file\<close>).
\<close>

section \<open>Files\<close>

text \<open>
  A path that names a file is its parent and its file name; the file system maps paths to contents.
  What the operating system may refuse, and how far a write gets, are the parameter \<open>file_io\<close>.
\<close>

type_synonym path = "bytes \<times> bytes"
type_synonym fs = "path \<Rightarrow> bytes option"

record file_io =
  io_create :: "bytes option"
  io_write :: "(nat \<times> bytes) option"
  io_sync :: "bytes option"
  io_rename :: "bytes option"
  io_remove :: "bytes option"
  io_read :: "bytes option"

definition file_io_ok :: file_io where
  "file_io_ok = \<lparr>io_create = None, io_write = None, io_sync = None, io_rename = None, io_remove = None, io_read = None\<rparr>"

definition with_suffix :: "bytes \<Rightarrow> nat \<Rightarrow> path \<Rightarrow> path" where
  "with_suffix suffix pid = (\<lambda>(dir, name). (dir, name @ suffix @ dec_nat pid))"

definition temp_path :: "nat \<Rightarrow> path \<Rightarrow> path" where
  "temp_path = with_suffix (ascii ''.tmp-'')"

text \<open>
  \<open>save\<close> after the image has been built: the error, if any, and every state the file system goes
  through, the last one at the end. A write may be seen half done.
\<close>

definition save_image :: "file_io \<Rightarrow> nat \<Rightarrow> path \<Rightarrow> bytes \<Rightarrow> fs \<Rightarrow> rdb_error option \<times> fs list" where
  "save_image io pid path img fs =
     (let tmp = temp_path pid path; written = (\<lambda>k. fs(tmp \<mapsto> take k img)) in
      case io_create io of
        Some e \<Rightarrow> (Some (Io e), [fs])
      | None \<Rightarrow>
          (case io_write io of
             Some (n, e) \<Rightarrow> (Some (Io e), fs # map written [0..<n + 1])
           | None \<Rightarrow>
               let states = fs # map written [0..<length img + 1] in
               case io_sync io of
                 Some e \<Rightarrow> (Some (Io e), states)
               | None \<Rightarrow>
                   (case io_rename io of
                      Some e \<Rightarrow>
                        (Some (Io e), states @ [if io_remove io = None then (written (length img))(tmp := None)
                           else written (length img)])
                    | None \<Rightarrow> (None, states @ [(written (length img))(tmp := None, path \<mapsto> img)]))))"

definition save_file :: "file_io \<Rightarrow> nat \<Rightarrow> path \<Rightarrow> bytes \<Rightarrow> u64 \<Rightarrow> keyspace \<Rightarrow> fs \<Rightarrow> (rdb_error option \<times> fs list) option" where
  "save_file io pid path ver now ks fs = map_option (\<lambda>img. save_image io pid path img fs) (to_bytes ver now ks)"

text \<open>A missing or empty file is no error.\<close>

definition load_file :: "file_io \<Rightarrow> u64 \<Rightarrow> path \<Rightarrow> fs \<Rightarrow> keyspace \<Rightarrow> (stop + load_stats option) \<times> keyspace" where
  "load_file io now path fs ks =
     (case fs path of
        None \<Rightarrow> (Inr None, ks)
      | Some buf \<Rightarrow>
          (case io_read io of
             Some e \<Rightarrow> (Inl (Fail (Io e)), ks)
           | None \<Rightarrow>
               if buf = [] then (Inr None, ks)
               else (case from_bytes now buf ks of
                       (Inl e, ks) \<Rightarrow> (Inl e, ks)
                     | (Inr stats, ks) \<Rightarrow> (Inr (Some stats), ks))))"

section \<open>The snapshot at boot\<close>

datatype source = Dump | Seed

text \<open>Lines for stdout and stderr; \<open>shown\<close> prints a path.\<close>

datatype line = Out bytes | Err bytes

definition set_aside :: "file_io \<Rightarrow> nat \<Rightarrow> path \<Rightarrow> fs \<Rightarrow> (bytes + path) \<times> fs" where
  "set_aside io pid path fs =
     (let kept = with_suffix (ascii ''.unreadable-'') pid path in
      case io_rename io of
        Some e \<Rightarrow> (Inl e, fs)
      | None \<Rightarrow> (Inr kept, fs(path := None, kept := fs path)))"

definition dash :: bytes where
  "dash = [32, 0xe2, 0x80, 0x94, 32]"

text \<open>\<open>None\<close> is a panic.\<close>

definition load_dump ::
    "file_io \<Rightarrow> nat \<Rightarrow> u64 \<Rightarrow> (path \<Rightarrow> bytes) \<Rightarrow> path \<Rightarrow> source \<Rightarrow> bool \<Rightarrow> fs \<Rightarrow> keyspace
      \<Rightarrow> ((nat + unit) \<times> line list \<times> fs \<times> keyspace) option" where
  "load_dump io pid now shown path src strict fs ks =
     (case load_file io now path fs ks of
        (Inl Panic, ks) \<Rightarrow> None
      | (Inr None, ks) \<Rightarrow> Some
          (if src = Seed then
             if strict then
               (Inl 1, [Err (ascii ''meebis: no seed at '' @ shown path @ dash @ ascii ''refusing to start'')], fs, ks)
             else (Inr (), [Err (ascii ''meebis: warning: no seed at '' @ shown path @ dash @ ascii ''starting empty'')], fs, ks)
           else (Inr (), [Out (ascii ''meebis: no dump at '' @ shown path @ ascii '' yet'' @ dash @ ascii ''starting empty'')], fs, ks))
      | (Inr (Some stats), ks) \<Rightarrow> Some
          (Inr (),
           Out (ascii ''meebis: loaded '' @ dec_nat (ls_keys stats) @ ascii '' key(s) from '' @ shown path @
             (case writer_version stats of None \<Rightarrow> [] | Some v \<Rightarrow> ascii '' (written by '' @ v @ ascii '')'') @
             (if 0 < ls_expired stats then ascii '', '' @ dec_nat (ls_expired stats) @ ascii '' already expired'' else []))
           # map (\<lambda>l. Err (ascii ''meebis: warning: '' @ l)) (losses stats), fs, ks)
      | (Inl (Fail e), ks) \<Rightarrow> Some
          (let failed = Err (ascii ''meebis: could not load '' @ shown path @ ascii '': '' @ rdb_error_display e) in
           if strict then (Inl 1, [failed], fs, ks)
           else if src = Seed then
             (Inr (), [failed, Err (ascii ''meebis: starting with an empty keyspace; the seed is left as it is'')], fs, ks)
           else
             (case set_aside io pid path fs of
                (Inr kept, fs) \<Rightarrow>
                  (Inr (), [failed, Err (ascii ''meebis: starting with an empty keyspace; the unreadable file is kept at '' @ shown kept)], fs, ks)
              | (Inl err, fs) \<Rightarrow>
                  (Inr (), [failed, Err (ascii ''meebis: starting with an empty keyspace, but could not preserve the unreadable file ('' @
                     err @ ascii '')'' @ dash @ ascii ''it will be overwritten on the next save'')], fs, ks))))"

text \<open>The port file: written beside its final name, then renamed; the temporary file stays behind on an error.\<close>

definition write_port_file :: "file_io \<Rightarrow> path \<Rightarrow> nat \<Rightarrow> fs \<Rightarrow> bytes option \<times> fs list" where
  "write_port_file io path port fs =
     (let tmp = (fst path, snd path @ ascii ''.tmp''); text = dec_nat port @ [10]; written = (\<lambda>k. fs(tmp \<mapsto> take k text)) in
      case io_create io of
        Some e \<Rightarrow> (Some e, [fs])
      | None \<Rightarrow>
          (case io_write io of
             Some (n, e) \<Rightarrow> (Some e, fs # map written [0..<n + 1])
           | None \<Rightarrow>
               let states = fs # map written [0..<length text + 1] in
               case io_rename io of
                 Some e \<Rightarrow> (Some e, states)
               | None \<Rightarrow> (None, states @ [(written (length text))(tmp := None, path \<mapsto> text)])))"

section \<open>What the files are guaranteed\<close>

lemma suffix_ne: "suffix \<noteq> [] \<Longrightarrow> with_suffix suffix pid path \<noteq> path"
  by (cases path) (simp add: with_suffix_def)

lemma temp_path_ne [simp]: "temp_path pid path \<noteq> path" "path \<noteq> temp_path pid path"
  using suffix_ne [of "ascii ''.tmp-''" pid path] by (auto simp: temp_path_def ascii_def)

text \<open>
  C18: a save is atomic. Whatever fails and wherever the process dies, the snapshot's file holds
  either what it held before or the whole new image, never a part, and no file but the temporary one
  beside it is touched. A save that reports success has replaced the snapshot and left no temporary
  file; one that reports an error has left the previous snapshot in place.\<close>

theorem save_atomic:
  assumes "save_image io pid path img fs = (r, states)"
  shows "(\<forall>s\<in>set states. s path \<in> {fs path, Some img} \<and> (\<forall>p. p \<noteq> path \<and> p \<noteq> temp_path pid path \<longrightarrow> s p = fs p)) \<and>
    (if r = None then last states = fs(temp_path pid path := None, path \<mapsto> img)
     else last states path = fs path)"
  using assms
  by (auto simp: save_image_def Let_def last_map simp del: upt_Suc split: option.splits if_splits prod.splits)

theorem save_atomic_witness:
  "case save_image (file_io_ok\<lparr>io_write := Some (1, [])\<rparr>) 7 ([], [100]) [1, 2] (Map.empty(([], [100]) \<mapsto> [9])) of
     (r, states) \<Rightarrow> r = Some (Io []) \<and> last states ([], [100]) = Some [9]"
  using save_atomic [of "file_io_ok\<lparr>io_write := Some (1, [])\<rparr>" 7 "([], [100])" "[1, 2]" "Map.empty(([], [100]) \<mapsto> [9])"]
  by (auto simp: save_image_def file_io_ok_def Let_def)

text \<open>
  what a server saves, the next one starts with: after a save that reported success, loading the
  same path at any later time into a fresh keyspace with as many databases succeeds and gives every
  database the contents still alive by then.\<close>

theorem save_then_load:
  assumes "\<forall>db\<in>set ks. db_ok db \<and> db_fits db" and "ks \<noteq> []" and "length ks < 2 ^ 63" and "now \<le> now'"
    and "save_file io pid path ver now ks fs = Some (None, states)"
    and "\<And>img. to_bytes ver now ks = Some img \<Longrightarrow> length img < 2 ^ 64" and "io_read io' = None"
  shows "\<exists>stats ks'. load_file io' now' path (last states) (ks_new (length ks)) = (Inr (Some stats), ks') \<and>
    length ks' = length ks \<and> (\<forall>i<length ks. same_contents (live now' (ks ! i)) (live now' (ks' ! i)) \<and> db_ok (ks' ! i))"
proof -
  obtain img where img: "to_bytes ver now ks = Some img" and s: "save_image io pid path img fs = (None, states)"
    using assms(5) by (auto simp: save_file_def)
  have "last states path = Some img"
    using s by (auto simp: save_image_def Let_def last_map simp del: upt_Suc split: option.splits if_splits)
  moreover have "img \<noteq> []" using img by (auto simp: to_bytes_def rdb_magic_def Let_def ascii_def)
  ultimately show ?thesis
    using from_bytes_image [OF assms(1) img assms(6) [OF img] assms(2,3), of now'] reload_entries_live [OF _ assms(4)] assms(1,7)
    by (simp add: load_file_def)
qed



lemma empty_image_length: "to_bytes [] 0 [[]] = Some img \<Longrightarrow> length img < 2 ^ 64"
  by (auto simp: to_bytes_def put_db_def db_len_def put_aux_def put_raw_string_def put_length_def Let_def rdb_magic_eval)

theorem save_then_load_witness:
  "\<exists>states. save_file file_io_ok 7 ([], [100]) [] 0 [[]] Map.empty = Some (None, states) \<and>
    (\<exists>stats ks'. load_file file_io_ok 5 ([], [100]) (last states) (ks_new (length [[] :: db])) = (Inr (Some stats), ks') \<and>
      length ks' = length [[] :: db] \<and>
      (\<forall>i<length [[] :: db]. same_contents (live 5 ([[]] ! i)) (live 5 (ks' ! i)) \<and> db_ok (ks' ! i)))"
proof -
  obtain img where img: "to_bytes [] 0 [[]] = Some img" using to_bytes_some [of "[[]]" "[]" 0] by (auto simp: db_fits_def)
  then obtain states where s: "save_file file_io_ok 7 ([], [100]) [] 0 [[]] Map.empty = Some (None, states)"
    by (simp add: save_file_def save_image_def file_io_ok_def Let_def)
  have "\<forall>db\<in>set [[] :: db]. db_ok db \<and> db_fits db" by (simp add: db_ok_def db_fits_def)
  from save_then_load [OF this _ _ _ s, of 5 file_io_ok] empty_image_length s
  show ?thesis by (auto simp: file_io_ok_def)
qed

text \<open>
  a load that fails half way is not an empty start. The dump below is intact; it holds the key
  \<open>k\<close> in database 0 and then selects database 20, which a server of one database refuses. The boot
  announces that it starts with an empty keyspace, and \<open>k\<close> is there.\<close>

theorem failed_load_keeps_keys:
  "\<exists>e fs' ks'. load_dump file_io_ok 7 now snd ([], [100]) Dump False
      (Map.empty(([], [100]) \<mapsto> [82, 69, 68, 73, 83, 48, 48, 48, 49, 0, 1, 107, 1, 118, 254, 20, 255])) [[]] =
    Some (Inr (), [Err e, Err (ascii ''meebis: starting with an empty keyspace; the unreadable file is kept at ''
        @ [100] @ ascii ''.unreadable-'' @ dec_nat 7)], fs', ks') \<and>
    live now (ks' ! 0) [107] = Some (StringV [118], None)"
proof -
  let ?img = "[82, 69, 68, 73, 83, 48, 48, 48, 49, 0, 1, 107, 1, 118, 254, 20, 255] :: bytes"
  let ?st = "store_key now (load_start [[]]) ([107], StringV [118], None)"
  have ks: "ld_ks ?st = [[([107], \<lparr>e_value = StringV [118], e_expire_at = None\<rparr>)]]"
    by (simp add: store_key_def load_start_def db_put_def)
  have v: "put_value [107] (StringV [118]) = Some [0, 1, 107, 1, 118]"
    by (simp add: put_value_def put_raw_string_def put_length_def)
  have "loads now (load_start [[]]) [0, 1, 107, 1, 118] ?st"
    using loads_value [OF v, of now "load_start [[]]"] by (simp add: load_start_def)
  from loads_header [OF this, of "[82, 69, 68, 73, 83, 48, 48, 48, 49]" "[254, 20, 255]"]
  have "load_loop now ?img 9 (load_start [[]]) = load_loop now ?img 14 ?st" by simp
  also have "\<exists>e. load_op now ?st ?img 14 = Inl (Fail e)"
    by (simp add: load_op_def rd_bind_def rd_byte_def load_case_def load_select_def rd_count_def rd_length_def
        rd_ret_def rd_throw_def ks ks_is_valid_def i64_def Let_def drop_bit_eq_div)
  then obtain e where "load_loop now ?img 14 ?st = (Inl (Fail e), ld_ks ?st)"
    by (auto simp: load_loop.simps [of now ?img 14])
  finally have "from_bytes now ?img [[]] = (Inl (Fail e), ld_ks ?st)"
    using version_one by (simp add: from_bytes_def ascii_def of_char_def Let_def max_rdb_version_def verify_checksum_def)
  then show ?thesis unfolding ks
    by (auto simp: load_dump_def load_file_def file_io_ok_def set_aside_def with_suffix_def Let_def live_def expired_def entry_pair_def)
qed

text \<open>
  and a dump of 24 bytes takes the server down at boot: a compressed string that claims to
  expand to \<open>2 ^ 63\<close> bytes makes the decompressor reserve them before it looks at its input, which
  panics.\<close>

theorem crafted_dump_panics:
  "load_dump file_io_ok pid now shown path src strict
     (Map.empty(path \<mapsto> [82, 69, 68, 73, 83, 48, 48, 48, 49, 0, 1, 107, 0xc3, 0, 0x81, 0x80, 0, 0, 0, 0, 0, 0, 0, 255])) [[]] = None"
proof -
  let ?img = "[82, 69, 68, 73, 83, 48, 48, 48, 49, 0, 1, 107, 0xc3, 0, 0x81, 0x80, 0, 0, 0, 0, 0, 0, 0, 255] :: bytes"
  have "load_op now (load_start [[]]) ?img 9 = Inl Panic"
    by (simp add: load_op_def rd_bind_def rd_byte_def load_case_def load_key_def read_value_def rd_string_def rd_count_def
        rd_length_def rd_take_def rd_ret_def rd_panic_def lzf_decompress_def Let_def drop_bit_eq_div be_nat_def)
  then have "from_bytes now ?img [[]] = (Inl Panic, [[]])"
    using version_one by (simp add: from_bytes_def load_loop.simps [of now ?img 9] ascii_def of_char_def Let_def
        max_rdb_version_def verify_checksum_def load_start_def)
  then show ?thesis by (simp add: load_dump_def load_file_def file_io_ok_def)
qed

end
