(* ===== verification/Persist.thy ===== *)
theory Persist
  imports Rdb_File System
begin

text \<open>
  The snapshot codec and the running server together: \<open>DEBUG RELOAD\<close> of src/commands/admin.rs passes the
  keyspace through src/rdb/mod.rs and back. Here the parameter \<open>env_reload\<close> of the server model is
  instantiated by the codec, and the assumption made about it is proved.
\<close>

text \<open>\<open>None\<close> is a panic.\<close>

definition rdb_reload :: "bytes \<Rightarrow> u64 \<Rightarrow> keyspace \<Rightarrow> (bytes + keyspace) option" where
  "rdb_reload ver now ks =
     (case to_bytes ver now ks of
        None \<Rightarrow> None
      | Some img \<Rightarrow>
          (case from_bytes now img (ks_new (length ks)) of
             (Inr _, ks') \<Rightarrow> Some (Inr ks')
           | (Inl (Fail e), _) \<Rightarrow> Some (Inl (rdb_error_display e))
           | (Inl Panic, _) \<Rightarrow> None))"

text \<open>What a 64-bit process can hold and write.\<close>

definition ks_fits :: "bytes \<Rightarrow> u64 \<Rightarrow> keyspace \<Rightarrow> bool" where
  "ks_fits ver now ks \<longleftrightarrow> ks \<noteq> [] \<and> length ks < 2 ^ 63 \<and> (\<forall>db\<in>set ks. db_fits db) \<and>
     (case to_bytes ver now ks of None \<Rightarrow> False | Some img \<Rightarrow> length img < 2 ^ 64)"

lemma rdb_reload_fits:
  assumes "ks_ok ks" and "ks_fits ver now ks"
  shows "\<exists>ks'. rdb_reload ver now ks = Some (Inr ks') \<and> length ks' = length ks \<and> ks_ok ks' \<and>
    (\<forall>i<length ks. same_contents (live now (ks ! i)) (live now (ks' ! i)))"
proof -
  obtain img where img: "to_bytes ver now ks = Some img" "length img < 2 ^ 64"
    using assms(2) by (auto simp: ks_fits_def split: option.splits)
  have ok: "\<forall>db\<in>set ks. db_ok db \<and> db_fits db" "ks \<noteq> []" "length ks < 2 ^ 63"
    using assms by (simp_all add: ks_ok_def ks_fits_def)
  have "reload_entries now (db_iter_live now db) \<in> Collect db_ok" if "db \<in> set ks" for db
    using reload_entries_live(2) [of db now now] ok(1) that by simp
  then show ?thesis
    using from_bytes_image [OF ok(1) img ok(2,3), of now] reload_entries_live(1) [of _ now now] ok(1)
    by (simp add: rdb_reload_def img(1) ks_ok_def)
qed

text \<open>The assumption on \<open>env_reload\<close> under which the invariant of the server was proved holds for this code.\<close>

lemma reload_ok_rdb:
  "reload_ok (e\<lparr>env_reload := \<lambda>ks. if ks_fits ver now ks then the (rdb_reload ver now ks) else Inl err\<rparr>)"
  unfolding reload_ok_def
proof (intro allI impI)
  fix ks ks'
  assume ok: "ks_ok ks"
    and r: "env_reload (e\<lparr>env_reload := \<lambda>ks. if ks_fits ver now ks then the (rdb_reload ver now ks) else Inl err\<rparr>) ks = Inr ks'"
  from r have fits: "ks_fits ver now ks" and ks': "the (rdb_reload ver now ks) = Inr ks'" by (simp_all split: if_splits)
  from rdb_reload_fits [OF ok fits] obtain ks'' where "rdb_reload ver now ks = Some (Inr ks'')"
    and "length ks'' = length ks" and "ks_ok ks''" by blast
  with ks' show "ks_ok ks' \<and> length ks' = length ks" by simp
qed

text \<open>
  C21: \<open>DEBUG RELOAD\<close> replaces the whole keyspace by its own snapshot, read back: the command replies
  \<open>OK\<close>, every database has the same contents and expiry times as before, the invariant holds, and
  nothing else of the server or the connection changes.\<close>

theorem debug_reload_keeps_contents:
  assumes "ks_ok (sh_ks sh)" and "ks_fits ver (env_now e) (sh_ks sh)"
    and "env_reload e (sh_ks sh) = the (rdb_reload ver (env_now e) (sh_ks sh))"
    and "length args = 2" and "upper (args ! 1) = ascii ''RELOAD''"
  shows "\<exists>ks. execute_plain lua e (ascii ''DEBUG'') args sh conn = Done (frame_ok, sh\<lparr>sh_ks := ks\<rparr>, conn) \<and>
    ks_ok ks \<and> length ks = length (sh_ks sh) \<and>
    (\<forall>i<length ks. same_contents (live (env_now e) (sh_ks sh ! i)) (live (env_now e) (ks ! i)))"
proof -
  obtain ks where ks: "rdb_reload ver (env_now e) (sh_ks sh) = Some (Inr ks)" "length ks = length (sh_ks sh)" "ks_ok ks"
    "\<forall>i<length (sh_ks sh). same_contents (live (env_now e) (sh_ks sh ! i)) (live (env_now e) (ks ! i))"
    using rdb_reload_fits [OF assms(1,2)] by auto
  have "debug (env_reload e) (env_now e) (c_db_index conn) args (sh_ks sh) = Some (frame_ok, ks)"
    using assms(3-5) ks(1) by (simp add: debug_def Let_def ascii_def)
  then have "execute_plain lua e (ascii ''DEBUG'') args sh conn = Done (frame_ok, sh\<lparr>sh_ks := ks\<rparr>, conn)"
    by (simp add: execute_plain_def on_keyspace_def ascii_def Let_def)
  then show ?thesis using ks(2-4) by auto
qed

lemma reload_word: "upper (ascii ''reload'') = ascii ''RELOAD''"
  by code_simp

theorem debug_reload_keeps_contents_witness:
  "\<forall>(e :: env) lua conn. \<exists>ks. execute_plain lua (e\<lparr>env_now := 0, env_reload := \<lambda>ks. the (rdb_reload [] 0 ks)\<rparr>) (ascii ''DEBUG'')
      [ascii ''DEBUG'', ascii ''reload''] (demo_shared\<lparr>sh_ks := demo_keyspace\<rparr>) conn =
    Done (frame_ok, demo_shared\<lparr>sh_ks := ks\<rparr>, conn) \<and> live 0 (ks ! 0) [107] \<noteq> None"
proof (intro allI)
  fix e :: env and lua :: lua_impl and conn :: conn_state
  let ?e = "e\<lparr>env_now := 0, env_reload := \<lambda>ks. the (rdb_reload [] 0 ks)\<rparr>"
  let ?sh = "demo_shared\<lparr>sh_ks := demo_keyspace\<rparr>"
  obtain img where "to_bytes [] 0 demo_keyspace = Some img"
    using to_bytes_some [of demo_keyspace "[]" 0] by (auto simp: demo_keyspace_def db_fits_def)
  then have "ks_ok (sh_ks ?sh)" "ks_fits [] (env_now ?e) (sh_ks ?sh)"
    using demo_keyspace_length by (auto simp: ks_ok_def ks_fits_def demo_keyspace_def db_ok_def db_fits_def)
  from debug_reload_keeps_contents [OF this, of "[ascii ''DEBUG'', ascii ''reload'']" lua conn]
  obtain ks where ks: "execute_plain lua ?e (ascii ''DEBUG'') [ascii ''DEBUG'', ascii ''reload''] ?sh conn =
      Done (frame_ok, demo_shared\<lparr>sh_ks := ks\<rparr>, conn)"
    and same: "same_contents (live 0 (demo_keyspace ! 0)) (live 0 (ks ! 0))"
    using reload_word by (auto simp: demo_keyspace_def)
  have "live 0 (demo_keyspace ! 0) [107] \<noteq> None" by (simp add: demo_keyspace_def live_def expired_def)
  then have "live 0 (ks ! 0) [107] \<noteq> None"
    using same by (cases "live 0 (ks ! 0) [107]") (auto simp: same_contents_def dest!: spec [of _ "[107]"])
  then show "\<exists>ks. execute_plain lua ?e (ascii ''DEBUG'') [ascii ''DEBUG'', ascii ''reload''] ?sh conn =
      Done (frame_ok, demo_shared\<lparr>sh_ks := ks\<rparr>, conn) \<and> live 0 (ks ! 0) [107] \<noteq> None"
    using ks by blast
qed

end
