(* ===== verification/Runner.thy ===== *)
theory Runner
  imports Text
begin

text \<open>
  \<open>meebis run\<close> (src/runner.rs): the URL and the environment the command is given, and the supervision of the
  child process. \<open>spawn\<close> and \<open>kill\<close> are system calls; here they are the environment passed and the signals
  sent. The model is of the Unix build.
\<close>

section \<open>What the child is told\<close>

record spec =
  sp_command :: bytes
  sp_args :: "bytes list"
  sp_extra_env :: "bytes list"

datatype endpoint = Tcp bytes nat | Unix bytes

text \<open>
  The banner. \<open>dbg\<close> is \<open>{:?}\<close> of a string; white space is found by the character at each offset, which in
  valid UTF-8 only matches where a character begins.\<close>

definition spec_display :: "(bytes \<Rightarrow> bytes) \<Rightarrow> spec \<Rightarrow> bytes" where
  "spec_display dbg spec =
     (let shown = (\<lambda>part. if part = [] \<or> list_ex (\<lambda>i. 0 < ws_at (drop i part)) [0..<length part] then dbg part else part)
      in concat (map (\<lambda>(i, part). (if 0 < i then [32] else []) @ shown part)
           (enumerate (0 :: nat) (sp_command spec # sp_args spec))))"

definition connect_host :: "bytes \<Rightarrow> bytes" where
  "connect_host bind =
     (if bind = ascii ''0.0.0.0'' then ascii ''127.0.0.1''
      else if bind = ascii ''::'' \<or> bind = ascii ''[::]'' then ascii ''::1'' else bind)"

definition is_unreserved :: "u8 \<Rightarrow> bool" where
  "is_unreserved b \<longleftrightarrow> 65 \<le> b \<and> b \<le> 90 \<or> 97 \<le> b \<and> b \<le> 122 \<or> 48 \<le> b \<and> b \<le> 57 \<or> b \<in> {45, 46, 95, 126}"

definition upper_hex :: "u8 \<Rightarrow> u8" where
  "upper_hex n = (if n < 10 then 48 + n else 55 + n)"

definition percent_byte :: "u8 \<Rightarrow> bytes" where
  "percent_byte b = (if is_unreserved b then [b] else [37, upper_hex (drop_bit 4 b), upper_hex (b AND 0x0F)])"

definition percent_encode :: "bytes \<Rightarrow> bytes" where
  "percent_encode s = concat (map percent_byte s)"

definition endpoint_url :: "endpoint \<Rightarrow> bytes option \<Rightarrow> bytes" where
  "endpoint_url ep password =
     (let auth = (case password of Some pw \<Rightarrow> [58] @ percent_encode pw @ [64] | None \<Rightarrow> []) in
      case ep of
        Tcp host port \<Rightarrow>
          (let host = (if 58 \<in> set host \<and> (host = [] \<or> hd host \<noteq> 91) then [91] @ host @ [93] else host)
           in ascii ''redis://'' @ auth @ host @ [58] @ dec_nat port)
      | Unix path \<Rightarrow> ascii ''unix://'' @ auth @ path)"

text \<open>The environment of the child, from the one it would inherit.\<close>

definition child_env :: "spec \<Rightarrow> endpoint \<Rightarrow> bytes option \<Rightarrow> (bytes \<Rightarrow> bytes option) \<Rightarrow> (bytes \<Rightarrow> bytes option)" where
  "child_env spec ep password env =
     (let url = endpoint_url ep password;
          env = env(ascii ''REDIS_URL'' \<mapsto> url);
          env = (case ep of
                   Tcp host port \<Rightarrow> env(ascii ''REDIS_HOST'' \<mapsto> host, ascii ''REDIS_PORT'' \<mapsto> dec_nat port)
                 | Unix path \<Rightarrow> env(ascii ''REDIS_SOCKET'' \<mapsto> path, ascii ''REDIS_HOST'' := None, ascii ''REDIS_PORT'' := None))
      in fold (\<lambda>name env. env(name \<mapsto> url)) (sp_extra_env spec) env)"

section \<open>Watching the child\<close>

datatype exit_status = Code int | Signalled int | WaitFailed

definition child_code :: "exit_status \<Rightarrow> int" where
  "child_code st = (case st of Code c \<Rightarrow> c | Signalled n \<Rightarrow> 128 + n | WaitFailed \<Rightarrow> 1)"

text \<open>What the \<open>select!\<close> of \<open>supervise\<close> sees, and what it does to the child. \<open>None\<close> means it is still waiting.\<close>

datatype sup_event = Ended exit_status | Interrupt | Terminate
datatype sup_action = Signal int int | Kill

definition stop_child :: "int option \<Rightarrow> int \<Rightarrow> bool \<Rightarrow> sup_action list \<times> bool" where
  "stop_child pid sig escalate =
     (if escalate then ([Kill], True) else (case pid of Some p \<Rightarrow> [Signal p sig] | None \<Rightarrow> [], True))"

fun supervise :: "int option \<Rightarrow> bool \<Rightarrow> sup_event list \<Rightarrow> sup_action list \<times> int option" where
  "supervise pid escalate [] = ([], None)"
| "supervise pid escalate (Ended st # _) = ([], Some (child_code st))"
| "supervise pid escalate (e # es) =
     (let (now, escalate) = stop_child pid (if e = Interrupt then 2 else 15) escalate;
          (acts, r) = supervise pid escalate es
      in (now @ acts, r))"

section \<open>The password survives the URL\<close>

text \<open>A client's side: the part between \<open>://:\<close> and the first \<open>@\<close>, with percent escapes undone, and what follows it.\<close>

definition hex_val :: "u8 \<Rightarrow> u8" where
  "hex_val b = (if b \<le> 57 then b - 48 else b - 55)"

fun percent_decode :: "bytes \<Rightarrow> bytes" where
  "percent_decode (c # a # b # s) =
     (if c = 37 then (push_bit 4 (hex_val a) OR hex_val b) # percent_decode s else c # percent_decode (a # b # s))"
| "percent_decode (c # s) = c # percent_decode s"
| "percent_decode [] = []"

definition url_userinfo :: "bytes \<Rightarrow> (bytes \<times> bytes) option" where
  "url_userinfo rest =
     (if rest \<noteq> [] \<and> hd rest = 58 \<and> 64 \<in> set rest
      then Some (percent_decode (takeWhile (\<lambda>b. b \<noteq> 64) (tl rest)), tl (dropWhile (\<lambda>b. b \<noteq> 64) rest)) else None)"

lemma percent_decode_Cons: "c \<noteq> 37 \<Longrightarrow> percent_decode (c # s) = c # percent_decode s"
  by (cases s rule: percent_decode.cases) simp_all

lemma hex_digits:
  "n < 16 \<Longrightarrow> hex_val (upper_hex n) = n" "n < 16 \<Longrightarrow> is_unreserved (upper_hex n)"
proof -
  have cases: "n < 16 \<Longrightarrow> n \<in> word_of_nat ` {..<16}"
    by (rule image_eqI [of _ _ "unat n"]) (simp_all add: word_less_nat_alt)
  show "n < 16 \<Longrightarrow> hex_val (upper_hex n) = n" by (drule cases) (auto simp: lessThan_nat_numeral lessThan_Suc hex_val_def upper_hex_def)
  show "n < 16 \<Longrightarrow> is_unreserved (upper_hex n)" by (drule cases) (auto simp: lessThan_nat_numeral lessThan_Suc is_unreserved_def upper_hex_def)
qed

lemma nibbles: "drop_bit 4 b < (16 :: u8)" "b AND 0x0F < (16 :: u8)" "push_bit 4 (drop_bit 4 b) OR (b AND 0x0F) = (b :: u8)"
proof -
  show "drop_bit 4 b < (16 :: u8)"
  proof -
    have "unat b < 2 ^ 8" using unsigned_less [of b] by simp
    then show ?thesis by (simp add: word_less_nat_alt drop_bit_eq_div unat_div)
  qed
  show "b AND 0x0F < (16 :: u8)" using word_and_le1 [of b "0x0F"] by (rule le_less_trans) simp
  have "b AND 0x0F = take_bit 4 b" by (simp add: take_bit_eq_mask mask_numeral)
  then show "push_bit 4 (drop_bit 4 b) OR (b AND 0x0F) = b"
    by (auto intro!: bit_word_eqI simp: bit_simps)
qed

lemma percent_byte_decodes: "percent_decode (percent_byte b @ s) = b # percent_decode s"
proof (cases "is_unreserved b")
  case True
  then have "b \<noteq> 37" by (auto simp: is_unreserved_def)
  then show ?thesis using True by (simp add: percent_byte_def percent_decode_Cons)
next
  case False
  then show ?thesis using nibbles hex_digits(1) by (simp add: percent_byte_def)
qed

lemma percent_byte_safe: "c \<in> set (percent_byte b) \<Longrightarrow> is_unreserved c \<or> c = 37"
  using hex_digits(2) nibbles by (auto simp: percent_byte_def split: if_splits)

lemma percent_decode_encode: "percent_decode (percent_encode s) = s"
proof -
  have "percent_decode (percent_encode s @ t) = s @ percent_decode t" for t
    by (induction s) (simp_all add: percent_encode_def percent_byte_decodes)
  from this [of "[]"] show ?thesis by simp
qed

text \<open>
  whatever bytes the password is made of, a client that reads the URL gets back the password and the
  address behind it unchanged: nothing in the encoded password can be taken for the \<open>@\<close> that ends it, or
  for any other delimiter.\<close>

theorem url_password_roundtrip:
  shows "\<exists>scheme. endpoint_url ep (Some pw) = scheme @ ascii ''://'' @ [58] @ percent_encode pw @ [64] @ drop (length scheme + 3) (endpoint_url ep None)
    \<and> url_userinfo (drop (length scheme + 3) (endpoint_url ep (Some pw))) = Some (pw, drop (length scheme + 3) (endpoint_url ep None))
    \<and> list_all (\<lambda>c. is_unreserved c \<or> c = 37) (percent_encode pw)"
proof -
  have safe: "\<forall>c\<in>set (percent_encode pw). is_unreserved c \<or> c = 37"
    using percent_byte_safe by (auto simp: percent_encode_def)
  then have no_at: "64 \<notin> set (percent_encode pw)" by (auto simp: is_unreserved_def)
  then have split: "takeWhile (\<lambda>b. b \<noteq> 64) (percent_encode pw @ 64 # r) = percent_encode pw"
    "dropWhile (\<lambda>b. b \<noteq> 64) (percent_encode pw @ 64 # r) = 64 # r" for r
    by (subst takeWhile_append2 | subst dropWhile_append2 | auto)+
  let ?scheme = "case ep of Tcp _ _ \<Rightarrow> ascii ''redis'' | Unix _ \<Rightarrow> ascii ''unix''"
  show ?thesis
    by (rule exI [of _ ?scheme]) (use safe in \<open>auto simp: list_all_iff endpoint_url_def url_userinfo_def split percent_decode_encode ascii_def
        Let_def split: endpoint.splits\<close>)
qed

text \<open>
  Signals reach the command: the first one is passed on as it came, every further one kills, and
  \<open>meebis run\<close> ends exactly when the command ends, with the command's own code.\<close>

theorem supervise_correct:
  assumes "\<forall>e\<in>set es. e = Interrupt \<or> e = Terminate"
  shows "supervise (Some p) False (es @ Ended st # rest) =
    (case es of [] \<Rightarrow> [] | e # es \<Rightarrow> Signal p (if e = Interrupt then 2 else 15) # replicate (length es) Kill, Some (child_code st))"
proof -
  have kill: "supervise pid True (es @ Ended st # rest) = (replicate (length es) Kill, Some (child_code st))"
    if "\<forall>e\<in>set es. e = Interrupt \<or> e = Terminate" for es pid
    using that
  proof (induction es)
    case (Cons e es)
    then show ?case by (cases e) (auto simp: stop_child_def)
  qed simp
  show ?thesis
  proof (cases es)
    case (Cons e es')
    then have "\<forall>e\<in>set es'. e = Interrupt \<or> e = Terminate" using assms by simp
    from kill [OF this, of "Some p"] show ?thesis using Cons assms by (cases e) (simp_all add: stop_child_def)
  qed simp
qed

theorem supervise_correct_witness:
  "supervise (Some 7) False ([Interrupt, Terminate] @ Ended (Signalled 9) # []) = ([Signal 7 2, Kill], Some 137)"
  using supervise_correct [of "[Interrupt, Terminate]" 7 "Signalled 9" "[]"] by (simp add: child_code_def)

end
