(* ===== verification/Cli.thy ===== *)
theory Cli
  imports Rdb_File Admin Runner
begin

text \<open>
  The command line of src/main.rs: \<open>Config\<close>, the loop of \<open>parse_args\<close> over the options, and the checks after it.
  An argument is a byte string; arguments that are not UTF-8 make \<open>std::env::args\<close> panic before this code
  runs. The text of \<open>--help\<close> and \<open>--version\<close> is not modelled, the messages of errors are.
\<close>

section \<open>The configuration\<close>

record server_config =
  cf_bind :: bytes
  cf_port :: nat
  cf_tcp :: bool
  cf_unixsocket :: "bytes option"
  cf_port_file :: "bytes option"
  cf_requirepass :: "bytes option"
  cf_maxclients :: nat
  cf_databases :: nat
  cf_verbose :: bool
  cf_dumpfile :: "bytes option"
  cf_seed :: "bytes option"
  cf_strict :: bool
  cf_run :: "spec option"

definition default_config :: server_config where
  "default_config =
     \<lparr>cf_bind = ascii ''127.0.0.1'', cf_port = 6379, cf_tcp = True, cf_unixsocket = None, cf_port_file = None,
      cf_requirepass = None, cf_maxclients = 10000, cf_databases = 16, cf_verbose = False, cf_dumpfile = None,
      cf_seed = None, cf_strict = False, cf_run = None\<rparr>"

text \<open>The variables of the loop.\<close>

record cli =
  cl_cfg :: server_config
  cl_dir :: "bytes option"
  cl_dbfilename :: "bytes option"
  cl_port_explicit :: bool
  cl_extra_env :: "bytes list"

definition cli_start :: cli where
  "cli_start = \<lparr>cl_cfg = default_config, cl_dir = None, cl_dbfilename = None, cl_port_explicit = False, cl_extra_env = []\<rparr>"

text \<open>Why the process ends early, and the exit code.\<close>

datatype early_exit = Help | Version | Usage bytes

fun exit_code :: "early_exit \<Rightarrow> nat" where
  "exit_code (Usage _) = 1" | "exit_code _ = 0"

text \<open>\<open>parse::<u16>\<close> and \<open>parse::<usize>\<close>.\<close>

definition parse_below :: "nat \<Rightarrow> bytes \<Rightarrow> nat option" where
  "parse_below bound bs =
     (case bs of
        [] \<Rightarrow> None
      | b # rest \<Rightarrow>
          (case parse_nat (if b = 43 then rest else bs) of
             None \<Rightarrow> None
           | Some n \<Rightarrow> if n < bound then Some n else None))"

section \<open>The options\<close>

text \<open>
  One option, given the argument behind it: the error, or whether that argument was consumed and the
  variables after it. \<open>on_cfg\<close> updates the configuration.
\<close>

definition on_cfg :: "(server_config \<Rightarrow> server_config) \<Rightarrow> cli \<Rightarrow> cli" where
  "on_cfg f st = st\<lparr>cl_cfg := f (cl_cfg st)\<rparr>"

definition with_value :: "'a option \<Rightarrow> string \<Rightarrow> ('a \<Rightarrow> cli) \<Rightarrow> early_exit + bool \<times> cli" where
  "with_value v complaint f =
     (case v of None \<Rightarrow> Inl (Usage (ascii (''meebis: '' @ complaint))) | Some x \<Rightarrow> Inr (True, f x))"

definition is_option :: "bytes \<Rightarrow> string list \<Rightarrow> bool" where
  "is_option arg names \<longleftrightarrow> arg \<in> ascii ` set names"

definition cli_option :: "bool \<Rightarrow> bytes \<Rightarrow> bytes option \<Rightarrow> cli \<Rightarrow> early_exit + bool \<times> cli" where
  "cli_option run_mode arg v st =
     (if is_option arg [''-h'', ''--help''] then Inl Help
      else if is_option arg [''-v'', ''--version''] then Inl Version
      else if is_option arg [''-p'', ''--port''] then
        with_value (Option.bind v (parse_below (2 ^ 16))) ''--port requires a valid port number''
          (\<lambda>p. (on_cfg (\<lambda>c. c\<lparr>cf_port := p\<rparr>) st)\<lparr>cl_port_explicit := True\<rparr>)
      else if is_option arg [''--bind''] then
        with_value v ''--bind requires an address'' (\<lambda>b. on_cfg (\<lambda>c. c\<lparr>cf_bind := b\<rparr>) st)
      else if is_option arg [''--unixsocket''] then
        with_value v ''--unixsocket requires a path'' (\<lambda>p. on_cfg (\<lambda>c. c\<lparr>cf_unixsocket := Some p\<rparr>) st)
      else if is_option arg [''--port-file''] then
        with_value v ''--port-file requires a path'' (\<lambda>p. on_cfg (\<lambda>c. c\<lparr>cf_port_file := Some p\<rparr>) st)
      else if is_option arg [''--requirepass''] then
        with_value v ''--requirepass requires a value'' (\<lambda>p. on_cfg (\<lambda>c. c\<lparr>cf_requirepass := Some p\<rparr>) st)
      else if is_option arg [''--maxclients''] then
        with_value (Option.bind v (parse_below (2 ^ 64))) ''--maxclients requires a number''
          (\<lambda>n. on_cfg (\<lambda>c. c\<lparr>cf_maxclients := n\<rparr>) st)
      else if is_option arg [''--databases''] then
        with_value (case Option.bind v (parse_below (2 ^ 64)) of Some n \<Rightarrow> if 1 \<le> n \<and> n \<le> 16384 then Some n else None | None \<Rightarrow> None)
          ''--databases requires a number between 1 and 16384'' (\<lambda>n. on_cfg (\<lambda>c. c\<lparr>cf_databases := n\<rparr>) st)
      else if is_option arg [''--dumpfile''] then
        with_value v ''--dumpfile requires a path'' (\<lambda>p. on_cfg (\<lambda>c. c\<lparr>cf_dumpfile := Some p\<rparr>) st)
      else if is_option arg [''--seed''] then
        with_value v ''--seed requires a path'' (\<lambda>p. on_cfg (\<lambda>c. c\<lparr>cf_seed := Some p\<rparr>) st)
      else if is_option arg [''--dir''] then with_value v ''--dir requires a directory'' (\<lambda>d. st\<lparr>cl_dir := Some d\<rparr>)
      else if is_option arg [''--dbfilename''] then
        with_value v ''--dbfilename requires a filename'' (\<lambda>n. st\<lparr>cl_dbfilename := Some n\<rparr>)
      else if is_option arg [''--dumpfile-strict''] then Inr (False, on_cfg (\<lambda>c. c\<lparr>cf_strict := True\<rparr>) st)
      else if is_option arg [''--verbose''] then Inr (False, on_cfg (\<lambda>c. c\<lparr>cf_verbose := True\<rparr>) st)
      else if is_option arg [''--loglevel''] then
        (case v of
           Some level \<Rightarrow>
             (case level_is_verbose level of
                Some on \<Rightarrow> Inr (True, on_cfg (\<lambda>c. c\<lparr>cf_verbose := on\<rparr>) st)
              | None \<Rightarrow> Inl (Usage (ascii ''meebis: unknown --loglevel '' @ [39] @ level @ [39] @
                  ascii '' (nothing|warning|notice|verbose|debug)'')))
         | None \<Rightarrow> Inl (Usage (ascii ''meebis: --loglevel requires a level'')))
      else if is_option arg [''--env''] then
        (if run_mode then with_value v ''--env requires a variable name'' (\<lambda>n. st\<lparr>cl_extra_env := cl_extra_env st @ [n]\<rparr>)
         else Inl (Usage (ascii ''meebis: --env is only meaningful with `meebis run`'')))
      else Inl (Usage (ascii ''meebis: unknown option '' @ [39] @ arg @ [39] @ ascii '' (try --help)'')))"

text \<open>The loop; it ends with the arguments or, under \<open>run\<close>, with the command behind \<open>--\<close>.\<close>

function cli_loop :: "bool \<Rightarrow> bytes list \<Rightarrow> cli \<Rightarrow> early_exit + cli \<times> (bytes \<times> bytes list) option" where
  "cli_loop run_mode args st =
     (case args of
        [] \<Rightarrow> Inr (st, None)
      | arg # rest \<Rightarrow>
          if run_mode \<and> arg = ascii ''--'' then
            (case rest of
               [] \<Rightarrow> Inl (Usage (ascii ''meebis: run: `--` must be followed by a command to run''))
             | prog # rest \<Rightarrow> Inr (st, Some (prog, rest)))
          else
            (case cli_option run_mode arg (if rest = [] then None else Some (hd rest)) st of
               Inl e \<Rightarrow> Inl e
             | Inr (took, st) \<Rightarrow> cli_loop run_mode (if took then tl rest else rest) st))"
  by pat_completeness auto
termination
  by (relation "measure (\<lambda>(_, args, _). length args)") auto

declare cli_loop.simps [simp del]

text \<open>\<open>Path::join\<close>.\<close>

definition path_join :: "bytes \<Rightarrow> bytes \<Rightarrow> bytes" where
  "path_join dir name =
     (if name \<noteq> [] \<and> hd name = 47 then name
      else if dir = [] \<or> last dir = 47 then dir @ name else dir @ [47] @ name)"

text \<open>What follows the loop: the command, the port it defaults to, and whether there is one.\<close>

definition cli_command :: "cli \<Rightarrow> (bytes \<times> bytes list) option \<Rightarrow> server_config" where
  "cli_command st child =
     (let cfg = cl_cfg st;
          cfg = (case child of
                   None \<Rightarrow> cfg
                 | Some (prog, args) \<Rightarrow>
                     cfg\<lparr>cf_run := Some \<lparr>sp_command = prog, sp_args = args, sp_extra_env = cl_extra_env st\<rparr>,
                         cf_port := (if cl_port_explicit st then cf_port cfg else 0)\<rparr>)
      in cfg\<lparr>cf_tcp := cf_unixsocket cfg = None \<or> cl_port_explicit st\<rparr>)"

text \<open>The two-part spelling of the dump file, and its conflict with the seed.\<close>

definition cli_dumpfile :: "cli \<Rightarrow> server_config \<Rightarrow> early_exit + server_config" where
  "cli_dumpfile st cfg =
     (let two_part = cl_dir st \<noteq> None \<or> cl_dbfilename st \<noteq> None in
      if cf_dumpfile cfg \<noteq> None \<and> two_part then
        Inl (Usage (ascii ''meebis: --dumpfile cannot be combined with --dir/--dbfilename''))
      else
        let dir = (case cl_dir st of None \<Rightarrow> ascii ''.'' | Some d \<Rightarrow> d);
            name = (case cl_dbfilename st of None \<Rightarrow> ascii ''dump.rdb'' | Some n \<Rightarrow> n);
            cfg = (if two_part then cfg\<lparr>cf_dumpfile := Some (path_join dir name)\<rparr> else cfg)
        in if cf_seed cfg \<noteq> None \<and> cf_dumpfile cfg \<noteq> None then
             Inl (Usage (ascii ''meebis: --seed cannot be combined with --dumpfile/--dir/--dbfilename'' @ [10] @
               ascii ''meebis: --seed loads a snapshot and never writes to it; --dumpfile does both''))
           else Inr cfg)"

definition cli_finish :: "bool \<Rightarrow> cli \<Rightarrow> (bytes \<times> bytes list) option \<Rightarrow> early_exit + server_config" where
  "cli_finish run_mode st child =
     (let cfg = cli_command st child in
      if run_mode \<and> child = None then
        Inl (Usage (ascii ''meebis: run: expected `meebis run [options] -- <command> [args...]`'' @ [10] @
          ascii ''meebis: run: for example, `meebis run -- npm test`''))
      else if \<not> cf_tcp cfg \<and> cf_port_file cfg \<noteq> None then
        Inl (Usage (ascii ''meebis: --port-file has nothing to write without a TCP port (pass --port too, or drop --port-file)''))
      else cli_dumpfile st cfg)"

text \<open>\<open>parse_args\<close>, here \<open>parse_argv\<close>, takes the arguments without the name of the program; outside \<open>run\<close> there is no child.\<close>

definition parse_argv :: "bytes list \<Rightarrow> early_exit + server_config" where
  "parse_argv args =
     (let run_mode = (args \<noteq> [] \<and> hd args = ascii ''run'') in
      case cli_loop run_mode (if run_mode then tl args else args) cli_start of
        Inl e \<Rightarrow> Inl e
      | Inr (st, child) \<Rightarrow> cli_finish run_mode st child)"

section \<open>What an accepted command line means\<close>

definition cli_ok :: "bool \<Rightarrow> cli \<Rightarrow> bool" where
  "cli_ok run_mode st \<longleftrightarrow> 1 \<le> cf_databases (cl_cfg st) \<and> cf_databases (cl_cfg st) \<le> 16384 \<and> cf_port (cl_cfg st) < 2 ^ 16 \<and>
     cf_maxclients (cl_cfg st) < 2 ^ 64 \<and> cf_run (cl_cfg st) = None \<and>
     (\<not> cl_port_explicit st \<longrightarrow> cf_port (cl_cfg st) = 6379) \<and> (\<not> run_mode \<longrightarrow> cl_extra_env st = [])"

lemma parse_below_bound: "parse_below b bs = Some n \<Longrightarrow> n < b"
  by (auto simp: parse_below_def split: list.splits option.splits if_splits)

text \<open>What holds of every result that is not an error.\<close>

definition yields :: "('b \<Rightarrow> bool) \<Rightarrow> 'a + 'b \<Rightarrow> bool" where
  "yields P r \<longleftrightarrow> (\<forall>x. r = Inr x \<longrightarrow> P x)"

lemma yields_intros [intro]:
  "yields P (Inl e)"
  "P x \<Longrightarrow> yields P (Inr x)"
  "(c \<Longrightarrow> yields P r) \<Longrightarrow> (\<not> c \<Longrightarrow> yields P r') \<Longrightarrow> yields P (if c then r else r')"
  "(v = None \<Longrightarrow> yields P r) \<Longrightarrow> (\<And>x. v = Some x \<Longrightarrow> yields P (g x)) \<Longrightarrow> yields P (case v of None \<Rightarrow> r | Some x \<Rightarrow> g x)"
  by (auto simp: yields_def split: option.splits)

lemma yields_with_value [intro]: "(\<And>x. v = Some x \<Longrightarrow> P (True, f x)) \<Longrightarrow> yields P (with_value v msg f)"
  by (auto simp: yields_def with_value_def split: option.splits)

lemma yieldsD: "yields P r \<Longrightarrow> r = Inr x \<Longrightarrow> P x"
  by (simp add: yields_def)

lemma bind_parse_below: "Option.bind v (parse_below b) = Some n \<Longrightarrow> n < b"
  by (cases v) (auto dest: parse_below_bound)

lemma cli_option_ok:
  assumes "cli_ok run_mode st"
  shows "yields (\<lambda>(took, st'). cli_ok run_mode st') (cli_option run_mode arg v st)"
  unfolding cli_option_def
  by (intro yields_intros yields_with_value; use assms in \<open>auto simp: cli_ok_def on_cfg_def dest!: bind_parse_below split: option.splits if_splits\<close>)

text \<open>The three ways the loop goes on.\<close>

lemma cli_loop_Nil [simp]: "cli_loop run_mode [] st = Inr (st, None)"
  by (simp add: cli_loop.simps)

lemma cli_loop_command: "cli_loop True (ascii ''--'' # prog # rest) st = Inr (st, Some (prog, rest))"
  by (simp add: cli_loop.simps)

lemma cli_loop_Cons:
  assumes "\<not> (run_mode \<and> arg = ascii ''--'')"
  shows "cli_loop run_mode (arg # rest) st =
    (case cli_option run_mode arg (if rest = [] then None else Some (hd rest)) st of
       Inl e \<Rightarrow> Inl e | Inr (took, st) \<Rightarrow> cli_loop run_mode (if took then tl rest else rest) st)"
  by (subst cli_loop.simps) (simp only: list.case if_not_P [OF assms])

lemma cli_loop_dash:
  "cli_loop True (ascii ''--'' # rest) st = Inr (st', child) \<Longrightarrow> st' = st \<and> child \<noteq> None"
  by (subst (asm) cli_loop.simps) (auto split: list.splits)

lemma cli_loop_ok: "cli_loop run_mode args st = Inr (st', child) \<Longrightarrow> cli_ok run_mode st \<Longrightarrow> cli_ok run_mode st'"
proof (induction run_mode args st rule: cli_loop.induct)
  case (1 run_mode args st)
  show ?case
  proof (cases args)
    case (Cons arg rest)
    show ?thesis
    proof (cases "run_mode \<and> arg = ascii ''--''")
      case True
      then show ?thesis using "1.prems" Cons cli_loop_dash [of rest st st' child] by simp
    next
      case False
      then obtain took st2 where step: "cli_option run_mode arg (if rest = [] then None else Some (hd rest)) st = Inr (took, st2)"
        and loop: "cli_loop run_mode (if took then tl rest else rest) st2 = Inr (st', child)"
        using "1.prems"(1) unfolding Cons by (auto simp: cli_loop_Cons split: sum.splits)
      show ?thesis
        using "1.IH" [OF Cons False step refl loop] yieldsD [OF cli_option_ok [OF "1.prems"(2)] step] by simp
    qed
  qed (use "1.prems" in simp)
qed

lemma cli_option_took: "yields (\<lambda>(took, st'). \<not> took) (cli_option run_mode arg None st)"
  unfolding cli_option_def by (intro yields_intros yields_with_value) simp_all

lemma cli_option_ignores:
  "yields (\<lambda>r. cli_option run_mode arg (Some v) st = Inr r) (cli_option run_mode arg None st)"
  unfolding cli_option_def by (intro yields_intros yields_with_value) simp_all

lemma cli_loop_options:
  assumes "cli_loop True opts st = Inr (st', None)"
  shows "cli_loop True (opts @ ascii ''--'' # prog # rest) st = Inr (st', Some (prog, rest))"
  using assms
proof (induction True opts st rule: cli_loop.induct)
  case (1 opts st)
  show ?case
  proof (cases opts)
    case Nil
    then show ?thesis using "1.prems" by (simp add: cli_loop_command)
  next
    case (Cons arg opts')
    have no: "\<not> (True \<and> arg = ascii ''--'')"
      using "1.prems" Cons cli_loop_dash [of opts' st st' None] by auto
    obtain took st2 where step: "cli_option True arg (if opts' = [] then None else Some (hd opts')) st = Inr (took, st2)"
      and loop: "cli_loop True (if took then tl opts' else opts') st2 = Inr (st', None)"
      using "1.prems" no unfolding Cons by (auto simp: cli_loop_Cons split: sum.splits)
    have "cli_loop True ((if took then tl opts' else opts') @ ascii ''--'' # prog # rest) st2 = Inr (st', Some (prog, rest))"
      by (rule "1.hyps" [OF Cons no step refl loop])
    moreover have "cli_option True arg (Some (hd (opts' @ ascii ''--'' # prog # rest))) st = Inr (took, st2)"
      using step by (cases opts') (auto intro: yieldsD [OF cli_option_ignores])
    moreover have "opts' = [] \<Longrightarrow> \<not> took" using step using yieldsD [OF cli_option_took] by fastforce
    ultimately show ?thesis using no unfolding Cons by (cases opts') (auto simp: cli_loop_Cons)
  qed
qed

definition config_ok :: "bool \<Rightarrow> server_config \<Rightarrow> bool" where
  "config_ok run_mode cfg \<longleftrightarrow> 1 \<le> cf_databases cfg \<and> cf_databases cfg \<le> 16384 \<and> cf_port cfg < 2 ^ 16 \<and> cf_maxclients cfg < 2 ^ 64 \<and>
    (cf_tcp cfg \<or> cf_unixsocket cfg \<noteq> None) \<and> (cf_port_file cfg \<noteq> None \<longrightarrow> cf_tcp cfg) \<and>
    \<not> (cf_seed cfg \<noteq> None \<and> cf_dumpfile cfg \<noteq> None) \<and> (cf_run cfg \<noteq> None \<longleftrightarrow> run_mode)"

lemma cli_command_ok:
  assumes "cli_ok run_mode st" and "child \<noteq> None \<longleftrightarrow> run_mode"
  shows "cf_run (cli_command st child) \<noteq> None \<longleftrightarrow> run_mode"
    and "1 \<le> cf_databases (cli_command st child) \<and> cf_databases (cli_command st child) \<le> 16384"
    and "cf_port (cli_command st child) < 2 ^ 16" and "cf_maxclients (cli_command st child) < 2 ^ 64"
    and "cf_tcp (cli_command st child) \<or> cf_unixsocket (cli_command st child) \<noteq> None"
  using assms by (auto simp: cli_command_def cli_ok_def Let_def split: option.splits prod.splits)

lemma cli_dumpfile_fields:
  assumes "cli_dumpfile st cfg = Inr cfg'"
  shows "\<exists>d. cfg' = cfg\<lparr>cf_dumpfile := d\<rparr> \<and> \<not> (cf_seed cfg \<noteq> None \<and> d \<noteq> None)"
proof -
  let ?cfg = "if cl_dir st \<noteq> None \<or> cl_dbfilename st \<noteq> None
    then cfg\<lparr>cf_dumpfile := Some (path_join (case cl_dir st of None \<Rightarrow> ascii ''.'' | Some d \<Rightarrow> d)
      (case cl_dbfilename st of None \<Rightarrow> ascii ''dump.rdb'' | Some n \<Rightarrow> n))\<rparr> else cfg"
  have "yields (\<lambda>c. c = ?cfg \<and> \<not> (cf_seed ?cfg \<noteq> None \<and> cf_dumpfile ?cfg \<noteq> None)) (cli_dumpfile st cfg)"
    unfolding cli_dumpfile_def Let_def by (rule yields_intros | rule conjI [OF refl] | assumption)+
  from yieldsD [OF this assms] have "cfg' = ?cfg \<and> \<not> (cf_seed ?cfg \<noteq> None \<and> cf_dumpfile ?cfg \<noteq> None)" .
  moreover have "?cfg = cfg\<lparr>cf_dumpfile := cf_dumpfile ?cfg\<rparr>" "cf_seed ?cfg = cf_seed cfg" by simp_all
  ultimately show ?thesis by metis
qed

lemma cli_finish_ok:
  assumes "cli_ok run_mode st" and "child \<noteq> None \<longrightarrow> run_mode" and "cli_finish run_mode st child = Inr cfg"
  shows "config_ok run_mode cfg"
proof -
  have child: "child \<noteq> None \<longleftrightarrow> run_mode"
    using assms(2,3) by (cases child; cases run_mode) (simp_all add: cli_finish_def Let_def)
  then have dump: "cli_dumpfile st (cli_command st child) = Inr cfg"
    and port: "\<not> (\<not> cf_tcp (cli_command st child) \<and> cf_port_file (cli_command st child) \<noteq> None)"
    using assms(3) by (auto simp: cli_finish_def Let_def split: if_splits)
  from cli_dumpfile_fields [OF dump] obtain d where "cfg = (cli_command st child)\<lparr>cf_dumpfile := d\<rparr>"
    "\<not> (cf_seed (cli_command st child) \<noteq> None \<and> d \<noteq> None)" by blast
  then show ?thesis using cli_command_ok [OF assms(1) child] port by (auto simp: config_ok_def)
qed

lemma cli_loop_child: "cli_loop False args st = Inr (st', child) \<Longrightarrow> child = None"
proof (induction False args st rule: cli_loop.induct)
  case (1 args st)
  show ?case
  proof (cases args)
    case (Cons arg rest)
    then obtain took st2 where "cli_option False arg (if rest = [] then None else Some (hd rest)) st = Inr (took, st2)"
      "cli_loop False (if took then tl rest else rest) st2 = Inr (st', child)"
      using "1.prems" by (auto simp: cli_loop_Cons split: sum.splits)
    with "1.hyps" Cons show ?thesis by blast
  qed (use "1.prems" in simp)
qed

lemma parse_argv_ok:
  assumes "parse_argv args = Inr cfg"
  shows "config_ok (args \<noteq> [] \<and> hd args = ascii ''run'') cfg"
proof -
  let ?run = "args \<noteq> [] \<and> hd args = ascii ''run''"
  obtain st child where loop: "cli_loop ?run (if ?run then tl args else args) cli_start = Inr (st, child)"
    and finish: "cli_finish ?run st child = Inr cfg"
    using assms by (auto simp: parse_argv_def Let_def split: sum.splits)
  have "cli_ok ?run cli_start" by (simp add: cli_ok_def cli_start_def default_config_def)
  from cli_loop_ok [OF loop this] have ok: "cli_ok ?run st" .
  have "child \<noteq> None \<longrightarrow> ?run" using loop cli_loop_child by (cases ?run) auto
  from cli_finish_ok [OF ok this finish] show ?thesis .
qed

text \<open>
  C23: whatever command line is accepted, the configuration is one the server can run with: at least
  one database and at most 16384, a port of 16 bits, something to listen on, a port behind every port
  file, at most one of seed and dump file, and a command exactly under \<open>run\<close>, where the port is left to
  the system unless it was asked for.\<close>

theorem parse_argv_type:
  assumes "parse_argv args = Inr cfg"
  shows "1 \<le> cf_databases cfg \<and> cf_databases cfg \<le> 16384 \<and> cf_port cfg < 2 ^ 16 \<and> cf_maxclients cfg < 2 ^ 64 \<and>
    (cf_tcp cfg \<or> cf_unixsocket cfg \<noteq> None) \<and> (cf_port_file cfg \<noteq> None \<longrightarrow> cf_tcp cfg) \<and>
    \<not> (cf_seed cfg \<noteq> None \<and> cf_dumpfile cfg \<noteq> None) \<and>
    (cf_run cfg \<noteq> None \<longleftrightarrow> args \<noteq> [] \<and> hd args = ascii ''run'')"
  using parse_argv_ok [OF assms] by (simp add: config_ok_def)

text \<open>
  under \<open>run\<close>, everything behind \<open>--\<close> is the command and its arguments, taken as they are, whatever
  they look like; the options before it are read as without a command.\<close>

theorem run_command_verbatim:
  assumes "cli_loop True opts cli_start = Inr (st, None)"
    and "parse_argv (ascii ''run'' # opts @ ascii ''--'' # prog # rest) = Inr cfg"
  shows "cf_run cfg = Some \<lparr>sp_command = prog, sp_args = rest, sp_extra_env = cl_extra_env st\<rparr> \<and>
    cf_bind cfg = cf_bind (cl_cfg st) \<and> cf_requirepass cfg = cf_requirepass (cl_cfg st) \<and>
    cf_port cfg = (if cl_port_explicit st then cf_port (cl_cfg st) else 0)"
  using assms(2) cli_loop_options [OF assms(1), of prog rest]
  by (auto simp: parse_argv_def cli_finish_def cli_command_def Let_def split: if_splits dest!: cli_dumpfile_fields)

theorem run_command_verbatim_witness:
  "\<exists>cfg. parse_argv (map ascii [''run'', ''--verbose'', ''--'', ''npm'', ''--port'', ''x'']) = Inr cfg \<and>
     cf_run cfg = Some \<lparr>sp_command = ascii ''npm'', sp_args = [ascii ''--port'', ascii ''x''], sp_extra_env = []\<rparr> \<and> cf_port cfg = 0"
proof -
  let ?st = "cli_start\<lparr>cl_cfg := default_config\<lparr>cf_verbose := True\<rparr>\<rparr>"
  have opts: "cli_loop True [ascii ''--verbose''] cli_start = Inr (?st, None)" by code_simp
  obtain cfg where "parse_argv (ascii ''run'' # [ascii ''--verbose''] @ ascii ''--'' # ascii ''npm'' # [ascii ''--port'', ascii ''x'']) = Inr cfg"
    using cli_loop_options [OF opts, of "ascii ''npm''" "[ascii ''--port'', ascii ''x'']"]
    by (simp add: parse_argv_def cli_finish_def cli_command_def cli_dumpfile_def Let_def cli_start_def default_config_def)
  with run_command_verbatim [OF opts this] show ?thesis by (simp add: cli_start_def)
qed

theorem parse_argv_type_witness:
  "\<exists>cfg. parse_argv [] = Inr cfg \<and> cf_tcp cfg \<and> cf_databases cfg = 16 \<and> cf_run cfg = None"
proof -
  obtain cfg where "parse_argv [] = Inr cfg" "cf_unixsocket cfg = None" "cf_databases cfg = 16"
    by (simp add: parse_argv_def cli_finish_def cli_command_def cli_dumpfile_def Let_def cli_start_def default_config_def)
  with parse_argv_type [OF this(1)] show ?thesis by auto
qed

end
