(* ===== verification/Calendar.thy ===== *)
theory Calendar
  imports Prelude "HOL-Library.Signed_Division"
begin

text \<open>
  \<open>civil_from_days\<close> of src/log.rs, and that it is the Gregorian calendar: the date of the next day is
  the day after the date. The proof splits a day number into a cycle of 400 years, a year that begins
  in March and a day in it; the 400 years and the 365 days are checked one by one.
\<close>

section \<open>The conversion\<close>

text \<open>The divisions of \<open>i64\<close> truncate. \<open>days + 719468\<close> overflows only \<open>2 ^ 63\<close> days from the epoch.\<close>

definition civil_from_days :: "int \<Rightarrow> int \<times> int \<times> int" where
  "civil_from_days days =
     (let z = days + 719468;
          era = (if 0 \<le> z then z else z - 146096) sdiv 146097;
          doe = z - era * 146097;
          yoe = (doe - doe sdiv 1460 + doe sdiv 36524 - doe sdiv 146096) sdiv 365;
          doy = doe - (365 * yoe + yoe sdiv 4 - yoe sdiv 100);
          mp = (5 * doy + 2) sdiv 153;
          d = doy - (153 * mp + 2) sdiv 5 + 1;
          m = (if mp < 10 then mp + 3 else mp - 9);
          y = yoe + era * 400 + (if m \<le> 2 then 1 else 0)
      in (y, m, d))"

section \<open>The calendar\<close>

definition leap :: "int \<Rightarrow> bool" where
  "leap y \<longleftrightarrow> 4 dvd y \<and> (\<not> 100 dvd y \<or> 400 dvd y)"

definition month_length :: "int \<Rightarrow> int \<Rightarrow> int" where
  "month_length y m = (if m = 2 then if leap y then 29 else 28 else if m \<in> {4, 6, 9, 11} then 30 else 31)"

fun next_day :: "int \<times> int \<times> int \<Rightarrow> int \<times> int \<times> int" where
  "next_day (y, m, d) =
     (if d < month_length y m then (y, m, d + 1) else if m < 12 then (y, m + 1, 1) else (y + 1, 1, 1))"

text \<open>Years that begin in March, within a cycle of 400: their first day, and the year of a day.\<close>

definition year_start :: "nat \<Rightarrow> nat" where
  "year_start y = (if y = 400 then 146097 else 365 * y + y div 4 - y div 100)"

definition year_of_day :: "nat \<Rightarrow> nat" where
  "year_of_day n = (n - n div 1460 + n div 36524 - n div 146096) div 365"

definition month_day :: "nat \<Rightarrow> nat \<times> nat" where
  "month_day i = (let mp = (5 * i + 2) div 153 in (if mp < 10 then mp + 3 else mp - 9, i + 1 - (153 * mp + 2) div 5))"

lemma corrected_day_step:
  "n - n div 1460 + n div 36524 - n div 146096 \<le> Suc n - Suc n div 1460 + Suc n div 36524 - Suc n div 146096"
proof -
  have "n div 1460 \<le> n" by simp
  moreover have "Suc n mod 146096 = 0 \<Longrightarrow> Suc n mod 36524 = 0"
    by (auto simp: mod_eq_0_iff_dvd intro: dvd_trans [of _ 146096])
  ultimately show ?thesis
    unfolding div_Suc by (auto simp: Suc_diff_le intro: diff_le_mono)
qed

lemma year_of_day_mono: "a \<le> b \<Longrightarrow> year_of_day a \<le> year_of_day b"
proof (induction b rule: dec_induct)
  case (step n)
  then show ?case unfolding year_of_day_def by (meson corrected_day_step div_le_mono le_trans)
qed simp

definition year_ok :: "nat \<Rightarrow> bool" where
  "year_ok y \<longleftrightarrow> year_of_day (year_start y) = y \<and> year_of_day (year_start (y + 1) - 1) = y \<and>
     year_start (y + 1) = year_start y + (if leap (int y + 1) then 366 else 365)"

lemma upt_from_two: "3 \<le> n \<Longrightarrow> [0..<n] = 0 # 1 # [2..<n]"
  by (simp add: upt_conv_Cons numeral_2_eq_2)

lemma years_ok: "list_all year_ok [0..<400]"
  by (simp add: upt_from_two upt_rec_numeral) (simp add: year_ok_def year_of_day_def year_start_def leap_def)

definition month_ok :: "nat \<Rightarrow> bool" where
  "month_ok i \<longleftrightarrow> (case month_day i of (m, d) \<Rightarrow> case month_day (i + 1) of (m', d') \<Rightarrow>
      (if m = 2 then d < 28 \<and> m' = 2 \<and> d' = d + 1 \<or> d = 28 \<and> i = 364 \<and> m' = 2 \<and> d' = 29
       else if d < (if m \<in> {4, 6, 9, 11} then 30 else 31) then m' = m \<and> d' = d + 1
       else d' = 1 \<and> m' = (if m = 12 then 1 else m + 1)))"

lemma months_ok: "list_all month_ok [0..<365]"
  by (simp add: upt_from_two upt_rec_numeral) (simp add: month_ok_def month_day_def)

lemma year_ok: "y < 400 \<Longrightarrow> year_ok y"
  using years_ok by (simp add: list_all_iff)

lemma year_found:
  assumes "y < 400" and "year_start y \<le> n" and "n < year_start (y + 1)"
  shows "year_of_day n = y"
proof -
  have "year_of_day (year_start y) \<le> year_of_day n" "year_of_day n \<le> year_of_day (year_start (y + 1) - 1)"
    using assms(2,3) by (auto intro: year_of_day_mono)
  moreover have "year_of_day (year_start y) = y" "year_of_day (year_start (y + 1) - 1) = y"
    using year_ok [OF assms(1)] unfolding year_ok_def by blast+
  ultimately show ?thesis by simp
qed

lemma year_exists:
  assumes "n < 146097"
  obtains y i where "y < 400" and "n = year_start y + i" and "i < (if leap (int y + 1) then 366 else 365)"
proof -
  have "n < year_start k \<Longrightarrow> \<exists>y<k. year_start y \<le> n \<and> n < year_start (y + 1)" for k
  proof (induction k)
    case (Suc k)
    then show ?case by (cases "n < year_start k") (auto intro: less_SucI)
  qed (simp add: year_start_def)
  from this [of 400] assms obtain y where "y < 400" "year_start y \<le> n" "n < year_start (y + 1)"
    by (auto simp: year_start_def)
  then show thesis using year_ok [of y] that [of y "n - year_start y"] by (simp add: year_ok_def)
qed

definition civil :: "int \<Rightarrow> nat \<Rightarrow> nat \<Rightarrow> int \<times> int \<times> int" where
  "civil era y i = (case month_day i of (m, d) \<Rightarrow> (int y + era * 400 + (if m \<le> 2 then 1 else 0), int m, int d))"

lemma sdiv_nonneg: "0 \<le> a \<Longrightarrow> 0 < b \<Longrightarrow> a sdiv b = (a :: int) div b"
  by (cases "a = 0") (simp_all add: signed_divide_int_def)

lemma era_of:
  assumes "n < 146097"
  shows "(if 0 \<le> 146097 * era + int n then 146097 * era + int n else 146097 * era + int n - 146096) sdiv 146097 = era"
proof (cases "0 \<le> 146097 * era + int n")
  case True
  have "(146097 * era + int n) div 146097 = era" using assms by simp
  then show ?thesis using True by (simp add: sdiv_nonneg)
next
  case False
  have "146097 * era + int n - 146096 = - (146097 * (- era) + int (146096 - n))" using assms by auto
  moreover have "(146097 * (- era) + int (146096 - n)) div 146097 = - era" using assms by (simp del: mult_minus_right)
  moreover have "146097 * (- era) + int (146096 - n) > 0" using False assms by auto
  ultimately show ?thesis using False by (simp add: signed_divide_int_def)
qed

lemma year_of_day_int:
  "(int n - int n sdiv 1460 + int n sdiv 36524 - int n sdiv 146096) sdiv 365 = int (year_of_day n)"
proof -
  have "n div 1460 \<le> n" "n div 146096 \<le> n - n div 1460 + n div 36524" by simp_all
  then have "int n - int n div 1460 + int n div 36524 - int n div 146096 =
      int (n - n div 1460 + n div 36524 - n div 146096)" by (simp add: of_nat_diff zdiv_int)
  then show ?thesis by (simp add: sdiv_nonneg year_of_day_def zdiv_int)
qed

lemma year_start_int: "y < 400 \<Longrightarrow> 365 * int y + int y sdiv 4 - int y sdiv 100 = int (year_start y)"
proof -
  assume "y < 400"
  have "y div 100 \<le> 365 * y + y div 4" by simp
  then have "365 * int y + int y div 4 - int y div 100 = int (365 * y + y div 4 - y div 100)"
    by (simp add: of_nat_diff zdiv_int)
  then show ?thesis using \<open>y < 400\<close> by (simp add: sdiv_nonneg year_start_def)
qed

lemma month_day_int:
  assumes "month_day i = (m, d)"
  shows "(let mp = (5 * int i + 2) sdiv 153 in (if mp < 10 then mp + 3 else mp - 9, int i - (153 * mp + 2) sdiv 5 + 1)) = (int m, int d)"
proof -
  define mp where "mp = (5 * i + 2) div 153"
  have a: "(5 * int i + 2) sdiv 153 = int mp"
    by (simp add: sdiv_nonneg mp_def zdiv_int)
  have b: "(153 * int mp + 2) sdiv 5 = int ((153 * mp + 2) div 5)"
    by (simp add: sdiv_nonneg zdiv_int)
  have "153 * mp \<le> 5 * i + 2" unfolding mp_def by (rule times_div_less_eq_dividend)
  then have "153 * mp + 2 \<le> 5 * i + 4" by simp
  from div_le_mono [OF this, of 5] have c: "(153 * mp + 2) div 5 \<le> i" by simp
  have "month_day i = (if mp < 10 then mp + 3 else mp - 9, i + 1 - (153 * mp + 2) div 5)"
    unfolding month_day_def Let_def mp_def by (rule refl)
  then have m: "m = (if mp < 10 then mp + 3 else mp - 9)" and d: "d = i + 1 - (153 * mp + 2) div 5"
    using assms by (simp_all only: prod.inject)
  have "(if int mp < 10 then int mp + 3 else int mp - 9) = int m" by (simp add: m)
  moreover have "int i - int ((153 * mp + 2) div 5) + 1 = int d" using c unfolding d by linarith
  ultimately show ?thesis by (simp only: Let_def a b)
qed

lemma civil_from_days_split:
  assumes "y < 400" and "i < (if leap (int y + 1) then 366 else 365)"
  shows "civil_from_days (146097 * era + int (year_start y + i) - 719468) = civil era y i"
proof -
  let ?n = "year_start y + i"
  obtain m d where md: "month_day i = (m, d)" by fastforce
  have n: "?n < year_start (y + 1)" using year_ok [OF assms(1)] assms(2) by (simp add: year_ok_def)
  have n': "?n < 146097" using n assms(1) by (auto simp: year_start_def split: if_splits)
  have y: "year_of_day ?n = y" by (rule year_found) (use assms(1) n in auto)
  have z: "146097 * era + int ?n - 719468 + 719468 = 146097 * era + int ?n"
    and doe: "146097 * era + int ?n - era * 146097 = int ?n" 
    and doy: "int ?n - int (year_start y) = int i" by simp_all
  show ?thesis
    using month_day_int [OF md]
    unfolding civil_from_days_def Let_def z era_of [OF n'] doe year_of_day_int y year_start_int [OF assms(1)] doy
    by (simp add: civil_def md)
qed

lemma leap_cycle: "leap (y + era * 400 + 1) = leap (y + 1)"
proof -
  have "d dvd era * 400" if "d dvd 400" for d :: int using that by (rule dvd_mult)
  then have "d dvd y + era * 400 + 1 \<longleftrightarrow> d dvd y + 1" if "d dvd 400" for d :: int
    using that dvd_add_left_iff [of d "era * 400" "y + 1"] by (simp add: algebra_simps)
  then show ?thesis by (simp add: leap_def)
qed

lemma civil_step:
  assumes "i + 1 < (if leap (int y + 1) then 366 else 365)"
  shows "civil era y (i + 1) = next_day (civil era y i)"
proof -
  obtain m d m' d' where md: "month_day i = (m, d)" "month_day (i + 1) = (m', d')" by fastforce
  have ok: "month_ok i" using months_ok assms by (simp add: list_all_iff split: if_splits)
  show ?thesis
  proof (cases "m = 2")
    case True
    then show ?thesis using ok assms leap_cycle [of "int y" era]
      by (auto simp: civil_def md month_ok_def month_length_def split: if_splits)
  next
    case False
    then have "month_length (int y + era * 400 + (if m \<le> 2 then 1 else 0)) (int m) = (if m \<in> {4, 6, 9, 11} then 30 else 31)"
      by (auto simp: month_length_def)
    moreover have "m \<le> 12"
      using assms md(1) by (auto simp: month_day_def Let_def split: if_splits)
    ultimately show ?thesis using ok False by (auto simp: civil_def md month_ok_def split: if_splits)
  qed
qed

lemma civil_new_year:
  assumes "i + 1 = (if leap (int y + 1) then 366 else 365)"
  shows "next_day (civil era y i) = (int (y + 1) + era * 400, 3, 1)"
proof -
  have "i = 365 \<or> i = 364" using assms by (auto split: if_splits)
  then have md: "month_day i = (2, if leap (int y + 1) then 29 else 28)"
    using assms by (auto simp: month_day_def split: if_splits)
  then show ?thesis using leap_cycle [of "int y" era] by (simp add: civil_def month_length_def algebra_simps)
qed

lemma civil_first: "civil era y 0 = (int y + era * 400, 3, 1)"
  by (simp add: civil_def month_day_def)

lemma civil_from_days_next: "civil_from_days (n + 1) = next_day (civil_from_days n)"
proof -
  define z where "z = n + 719468"
  have n: "n = 146097 * (z div 146097) + int (nat (z mod 146097)) - 719468" by (simp add: z_def)
  obtain y i where y: "y < 400" "nat (z mod 146097) = year_start y + i" "i < (if leap (int y + 1) then 366 else 365)"
    by (rule year_exists [of "nat (z mod 146097)"]) (auto simp: nat_less_iff)
  let ?e = "z div 146097"
  have now: "civil_from_days n = civil ?e y i"
    using civil_from_days_split [OF y(1,3), of ?e] n y(2) by simp
  consider "i + 1 < (if leap (int y + 1) then 366 else 365)"
    | "i + 1 = (if leap (int y + 1) then 366 else 365)" "y < 399"
    | "i + 1 = (if leap (int y + 1) then 366 else 365)" "y = 399"
    using y(1,3) by linarith
  then show ?thesis
  proof cases
    case 1
    have tomorrow: "146097 * ?e + int (year_start y + (i + 1)) - 719468 = n + 1" using n y(2) by linarith
    have "civil_from_days (n + 1) = civil ?e y (i + 1)"
      using civil_from_days_split [OF y(1) 1, of ?e] unfolding tomorrow .
    then show ?thesis using now civil_step [OF 1, of ?e] by simp
  next
    case 2
    have "year_start (y + 1) = year_start y + i + 1" using year_ok [OF y(1)] 2 by (simp add: year_ok_def)
    then have tomorrow: "146097 * ?e + int (year_start (y + 1) + 0) - 719468 = n + 1" using n y(2) by linarith
    have "civil_from_days (n + 1) = civil ?e (y + 1) 0"
      using civil_from_days_split [of "y + 1" 0 ?e] 2(2) unfolding tomorrow by simp
    then show ?thesis using now civil_new_year [OF 2(1), of ?e] by (simp add: civil_first)
  next
    case 3
    have "year_start 400 = year_start y + i + 1" using year_ok [OF y(1)] 3 by (simp add: year_ok_def)
    then have tomorrow: "146097 * (?e + 1) + int (year_start 0 + 0) - 719468 = n + 1"
      using n y(2) by (simp add: year_start_def)
    have "civil_from_days (n + 1) = civil (?e + 1) 0 0"
      using civil_from_days_split [of 0 0 "?e + 1"] unfolding tomorrow by (simp add: leap_def)
    then show ?thesis using now civil_new_year [OF 3(1), of ?e] 3(2) by (simp add: civil_first algebra_simps)
  qed
qed

lemma time_of_day:
  fixes s :: nat
  shows "s mod 86400 div 3600 = s div 3600 mod 24" and "s mod 86400 div 60 mod 60 = s div 60 mod 60"
    and "s mod 86400 mod 60 = s mod 60"
proof -
  show "s mod 86400 div 3600 = s div 3600 mod 24" using mod_mult2_eq [of s 3600 24] by simp
  show "s mod 86400 div 60 mod 60 = s div 60 mod 60" using mod_mult2_eq [of s 60 1440] by (simp add: mod_mod_cancel)
  show "s mod 86400 mod 60 = s mod 60" by (simp add: mod_mod_cancel)
qed

lemma civil_epoch: "civil_from_days 0 = (1970, 1, 1)"
  by code_simp

lemma calendar: "civil_from_days (int n) = (next_day ^^ n) (1970, 1, 1)"
proof (induction n)
  case (Suc n)
  then show ?case using civil_from_days_next [of "int n"] by (simp add: add.commute)
qed (simp add: civil_epoch)

end
