(* ===== verification/Log.thy ===== *)
theory Log
  imports Server Sha1 Calendar
begin

text \<open>
  The trace of src/log.rs: how commands and replies are rendered, which arguments are redacted, the
  timestamps, and the lines a server with \<open>--verbose\<close> prints. What is printed is a byte string, empty
  when logging is off; the stream it goes to (\<open>emit\<close>) is left out.
\<close>

section \<open>Rendering\<close>

definition max_value :: nat where "max_value = 96"
definition max_args :: nat where "max_args = 24"
definition max_elems :: nat where "max_elems = 12"
definition max_line :: nat where "max_line = 400"

definition eq_ignore_case :: "bytes \<Rightarrow> string \<Rightarrow> bool" where
  "eq_ignore_case a word \<longleftrightarrow> to_ascii_lowercase a = to_ascii_lowercase (ascii word)"

definition first_position :: "('a \<Rightarrow> bool) \<Rightarrow> 'a list \<Rightarrow> nat option" where
  "first_position P xs = find (\<lambda>i. P (xs ! i)) [0..<length xs]"

definition secret_args :: "bytes list \<Rightarrow> nat list" where
  "secret_args args =
     (let name = upper (args ! 0)
      in if name = ascii ''AUTH'' \<and> 2 \<le> length args then [length args - 1]
         else if name = ascii ''HELLO'' then
           (case first_position (\<lambda>a. eq_ignore_case a ''AUTH'') args of
              Some i \<Rightarrow> if i + 2 < length args then [i + 2] else []
            | None \<Rightarrow> [])
         else if name = ascii ''CONFIG'' \<and> 4 \<le> length args \<and> eq_ignore_case (args ! 1) ''SET'' then
           map Suc (filter (\<lambda>i. even i \<and>
               (eq_ignore_case (args ! i) ''requirepass'' \<or> eq_ignore_case (args ! i) ''masterauth''))
             [2..<length args - 1])
         else [])"

text \<open>One byte of a quoted value.\<close>

definition quote_byte :: "u8 \<Rightarrow> bytes" where
  "quote_byte c =
     (if c = 10 then [92, 110] else if c = 13 then [92, 114] else if c = 9 then [92, 116]
      else if c = 34 then [92, 34] else if c = 92 then [92, 92]
      else if 0x20 \<le> c \<and> c \<le> 0x7e then [c]
      else [92, 120, hex_digit (drop_bit 4 c), hex_digit (c AND 0x0F)])"

definition is_bare :: "bytes \<Rightarrow> bool" where
  "is_bare b \<longleftrightarrow> b \<noteq> [] \<and> list_all (\<lambda>c. 0x21 \<le> c \<and> c \<le> 0x7e \<and> c \<noteq> 34 \<and> c \<noteq> 92) b"

definition quote :: "bytes \<Rightarrow> bytes" where
  "quote b =
     (let q = (if is_bare b then [] else [34]); shown = take max_value b;
          dropped = length b - length shown
      in q @ concat (map quote_byte shown) @ (if 0 < dropped then ascii ''...'' else []) @ q @
         (if 0 < dropped then ascii '' (+'' @ dec_nat dropped @ ascii '' bytes)'' else []))"

definition fmt_cmd :: "bytes list \<Rightarrow> bytes" where
  "fmt_cmd args =
     (let secrets = secret_args args
      in upper (args ! 0) @
         concat (map (\<lambda>(i, arg). 32 # (if i \<in> set secrets then ascii ''<redacted>'' else quote arg))
           (take max_args (drop 1 (enumerate 0 args)))) @
         (if max_args + 1 < length args
          then ascii '' ... (+'' @ dec_nat (length args - max_args - 1) @ ascii '' args)'' else []))"

text \<open>Aggregates, given their rendered elements; \<open>sep\<close> stands between two of them.\<close>

definition comma_join :: "bytes list \<Rightarrow> bytes" where
  "comma_join xs = concat (map (\<lambda>(i, x). (if 0 < i then ascii '', '' else []) @ x) (enumerate (0 :: nat) xs))"

definition fmt_list :: "bytes list \<Rightarrow> bytes" where
  "fmt_list items =
     (if items = [] then ascii ''(empty)''
      else [91] @ comma_join (take max_elems items) @
        (if max_elems < length items then ascii '', ... (+'' @ dec_nat (length items - max_elems) @ ascii '' items)'' else []) @
        [93])"

definition fmt_pairs :: "(bytes \<times> bytes) list \<Rightarrow> bytes" where
  "fmt_pairs pairs =
     (if pairs = [] then ascii ''(empty)''
      else [123] @ comma_join (map (\<lambda>(k, v). k @ ascii '': '' @ v) (take max_elems pairs)) @
        (if max_elems < length pairs then ascii '', ... (+'' @ dec_nat (length pairs - max_elems) @ ascii '' pairs)'' else []) @
        [125])"

text \<open>\<open>{d}\<close> of a float that may be infinite or no number.\<close>

definition display_number :: "f64 \<Rightarrow> bytes" where
  "display_number d =
     (if is_nan d then ascii ''NaN''
      else if is_infinite d then (if f64_neg d then ascii ''-inf'' else ascii ''inf'')
      else display_f64 d)"

fun fmt_frame :: "frame \<Rightarrow> bytes" where
  "fmt_frame (Simple s) = s"
| "fmt_frame (ErrorF e) = ascii ''(error) '' @ e"
| "fmt_frame (Integer i) = ascii ''(integer) '' @ dec_int i"
| "fmt_frame (Double d) = ascii ''(double) '' @ display_number d"
| "fmt_frame (Bulk b) = quote b"
| "fmt_frame Null = ascii ''(nil)''"
| "fmt_frame NullArray = ascii ''(nil)''"
| "fmt_frame (Array v) = fmt_list (map fmt_frame v)"
| "fmt_frame (SetF v) = fmt_list (map fmt_frame v)"
| "fmt_frame (Push v) = ascii ''(push) '' @ fmt_list (map fmt_frame v)"
| "fmt_frame (MapF p) = fmt_pairs (map (\<lambda>(k, v). (fmt_frame k, fmt_frame v)) p)"
| "fmt_frame (Pairs p) = fmt_pairs (map (\<lambda>(k, v). (fmt_frame k, fmt_frame v)) p)"
| "fmt_frame (XReadReply p) = fmt_pairs (map (\<lambda>(k, v). (fmt_frame k, fmt_frame v)) p)"

text \<open>\<open>clamp\<close>: the cut is moved back to a character boundary.\<close>

definition is_char_boundary :: "bytes \<Rightarrow> nat \<Rightarrow> bool" where
  "is_char_boundary s i \<longleftrightarrow> i = 0 \<or> i = length s \<or> i < length s \<and> \<not> is_cont (s ! i)"

fun clamp_end :: "bytes \<Rightarrow> nat \<Rightarrow> nat" where
  "clamp_end s 0 = 0"
| "clamp_end s (Suc n) = (if is_char_boundary s (Suc n) then Suc n else clamp_end s n)"

definition clamp_line :: "bytes \<Rightarrow> nat \<Rightarrow> bytes" where
  "clamp_line s mx = (if length s \<le> mx then s else take (clamp_end s mx) s @ ascii ''...'')"

text \<open>\<open>{:.2}\<close> of a positive float: two decimals of its exact value, ties to even.\<close>

definition fixed2 :: "f64 \<Rightarrow> bytes" where
  "fixed2 d =
     (let p = f64_units d * 100; q = p div 2 ^ 1074; r = p mod 2 ^ 1074;
          n = (if 2 ^ 1074 < 2 * r \<or> 2 * r = 2 ^ 1074 \<and> odd q then q + 1 else q)
      in dec_nat (n div 100) @ [46] @ dec_nat (n div 10 mod 10) @ dec_nat (n mod 10))"

text \<open>A duration is its nanoseconds.\<close>

definition as_secs_f64 :: "nat \<Rightarrow> f64" where
  "as_secs_f64 ns =
     f64_add (mk_f64 False (round_mag (ns div 10 ^ 9 * 2 ^ 1074) 1))
       (mk_f64 False (round_mag (ns mod 10 ^ 9 * 2 ^ 1074) (10 ^ 9)))"

definition fmt_dur :: "nat \<Rightarrow> bytes" where
  "fmt_dur ns =
     (let us = ns div 1000
      in if us < 1000 then dec_nat us @ [0xc2, 0xb5, 115]
         else if us < 1000000 then fixed2 (mk_f64 False (round_mag (us * 2 ^ 1074) 1000)) @ ascii ''ms''
         else fixed2 (as_secs_f64 ns) @ ascii ''s'')"

section \<open>Timestamps\<close>

definition pad_dec :: "nat \<Rightarrow> nat \<Rightarrow> bytes" where
  "pad_dec w n = replicate (w - length (dec_nat n)) 48 @ dec_nat n"

definition format_epoch_ms :: "nat \<Rightarrow> bytes" where
  "format_epoch_ms ms =
     (let secs = ms div 1000; (y, mo, d) = civil_from_days (int (secs div 86400)); sod = secs mod 86400
      in pad_dec 4 (nat y) @ [45] @ pad_dec 2 (nat mo) @ [45] @ pad_dec 2 (nat d) @ [84] @
         pad_dec 2 (sod div 3600) @ [58] @ pad_dec 2 (sod div 60 mod 60) @ [58] @ pad_dec 2 (sod mod 60) @ [46] @
         pad_dec 3 (ms mod 1000) @ [90])"

section \<open>Lines\<close>

text \<open>\<open>now\<close> is the clock in milliseconds; what is printed is one string, with the line feed of \<open>println\<close>.\<close>

definition log_line :: "nat \<Rightarrow> u64 \<Rightarrow> u8 \<Rightarrow> bytes \<Rightarrow> bytes" where
  "log_line now i dir body =
     format_epoch_ms now @ ascii '' #'' @ dec_nat (unat i) @ [32, dir, 32] @ clamp_line body max_line @ [10]"

definition log_note :: "nat \<Rightarrow> bytes \<Rightarrow> bytes" where
  "log_note now msg = format_epoch_ms now @ ascii '' * '' @ msg @ [10]"

definition log_event :: "shared \<Rightarrow> nat \<Rightarrow> u64 \<Rightarrow> bytes \<Rightarrow> bytes" where
  "log_event sh now i msg = (if sh_verbose sh then log_line now i 42 msg else [])"

definition log_cmd_tagged :: "shared \<Rightarrow> nat \<Rightarrow> conn_state \<Rightarrow> bytes list \<Rightarrow> bytes \<Rightarrow> bytes" where
  "log_cmd_tagged sh now conn args tag =
     (if \<not> sh_verbose sh \<or> args = [] then [] else log_line now (c_id conn) 62 (tag @ fmt_cmd args))"

definition log_cmd :: "shared \<Rightarrow> nat \<Rightarrow> conn_state \<Rightarrow> bytes list \<Rightarrow> bytes" where
  "log_cmd sh now conn args = log_cmd_tagged sh now conn args []"

definition log_script_cmd :: "shared \<Rightarrow> nat \<Rightarrow> conn_state \<Rightarrow> bytes list \<Rightarrow> bytes" where
  "log_script_cmd sh now conn args = log_cmd_tagged sh now conn args (ascii ''(lua) '')"

text \<open>The elapsed time is given where the command was logged when it came in.\<close>

definition log_reply_tagged :: "shared \<Rightarrow> nat \<Rightarrow> conn_state \<Rightarrow> frame \<Rightarrow> nat option \<Rightarrow> bytes \<Rightarrow> bytes" where
  "log_reply_tagged sh now conn f elapsed tag =
     (if \<not> sh_verbose sh then []
      else log_line now (c_id conn) 60
        (tag @ fmt_frame f @ (case elapsed of None \<Rightarrow> [] | Some t \<Rightarrow> ascii '' ('' @ fmt_dur t @ [41])))"

definition log_reply :: "shared \<Rightarrow> nat \<Rightarrow> conn_state \<Rightarrow> frame \<Rightarrow> nat option \<Rightarrow> bytes" where
  "log_reply sh now conn f elapsed = log_reply_tagged sh now conn f elapsed []"

definition log_script_reply :: "shared \<Rightarrow> nat \<Rightarrow> conn_state \<Rightarrow> frame \<Rightarrow> nat option \<Rightarrow> bytes" where
  "log_script_reply sh now conn f elapsed = log_reply_tagged sh now conn f elapsed (ascii ''(lua) '')"

definition log_replies :: "shared \<Rightarrow> nat \<Rightarrow> conn_state \<Rightarrow> frame list \<Rightarrow> nat option \<Rightarrow> bytes" where
  "log_replies sh now conn frames elapsed =
     (if \<not> sh_verbose sh then []
      else concat (map (\<lambda>(i, f). log_reply sh now conn f (if i = 0 then elapsed else None)) (enumerate (0 :: nat) frames)))"

text \<open>
  C40: the timestamps are right: the log prints a millisecond count as the day that many days after
  1 January 1970 in the Gregorian calendar, followed by the time of day.\<close>

theorem timestamps_correct:
  "format_epoch_ms ms =
     (case (next_day ^^ (ms div 86400000)) (1970, 1, 1) of (y, m, d) \<Rightarrow>
        pad_dec 4 (nat y) @ [45] @ pad_dec 2 (nat m) @ [45] @ pad_dec 2 (nat d) @ [84] @
        pad_dec 2 (ms div 3600000 mod 24) @ [58] @ pad_dec 2 (ms div 60000 mod 60) @ [58] @
        pad_dec 2 (ms div 1000 mod 60) @ [46] @ pad_dec 3 (ms mod 1000) @ [90])"
proof -
  have div: "ms div 1000 div 86400 = ms div 86400000" "ms div 1000 div 3600 = ms div 3600000"
    "ms div 1000 div 60 = ms div 60000" by (simp_all add: div_mult2_eq [symmetric])
  show ?thesis
    unfolding format_epoch_ms_def Let_def calendar time_of_day div by (rule refl)
qed

section \<open>What the log shows\<close>

lemma position_update:
  assumes "first_position P xs = Some i" and "i < j" and "j < length xs"
  shows "first_position P (xs[j := x]) = Some i"
proof -
  have i: "i < length xs" "P (xs ! i)" "\<forall>k<i. \<not> P (xs ! k)"
    using assms(1) by (auto simp: first_position_def find_Some_iff)
  then show ?thesis using assms(2,3) by (auto simp: first_position_def find_Some_iff intro!: exI [of _ i])
qed

lemma secret_args_bounds: "i \<in> set (secret_args args) \<Longrightarrow> 0 < i \<and> i < length args"
  by (auto simp: secret_args_def Let_def split: if_splits option.splits)

lemma secret_args_update:
  assumes "i \<in> set (secret_args args)"
  shows "secret_args (args[i := x]) = secret_args args"
proof -
  have i: "0 < i" "i < length args" using secret_args_bounds [OF assms] by auto
  let ?name = "upper (args ! 0)"
  have name: "args[i := x] ! 0 = args ! 0" using i by simp
  have distinct: "ascii ''AUTH'' \<noteq> ascii ''HELLO''" "ascii ''CONFIG'' \<noteq> ascii ''HELLO''" by (simp_all add: ascii_def)
  consider "?name = ascii ''AUTH''" | "?name = ascii ''HELLO''" "?name \<noteq> ascii ''AUTH''"
    | "?name = ascii ''CONFIG''" "?name \<noteq> ascii ''AUTH''" "?name \<noteq> ascii ''HELLO''"
    using assms by (auto simp: secret_args_def Let_def split: if_splits)
  then show ?thesis
  proof cases
    case 1
    then show ?thesis using assms distinct by (simp add: secret_args_def Let_def name split: if_splits)
  next
    case 2
    then obtain j where j: "first_position (\<lambda>a. eq_ignore_case a ''AUTH'') args = Some j" "i = j + 2"
      using assms by (cases "first_position (\<lambda>a. eq_ignore_case a ''AUTH'') args") (auto simp: secret_args_def Let_def split: if_splits)
    then have "first_position (\<lambda>a. eq_ignore_case a ''AUTH'') (args[i := x]) = Some j"
      using i by (intro position_update) auto
    then show ?thesis using 2 j(1) by (simp add: secret_args_def Let_def name)
  next
    case 3
    have at: "args[i := x] ! 1 = args ! 1" "even k \<Longrightarrow> args[i := x] ! k = args ! k" for k
      using assms 3 by (auto simp: secret_args_def Let_def nth_list_update split: if_splits)
    have "filter (\<lambda>k. even k \<and> (eq_ignore_case (args[i := x] ! k) ''requirepass'' \<or> eq_ignore_case (args[i := x] ! k) ''masterauth'')) ks =
        filter (\<lambda>k. even k \<and> (eq_ignore_case (args ! k) ''requirepass'' \<or> eq_ignore_case (args ! k) ''masterauth'')) ks" for ks
      using at(2) by (auto intro: filter_cong)
    then show ?thesis using 3 at(1) by (simp add: secret_args_def Let_def name)
  qed
qed

lemma fmt_cmd_secret:
  assumes "i \<in> set (secret_args args)"
  shows "fmt_cmd (args[i := x]) = fmt_cmd args"
proof -
  have i: "0 < i" "i < length args" using secret_args_bounds [OF assms] by auto
  let ?show = "\<lambda>(k, arg). 32 # (if k \<in> set (secret_args args) then ascii ''<redacted>'' else quote arg)"
  have "map ?show (enumerate 0 (args[i := x])) = map ?show (enumerate 0 args)"
  proof (rule nth_equalityI)
    fix k assume "k < length (map ?show (enumerate 0 (args[i := x])))"
    then show "map ?show (enumerate 0 (args[i := x])) ! k = map ?show (enumerate 0 args) ! k"
      using assms by (cases "k = i") (simp_all add: nth_enumerate_eq)
  qed simp
  then have "map ?show (take n (drop m (enumerate 0 (args[i := x])))) = map ?show (take n (drop m (enumerate 0 args)))" for n m
    by (simp add: take_map [symmetric] drop_map [symmetric])
  then show ?thesis using i by (simp add: fmt_cmd_def Let_def secret_args_update [OF assms])
qed

text \<open>
  the log does not give away what it redacts: the password of \<open>AUTH\<close>, the one of \<open>HELLO ... AUTH\<close> and
  the one that \<open>CONFIG SET\<close> stores can be replaced by any other without changing a byte of the line.\<close>

definition is_credential :: "bytes list \<Rightarrow> nat \<Rightarrow> bool" where
  "is_credential args i \<longleftrightarrow> i < length args \<and>
     (upper (args ! 0) = ascii ''AUTH'' \<and> 0 < i \<and> i = length args - 1 \<or>
      upper (args ! 0) = ascii ''HELLO'' \<and> 2 \<le> i \<and> eq_ignore_case (args ! (i - 2)) ''AUTH'' \<and>
        (\<forall>j<i - 2. \<not> eq_ignore_case (args ! j) ''AUTH'') \<or>
      upper (args ! 0) = ascii ''CONFIG'' \<and> eq_ignore_case (args ! 1) ''SET'' \<and> odd i \<and> 3 \<le> i \<and>
        eq_ignore_case (args ! (i - 1)) ''requirepass'')"

lemma credential_secret: "is_credential args i \<Longrightarrow> i \<in> set (secret_args args)"
proof -
  assume cred: "is_credential args i"
  have distinct: "ascii ''HELLO'' \<noteq> ascii ''AUTH''" "ascii ''CONFIG'' \<noteq> ascii ''AUTH''" "ascii ''CONFIG'' \<noteq> ascii ''HELLO''"
    by (simp_all add: ascii_def)
  consider "upper (args ! 0) = ascii ''AUTH''" | "upper (args ! 0) = ascii ''HELLO''" | "upper (args ! 0) = ascii ''CONFIG''"
    using cred by (auto simp: is_credential_def)
  then show ?thesis
  proof cases
    case 1
    then show ?thesis using cred distinct by (auto simp: is_credential_def secret_args_def Let_def)
  next
    case 2
    then have "first_position (\<lambda>a. eq_ignore_case a ''AUTH'') args = Some (i - 2)" and "2 \<le> i" "i < length args"
      using cred distinct by (auto simp: is_credential_def first_position_def find_Some_iff intro!: exI [of _ "i - 2"])
    moreover from this(2,3) have "i - 2 + 2 = i" by simp
    ultimately show ?thesis using 2 distinct by (simp add: secret_args_def Let_def del: add_2_eq_Suc')
  next
    case 3
    then have "i = Suc (i - 1)" "even (i - 1)" "i - 1 \<in> set [2..<length args - 1]" "4 \<le> length args"
      "eq_ignore_case (args ! (i - 1)) ''requirepass''" "eq_ignore_case (args ! 1) ''SET''"
      using cred distinct by (auto simp: is_credential_def)
    then show ?thesis using 3 distinct unfolding secret_args_def Let_def
      by (auto intro!: image_eqI [of _ _ "i - 1"])
  qed
qed



lemma quote_bare: "is_bare b \<Longrightarrow> length b \<le> max_value \<Longrightarrow> quote b = b"
proof -
  assume b: "is_bare b" "length b \<le> max_value"
  have "c \<in> set b \<Longrightarrow> quote_byte c = [c]" for c
    using b(1) by (auto simp: is_bare_def quote_byte_def list_all_iff word_le_nat_alt)
  then have "concat (map quote_byte b) = b" by (induction b) auto
  then show ?thesis using b by (simp add: quote_def Let_def)
qed

text \<open>
  but the server and the log disagree about which argument is the password. Here the name to set
  is the word \<open>AUTH\<close>, which the log takes for the option: the connection is authenticated and the
  password stands in the log.\<close>

lemma hello_words:
  "upper (ascii ''HELLO'') = ascii ''HELLO''" "upper (ascii ''SETNAME'') = ascii ''SETNAME''" "upper (ascii ''AUTH'') = ascii ''AUTH''"
  "parse_int (ascii ''3'') = Inr 3" "ascii ''SETNAME'' \<noteq> ascii ''AUTH''"
  by code_simp+

lemma hello_leaks_password:
  assumes "sh_requirepass sh = Some pw" and "sh_verbose sh" and "is_bare pw" and "length pw \<le> max_value"
    and "args = map ascii [''HELLO'', ''3'', ''SETNAME'', ''AUTH'', ''AUTH'', ''u''] @ [pw]"
  shows "c_authenticated (snd (snd (hello args sh conn))) \<and> (\<exists>pre. log_cmd sh now conn args = pre @ pw @ [10])"
proof
  have "hello_opts (Some pw) (drop 2 args) None False conn' = (Inr (Some (ascii ''AUTH''), True), conn'\<lparr>c_authenticated := True\<rparr>)" for conn'
    using hello_words by (simp add: assms(5) hello_opts.simps)
  then show "c_authenticated (snd (snd (hello args sh conn)))"
    using assms(1) hello_words by (simp add: assms(5) hello_def hello_finish_def Let_def case_prod_unfold)
  have bare: "list_all (\<lambda>w. quote (ascii w) = ascii w) [''3'', ''SETNAME'', ''AUTH'', ''u'']" by code_simp
  have "first_position (\<lambda>a. eq_ignore_case a ''AUTH'') args = Some 3"
  proof -
    have "\<not> eq_ignore_case (ascii ''HELLO'') ''AUTH''" "\<not> eq_ignore_case (ascii ''3'') ''AUTH''"
      "\<not> eq_ignore_case (ascii ''SETNAME'') ''AUTH''" "eq_ignore_case (ascii ''AUTH'') ''AUTH''" by code_simp+
    then show ?thesis using assms(5)
      by (auto simp: first_position_def find_Some_iff numeral_3_eq_3 less_Suc_eq intro!: exI [of _ 3])
  qed
  then have "secret_args args = [5]"
    using hello_words by (simp add: secret_args_def Let_def assms(5) ascii_def)
  then have fmt: "fmt_cmd args = concat (map (\<lambda>w. ascii w @ [32]) [''HELLO'', ''3'', ''SETNAME'', ''AUTH'', ''AUTH'', ''<redacted>'']) @ pw"
    using bare quote_bare [OF assms(3,4)] hello_words by (simp add: fmt_cmd_def assms(5) max_args_def ascii_def)
  have nonempty: "args \<noteq> []" using assms(5) by simp
  from fmt have "length (fmt_cmd args) \<le> max_line" using assms(4) by (simp add: max_line_def max_value_def)
  then show "\<exists>pre. log_cmd sh now conn args = pre @ pw @ [10]"
    using assms(2) fmt by (simp add: log_cmd_def log_cmd_tagged_def log_line_def clamp_line_def nonempty del: list.map concat.simps)
qed

text \<open>
  and the name of a command is logged as it came, line feeds included: whoever can connect can
  write any line of printable ASCII without small letters into the log, before any authentication.\<close>

theorem log_forgery:
  assumes "sh_verbose sh" and "list_all (\<lambda>c. 32 \<le> c \<and> c < 127 \<and> \<not> (97 \<le> c \<and> c \<le> 122)) line" and "length line < 399"
  shows "\<exists>pre. log_cmd sh now conn [[120, 10] @ line] = pre @ [88, 10] @ line @ [10]"
proof -
  have "is_ascii line" using assms(2) by (auto simp: is_ascii_def list_all_iff word_less_nat_alt)
  moreover have "map ascii_upper_byte line = line"
    using assms(2) by (intro map_idI) (auto simp: list_all_iff ascii_upper_byte_def)
  ultimately have "upper ([120, 10] @ line) = [88, 10] @ line"
    by (simp add: upper_def to_ascii_uppercase_def is_ascii_def ascii_upper_byte_def)
  then have "fmt_cmd [[120, 10] @ line] = [88, 10] @ line"
    by (simp add: fmt_cmd_def)
  then show ?thesis using assms(1,3) by (simp add: log_cmd_def log_cmd_tagged_def log_line_def clamp_line_def max_line_def)
qed

end
