(* ===== verification/Boot.thy ===== *)
theory Boot
  imports Cli Liveness Log
begin

text \<open>
  Starting and stopping the server: \<open>serve\<close>, \<open>save_and_exit\<close> and the end of \<open>meebis run\<close> in main.rs, the socket
  file of unixsocket.rs, and the first state (\<open>Shared::new\<close> with its table, \<open>gen_run_id\<close>, \<open>save_dump_locking\<close>) of server.rs.
  What the operating system answers is the record \<open>boot_io\<close>.
\<close>

section \<open>The socket file\<close>

text \<open>What \<open>metadata\<close> finds at the path, links followed; a socket may still have a server behind it.\<close>

datatype at_path = Absent | Socket bool | Other_file

text \<open>
  \<open>unixsocket::bind\<close>, given the errors of \<open>remove_file\<close> and of \<open>UnixListener::bind\<close>: the error, if any, and
  what is at the path afterwards.
\<close>

definition unix_bind :: "bytes option \<Rightarrow> bytes option \<Rightarrow> at_path \<Rightarrow> bytes option \<times> at_path" where
  "unix_bind remove_error bind_error at =
     (let listen = (case bind_error of Some e \<Rightarrow> (Some e, Absent) | None \<Rightarrow> (None, Socket True)) in
      case at of
        Absent \<Rightarrow> listen
      | Socket answered \<Rightarrow>
          if answered then (Some (ascii ''a server is already listening on it''), at)
          else (case remove_error of Some e \<Rightarrow> (Some e, at) | None \<Rightarrow> listen)
      | Other_file \<Rightarrow> (Some (ascii ''the path already exists and is not a socket''), at))"

definition peer_addr :: "bytes \<Rightarrow> bytes" where
  "peer_addr path = path @ ascii '':0''"

lemma unix_bind_safe:
  "at = Socket True \<or> at = Other_file \<Longrightarrow> snd (unix_bind re be at) = at \<and> fst (unix_bind re be at) \<noteq> None"
  by (auto simp: unix_bind_def)

section \<open>The shared state at the start\<close>

text \<open>The configuration table; \<open>dir\<close> and \<open>dbfilename\<close> are the two parts of the dump file's path, or the defaults.\<close>

definition config_table :: "nat \<Rightarrow> bool \<Rightarrow> bytes \<Rightarrow> bytes \<Rightarrow> bytes option \<Rightarrow> (bytes \<times> bytes) list" where
  "config_table databases verbose dir dbfilename unixsocket =
     map (\<lambda>(k, v). (ascii k, v))
       [(''maxmemory'', ascii ''0''), (''maxmemory-policy'', ascii ''noeviction''), (''save'', []),
        (''appendonly'', ascii ''no''), (''appendfsync'', ascii ''everysec''), (''databases'', dec_nat databases),
        (''maxclients'', ascii ''10000''), (''timeout'', ascii ''0''), (''tcp-keepalive'', ascii ''300''),
        (''loglevel'', ascii (if verbose then ''verbose'' else ''notice'')), (''dir'', dir), (''dbfilename'', dbfilename),
        (''unixsocket'', case unixsocket of Some p \<Rightarrow> p | None \<Rightarrow> [])]"

text \<open>\<open>{:016x}\<close> of the numbers drawn; three of them make forty digits.\<close>

definition hex16 :: "u64 \<Rightarrow> bytes" where
  "hex16 w = map (\<lambda>i. hex_digit (ucast (drop_bit (4 * i) w AND 15))) (rev [0..<16])"

definition gen_run_id :: "u64 \<Rightarrow> rng \<Rightarrow> bytes \<times> rng" where
  "gen_run_id nanos st =
     (let (a, st) = rand_u64 nanos st; (b, st) = rand_u64 nanos st; (c, st) = rand_u64 nanos st
      in (take 40 (hex16 a @ hex16 b @ hex16 c), st))"

lemma hex16_length: "length (hex16 w) = 16"
  by (simp add: hex16_def)

lemma gen_run_id_length: "length (fst (gen_run_id nanos st)) = 40"
  unfolding gen_run_id_def case_prod_unfold Let_def fst_conv by (simp add: hex16_length)

section \<open>Starting\<close>

definition listening_on :: "bytes option \<Rightarrow> bytes option \<Rightarrow> bytes" where
  "listening_on tcp unix =
     (case (tcp, unix) of
        (Some addr, Some path) \<Rightarrow> addr @ ascii '' and '' @ path
      | (Some addr, None) \<Rightarrow> addr
      | (None, Some path) \<Rightarrow> path
      | (None, None) \<Rightarrow> ascii ''nothing'')"

text \<open>
  What the system does for \<open>serve\<close>: the listeners (an error, or the address bound and its port), the port
  file, the load of the snapshot (\<open>Rdb_File.load_dump\<close> on the files at hand), the path the child is given
  and the start of the child; the two parts of a path, and the facts that go into the shared state.
\<close>

record boot_io =
  bo_tcp :: "bytes \<Rightarrow> bytes + bytes \<times> nat"
  bo_unix :: "bytes \<Rightarrow> bytes option"
  bo_port_file :: "bytes \<Rightarrow> nat \<Rightarrow> bytes option"
  bo_load :: "bytes \<Rightarrow> source \<Rightarrow> bool \<Rightarrow> keyspace \<Rightarrow> ((nat + unit) \<times> line list \<times> keyspace) option"
  bo_canonical :: "bytes \<Rightarrow> bytes option"
  bo_spawn :: "spec \<Rightarrow> endpoint \<Rightarrow> bytes option \<Rightarrow> bytes option"
  bo_split :: "bytes option \<Rightarrow> bytes \<times> bytes"
  bo_run_id :: bytes
  bo_now :: u64
  bo_pid :: nat

text \<open>\<open>out!\<close> writes to stderr under \<open>run\<close>.\<close>

definition out_line :: "bool \<Rightarrow> bytes \<Rightarrow> line" where
  "out_line to_stderr text = (if to_stderr then Err text else Out text)"

definition reroute :: "bool \<Rightarrow> line \<Rightarrow> line" where
  "reroute to_stderr l = (case l of Out text \<Rightarrow> out_line to_stderr text | Err text \<Rightarrow> Err text)"

definition snapshot_of :: "server_config \<Rightarrow> (bytes \<times> source) option" where
  "snapshot_of cfg =
     (case (cf_dumpfile cfg, cf_seed cfg) of
        (Some path, _) \<Rightarrow> Some (path, Dump)
      | (None, Some path) \<Rightarrow> Some (path, Seed)
      | (None, None) \<Rightarrow> None)"

definition boot_shared :: "boot_io \<Rightarrow> server_config \<Rightarrow> nat \<Rightarrow> shared" where
  "boot_shared io cfg port =
     (let (dir, name) = bo_split io (cf_dumpfile cfg)
      in shared_new (cf_requirepass cfg) port (cf_maxclients cfg) (cf_databases cfg) (cf_verbose cfg) (cf_dumpfile cfg)
           (config_table (cf_databases cfg) (cf_verbose cfg) dir name (cf_unixsocket cfg)) (bo_run_id io) (bo_now io))"

text \<open>The endpoint of the child.\<close>

definition child_endpoint :: "boot_io \<Rightarrow> server_config \<Rightarrow> nat \<Rightarrow> endpoint" where
  "child_endpoint io cfg port =
     (case cf_unixsocket cfg of
        Some path \<Rightarrow>
          if cf_tcp cfg then Tcp (connect_host (cf_bind cfg)) port
          else Unix (case bo_canonical io path of Some p \<Rightarrow> p | None \<Rightarrow> path)
      | None \<Rightarrow> Tcp (connect_host (cf_bind cfg)) port)"

text \<open>
  How \<open>main\<close> goes on: it exits with a code, or the server runs, with the command if there is one; \<open>Panic\<close> is
  a panic. The lines printed come first.
\<close>

datatype start = Exit nat | Serving shared "(spec \<times> endpoint) option" | Start_panic

definition ready_line :: "boot_io \<Rightarrow> server_config \<Rightarrow> bytes option \<Rightarrow> bytes \<Rightarrow> bytes" where
  "ready_line io cfg addr version =
     ascii ''meebis '' @ version @ ascii '' ready on '' @ listening_on addr (cf_unixsocket cfg) @ ascii '' (pid '' @
       dec_nat (bo_pid io) @ [41] @ dash @
       (case snapshot_of cfg of
          Some (p, Dump) \<Rightarrow> ascii ''in-memory, snapshotting to '' @ p
        | Some (p, Seed) \<Rightarrow> ascii ''in-memory, seeded from '' @ p @ ascii '' (read-only)''
        | None \<Rightarrow> ascii ''in-memory, no persistence'')"

text \<open>From the banner on; \<open>ks\<close> is the loaded keyspace.\<close>

definition serve_ready ::
    "boot_io \<Rightarrow> (bytes \<Rightarrow> bytes) \<Rightarrow> bytes \<Rightarrow> server_config \<Rightarrow> bytes option \<Rightarrow> nat \<Rightarrow> keyspace \<Rightarrow> line list \<times> start" where
  "serve_ready io dbg version cfg addr port ks =
     (let err = (cf_run cfg \<noteq> None);
          sh = (boot_shared io cfg port)\<lparr>sh_ks := ks\<rparr>;
          lines = out_line err (ready_line io cfg addr version) #
            (if cf_verbose cfg
             then [out_line err (format_epoch_ms (unat (bo_now io)) @ ascii '' * verbose logging on'' @ dash @ ascii ''every command and reply is logged'')]
             else [])
      in case cf_run cfg of
           None \<Rightarrow> (lines, Serving sh None)
         | Some spec \<Rightarrow>
             (let ep = child_endpoint io cfg port; lines = lines @ [out_line err (ascii ''meebis: running: '' @ spec_display dbg spec)] in
              case bo_spawn io spec ep (cf_requirepass cfg) of
                None \<Rightarrow> (lines, Serving sh (Some (spec, ep)))
              | Some e \<Rightarrow> (lines @ [Err (ascii ''meebis: run: could not start `'' @ sp_command spec @ ascii ''`: '' @ e)], Exit 127)))"

definition serve :: "boot_io \<Rightarrow> (bytes \<Rightarrow> bytes) \<Rightarrow> bytes \<Rightarrow> server_config \<Rightarrow> line list \<times> start" where
  "serve io dbg version cfg =
     (let bind_addr = cf_bind cfg @ [58] @ dec_nat (cf_port cfg);
          could_not_bind = (\<lambda>what e. ([Err (ascii ''meebis: could not bind '' @ what @ ascii '': '' @ e)], Exit 1)) in
      case (if cf_tcp cfg then map_sum id Some (bo_tcp io bind_addr) else Inr None) of
        Inl e \<Rightarrow> could_not_bind bind_addr e
      | Inr local \<Rightarrow>
          (let port = (case local of Some (_, p) \<Rightarrow> p | None \<Rightarrow> 0); addr = map_option fst local in
           case (case cf_unixsocket cfg of Some path \<Rightarrow> map_option (Pair path) (bo_unix io path) | None \<Rightarrow> None) of
             Some (path, e) \<Rightarrow> could_not_bind path e
           | None \<Rightarrow>
               (let portfile = (case cf_port_file cfg of
                       Some path \<Rightarrow>
                         (case bo_port_file io path port of
                            Some e \<Rightarrow> [Err (ascii ''meebis: could not write --port-file '' @ path @ ascii '': '' @ e)]
                          | None \<Rightarrow> [])
                     | None \<Rightarrow> []);
                    ks = ks_new (cf_databases cfg)
                in case snapshot_of cfg of
                     None \<Rightarrow> map_prod (append portfile) id (serve_ready io dbg version cfg addr port ks)
                   | Some (path, src) \<Rightarrow>
                       (case bo_load io path src (cf_strict cfg) ks of
                          None \<Rightarrow> (portfile, Start_panic)
                        | Some (Inl code, lines, _) \<Rightarrow> (portfile @ map (reroute (cf_run cfg \<noteq> None)) lines, Exit code)
                        | Some (Inr _, lines, ks) \<Rightarrow>
                            map_prod (append (portfile @ map (reroute (cf_run cfg \<noteq> None)) lines)) id
                              (serve_ready io dbg version cfg addr port ks)))))"

section \<open>Stopping\<close>

text \<open>
  \<open>save_and_exit\<close> on SIGINT and SIGTERM: the lines and the exit code, or \<open>None\<close> for a panic, which ends the
  task of the signal handler and leaves the process running.
\<close>

definition save_dump_locking ::
    "(bytes \<Rightarrow> keyspace \<Rightarrow> bytes option) \<Rightarrow> u64 \<Rightarrow> shared \<Rightarrow> (bytes option option \<times> shared) option" where
  "save_dump_locking save_rdb now sh = (if sh_poisoned sh then None else Some (save_dump save_rdb now sh))"

definition save_and_exit ::
    "(bytes \<Rightarrow> keyspace \<Rightarrow> bytes option) \<Rightarrow> u64 \<Rightarrow> bytes \<Rightarrow> shared \<Rightarrow> (line list \<times> nat) option" where
  "save_and_exit save_rdb now signal sh =
     map_option (\<lambda>(result, _).
       (case result of
          None \<Rightarrow> []
        | Some None \<Rightarrow> [Out (format_epoch_ms (unat now) @ ascii '' * '' @ signal @ ascii '': keyspace saved'')]
        | Some (Some e) \<Rightarrow> [Err (ascii ''meebis: '' @ signal @ ascii '': could not save: '' @ e)], 0))
       (save_dump_locking save_rdb now sh)"

text \<open>The end of \<open>meebis run\<close>: the code of the command becomes the code of the process.\<close>

definition finish_run ::
    "(bytes \<Rightarrow> keyspace \<Rightarrow> bytes option) \<Rightarrow> u64 \<Rightarrow> int \<Rightarrow> shared \<Rightarrow> (line list \<times> int) option" where
  "finish_run save_rdb now status sh =
     map_option (\<lambda>(result, _).
       (case result of
          None \<Rightarrow> []
        | Some None \<Rightarrow> [Err (format_epoch_ms (unat now) @ ascii '' * keyspace saved'')]
        | Some (Some e) \<Rightarrow> [Err (ascii ''meebis: could not save: '' @ e)], status))
       (save_dump_locking save_rdb now sh)"

section \<open>What a start and a stop guarantee\<close>

text \<open>What is known once the server runs: the state is the one of the configuration, on the port that was bound.\<close>

lemma serve_ready_serving:
  assumes "serve_ready io dbg version cfg addr port ks = (lines, Serving sh child)"
  shows "sh_port sh = port \<and> sh_dumpfile sh = cf_dumpfile cfg \<and> sh_ks sh = ks \<and>
    child = map_option (\<lambda>spec. (spec, child_endpoint io cfg port)) (cf_run cfg) \<and>
    (\<exists>t. sh = boot_shared io cfg port\<lparr>sh_ks := ks\<rparr>)"
  using assms
  by (cases "cf_run cfg")
    (auto simp: serve_ready_def Let_def boot_shared_def shared_new_def case_prod_unfold split: option.splits)

lemma serve_serving:
  assumes "serve io dbg version cfg = (lines, Serving sh child)"
  obtains local ks lines' where
    "(if cf_tcp cfg then map_sum id Some (bo_tcp io (cf_bind cfg @ [58] @ dec_nat (cf_port cfg))) else Inr None) = Inr local"
    and "serve_ready io dbg version cfg (map_option fst local) (case local of Some (_, p) \<Rightarrow> p | None \<Rightarrow> 0) ks =
      (lines', Serving sh child)"
    and "ks = ks_new (cf_databases cfg) \<or> (\<exists>path src ls r. snapshot_of cfg = Some (path, src) \<and>
      bo_load io path src (cf_strict cfg) (ks_new (cf_databases cfg)) = Some (Inr r, ls, ks))"
proof -
  let ?tcp = "if cf_tcp cfg then map_sum id Some (bo_tcp io (cf_bind cfg @ [58] @ dec_nat (cf_port cfg))) else Inr None"
  let ?un = "case cf_unixsocket cfg of Some path \<Rightarrow> map_option (Pair path) (bo_unix io path) | None \<Rightarrow> None"
  obtain local where l: "?tcp = Inr local"
  proof (cases ?tcp)
    case (Inl e)
    then show ?thesis using assms unfolding serve_def Let_def Inl by simp
  qed (rule that)
  have u: "?un = None"
  proof (cases ?un)
    case (Some pe)
    then show ?thesis using assms unfolding serve_def Let_def l Some by (cases pe) simp
  qed
  let ?r = "serve_ready io dbg version cfg (map_option fst local) (case local of Some (_, p) \<Rightarrow> p | None \<Rightarrow> 0)"
  show thesis
  proof (cases "snapshot_of cfg")
    case None
    then obtain lines' where "?r (ks_new (cf_databases cfg)) = (lines', Serving sh child)"
      using assms unfolding serve_def Let_def l u by (cases "?r (ks_new (cf_databases cfg))") auto
    then show thesis using that l by blast
  next
    case (Some ps)
    obtain path src where ps: "ps = (path, src)" by (cases ps)
    let ?load = "bo_load io path src (cf_strict cfg) (ks_new (cf_databases cfg))"
    obtain r ls ks where load: "?load = Some (Inr r, ls, ks)"
      using assms unfolding serve_def Let_def l u Some ps by (auto split: option.splits sum.splits prod.splits)
    then obtain lines' where "?r ks = (lines', Serving sh child)"
      using assms unfolding serve_def Let_def l u Some ps by (cases "?r ks") auto
    then show thesis using that l load Some ps by blast
  qed
qed

text \<open>
  the command of \<open>meebis run\<close> is told where this server listens: under TCP the host and the port that
  was really bound, otherwise the socket and neither host nor port, also when it would inherit them;
  \<open>REDIS_URL\<close> and every variable asked for hold the URL of this server.\<close>

theorem child_finds_server:
  assumes "serve io dbg version cfg = (lines, Serving sh (Some (spec, ep)))"
    and "list_all (\<lambda>n. n \<notin> ascii ` {''REDIS_HOST'', ''REDIS_PORT'', ''REDIS_SOCKET''}) (sp_extra_env spec)"
  shows "cf_run cfg = Some spec \<and>
    (if cf_tcp cfg then \<exists>addr. bo_tcp io (cf_bind cfg @ [58] @ dec_nat (cf_port cfg)) = Inr (addr, sh_port sh) \<and>
        child_env spec ep (cf_requirepass cfg) env (ascii ''REDIS_HOST'') = Some (connect_host (cf_bind cfg)) \<and>
        child_env spec ep (cf_requirepass cfg) env (ascii ''REDIS_PORT'') = Some (dec_nat (sh_port sh))
     else \<forall>path. cf_unixsocket cfg = Some path \<longrightarrow>
        child_env spec ep (cf_requirepass cfg) env (ascii ''REDIS_SOCKET'') =
          Some (case bo_canonical io path of Some p \<Rightarrow> p | None \<Rightarrow> path) \<and>
        child_env spec ep (cf_requirepass cfg) env (ascii ''REDIS_HOST'') = None \<and>
        child_env spec ep (cf_requirepass cfg) env (ascii ''REDIS_PORT'') = None) \<and>
    (\<forall>n\<in>insert (ascii ''REDIS_URL'') (set (sp_extra_env spec)).
       child_env spec ep (cf_requirepass cfg) env n = Some (endpoint_url ep (cf_requirepass cfg)))"
proof -
  obtain local ks lines' where
    tcp: "(if cf_tcp cfg then map_sum id Some (bo_tcp io (cf_bind cfg @ [58] @ dec_nat (cf_port cfg))) else Inr None) = Inr local"
    and ready: "serve_ready io dbg version cfg (map_option fst local) (case local of Some (_, p) \<Rightarrow> p | None \<Rightarrow> 0) ks =
      (lines', Serving sh (Some (spec, ep)))"
    by (rule serve_serving [OF assms(1)])
  have run: "cf_run cfg = Some spec"
    and port: "sh_port sh = (case local of Some (_, p) \<Rightarrow> p | None \<Rightarrow> 0)"
    and ep: "ep = child_endpoint io cfg (case local of Some (_, p) \<Rightarrow> p | None \<Rightarrow> 0)"
    using serve_ready_serving [OF ready] by (simp, cases "cf_run cfg", simp_all)+
  have env: "fold (\<lambda>name env. env(name \<mapsto> url)) names env0 n = (if n \<in> set names then Some url else env0 n)" for url names env0 n
    by (induction names arbitrary: env0) auto
  have distinct: "ascii ''REDIS_HOST'' \<noteq> ascii ''REDIS_URL''" "ascii ''REDIS_PORT'' \<noteq> ascii ''REDIS_URL''"
    "ascii ''REDIS_HOST'' \<noteq> ascii ''REDIS_PORT''" "ascii ''REDIS_SOCKET'' \<noteq> ascii ''REDIS_URL''"
    "ascii ''REDIS_SOCKET'' \<noteq> ascii ''REDIS_HOST''" "ascii ''REDIS_SOCKET'' \<noteq> ascii ''REDIS_PORT''"
    by (simp_all add: ascii_def)
  have extra: "ascii ''REDIS_HOST'' \<notin> set (sp_extra_env spec)" "ascii ''REDIS_PORT'' \<notin> set (sp_extra_env spec)"
    "ascii ''REDIS_SOCKET'' \<notin> set (sp_extra_env spec)"
    using assms(2) by (auto simp: list_all_iff)
  show ?thesis
  proof (intro conjI)
    show "cf_run cfg = Some spec" by (fact run)
    show "\<forall>n\<in>insert (ascii ''REDIS_URL'') (set (sp_extra_env spec)).
       child_env spec ep (cf_requirepass cfg) env n = Some (endpoint_url ep (cf_requirepass cfg))"
      using distinct by (auto simp: child_env_def Let_def env split: endpoint.splits)
    show "if cf_tcp cfg then \<exists>addr. bo_tcp io (cf_bind cfg @ [58] @ dec_nat (cf_port cfg)) = Inr (addr, sh_port sh) \<and>
        child_env spec ep (cf_requirepass cfg) env (ascii ''REDIS_HOST'') = Some (connect_host (cf_bind cfg)) \<and>
        child_env spec ep (cf_requirepass cfg) env (ascii ''REDIS_PORT'') = Some (dec_nat (sh_port sh))
     else \<forall>path. cf_unixsocket cfg = Some path \<longrightarrow>
        child_env spec ep (cf_requirepass cfg) env (ascii ''REDIS_SOCKET'') =
          Some (case bo_canonical io path of Some p \<Rightarrow> p | None \<Rightarrow> path) \<and>
        child_env spec ep (cf_requirepass cfg) env (ascii ''REDIS_HOST'') = None \<and>
        child_env spec ep (cf_requirepass cfg) env (ascii ''REDIS_PORT'') = None"
    proof (cases "cf_tcp cfg")
      case True
      then obtain addr where "bo_tcp io (cf_bind cfg @ [58] @ dec_nat (cf_port cfg)) = Inr (addr, sh_port sh)"
        using tcp port by (cases "bo_tcp io (cf_bind cfg @ [58] @ dec_nat (cf_port cfg))") auto
      moreover have "ep = Tcp (connect_host (cf_bind cfg)) (sh_port sh)"
        using True by (simp add: ep port child_endpoint_def split: option.splits)
      ultimately show ?thesis using True extra distinct by (simp add: child_env_def Let_def env)
    next
      case False
      then show ?thesis using extra distinct by (auto simp: ep child_endpoint_def child_env_def Let_def env)
    qed
  qed
qed


text \<open>Nothing a running server does changes the dump file it was given.\<close>

lemma step_dumpfile:
  assumes "tame_lua lua" and "step lua s s'" and "sys_ok s"
  shows "sh_dumpfile (sys_shared s') = sh_dumpfile (sys_shared s)"
proof -
  have f: "sh_dumpfile sh' = sh_dumpfile (sys_shared s)"
    if "map_of (sys_sessions s) i = Some se" "inv_step (sys_shared s) (se_conn se) sh' c" for i se sh' c
    using that sys_ok_facts(1) [OF assms(3)] sys_okD(2) [OF assms(3) that(1)] by (simp add: inv_step_def frames_def)
  show ?thesis using assms(2)
  proof (cases rule: step.cases)
    case (request i se ess se' sh')
    then have "inv_step (sys_shared s) (se_conn se) sh' (se_conn se')" using serve_inv [OF assms(1)] by blast
    then show ?thesis using f [OF request(2)] request(1) by (simp add: put_session_def)
  next
    case (quit i se ess se' sh')
    then have "inv_step (sys_shared s) (se_conn se) sh' (se_conn se')" using serve_inv [OF assms(1)] by blast
    then show ?thesis using f [OF quit(2)] quit(1) by (simp add: put_session_def teardown_def Let_def)
  next
    case (retry i se req ess se' sh')
    have "tame (br_args req)" using sys_okD(3) [OF assms(3) retry(2)] retry(3) by (simp add: req_ok_def)
    then have "inv_step (sys_shared s) (se_conn se) sh' (se_conn se')"
      using retry wake_inv [OF assms(1)] unfolding fine_envs_def by blast
    then show ?thesis using f [OF retry(2)] retry(1) by (simp add: put_session_def)
  qed (auto simp: accept_def put_session_def crash_task_def drop_task_def push_mail_def teardown_def sweep_def Let_def)
qed

lemma reachable_dumpfile:
  assumes "tame_lua lua" and "reachable lua s s'" and "sys_ok s"
  shows "sh_dumpfile (sys_shared s') = sh_dumpfile (sys_shared s)"
  using assms(2,3)
proof (induction rule: reachable.induct)
  case (next_step s s' s'')
  show ?case using step_dumpfile [OF assms(1) next_step(2) reachable_sys_ok [OF assms(1) next_step(1,4)]] next_step by simp
qed simp


text \<open>A server on a port the system chose, and the commands it may be started with.\<close>

definition demo_io :: boot_io where
  "demo_io = \<lparr>bo_tcp = (\<lambda>_. Inr (ascii ''127.0.0.1:40001'', 40001)), bo_unix = (\<lambda>_. None), bo_port_file = (\<lambda>_ _. None),
     bo_load = (\<lambda>_ _ _ ks. Some (Inr (), [], ks)), bo_canonical = Some, bo_spawn = (\<lambda>_ _ _. None),
     bo_split = (\<lambda>_. (ascii ''.'', ascii ''dump.rdb'')), bo_run_id = [], bo_now = 0, bo_pid = 7\<rparr>"

definition demo_spec :: spec where
  "demo_spec = \<lparr>sp_command = ascii ''npm'', sp_args = [ascii ''test''], sp_extra_env = [ascii ''CACHE_URL'']\<rparr>"

definition demo_run :: server_config where
  "demo_run = default_config\<lparr>cf_port := 0, cf_run := Some demo_spec\<rparr>"

lemma demo_run_serve: "\<exists>lines. serve demo_io id [] demo_run =
    (lines, Serving (boot_shared demo_io demo_run 40001\<lparr>sh_ks := ks_new 16\<rparr>) (Some (demo_spec, Tcp (connect_host (ascii ''127.0.0.1'')) 40001)))"
  by (simp add: serve_def serve_ready_def demo_io_def demo_run_def default_config_def snapshot_of_def child_endpoint_def Let_def)

theorem child_finds_server_witness:
  "\<exists>lines sh. serve demo_io id [] demo_run = (lines, Serving sh (Some (demo_spec, Tcp (connect_host (ascii ''127.0.0.1'')) 40001))) \<and>
    child_env demo_spec (Tcp (connect_host (ascii ''127.0.0.1'')) 40001) None Map.empty (ascii ''REDIS_PORT'') = Some (dec_nat 40001)"
proof -
  obtain lines where s: "serve demo_io id [] demo_run =
    (lines, Serving (boot_shared demo_io demo_run 40001\<lparr>sh_ks := ks_new 16\<rparr>) (Some (demo_spec, Tcp (connect_host (ascii ''127.0.0.1'')) 40001)))"
    using demo_run_serve by blast
  have "list_all (\<lambda>n. n \<notin> ascii ` {''REDIS_HOST'', ''REDIS_PORT'', ''REDIS_SOCKET''}) (sp_extra_env demo_spec)"
    by (simp add: demo_spec_def ascii_def)
  from child_finds_server [OF s this, of Map.empty] s show ?thesis
    by (auto simp: demo_run_def default_config_def boot_shared_def shared_new_def case_prod_unfold Let_def)
qed


definition demo_seed :: server_config where
  "demo_seed = default_config\<lparr>cf_seed := Some (ascii ''x.rdb'')\<rparr>"

lemma demo_seed_serve: "\<exists>lines. serve demo_io id [] demo_seed =
    (lines, Serving (boot_shared demo_io demo_seed 40001\<lparr>sh_ks := ks_new 16\<rparr>) None)"
  by (simp add: serve_def serve_ready_def demo_io_def demo_seed_def default_config_def snapshot_of_def Let_def)


text \<open>A server whose log is on, for the statements of Log.\<close>

theorem log_forgery_witness:
  "\<exists>pre. log_cmd (shared_new None 0 10 1 True None [] [] 0) 0 (conn_new 1 []) [[120, 10] @ ascii ''KEYSPACE SAVED''] =
     pre @ [88, 10] @ ascii ''KEYSPACE SAVED'' @ [10]"
proof (rule log_forgery)
  show "sh_verbose (shared_new None 0 10 1 True None [] [] 0)" by (simp add: shared_new_def)
  show "list_all (\<lambda>c. 32 \<le> c \<and> c < 127 \<and> \<not> (97 \<le> c \<and> c \<le> 122)) (ascii ''KEYSPACE SAVED'')" by code_simp
  show "length (ascii ''KEYSPACE SAVED'') < 399" by code_simp
qed


end
