(* ===== verification/Reading.thy ===== *)
theory Reading
  imports Resp
begin

text \<open>
  Reading from a connection: the two loops of \<open>handle_connection\<close> in main.rs that cut requests off the buffer.
\<close>

section \<open>The loop over the buffer\<close>

text \<open>
  The inner loop of \<open>handle_connection\<close>: requests are cut off the buffer until it holds no complete one or a
  protocol error ends the connection. The result is what was cut off, the error and the bytes left; what is
  done with each request (\<open>System.serve_one\<close>) does not touch the buffer. \<open>None\<close> would be a loop that never ends.
\<close>

partial_function (option) drain :: "bytes \<Rightarrow> (bytes list list \<times> parse_error option \<times> bytes) option" where
  "drain buf =
     (case parse_command buf of
        (Inl e, left) \<Rightarrow> Some ([], Some e, left)
      | (Inr None, left) \<Rightarrow> Some ([], None, left)
      | (Inr (Some args), left) \<Rightarrow> Option.bind (drain left) (\<lambda>(reqs, e, left). Some (args # reqs, e, left)))"

text \<open>The outer loop: every read appends a chunk to the buffer and drains it; nothing is read after an error.\<close>

fun receive :: "bytes \<Rightarrow> bytes list \<Rightarrow> (bytes list list \<times> parse_error option \<times> bytes) option" where
  "receive buf [] = Some ([], None, buf)"
| "receive buf (chunk # chunks) =
     Option.bind (drain (buf @ chunk)) (\<lambda>(reqs, e, left).
       if e \<noteq> None then Some (reqs, e, left @ concat chunks)
       else Option.bind (receive left chunks) (\<lambda>(reqs', e, left). Some (reqs @ reqs', e, left)))"

section \<open>It ends, and it does not depend on the network\<close>

lemma parse_command_shorter:
  "parse_command buf = (Inr (Some args), left) \<Longrightarrow> length left < length buf"
  by (auto simp: parse_command_def split: if_splits sum.splits parse_error.splits
      dest: parse_array_consumed parse_inline_consumed)

lemma drain_ends: "\<exists>reqs e left. drain buf = Some (reqs, e, left) \<and> length reqs + length left \<le> length buf"
proof (induction buf rule: length_induct)
  case (1 buf)
  obtain r left where p: "parse_command buf = (r, left)" by fastforce
  show ?case
  proof (cases r)
    case (Inl e)
    then show ?thesis using p by (subst drain.simps) (auto simp: parse_command_def split: if_splits sum.splits parse_error.splits)
  next
    case (Inr o')
    show ?thesis
    proof (cases o')
      case None
      then show ?thesis using p Inr by (subst drain.simps) (auto simp: parse_command_def split: if_splits sum.splits parse_error.splits)
    next
      case (Some args)
      then have s: "length left < length buf" using p Inr parse_command_shorter by blast
      with 1 obtain reqs e left' where "drain left = Some (reqs, e, left')" "length reqs + length left' \<le> length left" by blast
      then show ?thesis using s p Inr Some by (subst drain.simps) simp
    qed
  qed
qed

lemma drain_append:
  assumes "drain buf = Some (reqs, e, left)"
  shows "drain (buf @ chunk) = (if e \<noteq> None then Some (reqs, e, left @ chunk)
    else Option.bind (drain (left @ chunk)) (\<lambda>(reqs', e, left). Some (reqs @ reqs', e, left)))"
  using assms
proof (induction buf arbitrary: reqs rule: length_induct)
  case (1 buf)
  obtain r left0 where p: "parse_command buf = (r, left0)" by fastforce
  show ?case
  proof (cases r)
    case (Inl err)
    then have "parse_command (buf @ chunk) = (Inl err, left0 @ chunk)"
      using p parse_command_stable_aux [of buf chunk] by simp
    then show ?thesis using "1.prems" p Inl by (auto simp: drain.simps [of buf] drain.simps [of "buf @ chunk"])
  next
    case (Inr o')
    show ?thesis
    proof (cases o')
      case None
      then have "left0 = buf"
        using p Inr by (auto simp: parse_command_def split: if_splits sum.splits parse_error.splits)
      then show ?thesis using "1.prems" p Inr None by (auto simp: drain.simps [of buf] split: option.splits)
    next
      case (Some args)
      then have q: "parse_command (buf @ chunk) = (Inr (Some args), left0 @ chunk)"
        using p Inr parse_command_stable_aux [of buf chunk] by simp
      obtain reqs0 where d: "drain left0 = Some (reqs0, e, left)" "reqs = args # reqs0"
        using "1.prems" p Inr Some by (auto simp: drain.simps [of buf] bind_eq_Some_conv)
      have "length left0 < length buf" using p Inr Some parse_command_shorter by blast
      with "1.IH" d(1) have "drain (left0 @ chunk) = (if e \<noteq> None then Some (reqs0, e, left @ chunk)
        else Option.bind (drain (left @ chunk)) (\<lambda>(reqs', e, left). Some (reqs0 @ reqs', e, left)))" by blast
      then show ?thesis using q d(2)
        by (cases "drain (left @ chunk)") (auto simp: drain.simps [of "buf @ chunk"])
    qed
  qed
qed

lemma drain_idle: "drain buf = Some (reqs, None, left) \<Longrightarrow> drain left = Some ([], None, left)"
proof (induction buf arbitrary: reqs rule: length_induct)
  case (1 buf)
  obtain r left0 where p: "parse_command buf = (r, left0)" by fastforce
  show ?case
  proof (cases "\<exists>args. r = Inr (Some args)")
    case True
    then obtain args where r: "r = Inr (Some args)" by blast
    then obtain reqs0 where "drain left0 = Some (reqs0, None, left)"
      using "1.prems" p by (auto simp: drain.simps [of buf] bind_eq_Some_conv)
    then show ?thesis using "1.IH" parse_command_shorter p r by blast
  next
    case False
    then have "r = Inr None" "left = left0"
      using "1.prems" p by (auto simp: drain.simps [of buf] split: sum.splits option.splits)
    moreover from this have "left0 = buf"
      using p by (auto simp: parse_command_def split: if_splits sum.splits parse_error.splits)
    ultimately show ?thesis using p by (simp add: drain.simps [of buf])
  qed
qed

lemma receive_drain:
  assumes "drain buf = Some ([], None, buf)"
  shows "receive buf chunks = drain (buf @ concat chunks)"
  using assms
proof (induction chunks arbitrary: buf)
  case Nil
  then show ?case by simp
next
  case (Cons chunk chunks)
  obtain reqs e left where d: "drain (buf @ chunk) = Some (reqs, e, left)" using drain_ends by blast
  show ?case
  proof (cases e)
    case None
    then show ?thesis
      using d Cons.IH [OF drain_idle] drain_append [OF d, of "concat chunks"] by simp
  next
    case (Some err)
    then show ?thesis using d drain_append [OF d, of "concat chunks"] by simp
  qed
qed


text \<open>
  C2: a connection sees the same requests, the same protocol error and the same bytes left over, however the
  network cuts the stream into reads: those of the whole stream in a single read.\<close>

theorem receive_chunking:
  "receive [] chunks = drain (concat chunks)"
proof -
  have "drain [] = Some ([], None, [])" by (subst drain.simps) (simp add: parse_command_def)
  from receive_drain [OF this] show ?thesis by simp
qed

lemma drain_requests:
  assumes "list_all (\<lambda>args. (\<forall>x\<in>set args. length x < 2 ^ 63) \<and> length args < 2 ^ 63) reqs"
  shows "drain (concat (map (\<lambda>args. encode r3 (Array (map Bulk args))) reqs)) = Some (reqs, None, [])"
  using assms
proof (induction reqs)
  case Nil
  show ?case by (subst drain.simps) (simp add: parse_command_def)
next
  case (Cons args reqs)
  then have "parse_command (encode r3 (Array (map Bulk args)) @ concat (map (\<lambda>args. encode r3 (Array (map Bulk args))) reqs)) =
      (Inr (Some args), concat (map (\<lambda>args. encode r3 (Array (map Bulk args))) reqs))"
    using parse_command_encode_aux by simp
  then show ?case using Cons by (subst drain.simps) simp
qed

text \<open>
  C1: pipelined requests arrive as they were sent: a sequence of requests, each an array of bulk strings, cut
  into reads at any places, is received as exactly these requests, without an error and with nothing left.\<close>

theorem pipeline_roundtrip:
  assumes "list_all (\<lambda>args. (\<forall>x\<in>set args. length x < 2 ^ 63) \<and> length args < 2 ^ 63) reqs"
    and "concat chunks = concat (map (\<lambda>args. encode r3 (Array (map Bulk args))) reqs)"
  shows "receive [] chunks = Some (reqs, None, [])"
proof -
  have "drain [] = Some ([], None, [])" by (subst drain.simps) (simp add: parse_command_def)
  from receive_drain [OF this, of chunks] show ?thesis using drain_requests [OF assms(1)] assms(2) by simp
qed

text \<open>Two requests in three reads, cut inside both.\<close>

theorem pipeline_roundtrip_witness:
  "receive [] [ascii ''*1'' @ crlf @ ascii ''$4'', crlf @ ascii ''PING'' @ crlf @ ascii ''*2'' @ crlf @ ascii ''$3'' @ crlf @ ascii ''GE'',
     ascii ''T'' @ crlf @ ascii ''$1'' @ crlf @ ascii ''k'' @ crlf] = Some ([[ascii ''PING''], [ascii ''GET'', ascii ''k'']], None, [])"
proof (rule pipeline_roundtrip [where ?r3.0 = False])
  show "list_all (\<lambda>args. (\<forall>x\<in>set args. length x < 2 ^ 63) \<and> length args < 2 ^ 63) [[ascii ''PING''], [ascii ''GET'', ascii ''k'']]"
    by simp
qed code_simp

end
