(* ===== verification/Msgpack.thy ===== *)
theory Msgpack
  imports Lua Rdb_Codec
begin

text \<open>
  The values and tables the script libraries work on, and cmsgpack (src/commands/scripting/cmsgpack.rs): packing,
  unpacking, and that what is packed is unpacked. The Lua crate is the parameter \<open>lua_tables\<close>.
\<close>

section \<open>Values and tables\<close>

text \<open>
  A value as the Lua crate hands it out, with the type name of what is neither of the others. A table is its
  entries in the order of \<open>pairs\<close>. What a table looks like after \<open>raw_set\<close>, and which border \<open>raw_len\<close> finds,
  is the interpreter's affair: the parameter \<open>lua_tables\<close>.
\<close>

datatype lval =
    VNil
  | VBool bool
  | VInt int
  | VNum f64
  | VStr bytes
  | VTable "(lval \<times> lval) list"
  | VOther bytes

record lua_tables =
  lt_border :: "(lval \<times> lval) list \<Rightarrow> nat"
  lt_set :: "lval \<Rightarrow> lval \<Rightarrow> (lval \<times> lval) list \<Rightarrow> bytes + (lval \<times> lval) list"

text \<open>The test both libraries make: every key is an integer up to the border, and there are as many.\<close>

definition is_array :: "lua_tables \<Rightarrow> (lval \<times> lval) list \<Rightarrow> bool" where
  "is_array T t \<longleftrightarrow>
     list_all (\<lambda>(k, _). case k of VInt i \<Rightarrow> 1 \<le> i \<and> nat i \<le> lt_border T t | _ \<Rightarrow> False) t \<and> length t = lt_border T t"

text \<open>\<open>?\<close> in a loop that writes: the first error, or everything written.\<close>

fun concat_ok :: "('e + 'a list) list \<Rightarrow> 'e + 'a list" where
  "concat_ok [] = Inr []"
| "concat_ok (Inl e # rs) = Inl e"
| "concat_ok (Inr x # rs) = map_sum id (append x) (concat_ok rs)"

section \<open>Encoding\<close>

text \<open>\<open>n == n.trunc()\<close> for a finite float.\<close>

definition is_integral :: "f64 \<Rightarrow> bool" where
  "is_integral n \<longleftrightarrow> \<not> is_nan n \<and> \<not> is_infinite n \<and> f64_units n mod 2 ^ 1074 = 0"

text \<open>An integer as \<open>w\<close> bytes in two's complement.\<close>

definition int_bytes :: "nat \<Rightarrow> int \<Rightarrow> bytes" where
  "int_bytes w i = be_bytes w (nat (i mod 256 ^ w))"

definition mp_int :: "int \<Rightarrow> bytes" where
  "mp_int i =
     (if 0 \<le> i \<and> i \<le> 127 then int_bytes 1 i
      else if -32 \<le> i \<and> i < 0 then int_bytes 1 i
      else if - (2 ^ 7) \<le> i \<and> i < 2 ^ 7 then 0xd0 # int_bytes 1 i
      else if - (2 ^ 15) \<le> i \<and> i < 2 ^ 15 then 0xd1 # int_bytes 2 i
      else if - (2 ^ 31) \<le> i \<and> i < 2 ^ 31 then 0xd2 # int_bytes 4 i
      else 0xd3 # int_bytes 8 i)"

definition mp_str :: "bytes \<Rightarrow> bytes" where
  "mp_str s =
     (let len = length s in
      (if len < 32 then [0xa0 OR of_nat len]
       else if len < 256 then 0xd9 # be_bytes 1 len
       else if len < 65536 then 0xda # be_bytes 2 len
       else 0xdb # be_bytes 4 len) @ s)"

definition mp_array_header :: "nat \<Rightarrow> bytes" where
  "mp_array_header n =
     (if n < 16 then [0x90 OR of_nat n] else if n < 65536 then 0xdc # be_bytes 2 n else 0xdd # be_bytes 4 n)"

definition mp_map_header :: "nat \<Rightarrow> bytes" where
  "mp_map_header n =
     (if n < 16 then [0x80 OR of_nat n] else if n < 65536 then 0xde # be_bytes 2 n else 0xdf # be_bytes 4 n)"

text \<open>The test for a float that is packed as an integer; \<open>i64::MAX as f64\<close> is \<open>2 ^ 63\<close>.\<close>

definition packs_as_int :: "f64 \<Rightarrow> bool" where
  "packs_as_int n \<longleftrightarrow> is_integral n \<and> f64_units n \<le> 2 ^ 63 * 2 ^ 1074"

definition mp_number :: "f64 \<Rightarrow> bytes" where
  "mp_number n =
     (if packs_as_int n then mp_int (f64_to_i64 n)
      else 0xcb # be_bytes 8 (unat (f64_bits n)))"

text \<open>\<open>encode_table\<close>, given the encodings of the keys and of the values; \<open>raw_get\<close> of a missing key is nil.\<close>

definition mp_table ::
    "lua_tables \<Rightarrow> (lval \<times> lval) list \<Rightarrow> (lval \<times> (bytes + bytes) \<times> (bytes + bytes)) list \<Rightarrow> bytes + bytes" where
  "mp_table T t enc =
     (if is_array T t then
        concat_ok (Inr (mp_array_header (lt_border T t)) #
          map (\<lambda>i. case map_of enc (VInt (int i)) of Some (_, v) \<Rightarrow> v | None \<Rightarrow> Inr [0xc0]) [1..<lt_border T t + 1])
      else concat_ok (Inr (mp_map_header (length t)) # concat (map (\<lambda>(_, k, v). [k, v]) enc)))"

fun mp_encode :: "lua_tables \<Rightarrow> lval \<Rightarrow> bytes + bytes" where
  "mp_encode T VNil = Inr [0xc0]"
| "mp_encode T (VBool b) = Inr [if b then 0xc3 else 0xc2]"
| "mp_encode T (VInt i) = Inr (mp_int i)"
| "mp_encode T (VNum n) = Inr (mp_number n)"
| "mp_encode T (VStr s) = Inr (mp_str s)"
| "mp_encode T (VTable t) = mp_table T t (map (\<lambda>(k, v). (k, mp_encode T k, mp_encode T v)) t)"
| "mp_encode T (VOther name) = Inl (ascii ''cannot msgpack '' @ name)"

definition mp_pack :: "lua_tables \<Rightarrow> lval list \<Rightarrow> bytes + bytes" where
  "mp_pack T vs = concat_ok (map (mp_encode T) vs)"

section \<open>Decoding\<close>

text \<open>
  A decoder takes the bytes from its position on and gives an error, or a value and the bytes behind it.
  \<open>decode\<close> calls itself for every level of nesting; the first argument of \<open>mp_decode\<close> is the number of nested
  calls there is room for, and \<open>None\<close> is a call too many.
\<close>

type_synonym 'a dec = "bytes \<Rightarrow> (bytes + 'a \<times> bytes) option"

definition dec_ret :: "'a \<Rightarrow> 'a dec" where
  "dec_ret x = (\<lambda>data. Some (Inr (x, data)))"

definition dec_fail :: "bytes \<Rightarrow> 'a dec" where
  "dec_fail e = (\<lambda>_. Some (Inl e))"

definition dec_bind :: "'a dec \<Rightarrow> ('a \<Rightarrow> 'b dec) \<Rightarrow> 'b dec" where
  "dec_bind p f = (\<lambda>data. case p data of
     None \<Rightarrow> None | Some (Inl e) \<Rightarrow> Some (Inl e) | Some (Inr (x, left)) \<Rightarrow> f x left)"

definition dec_lift :: "bytes + 'a \<Rightarrow> 'a dec" where
  "dec_lift r = (case r of Inl e \<Rightarrow> dec_fail e | Inr x \<Rightarrow> dec_ret x)"

definition dec_take :: "nat \<Rightarrow> bytes dec" where
  "dec_take n = (\<lambda>data. if n \<le> length data then Some (Inr (take n data, drop n data))
     else Some (Inl (ascii ''truncated msgpack input'')))"

definition dec_u8 :: "u8 dec" where
  "dec_u8 = dec_bind (dec_take 1) (\<lambda>bs. dec_ret (hd bs))"

definition dec_be :: "nat \<Rightarrow> nat dec" where
  "dec_be n = dec_bind (dec_take n) (\<lambda>bs. dec_ret (be_nat bs))"

definition dec_str :: "nat \<Rightarrow> lval dec" where
  "dec_str n = dec_bind (dec_take n) (\<lambda>bs. dec_ret (VStr bs))"

text \<open>The loops of \<open>decode_array\<close> and \<open>decode_map\<close>, with \<open>i\<close> the next index and \<open>t\<close> the table so far.\<close>

fun dec_array :: "lua_tables \<Rightarrow> lval dec \<Rightarrow> nat \<Rightarrow> nat \<Rightarrow> (lval \<times> lval) list \<Rightarrow> lval dec" where
  "dec_array T d 0 i t = dec_ret (VTable t)"
| "dec_array T d (Suc n) i t =
     dec_bind d (\<lambda>v. dec_bind (dec_lift (lt_set T (VInt (int i)) v t)) (dec_array T d n (Suc i)))"

fun dec_map :: "lua_tables \<Rightarrow> lval dec \<Rightarrow> nat \<Rightarrow> (lval \<times> lval) list \<Rightarrow> lval dec" where
  "dec_map T d 0 t = dec_ret (VTable t)"
| "dec_map T d (Suc n) t =
     dec_bind d (\<lambda>k. dec_bind d (\<lambda>v.
       if v = VNil then dec_map T d n t else dec_bind (dec_lift (lt_set T k v t)) (dec_map T d n)))"

text \<open>\<open>f32::from_bits(b) as f64\<close>, which is exact.\<close>

definition f32_to_f64 :: "nat \<Rightarrow> f64" where
  "f32_to_f64 b =
     (let s = (2 ^ 31 \<le> b); e = b div 2 ^ 23 mod 256; m = b mod 2 ^ 23 in
      if e = 255 then mk_f64 s (if m = 0 then inf_mag else f64_mag f64_nan)
      else mk_f64 s (round_mag ((if e = 0 then m else (2 ^ 23 + m) * 2 ^ (e - 1)) * 2 ^ 925) 1))"

definition signed_be :: "nat \<Rightarrow> nat \<Rightarrow> int" where
  "signed_be w n = (if n < 2 ^ (8 * w - 1) then int n else int n - 2 ^ (8 * w))"

definition int_or_number :: "nat \<Rightarrow> lval" where
  "int_or_number v = (if v < 2 ^ 63 then VInt (int v) else VNum (mk_f64 False (round_mag (v * 2 ^ 1074) 1)))"

definition mp_tag :: "lua_tables \<Rightarrow> lval dec \<Rightarrow> u8 \<Rightarrow> lval dec" where
  "mp_tag T d tag =
     (let len = (\<lambda>w f. dec_bind (dec_be w) f); int = (\<lambda>w. dec_bind (dec_be w) (\<lambda>n. dec_ret (VInt (int n))));
          sint = (\<lambda>w. dec_bind (dec_be w) (\<lambda>n. dec_ret (VInt (signed_be w n)))) in
      if tag < 0x80 then dec_ret (VInt (uint tag))
      else if 0xe0 \<le> tag then dec_ret (VInt (uint tag - 256))
      else if tag < 0x90 then dec_map T d (unat (tag AND 0x0f)) []
      else if tag < 0xa0 then dec_array T d (unat (tag AND 0x0f)) 1 []
      else if tag < 0xc0 then dec_str (unat (tag AND 0x1f))
      else if tag = 0xc0 then dec_ret VNil
      else if tag = 0xc2 then dec_ret (VBool False)
      else if tag = 0xc3 then dec_ret (VBool True)
      else if tag = 0xc4 then len 1 dec_str
      else if tag = 0xc5 then len 2 dec_str
      else if tag = 0xc6 then len 4 dec_str
      else if tag = 0xca then len 4 (\<lambda>b. dec_ret (VNum (f32_to_f64 b)))
      else if tag = 0xcb then len 8 (\<lambda>b. dec_ret (VNum (F64 (of_nat b))))
      else if tag = 0xcc then int 1
      else if tag = 0xcd then int 2
      else if tag = 0xce then int 4
      else if tag = 0xcf then len 8 (\<lambda>v. dec_ret (int_or_number v))
      else if tag = 0xd0 then sint 1
      else if tag = 0xd1 then sint 2
      else if tag = 0xd2 then sint 4
      else if tag = 0xd3 then sint 8
      else if tag = 0xd9 then len 1 dec_str
      else if tag = 0xda then len 2 dec_str
      else if tag = 0xdb then len 4 dec_str
      else if tag = 0xdc then len 2 (\<lambda>n. dec_array T d n 1 [])
      else if tag = 0xdd then len 4 (\<lambda>n. dec_array T d n 1 [])
      else if tag = 0xde then len 2 (\<lambda>n. dec_map T d n [])
      else if tag = 0xdf then len 4 (\<lambda>n. dec_map T d n [])
      else dec_fail (ascii ''unsupported msgpack tag 0x'' @ [hex_digit (drop_bit 4 tag), hex_digit (tag AND 15)]))"

fun mp_decode :: "lua_tables \<Rightarrow> nat \<Rightarrow> lval dec" where
  "mp_decode T 0 = (\<lambda>_. None)"
| "mp_decode T (Suc room) = dec_bind dec_u8 (mp_tag T (mp_decode T room))"
section \<open>What a packed value unpacks to\<close>

text \<open>
  Unpacking assigns to fresh tables what packing read from the old ones, in the same order: the indexes of an
  array, the entries of any other table. A float that is packed as an integer comes back as one.
\<close>

fun build_array :: "lua_tables \<Rightarrow> (bytes + lval) list \<Rightarrow> nat \<Rightarrow> (lval \<times> lval) list \<Rightarrow> bytes + lval" where
  "build_array T [] i t = Inr (VTable t)"
| "build_array T (r # rs) i t =
     (case r of Inl e \<Rightarrow> Inl e
      | Inr v \<Rightarrow> (case lt_set T (VInt (int i)) v t of Inl e \<Rightarrow> Inl e | Inr t \<Rightarrow> build_array T rs (Suc i) t))"

fun build_map :: "lua_tables \<Rightarrow> ((bytes + lval) \<times> (bytes + lval)) list \<Rightarrow> (lval \<times> lval) list \<Rightarrow> bytes + lval" where
  "build_map T [] t = Inr (VTable t)"
| "build_map T ((k, v) # rs) t =
     (case k of Inl e \<Rightarrow> Inl e
      | Inr k \<Rightarrow>
          (case v of Inl e \<Rightarrow> Inl e
           | Inr v \<Rightarrow>
               if v = VNil then build_map T rs t
               else (case lt_set T k v t of Inl e \<Rightarrow> Inl e | Inr t \<Rightarrow> build_map T rs t)))"

definition build_table ::
    "lua_tables \<Rightarrow> (lval \<times> lval) list \<Rightarrow> (lval \<times> (bytes + lval) \<times> (bytes + lval)) list \<Rightarrow> bytes + lval" where
  "build_table T t bs =
     (if is_array T t then
        build_array T (map (\<lambda>i. case map_of bs (VInt (int i)) of Some (_, v) \<Rightarrow> v | None \<Rightarrow> Inr VNil) [1..<lt_border T t + 1]) 1 []
      else build_map T (map snd bs) [])"

fun mp_built :: "lua_tables \<Rightarrow> lval \<Rightarrow> bytes + lval" where
  "mp_built T (VNum n) =
     Inr (if packs_as_int n then VInt (f64_to_i64 n) else VNum n)"
| "mp_built T (VTable t) = build_table T t (map (\<lambda>(k, v). (k, mp_built T k, mp_built T v)) t)"
| "mp_built T v = Inr v"

text \<open>How deep a value is nested, and that it fits: strings and tables have less than \<open>2 ^ 32\<close> parts.\<close>

fun lval_depth :: "lval \<Rightarrow> nat" where
  "lval_depth (VTable t) = Suc (foldr max (map (\<lambda>(k, v). max (lval_depth k) (lval_depth v)) t) 0)"
| "lval_depth _ = 0"

fun mp_fits :: "lval \<Rightarrow> bool" where
  "mp_fits (VInt i) \<longleftrightarrow> - (2 ^ 63) \<le> i \<and> i < 2 ^ 63"
| "mp_fits (VStr s) \<longleftrightarrow> length s < 2 ^ 32"
| "mp_fits (VTable t) \<longleftrightarrow> length t < 2 ^ 32 \<and> list_all id (map (\<lambda>(k, v). mp_fits k \<and> mp_fits v) t)"
| "mp_fits _ \<longleftrightarrow> True"

definition decodes :: "'a dec \<Rightarrow> bytes \<Rightarrow> bytes + 'a \<Rightarrow> bool" where
  "decodes d e r \<longleftrightarrow> (\<forall>left. d (e @ left) = Some (map_sum id (\<lambda>x. (x, left)) r))"

lemma decodes_ret: "decodes (dec_ret x) [] (Inr x)"
  by (simp add: decodes_def dec_ret_def)

lemma decodes_lift: "decodes (dec_lift r) [] r"
  by (cases r) (simp_all add: decodes_def dec_lift_def dec_ret_def dec_fail_def)

lemma decodes_bind: "decodes p e (Inr x) \<Longrightarrow> decodes (f x) e' r \<Longrightarrow> decodes (dec_bind p f) (e @ e') r"
  by (simp add: decodes_def dec_bind_def)

lemma decodes_bind_error: "decodes p e (Inl x) \<Longrightarrow> decodes (dec_bind p f) (e @ e') (Inl x)"
  by (simp add: decodes_def dec_bind_def)

lemma decodes_bind_lift:
  "(\<And>x. r = Inr x \<Longrightarrow> decodes (f x) e (g x)) \<Longrightarrow>
    decodes (dec_bind (dec_lift r) f) e (case r of Inl x \<Rightarrow> Inl x | Inr x \<Rightarrow> g x)"
  by (cases r) (auto simp: decodes_def dec_bind_def dec_lift_def dec_fail_def dec_ret_def)

lemma decodes_bind_result:
  "decodes p e r \<Longrightarrow> (\<And>x. r = Inr x \<Longrightarrow> decodes (f x) e' (g x)) \<Longrightarrow>
    decodes (dec_bind p f) (e @ e') (case r of Inl x \<Rightarrow> Inl x | Inr x \<Rightarrow> g x)"
  by (cases r) (auto simp: decodes_def dec_bind_def)

lemma decodes_take: "length e = n \<Longrightarrow> decodes (dec_take n) e (Inr e)"
  by (auto simp: decodes_def dec_take_def)

lemma decodes_take_bind: "length e = n \<Longrightarrow> decodes (f e) e' r \<Longrightarrow> decodes (dec_bind (dec_take n) f) (e @ e') r"
  by (rule decodes_bind [OF decodes_take])

lemma decodes_u8: "decodes (f b) e r \<Longrightarrow> decodes (dec_bind dec_u8 f) (b # e) r"
  by (simp add: decodes_def dec_u8_def dec_bind_def dec_take_def dec_ret_def)

lemma decodes_be:
  assumes "n < 256 ^ w" and "decodes (f n) e r"
  shows "decodes (dec_bind (dec_be w) f) (be_bytes w n @ e) r"
  using assms by (simp add: decodes_def dec_be_def dec_bind_def dec_take_def dec_ret_def be_nat_be_bytes)

lemma decodes_str: "decodes (dec_str (length s)) s (Inr (VStr s))"
  by (simp add: decodes_def dec_str_def dec_bind_def dec_take_def dec_ret_def)

section \<open>Headers and numbers\<close>

lemma fix_tags:
  "list_all (\<lambda>n. let t = 0xa0 OR of_nat n :: u8 in \<not> t < 0x80 \<and> \<not> 0xe0 \<le> t \<and> \<not> t < 0x90 \<and> \<not> t < 0xa0 \<and> t < 0xc0 \<and> unat (t AND 0x1f) = n) [0..<32]"
  "list_all (\<lambda>n. let t = 0x90 OR of_nat n :: u8 in \<not> t < 0x80 \<and> \<not> 0xe0 \<le> t \<and> \<not> t < 0x90 \<and> t < 0xa0 \<and> unat (t AND 0x0f) = n) [0..<16]"
  "list_all (\<lambda>n. let t = 0x80 OR of_nat n :: u8 in \<not> t < 0x80 \<and> \<not> 0xe0 \<le> t \<and> t < 0x90 \<and> unat (t AND 0x0f) = n) [0..<16]"
  by code_simp+

lemma decodes_mp_str:
  assumes "length s < 2 ^ 32"
  shows "decodes (dec_bind dec_u8 (mp_tag T d)) (mp_str s) (Inr (VStr s))"
proof -
  have short: "mp_tag T d (0xa0 OR of_nat (length s)) = dec_str (length s)" if "length s < 32"
    using that fix_tags(1) by (simp add: list_all_iff mp_tag_def Let_def)
  have long: "mp_tag T d 0xd9 = dec_bind (dec_be 1) dec_str" "mp_tag T d 0xda = dec_bind (dec_be 2) dec_str"
    "mp_tag T d 0xdb = dec_bind (dec_be 4) dec_str"
    by (simp_all add: mp_tag_def)
  show ?thesis
    using assms by (auto simp: mp_str_def Let_def short long simp del: be_bytes.simps One_nat_def intro!: decodes_u8 decodes_be decodes_str)
qed

lemma decodes_array_header:
  assumes "n < 2 ^ 32" and "decodes (dec_array T d n 1 []) e r"
  shows "decodes (dec_bind dec_u8 (mp_tag T d)) (mp_array_header n @ e) r"
proof -
  have short: "mp_tag T d (0x90 OR of_nat n) = dec_array T d n 1 []" if "n < 16"
    using that fix_tags(2) by (simp add: list_all_iff mp_tag_def Let_def)
  have long: "mp_tag T d 0xdc = dec_bind (dec_be 2) (\<lambda>n. dec_array T d n 1 [])"
    "mp_tag T d 0xdd = dec_bind (dec_be 4) (\<lambda>n. dec_array T d n 1 [])"
    by (simp_all add: mp_tag_def)
  show ?thesis
    using assms by (auto simp: mp_array_header_def short long simp del: be_bytes.simps One_nat_def intro!: decodes_u8 decodes_be)
qed

lemma decodes_map_header:
  assumes "n < 2 ^ 32" and "decodes (dec_map T d n []) e r"
  shows "decodes (dec_bind dec_u8 (mp_tag T d)) (mp_map_header n @ e) r"
proof -
  have short: "mp_tag T d (0x80 OR of_nat n) = dec_map T d n []" if "n < 16"
    using that fix_tags(3) by (simp add: list_all_iff mp_tag_def Let_def)
  have long: "mp_tag T d 0xde = dec_bind (dec_be 2) (\<lambda>n. dec_map T d n [])"
    "mp_tag T d 0xdf = dec_bind (dec_be 4) (\<lambda>n. dec_map T d n [])"
    by (simp_all add: mp_tag_def)
  show ?thesis
    using assms by (auto simp: mp_map_header_def short long simp del: be_bytes.simps One_nat_def intro!: decodes_u8 decodes_be)
qed

lemma signed_be_int:
  assumes "0 < w" and "- (2 ^ (8 * w - 1)) \<le> i" and "i < 2 ^ (8 * w - 1)"
  shows "signed_be w (nat (i mod 256 ^ w)) = i"
proof -
  obtain k where k: "8 * w = Suc k" using assms(1) by (cases "8 * w") auto
  have p: "(256 :: int) ^ w = 2 * 2 ^ k"
    using power_mult [of "2 :: int" 8 w] k by simp
  have i: "- (2 ^ k) \<le> i" "i < 2 ^ k" using assms(2,3) k by simp_all
  have "i mod 256 ^ w = (if 0 \<le> i then i else i + 2 * 2 ^ k)"
  proof (cases "0 \<le> i")
    case False
    then have "(i + 2 * 2 ^ k) mod (2 * 2 ^ k) = i + 2 * 2 ^ k" using i by (intro mod_pos_pos_trivial) auto
    then show ?thesis using False p by simp
  qed (use i p in simp)
  then show ?thesis using i k by (auto simp: signed_be_def nat_less_iff)
qed

lemma decodes_signed:
  assumes "0 < w" and "- (2 ^ (8 * w - 1)) \<le> i" and "i < 2 ^ (8 * w - 1)"
  shows "decodes (dec_bind (dec_be w) (\<lambda>n. dec_ret (VInt (signed_be w n)))) (int_bytes w i) (Inr (VInt i))"
proof -
  have n: "nat (i mod 256 ^ w) < 256 ^ w"
    by (simp add: nat_less_iff)
  have "decodes (dec_bind (dec_be w) (\<lambda>n. dec_ret (VInt (signed_be w n)))) (be_bytes w (nat (i mod 256 ^ w)) @ [])
      (Inr (VInt (signed_be w (nat (i mod 256 ^ w)))))"
    by (rule decodes_be [OF n decodes_ret])
  then show ?thesis by (simp add: int_bytes_def signed_be_int [OF assms])
qed

lemma decodes_mp_int:
  assumes "- (2 ^ 63) \<le> i" and "i < 2 ^ 63"
  shows "decodes (dec_bind dec_u8 (mp_tag T d)) (mp_int i) (Inr (VInt i))"
proof -
  have pos: "decodes (dec_bind dec_u8 (mp_tag T d)) (int_bytes 1 i) (Inr (VInt i))" if "0 \<le> i" "i \<le> 127"
  proof -
    have "int_bytes 1 i = [word_of_int i]" using that by (simp add: int_bytes_def)
    moreover have "(word_of_int i :: u8) < 0x80" "uint (word_of_int i :: u8) = i"
      using that by (simp_all add: word_less_def uint_word_of_int)
    ultimately show ?thesis by (auto simp: mp_tag_def intro!: decodes_u8 decodes_ret)
  qed
  have neg: "decodes (dec_bind dec_u8 (mp_tag T d)) (int_bytes 1 i) (Inr (VInt i))" if "-32 \<le> i" "i < 0"
  proof -
    define b :: u8 where "b = word_of_int (i + 256)"
    have "(i + 256) mod 256 = i + 256" using that by (intro mod_pos_pos_trivial) auto
    then have m: "i mod 256 = i + 256" and u: "uint b = i + 256"
      unfolding b_def by (simp, subst uint_word_of_int, simp)
    have "int_bytes 1 i = [b]" using that m by (simp add: int_bytes_def b_def)
    moreover have "\<not> b < 0x80" "0xe0 \<le> b" using that u by (simp_all add: word_less_def word_le_def)
    ultimately show ?thesis using u by (auto simp: mp_tag_def intro!: decodes_u8 decodes_ret)
  qed
  have tags: "mp_tag T d 0xd0 = dec_bind (dec_be 1) (\<lambda>n. dec_ret (VInt (signed_be 1 n)))"
    "mp_tag T d 0xd1 = dec_bind (dec_be 2) (\<lambda>n. dec_ret (VInt (signed_be 2 n)))"
    "mp_tag T d 0xd2 = dec_bind (dec_be 4) (\<lambda>n. dec_ret (VInt (signed_be 4 n)))"
    "mp_tag T d 0xd3 = dec_bind (dec_be 8) (\<lambda>n. dec_ret (VInt (signed_be 8 n)))"
    by (simp_all add: mp_tag_def)
  show ?thesis
    using assms pos neg unfolding mp_int_def
    by (auto simp: tags intro!: decodes_u8 decodes_signed)
qed
section \<open>Round trip\<close>

lemma f64_to_i64_range: "- (2 ^ 63) \<le> f64_to_i64 n \<and> f64_to_i64 n < 2 ^ 63"
  by (simp add: f64_to_i64_def Let_def min_less_iff_disj)

lemma decodes_mp_number: "decodes (dec_bind dec_u8 (mp_tag T d)) (mp_number n) (mp_built T (VNum n))"
proof -
  have "mp_tag T d 0xcb = dec_bind (dec_be 8) (\<lambda>b. dec_ret (VNum (F64 (of_nat b))))" by (simp add: mp_tag_def)
  moreover have "unat (f64_bits n) < 256 ^ 8" using unsigned_less [of "f64_bits n"] by simp
  from decodes_be [OF this decodes_ret, of "\<lambda>b. VNum (F64 (of_nat b))"]
  have "decodes (dec_bind (dec_be 8) (\<lambda>b. dec_ret (VNum (F64 (of_nat b))))) (be_bytes 8 (unat (f64_bits n))) (Inr (VNum n))"
    by simp
  ultimately show ?thesis
    using f64_to_i64_range [of n] by (auto simp: mp_number_def intro!: decodes_mp_int decodes_u8)
qed

lemma concat_ok_Inr: "concat_ok rs = Inr bs \<Longrightarrow> \<exists>es. rs = map Inr es \<and> bs = concat es"
proof (induction rs arbitrary: bs rule: concat_ok.induct)
  case (3 x rs)
  then obtain es where "rs = map Inr es" "bs = x @ concat es" by (cases "concat_ok rs") auto
  then show ?case by (intro exI [of _ "x # es"]) simp
qed auto

lemma concat_ok_header: "concat_ok (Inr h # rs) = Inr bs \<Longrightarrow> \<exists>es. rs = map Inr es \<and> bs = h @ concat es"
  by (cases "concat_ok rs"; auto dest: concat_ok_Inr)

lemma decodes_array_loop:
  "list_all2 (decodes d) es rs \<Longrightarrow> decodes (dec_array T d (length es) i t) (concat es) (build_array T rs i t)"
proof (induction es rs arbitrary: i t rule: list_all2_induct)
  case Nil
  then show ?case by (simp add: decodes_ret)
next
  case (Cons e es r rs)
  show ?case
    unfolding list.size concat.simps dec_array.simps build_array.simps add_Suc_right add_0_right
    by (rule decodes_bind_result [OF Cons(1)], rule decodes_bind_lift, rule Cons(3))
qed

lemma decodes_map_loop:
  assumes "list_all2 (\<lambda>(e, e') (k, v). decodes d e k \<and> decodes d e' v) es rs"
  shows "decodes (dec_map T d (length es) t) (concat (map (\<lambda>(e, e'). e @ e') es)) (build_map T rs t)"
  using assms
proof (induction es rs arbitrary: t rule: list_all2_induct)
  case Nil
  then show ?case by (simp add: decodes_ret)
next
  case (Cons ee es kv rs)
  obtain e e' k v where ee: "ee = (e, e')" and kv: "kv = (k, v)" by (cases ee, cases kv)
  have d: "decodes d e k" "decodes d e' v" using Cons(1) by (simp_all add: ee kv)
  have "decodes (dec_bind d (\<lambda>k. dec_bind d (\<lambda>v. if v = VNil then dec_map T d (length es) t
      else dec_bind (dec_lift (lt_set T k v t)) (dec_map T d (length es)))))
      (e @ e' @ concat (map (\<lambda>(e, e'). e @ e') es)) (build_map T ((k, v) # rs) t)"
    unfolding build_map.simps
  proof (rule decodes_bind_result [OF d(1)], rule decodes_bind_result [OF d(2)])
    fix k v
    have "decodes (dec_bind (dec_lift (lt_set T k v t)) (dec_map T d (length es))) (concat (map (\<lambda>(e, e'). e @ e') es))
        (case lt_set T k v t of Inl e \<Rightarrow> Inl e | Inr t \<Rightarrow> build_map T rs t)"
      by (rule decodes_bind_lift, rule Cons(3))
    then show "decodes (if v = VNil then dec_map T d (length es) t else dec_bind (dec_lift (lt_set T k v t)) (dec_map T d (length es)))
        (concat (map (\<lambda>(e, e'). e @ e') es))
        (if v = VNil then build_map T rs t else case lt_set T k v t of Inl e \<Rightarrow> Inl e | Inr t \<Rightarrow> build_map T rs t)"
      using Cons(3) by simp
  qed
  then show ?case by (simp add: ee kv)
qed

lemma lval_depth_child: "(k, v) \<in> set t \<Longrightarrow> lval_depth k < lval_depth (VTable t) \<and> lval_depth v < lval_depth (VTable t)"
proof -
  assume "(k, v) \<in> set t"
  then have "max (lval_depth k) (lval_depth v) \<le> foldr max (map (\<lambda>(k, v). max (lval_depth k) (lval_depth v)) t) 0"
    by (induction t) auto
  then show ?thesis by simp
qed

lemma map_eq_InrD: "concat (map (\<lambda>(_, k, v). [k, v]) enc) = map Inr es \<Longrightarrow>
    \<exists>ps. map snd enc = map (\<lambda>(e, e'). (Inr e, Inr e')) ps \<and> concat es = concat (map (\<lambda>(e, e'). e @ e') ps)"
proof (induction enc arbitrary: es)
  case (Cons x enc)
  obtain y k v where x: "x = (y, k, v)" by (cases x)
  with Cons.prems obtain e e' es' where e: "es = e # e' # es'" "k = Inr e" "v = Inr e'"
    "concat (map (\<lambda>(_, k, v). [k, v]) enc) = map Inr es'"
    by (cases es; cases "tl es") auto
  from Cons.IH [OF e(4)] obtain ps where
    "map snd enc = map (\<lambda>(e, e'). (Inr e, Inr e')) ps" "concat es' = concat (map (\<lambda>(e, e'). e @ e') ps)" by blast
  then show ?case using x e by (intro exI [of _ "(e, e') # ps"]) simp
qed simp

lemma mp_decode_encode:
  assumes "mp_encode T v = Inr bs" and "mp_fits v" and "lval_depth v < n"
  shows "decodes (mp_decode T n) bs (mp_built T v)"
  using assms
proof (induction v arbitrary: n bs)
  case (VTable t)
  then obtain m where n: "n = Suc m" by (cases n) auto
  let ?enc = "map (\<lambda>(k, v). (k, mp_encode T k, mp_encode T v)) t"
  let ?built = "map (\<lambda>(k, v). (k, mp_built T k, mp_built T v)) t"
  let ?d = "mp_decode T m"
  have child: "decodes ?d e (mp_built T k)" "decodes ?d e' (mp_built T v)"
    if "(k, v) \<in> set t" "mp_encode T k = Inr e" "mp_encode T v = Inr e'" for k v e e'
  proof -
    have "mp_fits k" "mp_fits v" using VTable.prems(2) that(1) by (auto simp: list_all_iff)
    moreover have "lval_depth k < m" "lval_depth v < m"
      using lval_depth_child [OF that(1)] VTable.prems(3) n by auto
    ultimately show "decodes ?d e (mp_built T k)" "decodes ?d e' (mp_built T v)"
      using VTable.IH that by (auto simp: prod_set_defs)
  qed
  have elem: "decodes ?d e' (mp_built T v)" if "(k, v) \<in> set t" "mp_encode T v = Inr e'" for k v e'
  proof -
    have "mp_fits v" using VTable.prems(2) that(1) by (auto simp: list_all_iff)
    moreover have "lval_depth v < m" using lval_depth_child [OF that(1)] VTable.prems(3) n by auto
    ultimately show ?thesis using VTable.IH that by (auto simp: prod_set_defs)
  qed
  show ?case
  proof (cases "is_array T t")
    case True
    let ?b = "lt_border T t"
    let ?f = "\<lambda>i. case map_of ?enc (VInt (int i)) of Some (_, v) \<Rightarrow> v | None \<Rightarrow> Inr [0xc0]"
    let ?g = "\<lambda>i. case map_of ?built (VInt (int i)) of Some (_, v) \<Rightarrow> v | None \<Rightarrow> Inr VNil"
    have b: "?b < 2 ^ 32" using True VTable.prems(2) by (simp add: is_array_def)
    obtain es where es: "map ?f [1..<?b + 1] = map Inr es" "bs = mp_array_header ?b @ concat es"
      using concat_ok_header VTable.prems(1) [unfolded mp_encode.simps mp_table_def if_P [OF True]] by blast
    have len: "length es = ?b" using arg_cong [OF es(1), of length] by (simp del: upt_Suc)
    have nth: "?f (i + 1) = Inr (es ! i)" if "i < length es" for i
      using arg_cong [OF es(1), of "\<lambda>xs. xs ! i"] that len by (simp del: upt_Suc)
    have look: "map_of ?enc k = map_option (\<lambda>v. (mp_encode T k, mp_encode T v)) (map_of t k)"
      "map_of ?built k = map_option (\<lambda>v. (mp_built T k, mp_built T v)) (map_of t k)" for k
      by (induction t) auto
    have m: "0 < m" if "0 < length t"
      using that lval_depth_child [of "fst (hd t)" "snd (hd t)" t] VTable.prems(3) n by (cases t) auto
    have "list_all2 (decodes ?d) es (map ?g [1..<?b + 1])"
    proof (rule list_all2_all_nthI)
      fix i assume i: "i < length es"
      show "decodes ?d (es ! i) (map ?g [1..<?b + 1] ! i)"
      proof (cases "map_of t (VInt (int (i + 1)))")
        case None
        then have "es ! i = [0xc0]" using nth [OF i] look by simp
        moreover have "mp_tag T d 0xc0 = dec_ret VNil" for d by (simp add: mp_tag_def)
        then have "decodes (mp_decode T (Suc m')) [0xc0] (Inr VNil)" for m'
          by (auto intro!: decodes_u8 decodes_ret)
        moreover have "length t = ?b" using True by (simp add: is_array_def)
        ultimately show ?thesis using None look i len m by (cases m) (simp_all del: upt_Suc mp_decode.simps)
      next
        case (Some v)
        then have "mp_encode T v = Inr (es ! i)" using nth [OF i] look by simp
        from elem [OF map_of_SomeD [OF Some] this] show ?thesis
          using Some look i len by (simp del: upt_Suc)
      qed
    qed (simp add: len del: upt_Suc)
    from decodes_array_header [OF b decodes_array_loop [OF this, of T 1 "[]", unfolded len]]
    show ?thesis using True by (simp add: n es(2) build_table_def del: upt_Suc)
  next
    case False
    have l: "length t < 2 ^ 32" using VTable.prems(2) by simp
    obtain es where es: "concat (map (\<lambda>(_, k, v). [k, v]) ?enc) = map Inr es" "bs = mp_map_header (length t) @ concat es"
      using concat_ok_header VTable.prems(1) [unfolded mp_encode.simps mp_table_def if_not_P [OF False]] by blast
    from map_eq_InrD [OF es(1)] obtain ps where
      ps: "map snd ?enc = map (\<lambda>(e, e'). (Inr e, Inr e')) ps" "concat es = concat (map (\<lambda>(e, e'). e @ e') ps)" by blast
    have len: "length ps = length t" using arg_cong [OF ps(1), of length] by simp
    have "list_all2 (\<lambda>(e, e') (k, v). decodes ?d e k \<and> decodes ?d e' v) ps (map snd ?built)"
    proof (rule list_all2_all_nthI)
      fix i assume i: "i < length ps"
      obtain k v where kv: "t ! i = (k, v)" by (cases "t ! i")
      then have mem: "(k, v) \<in> set t" using i len nth_mem by metis
      have "(mp_encode T k, mp_encode T v) = (case ps ! i of (e, e') \<Rightarrow> (Inr e, Inr e'))"
        using arg_cong [OF ps(1), of "\<lambda>xs. xs ! i"] i len kv by simp
      then show "(\<lambda>(e, e') (k, v). decodes ?d e k \<and> decodes ?d e' v) (ps ! i) (map snd ?built ! i)"
        using child [OF mem] i len kv by (auto split: prod.splits)
    qed (simp add: len)
    from decodes_map_header [OF l decodes_map_loop [OF this, of T "[]", unfolded len]]
    show ?thesis using False by (simp add: n es(2) ps(2) build_table_def)
  qed
next
  case (VNum x)
  then obtain m where n: "n = Suc m" by (cases n) simp_all
  have "bs = mp_number x" using VNum by simp
  then show ?case unfolding n mp_decode.simps by (simp only: decodes_mp_number)
next
  case (VInt i)
  then show ?case using decodes_mp_int [of i T] by (cases n) auto
next
  case (VStr s)
  then show ?case using decodes_mp_str [of s T] by (cases n) auto
next
  case VNil
  have "mp_tag T d 0xc0 = dec_ret VNil" for d by (simp add: mp_tag_def)
  with VNil show ?case by (cases n) (auto intro!: decodes_u8 decodes_ret)
next
  case (VBool b)
  have "mp_tag T d 0xc2 = dec_ret (VBool False)" "mp_tag T d 0xc3 = dec_ret (VBool True)" for d by (simp_all add: mp_tag_def)
  with VBool show ?case by (cases n) (auto intro!: decodes_u8 decodes_ret)
qed simp
section \<open>Unpacking\<close>

text \<open>What is left over is shorter, and a call for every byte is room enough.\<close>

definition dec_ok :: "nat \<Rightarrow> 'a dec \<Rightarrow> bool" where
  "dec_ok n d \<longleftrightarrow> (\<forall>data. (\<forall>x left. d data = Some (Inr (x, left)) \<longrightarrow> length left \<le> length data) \<and>
     (length data < n \<longrightarrow> d data \<noteq> None))"

lemma dec_ok_ret [simp]: "dec_ok n (dec_ret x)"
  by (simp add: dec_ok_def dec_ret_def)

lemma dec_ok_fail [simp]: "dec_ok n (dec_fail e)"
  by (simp add: dec_ok_def dec_fail_def)

lemma dec_ok_lift [simp]: "dec_ok n (dec_lift r)"
  by (cases r) (simp_all add: dec_lift_def)

lemma dec_ok_bind: "dec_ok n p \<Longrightarrow> (\<And>x. dec_ok n (f x)) \<Longrightarrow> dec_ok n (dec_bind p f)"
  unfolding dec_ok_def dec_bind_def by (fastforce split: option.splits sum.splits)

lemma dec_ok_take [simp]: "dec_ok n (dec_take k)"
  by (simp add: dec_ok_def dec_take_def)

lemma dec_ok_be [simp]: "dec_ok n (dec_be k)"
  by (simp add: dec_be_def dec_ok_bind)

lemma dec_ok_str [simp]: "dec_ok n (dec_str k)"
  by (simp add: dec_str_def dec_ok_bind)

lemma dec_ok_array: "dec_ok n d \<Longrightarrow> dec_ok n (dec_array T d k i t)"
  by (induction k arbitrary: i t) (simp_all add: dec_ok_bind)

lemma dec_ok_map: "dec_ok n d \<Longrightarrow> dec_ok n (dec_map T d k t)"
  by (induction k arbitrary: t) (simp_all add: dec_ok_bind)

lemma dec_ok_tag: "dec_ok n d \<Longrightarrow> dec_ok n (mp_tag T d tag)"
  unfolding mp_tag_def Let_def by (simp add: dec_ok_bind dec_ok_array dec_ok_map)

lemma dec_u8_simps: "dec_bind dec_u8 f [] = Some (Inl (ascii ''truncated msgpack input''))"
  "dec_bind dec_u8 f (b # data) = f b data"
  by (simp_all add: dec_u8_def dec_bind_def dec_take_def dec_ret_def)

lemma mp_decode_ok: "dec_ok n (mp_decode T n)"
proof (induction n)
  case 0
  show ?case by (simp add: dec_ok_def)
next
  case (Suc n)
  have tag: "dec_ok n (mp_tag T (mp_decode T n) b)" for b by (rule dec_ok_tag [OF Suc])
  show ?case unfolding dec_ok_def
  proof (intro allI conjI impI)
    fix data x left
    assume "mp_decode T (Suc n) data = Some (Inr (x, left))"
    then obtain b data' where "data = b # data'" "mp_tag T (mp_decode T n) b data' = Some (Inr (x, left))"
      by (cases data) (simp_all add: dec_u8_simps)
    then show "length left \<le> length data" using tag unfolding dec_ok_def by fastforce
  next
    fix data :: bytes
    assume "length data < Suc n"
    then show "mp_decode T (Suc n) data \<noteq> None"
      using tag by (cases data) (simp_all add: dec_u8_simps dec_ok_def)
  qed
qed

lemma mp_decode_shorter: "mp_decode T n data = Some (Inr (v, left)) \<Longrightarrow> length left < length data"
proof (cases n)
  case (Suc m)
  moreover have "dec_ok m (mp_tag T (mp_decode T m) b)" for b by (rule dec_ok_tag [OF mp_decode_ok])
  moreover assume "mp_decode T n data = Some (Inr (v, left))"
  ultimately show ?thesis by (cases data) (fastforce simp: dec_u8_simps dec_ok_def)+
qed simp

text \<open>\<open>unpack\<close>: values until the bytes are used up.\<close>

function mp_unpack :: "lua_tables \<Rightarrow> nat \<Rightarrow> bytes \<Rightarrow> (bytes + lval list) option" where
  "mp_unpack T room data =
     (if data = [] then Some (Inr [])
      else case mp_decode T room data of
             None \<Rightarrow> None
           | Some (Inl e) \<Rightarrow> Some (Inl e)
           | Some (Inr (v, left)) \<Rightarrow> map_option (map_sum id (Cons v)) (mp_unpack T room left))"
  by pat_completeness auto
termination
  by (relation "measure (\<lambda>(_, _, data). length data)") (auto dest: mp_decode_shorter)

declare mp_unpack.simps [simp del]

lemma mp_int_nonempty [simp]: "mp_int i \<noteq> []"
  by (auto simp: mp_int_def int_bytes_def split: if_splits)

lemma mp_encode_nonempty: "mp_encode T v = Inr bs \<Longrightarrow> bs \<noteq> []"
proof (cases v)
  case (VTable t)
  moreover assume "mp_encode T v = Inr bs"
  ultimately show ?thesis
    by (cases "is_array T t") (auto simp: mp_table_def mp_array_header_def mp_map_header_def simp del: concat_ok.simps upt_Suc
      split: if_splits dest!: concat_ok_header)
qed (auto simp: mp_number_def mp_str_def Let_def split: if_splits)

lemma mp_unpack_enough: "length data < n \<Longrightarrow> mp_unpack T n data \<noteq> None"
proof (induction data rule: length_induct)
  case (1 data)
  have "mp_decode T n data \<noteq> None" using 1(2) mp_decode_ok [of n T] by (simp add: dec_ok_def)
  then show ?case
    using 1 mp_decode_shorter [of T n data] by (subst mp_unpack.simps) (auto split: sum.splits prod.splits option.splits)
qed


text \<open>
  \<open>cmsgpack.unpack\<close> has no bound on its recursion: whatever stack there is, an input of one more byte
  than that, all of them headers of arrays with one element, calls \<open>decode\<close> once too often.\<close>

theorem unpack_exhausts_stack:
  "mp_unpack T room (replicate room 0x91 @ [0xc0]) = None"
proof -
  have "mp_decode T n (replicate n 0x91 @ [0xc0]) = None" for n
  proof (induction n)
    case (Suc n)
    have "mp_tag T d 0x91 = dec_array T d 1 1 []" for d
      by (simp add: mp_tag_def)
    moreover have "dec_array T d 1 1 [] data = None" if "d data = None" for d data using that by (simp add: dec_bind_def)
    ultimately show ?case using Suc by (simp add: dec_u8_simps del: dec_array.simps One_nat_def)
  qed simp
  then show ?thesis by (simp add: mp_unpack.simps)
qed

text \<open>A float of \<open>2 ^ 63\<close> passes the test against \<open>i64::MAX\<close> and is packed as the integer one below it.\<close>

lemma pack_saturates: "mp_encode T (VNum (mk_f64 False (1086 * 2 ^ 52))) = mp_encode T (VInt (2 ^ 63 - 1))"
proof -
  let ?x = "mk_f64 False (1086 * 2 ^ 52)"
  have mag: "f64_mag ?x = 1086 * 2 ^ 52" "\<not> f64_neg ?x" by (simp_all add: mk_f64_simps)
  have e: "1086 * 2 ^ 52 div 2 ^ 52 = (1086 :: nat)" "1086 * 2 ^ 52 mod 2 ^ 52 = (0 :: nat)" by simp_all
  have "(2 ^ 52 + 0) * 2 ^ (1086 - 1) = (2 :: nat) ^ 63 * 2 ^ 1074" by (simp only: power_add [symmetric] add_0_right) simp
  then have units: "f64_units ?x = 2 ^ 63 * 2 ^ 1074" by (simp only: f64_units_def mag Let_def e) simp
  have finite: "\<not> is_nan ?x" "\<not> is_infinite ?x" by (simp_all only: is_nan_def is_infinite_def mag inf_mag_def) simp_all
  have "packs_as_int ?x"
    unfolding packs_as_int_def is_integral_def units using finite by (simp only: mod_mult_self2_is_0) simp
  moreover have "f64_to_i64 ?x = 2 ^ 63 - 1"
    using finite mag(2) by (simp only: f64_to_i64_def units Let_def) simp
  ultimately show ?thesis by (simp add: mp_number_def)
qed

text \<open>Tables that iterate in the order of their assignments, for concrete runs.\<close>

definition plain_tables :: lua_tables where
  "plain_tables = \<lparr>
     lt_border = (\<lambda>t. length (takeWhile (\<lambda>i. map_of t (VInt (int i)) \<noteq> None) [1..<length t + 1])),
     lt_set = (\<lambda>k v t. if k = VNil then Inl (ascii ''index is nil'')
       else Inr (if v = VNil then AList.delete k t else AList.update k v t))\<rparr>"


end
