(* ===== verification/Cjson.thy ===== *)
theory Cjson
  imports Msgpack
begin

text \<open>
  cjson (src/commands/scripting/cjson.rs): the encoder, the parser, and that what is encoded is decoded. The values
  and tables are those of Msgpack.
\<close>

section \<open>Encoding\<close>

text \<open>One byte of a string.\<close>

definition json_escape :: "u8 \<Rightarrow> bytes" where
  "json_escape c =
     (if c = 34 then [92, 34]
      else if c = 92 then [92, 92]
      else if c = 8 then [92, 98]
      else if c = 12 then [92, 102]
      else if c = 10 then [92, 110]
      else if c = 13 then [92, 114]
      else if c = 9 then [92, 116]
      else if c < 0x20 then [92, 117, 48, 48, hex_digit (drop_bit 4 c), hex_digit (c AND 15)]
      else [c])"

definition json_string :: "bytes \<Rightarrow> bytes" where
  "json_string s = [34] @ concat (map json_escape s) @ [34]"

definition format_number :: "f64 \<Rightarrow> bytes" where
  "format_number n =
     (if is_integral n \<and> f64_units n < 10 ^ 15 * 2 ^ 1074 then dec_int (f64_to_i64 n) else display_f64 n)"

definition key_text :: "lval \<Rightarrow> bytes option" where
  "key_text k =
     (case k of
        VStr s \<Rightarrow> Some s
      | VInt i \<Rightarrow> Some (dec_int i)
      | VNum n \<Rightarrow>
          Some (if is_nan n then ascii ''NaN''
                else if is_infinite n then ascii (if f64_neg n then ''-inf'' else ''inf'')
                else format_number n)
      | _ \<Rightarrow> None)"

definition json_key :: "lval \<Rightarrow> bytes + bytes" where
  "json_key k =
     (case key_text k of
        Some s \<Rightarrow> Inr (json_string s)
      | None \<Rightarrow> Inl (ascii ''Cannot serialise table: key must be a string or number''))"

text \<open>A comma before every element but the first.\<close>

fun json_commas :: "(bytes + bytes) list \<Rightarrow> (bytes + bytes) list" where
  "json_commas [] = []"
| "json_commas (r # rs) = r # concat (map (\<lambda>r. [Inr [44], r]) rs)"

definition json_table :: "lua_tables \<Rightarrow> (lval \<times> lval) list \<Rightarrow> (lval \<times> (bytes + bytes)) list \<Rightarrow> bytes + bytes" where
  "json_table T t enc =
     (if t = [] then Inr [123, 125]
      else if is_array T t then
        concat_ok ([Inr [91]] @ json_commas
          (map (\<lambda>i. case map_of enc (VInt (int i)) of Some v \<Rightarrow> v | None \<Rightarrow> Inr (ascii ''null'')) [1..<lt_border T t + 1]) @ [Inr [93]])
      else
        concat_ok ([Inr [123]] @ json_commas (map (\<lambda>(k, v). concat_ok [json_key k, Inr [58], v]) enc) @ [Inr [125]]))"

fun json_encode :: "lua_tables \<Rightarrow> lval \<Rightarrow> bytes + bytes" where
  "json_encode T VNil = Inr (ascii ''null'')"
| "json_encode T (VBool b) = Inr (ascii (if b then ''true'' else ''false''))"
| "json_encode T (VInt i) = Inr (dec_int i)"
| "json_encode T (VNum n) =
     (if is_nan n \<or> is_infinite n then Inl (ascii ''Cannot serialise number: must not be NaN or Infinity'')
      else Inr (format_number n))"
| "json_encode T (VStr s) = Inr (json_string s)"
| "json_encode T (VTable t) = json_table T t (map (\<lambda>(k, v). (k, json_encode T v)) t)"
| "json_encode T (VOther name) = Inl (ascii ''Cannot serialise '' @ name @ ascii '': type not supported'')"

section \<open>Decoding strings and numbers\<close>

text \<open>A parser takes the bytes from its position on; see \<open>dec\<close>.\<close>

definition skip_ws :: "bytes \<Rightarrow> bytes" where
  "skip_ws = dropWhile (\<lambda>c. c = 32 \<or> c = 9 \<or> c = 10 \<or> c = 13)"

definition hex_value :: "u8 \<Rightarrow> u32 option" where
  "hex_value c =
     (if 48 \<le> c \<and> c \<le> 57 then Some (ucast c - 48)
      else if 65 \<le> c \<and> c \<le> 70 then Some (ucast c - 55)
      else if 97 \<le> c \<and> c \<le> 102 then Some (ucast c - 87)
      else None)"

text \<open>\<open>u32::from_str_radix(s, 16)\<close>, which takes a sign, on the four bytes of an escape.\<close>

definition from_hex :: "bytes \<Rightarrow> u32 option" where
  "from_hex s =
     (let ds = (if s \<noteq> [] \<and> hd s = 43 then tl s else s) in
      if ds = [] then None
      else foldl (\<lambda>acc c. case (acc, hex_value c) of (Some v, Some d) \<Rightarrow> Some (16 * v + d) | _ \<Rightarrow> None) (Some 0) ds)"

definition read_hex4 :: "bytes \<Rightarrow> bytes + u32 \<times> bytes" where
  "read_hex4 data =
     (if length data < 4 then Inl (ascii ''truncated '' @ [92] @ ascii ''u escape'')
      else case from_hex (take 4 data) of
             None \<Rightarrow> Inl (ascii ''bad '' @ [92] @ ascii ''u escape'')
           | Some v \<Rightarrow> Inr (v, drop 4 data))"

text \<open>\<open>char::from_u32\<close> with \<open>encode_utf8\<close>, or U+FFFD.\<close>

definition utf8_char :: "u32 \<Rightarrow> bytes" where
  "utf8_char cp =
     (let cont = (\<lambda>k. 0x80 OR (ucast (drop_bit k cp) AND 0x3f)) in
      if cp < 0x80 then [ucast cp]
      else if cp < 0x800 then [0xc0 OR ucast (drop_bit 6 cp), cont 0]
      else if 0xd800 \<le> cp \<and> cp < 0xe000 \<or> 0x10ffff < cp then [0xef, 0xbf, 0xbd]
      else if cp < 0x10000 then [0xe0 OR ucast (drop_bit 12 cp), cont 6, cont 0]
      else [0xf0 OR ucast (drop_bit 18 cp), cont 12, cont 6, cont 0])"

text \<open>The sum with the low surrogate is taken modulo \<open>2 ^ 32\<close>, as the release build does.\<close>

definition unicode_escape :: "bytes \<Rightarrow> bytes + bytes \<times> bytes" where
  "unicode_escape data =
     (case read_hex4 data of
        Inl e \<Rightarrow> Inl e
      | Inr (hi, left) \<Rightarrow>
          if 0xd800 \<le> hi \<and> hi \<le> 0xdbff \<and> take 2 left = [92, 117] then
            (case read_hex4 (drop 2 left) of
               Inl e \<Rightarrow> Inl e
             | Inr (lo, left) \<Rightarrow> Inr (utf8_char (0x10000 + push_bit 10 (hi - 0xd800) + (lo - 0xdc00)), left))
          else Inr (utf8_char hi, left))"

lemma unicode_escape_shorter: "unicode_escape data = Inr (out, left) \<Longrightarrow> length left < length data"
  by (auto simp: unicode_escape_def read_hex4_def split: if_splits option.splits sum.splits)

definition simple_escape :: "u8 \<Rightarrow> u8 option" where
  "simple_escape e =
     (if e = 34 then Some 34 else if e = 92 then Some 92 else if e = 47 then Some 47
      else if e = 98 then Some 8 else if e = 102 then Some 12 else if e = 110 then Some 10
      else if e = 114 then Some 13 else if e = 116 then Some 9 else None)"

text \<open>The loop of \<open>parse_string\<close>, behind the opening quote.\<close>

function string_body :: "bytes \<Rightarrow> bytes + bytes \<times> bytes" where
  "string_body data =
     (case data of
        [] \<Rightarrow> Inl (ascii ''unterminated string'')
      | c # left \<Rightarrow>
          if c = 34 then Inr ([], left)
          else if c = 92 then
            (case left of
               [] \<Rightarrow> Inl (ascii ''unterminated escape'')
             | e # left \<Rightarrow>
                 (case simple_escape e of
                    Some b \<Rightarrow> map_sum id (map_prod (Cons b) id) (string_body left)
                  | None \<Rightarrow>
                      if e = 117 then
                        (case unicode_escape left of
                           Inl err \<Rightarrow> Inl err
                         | Inr (out, left) \<Rightarrow> map_sum id (map_prod (append out) id) (string_body left))
                      else Inl (ascii ''invalid escape'')))
          else map_sum id (map_prod (Cons c) id) (string_body left))"
  by pat_completeness auto
termination
  by (relation "measure length") (auto dest: unicode_escape_shorter)

declare string_body.simps [simp del]

definition number_char :: "u8 \<Rightarrow> bool" where
  "number_char c \<longleftrightarrow> is_digit c \<or> c = 45 \<or> c = 43 \<or> c = 46 \<or> c = 101 \<or> c = 69"

definition number_text :: "bytes \<Rightarrow> bytes + lval" where
  "number_text s =
     (let is_float = list_ex (\<lambda>c. c = 46 \<or> c = 101 \<or> c = 69) s;
          as_float = (case parse_f64 s of None \<Rightarrow> Inl (ascii ''invalid number'') | Some d \<Rightarrow> Inr (VNum d))
      in if is_float then as_float else (case parse_i64 s of Some i \<Rightarrow> Inr (VInt i) | None \<Rightarrow> as_float))"

definition json_number :: "lval dec" where
  "json_number data =
     Some (map_sum id (\<lambda>v. (v, dropWhile number_char data)) (number_text (takeWhile number_char data)))"

section \<open>Decoding values\<close>

definition json_literal :: "string \<Rightarrow> lval \<Rightarrow> lval dec" where
  "json_literal lit v data =
     (if take (length lit) data = ascii lit then Some (Inr (v, drop (length lit) data))
      else Some (Inl (ascii ''invalid JSON token'')))"

text \<open>
  The loops of \<open>parse_array\<close> and \<open>parse_object\<close>. A round takes at least one byte, so the bytes at the start
  bound the number of rounds.
\<close>

fun json_elements :: "lua_tables \<Rightarrow> lval dec \<Rightarrow> nat \<Rightarrow> nat \<Rightarrow> (lval \<times> lval) list \<Rightarrow> lval dec" where
  "json_elements T d 0 i t data = None"
| "json_elements T d (Suc rounds) i t data =
     (case d data of
        None \<Rightarrow> None
      | Some (Inl e) \<Rightarrow> Some (Inl e)
      | Some (Inr (v, left)) \<Rightarrow>
          (case lt_set T (VInt (int i)) v t of
             Inl e \<Rightarrow> Some (Inl e)
           | Inr t \<Rightarrow>
               (case skip_ws left of
                  c # left \<Rightarrow>
                    if c = 44 then json_elements T d rounds (Suc i) t left
                    else if c = 93 then Some (Inr (VTable t, left))
                    else Some (Inl (ascii ''expected ',' or ']' in array''))
                | [] \<Rightarrow> Some (Inl (ascii ''expected ',' or ']' in array'')))))"

fun json_members :: "lua_tables \<Rightarrow> lval dec \<Rightarrow> nat \<Rightarrow> (lval \<times> lval) list \<Rightarrow> lval dec" where
  "json_members T d 0 t data = None"
| "json_members T d (Suc rounds) t data =
     (case skip_ws data of
        [] \<Rightarrow> Some (Inl (ascii ''expected string key in object''))
      | c # left \<Rightarrow>
          if c \<noteq> 34 then Some (Inl (ascii ''expected string key in object''))
          else
            (case string_body left of
               Inl e \<Rightarrow> Some (Inl e)
             | Inr (key, left) \<Rightarrow>
                 (case skip_ws left of
                    [] \<Rightarrow> Some (Inl (ascii ''expected ':' in object''))
                  | c # left \<Rightarrow>
                      if c \<noteq> 58 then Some (Inl (ascii ''expected ':' in object''))
                      else
                        (case d left of
                           None \<Rightarrow> None
                         | Some (Inl e) \<Rightarrow> Some (Inl e)
                         | Some (Inr (v, left)) \<Rightarrow>
                             (case (if v = VNil then Inr t else lt_set T (VStr key) v t) of
                                Inl e \<Rightarrow> Some (Inl e)
                              | Inr t \<Rightarrow>
                                  (case skip_ws left of
                                     c # left \<Rightarrow>
                                       if c = 44 then json_members T d rounds t left
                                       else if c = 125 then Some (Inr (VTable t, left))
                                       else Some (Inl (ascii ''expected ',' or '}' in object''))
                                   | [] \<Rightarrow> Some (Inl (ascii ''expected ',' or '}' in object'')))))))) "

definition json_first :: "lua_tables \<Rightarrow> lval dec \<Rightarrow> u8 \<Rightarrow> lval dec" where
  "json_first T d c left =
     (if c = 123 then
        (case skip_ws left of
           left \<Rightarrow> if left \<noteq> [] \<and> hd left = 125 then Some (Inr (VTable [], tl left))
                    else json_members T d (Suc (length left)) [] left)
      else if c = 91 then
        (case skip_ws left of
           left \<Rightarrow> if left \<noteq> [] \<and> hd left = 93 then Some (Inr (VTable [], tl left))
                    else json_elements T d (Suc (length left)) 1 [] left)
      else if c = 34 then Some (map_sum id (map_prod VStr id) (string_body left))
      else if c = 116 then json_literal ''true'' (VBool True) (c # left)
      else if c = 102 then json_literal ''false'' (VBool False) (c # left)
      else if c = 110 then json_literal ''null'' VNil (c # left)
      else if c = 45 \<or> is_digit c then json_number (c # left)
      else Some (Inl (ascii ''unexpected character in JSON'')))"

text \<open>As \<open>mp_decode\<close>, with room for so many nested calls of \<open>parse_value\<close>.\<close>

fun json_value :: "lua_tables \<Rightarrow> nat \<Rightarrow> lval dec" where
  "json_value T 0 data = None"
| "json_value T (Suc room) data =
     (case skip_ws data of
        [] \<Rightarrow> Some (Inl (ascii ''unexpected character in JSON''))
      | c # left \<Rightarrow> json_first T (json_value T room) c left)"

definition json_decode :: "lua_tables \<Rightarrow> nat \<Rightarrow> bytes \<Rightarrow> (bytes + lval) option" where
  "json_decode T room data =
     map_option (\<lambda>r. case r of
         Inl e \<Rightarrow> Inl e
       | Inr (v, left) \<Rightarrow> if skip_ws left = [] then Inr v else Inl (ascii ''Expected the end but found trailing garbage''))
       (json_value T room (skip_ws data))"

section \<open>Strings\<close>

lemma string_body_simps:
  "string_body (34 # left) = Inr ([], left)"
  "c \<noteq> 34 \<Longrightarrow> c \<noteq> 92 \<Longrightarrow> string_body (c # left) = map_sum id (map_prod (Cons c) id) (string_body left)"
  "simple_escape e = Some b \<Longrightarrow> string_body (92 # e # left) = map_sum id (map_prod (Cons b) id) (string_body left)"
  "unicode_escape left = Inr (out, left') \<Longrightarrow>
    string_body (92 # 117 # left) = map_sum id (map_prod (append out) id) (string_body left')"
  by (simp_all add: string_body.simps [of "_ # _"]) (simp add: simple_escape_def)

lemma control_escape:
  assumes "c < 0x20"
  shows "unicode_escape (48 # 48 # hex_digit (drop_bit 4 c) # hex_digit (c AND 15) # left) = Inr ([c], left)"
proof -
  have "list_all (\<lambda>n. let c = of_nat n :: u8; w = ucast c :: u32 in
      from_hex [48, 48, hex_digit (drop_bit 4 c), hex_digit (c AND 15)] = Some w \<and> \<not> 0xd800 \<le> w \<and> utf8_char w = [c]) [0..<32]"
    by code_simp
  moreover have inverse: "(of_nat (unat c) :: u8) = c" by simp
  moreover have "unat c \<in> set [0..<32]" using assms by (simp add: word_less_nat_alt)
  ultimately have "from_hex [48, 48, hex_digit (drop_bit 4 c), hex_digit (c AND 15)] = Some (ucast c)"
    "\<not> 0xd800 \<le> (ucast c :: u32)" "utf8_char (ucast c) = [c]"
    using inverse unfolding list_all_iff Let_def by metis+
  then show ?thesis by (simp add: unicode_escape_def read_hex4_def)
qed

lemma string_body_escape: "string_body (json_escape c @ left) = map_sum id (map_prod (Cons c) id) (string_body left)"
proof -
  have "(@) [c] = Cons c" by (rule ext) simp
  then show ?thesis using control_escape [of c left]
    by (auto simp: json_escape_def string_body_simps simple_escape_def)
qed

lemma string_body_string: "string_body (concat (map json_escape s) @ 34 # left) = Inr (s, left)"
  by (induction s) (simp_all add: string_body_simps string_body_escape)

section \<open>What encoded JSON decodes to\<close>

fun json_built :: "lua_tables \<Rightarrow> lval \<Rightarrow> bytes + lval" where
  "json_built T (VNum n) = number_text (format_number n)"
| "json_built T (VTable t) =
     (let bs = map (\<lambda>(k, v). (k, json_built T v)) t in
      if t = [] then Inr (VTable [])
      else if is_array T t then
        build_array T (map (\<lambda>i. case map_of bs (VInt (int i)) of Some v \<Rightarrow> v | None \<Rightarrow> Inr VNil) [1..<lt_border T t + 1]) 1 []
      else build_map T (map (\<lambda>(k, v). (Inr (VStr (the (key_text k))), v)) bs) [])"
| "json_built T v = Inr v"

text \<open>Integers of 64 bits, and floats whose text the number parser can cut out again.\<close>

definition number_like :: "bytes \<Rightarrow> bool" where
  "number_like s \<longleftrightarrow> s \<noteq> [] \<and> (hd s = 45 \<or> is_digit (hd s)) \<and> list_all number_char s"

fun json_fits :: "lval \<Rightarrow> bool" where
  "json_fits (VInt i) \<longleftrightarrow> i64_ok i"
| "json_fits (VNum n) \<longleftrightarrow> number_like (format_number n)"
| "json_fits (VTable t) \<longleftrightarrow> list_all id (map (\<lambda>(_, v). json_fits v) t)"
| "json_fits _ \<longleftrightarrow> True"

text \<open>Only what can follow a value may come behind it: a number does not end before that.\<close>

definition delimited :: "bytes \<Rightarrow> bool" where
  "delimited left \<longleftrightarrow> left = [] \<or> hd left \<in> {44, 93, 125}"

definition parses :: "lval dec \<Rightarrow> bytes \<Rightarrow> bytes + lval \<Rightarrow> bool" where
  "parses d e r \<longleftrightarrow> (\<forall>left. delimited left \<longrightarrow> d (e @ left) = Some (map_sum id (\<lambda>x. (x, left)) r))"

lemma skip_ws_delimited [simp]: "delimited left \<Longrightarrow> skip_ws left = left"
  by (cases left) (auto simp: delimited_def skip_ws_def)

lemma skip_ws_Cons: "c \<notin> {32, 9, 10, 13} \<Longrightarrow> skip_ws (c # left) = c # left"
  by (simp add: skip_ws_def)

lemma json_number_parses: "number_like s \<Longrightarrow> parses json_number s (number_text s)"
proof -
  assume "number_like s"
  then have "takeWhile number_char (s @ left) = s" "dropWhile number_char (s @ left) = left" if "delimited left" for left
    using that by (cases left; auto simp: number_like_def delimited_def list_all_iff number_char_def is_digit_def takeWhile_append2 dropWhile_append2)+
  then show ?thesis by (simp add: parses_def json_number_def)
qed

lemma dec_int_chars: "c \<in> set (dec_int i) \<Longrightarrow> c = 45 \<or> is_digit c"
  using dec_nat_digits by (auto simp: dec_int_def split: if_splits)

lemma number_like_dec_int: "number_like (dec_int i)"
proof -
  have "dec_int i \<noteq> []" by (simp add: dec_int_def)
  moreover from this have "hd (dec_int i) \<in> set (dec_int i)" by simp
  then have "hd (dec_int i) = 45 \<or> is_digit (hd (dec_int i))" by (rule dec_int_chars)
  moreover have "list_all number_char (dec_int i)"
    using dec_int_chars [of _ i] by (auto simp: list_all_iff number_char_def)
  ultimately show ?thesis by (simp add: number_like_def)
qed

lemma number_text_dec_int: "i64_ok i \<Longrightarrow> number_text (dec_int i) = Inr (VInt i)"
proof -
  assume "i64_ok i"
  moreover have "\<not> list_ex (\<lambda>c. c = 46 \<or> c = 101 \<or> c = 69) (dec_int i)"
    using dec_int_chars [of 46 i] dec_int_chars [of 101 i] dec_int_chars [of 69 i] by (auto simp: list_ex_iff is_digit_def)
  ultimately show ?thesis by (simp add: number_text_def)
qed

lemma json_first_number: "c = 45 \<or> is_digit c \<Longrightarrow> json_first T d c left = json_number (c # left)"
  by (auto simp: json_first_def is_digit_def)

lemma number_parses:
  assumes "number_like s"
  shows "parses (json_value T (Suc n)) s (number_text s)"
proof -
  obtain c s' where s: "s = c # s'" "c = 45 \<or> is_digit c" using assms by (cases s) (auto simp: number_like_def)
  then have "c \<notin> {32, 9, 10, 13}" by (auto simp: is_digit_def)
  then have "json_value T (Suc n) (s @ left) = json_number (s @ left)" for left
    using s by (simp add: skip_ws_Cons json_first_number)
  then show ?thesis using json_number_parses [OF assms] by (simp add: parses_def)
qed

lemma string_parses: "parses (json_value T (Suc n)) (json_string s) (Inr (VStr s))"
  using string_body_string [of s]
  by (simp add: parses_def json_string_def skip_ws_Cons json_first_def)

lemma literal_parses:
  "parses (json_value T (Suc n)) (ascii ''null'') (Inr VNil)"
  "parses (json_value T (Suc n)) (ascii ''true'') (Inr (VBool True))"
  "parses (json_value T (Suc n)) (ascii ''false'') (Inr (VBool False))"
  by (simp_all add: parses_def ascii_def skip_ws_Cons json_first_def json_literal_def)

text \<open>How a value begins.\<close>

definition json_start :: "bytes \<Rightarrow> bool" where
  "json_start e \<longleftrightarrow> e \<noteq> [] \<and> hd e \<notin> {32, 9, 10, 13, 93, 125}"

lemma json_start_skip: "json_start e \<Longrightarrow> skip_ws (e @ left) = e @ left"
  by (cases e) (simp_all add: json_start_def skip_ws_Cons)

lemma number_like_start: "number_like s \<Longrightarrow> json_start s"
  by (cases s) (auto simp: number_like_def json_start_def is_digit_def)

lemma json_start_cases:
  "json_start (json_string s)" "json_start (ascii ''null'')" "json_start (ascii ''true'')" "json_start (ascii ''false'')"
  "json_start (91 # e)" "json_start (123 # e)"
  by (simp_all add: json_start_def json_string_def ascii_def)

lemma json_encode_start: "json_encode T v = Inr e \<Longrightarrow> json_fits v \<Longrightarrow> json_start e"
proof (cases v)
  case (VTable t)
  moreover assume "json_encode T v = Inr e"
  ultimately show ?thesis
    by (auto simp: json_table_def json_start_cases simp del: concat_ok.simps(3) upt_Suc split: if_splits dest!: concat_ok_header)
qed (auto simp: json_start_cases number_like_start number_like_dec_int split: if_splits)

lemma json_commas_Inr:
  assumes "concat_ok ([Inr open] @ json_commas rs @ [Inr close]) = Inr bs" and "rs \<noteq> []"
  obtains x xs where "rs = Inr x # map Inr xs" "bs = open @ x @ concat (map (Cons 44) xs) @ close"
proof -
  obtain es where es: "[Inr open] @ json_commas rs @ [Inr close] = map Inr es" "bs = concat es"
    using concat_ok_Inr [OF assms(1)] by blast
  then obtain es' where es': "es = open # es' @ [close]" "json_commas rs = map Inr es'"
    by (cases es rule: rev_cases; cases "butlast es") (auto simp: Cons_eq_map_conv append_eq_map_conv)
  obtain r rs' where r: "rs = r # rs'" using assms(2) by (cases rs) auto
  then obtain x es'' where x: "r = Inr x" "es' = x # es''" "concat (map (\<lambda>r. [Inr [44], r]) rs') = map Inr es''"
    using es'(2) by (auto simp: Cons_eq_map_conv)
  from x(3) have "\<exists>xs. rs' = map Inr xs \<and> concat es'' = concat (map (Cons 44) xs)"
  proof (induction rs' arbitrary: es'')
    case (Cons r rs')
    then obtain e es3 where "r = Inr e" "es'' = [44] # e # es3" "concat (map (\<lambda>r. [Inr [44], r]) rs') = map Inr es3"
      by (auto simp: Cons_eq_map_conv)
    moreover from Cons.IH [OF this(3)] obtain xs where "rs' = map Inr xs" "concat es3 = concat (map (Cons 44) xs)" by blast
    ultimately show ?case by (intro exI [of _ "e # xs"]) simp
  qed simp
  then show thesis using that r x es' es(2) by auto
qed

section \<open>The loops\<close>

lemma elements_parse:
  assumes "list_all2 (parses d) (e # es) (r # rs)" and "length es < rounds"
  shows "json_elements T d rounds i t (e @ concat (map (Cons 44) es) @ 93 # left) =
    Some (map_sum id (\<lambda>x. (x, left)) (build_array T (r # rs) i t))"
  using assms
proof (induction es arbitrary: e r rs rounds i t)
  case Nil
  then obtain k where k: "rounds = Suc k" by (cases rounds) auto
  have d: "d (e @ 93 # left) = Some (map_sum id (\<lambda>x. (x, 93 # left)) r)"
    using Nil.prems by (simp add: parses_def delimited_def)
  show ?case using Nil.prems(1) by (cases r) (auto simp: k d skip_ws_Cons split: sum.splits)
next
  case (Cons e' es)
  then obtain k r' rs' where k: "rounds = Suc k" and rs: "rs = r' # rs'" by (cases rounds; cases rs) auto
  let ?left = "44 # e' @ concat (map (Cons 44) es) @ 93 # left"
  have d: "d (e @ ?left) = Some (map_sum id (\<lambda>x. (x, ?left)) r)"
    using Cons.prems by (simp add: parses_def delimited_def)
  have ih: "json_elements T d k (Suc i) t (e' @ concat (map (Cons 44) es) @ 93 # left) =
      Some (map_sum id (\<lambda>x. (x, left)) (build_array T (r' # rs') (Suc i) t))" for t
    using Cons.prems by (intro Cons.IH) (simp_all add: k rs)
  show ?case using ih by (cases r) (auto simp: k d rs skip_ws_Cons id_def split: sum.splits)
qed

lemma json_members_round:
  assumes "d (e @ c # left) = Some (map_sum id (\<lambda>x. (x, c # left)) v)" and "c = 44 \<or> c = 125"
  shows "json_members T d (Suc n) t (json_string k @ 58 # e @ c # left) =
    (case v of
       Inl x \<Rightarrow> Some (Inl x)
     | Inr v \<Rightarrow>
         (case (if v = VNil then Inr t else lt_set T (VStr k) v t) of
            Inl x \<Rightarrow> Some (Inl x)
          | Inr t \<Rightarrow> if c = 44 then json_members T d n t left else Some (Inr (VTable t, left))))"
proof -
  have ws: "skip_ws (44 # l) = 44 # l" "skip_ws (125 # l) = 125 # l" "skip_ws (58 # l) = 58 # l" "skip_ws (34 # l) = 34 # l" for l
    by (auto intro!: skip_ws_Cons)
  show ?thesis
    using assms(2) by (cases v) (auto simp: json_string_def string_body_string ws assms(1) split: sum.splits)
qed

lemma members_parse:
  assumes "list_all2 (\<lambda>(k, e) (k', r). k' = Inr (VStr k) \<and> parses d e r) (m # ms) (r # rs)" and "length ms < rounds"
  shows "json_members T d rounds t
      ((\<lambda>(k, e). json_string k @ 58 # e) m @ concat (map (Cons 44 \<circ> (\<lambda>(k, e). json_string k @ 58 # e)) ms) @ 125 # left) =
    Some (map_sum id (\<lambda>x. (x, left)) (build_map T (r # rs) t))"
  using assms
proof (induction ms arbitrary: m r rs rounds t)
  case Nil
  then obtain n where n: "rounds = Suc n" by (cases rounds) auto
  obtain k e v where m: "m = (k, e)" "r = (Inr (VStr k), v)" using Nil.prems(1) by (cases m; cases r) auto
  have d: "d (e @ 125 # left) = Some (map_sum id (\<lambda>x. (x, 125 # left)) v)"
    using Nil.prems by (simp add: parses_def delimited_def m)
  show ?case using Nil.prems(1) json_members_round [of d e 125 left v T n t k, OF d]
    by (cases v) (auto simp: n m split: sum.splits simp del: json_members.simps)
next
  case (Cons m' ms)
  then obtain n r' rs' where n: "rounds = Suc n" and rs: "rs = r' # rs'" by (cases rounds; cases rs) auto
  obtain k e v where m: "m = (k, e)" "r = (Inr (VStr k), v)" using Cons.prems(1) by (cases m; cases r) auto
  define left' where "left' = (\<lambda>(k, e). json_string k @ 58 # e) m' @ concat (map (Cons 44 \<circ> (\<lambda>(k, e). json_string k @ 58 # e)) ms) @ 125 # left"
  have d: "d (e @ 44 # left') = Some (map_sum id (\<lambda>x. (x, 44 # left')) v)"
    using Cons.prems by (simp add: parses_def delimited_def m)
  have ih: "json_members T d n t left' = Some (map_sum id (\<lambda>x. (x, left)) (build_map T (r' # rs') t))" for t
    unfolding left'_def using Cons.prems by (intro Cons.IH) (simp_all add: n rs)
  have "json_members T d rounds t (json_string k @ 58 # e @ 44 # left') =
      Some (map_sum id (\<lambda>x. (x, left)) (build_map T ((Inr (VStr k), v) # r' # rs') t))"
    unfolding n json_members_round [of d e 44 left' v, OF d disjI1 [OF refl]] build_map.simps(2) [of T "Inr (VStr k)"] ih
    by (simp split: sum.splits)
  then show ?case by (simp add: m rs left'_def comp_def id_def)
qed

section \<open>Round trip\<close>

lemma array_parses:
  assumes "list_all2 (parses (json_value T n)) (e # es) (r # rs)" and "json_start e"
  shows "parses (json_value T (Suc n)) (91 # e @ concat (map (Cons 44) es) @ [93]) (build_array T (r # rs) 1 [])"
  unfolding parses_def
proof (intro allI impI)
  fix left
  let ?in = "e @ concat (map (Cons 44) es) @ 93 # left"
  have ws: "skip_ws ?in = ?in" "?in \<noteq> []" "hd ?in \<noteq> 93"
    using json_start_skip [OF assms(2)] assms(2) by (auto simp: json_start_def)
  have "length es \<le> length (concat (map (Cons 44) es :: bytes list))" by (induction es) auto
  then have "length es < Suc (length ?in)" by simp
  from elements_parse [OF assms(1) this] ws
  show "json_value T (Suc n) ((91 # e @ concat (map (Cons 44) es) @ [93]) @ left) =
      Some (map_sum id (\<lambda>x. (x, left)) (build_array T (r # rs) 1 []))"
    by (simp add: skip_ws_Cons json_first_def Let_def del: json_elements.simps build_array.simps)
qed

lemma object_parses:
  assumes "list_all2 (\<lambda>(k, e) (k', r). k' = Inr (VStr k) \<and> parses (json_value T n) e r) (m # ms) (r # rs)"
  shows "parses (json_value T (Suc n))
    (123 # (\<lambda>(k, e). json_string k @ 58 # e) m @ concat (map (Cons 44 \<circ> (\<lambda>(k, e). json_string k @ 58 # e)) ms) @ [125])
    (build_map T (r # rs) [])"
  unfolding parses_def
proof (intro allI impI)
  fix left
  let ?in = "(\<lambda>(k, e). json_string k @ 58 # e) m @ concat (map (Cons 44 \<circ> (\<lambda>(k, e). json_string k @ 58 # e)) ms) @ 125 # left"
  have ws: "skip_ws ?in = ?in" "?in \<noteq> []" "hd ?in \<noteq> 125"
    by (cases m; simp add: json_string_def skip_ws_Cons)+
  have "length ms \<le> length (concat (map (Cons 44 \<circ> (\<lambda>(k, e). json_string k @ 58 # e)) ms))" by (induction ms) auto
  then have "length ms < Suc (length ?in)" by simp
  from members_parse [OF assms this] ws
  show "json_value T (Suc n) ((123 # (\<lambda>(k, e). json_string k @ 58 # e) m @
        concat (map (Cons 44 \<circ> (\<lambda>(k, e). json_string k @ 58 # e)) ms) @ [125]) @ left) =
      Some (map_sum id (\<lambda>x. (x, left)) (build_map T (r # rs) []))"
    by (simp add: skip_ws_Cons json_first_def Let_def del: json_members.simps build_map.simps)
qed

lemma json_value_encode:
  assumes "json_encode T v = Inr bs" and "json_fits v" and "lval_depth v < n"
  shows "parses (json_value T n) bs (json_built T v)"
  using assms
proof (induction v arbitrary: n bs)
  case (VTable t)
  then obtain m where n: "n = Suc m" by (cases n) auto
  let ?enc = "map (\<lambda>(k, v). (k, json_encode T v)) t"
  let ?built = "map (\<lambda>(k, v). (k, json_built T v)) t"
  have elem: "parses (json_value T m) e (json_built T v)" "json_start e" if "(k, v) \<in> set t" "json_encode T v = Inr e" for k v e
  proof -
    have "json_fits v" using VTable.prems(2) that(1) by (auto simp: list_all_iff)
    moreover have "lval_depth v < m" using lval_depth_child [OF that(1)] VTable.prems(3) n by auto
    ultimately show "parses (json_value T m) e (json_built T v)" "json_start e"
      using VTable.IH that json_encode_start by (auto simp: prod_set_defs)
  qed
  have look: "map_of ?enc k = map_option (json_encode T) (map_of t k)" "map_of ?built k = map_option (json_built T) (map_of t k)" for k
    by (induction t) auto
  consider "t = []" | "t \<noteq> []" "is_array T t" | "t \<noteq> []" "\<not> is_array T t" by blast
  then show ?case
  proof cases
    case 1
    then show ?thesis using VTable.prems(1)
      by (auto simp: n json_table_def parses_def skip_ws_Cons json_first_def Let_def)
  next
    case 2
    let ?b = "lt_border T t"
    let ?f = "\<lambda>i. case map_of ?enc (VInt (int i)) of Some v \<Rightarrow> v | None \<Rightarrow> Inr (ascii ''null'')"
    let ?g = "\<lambda>i. case map_of ?built (VInt (int i)) of Some v \<Rightarrow> v | None \<Rightarrow> Inr VNil"
    have b: "length t = ?b" using 2 by (simp add: is_array_def)
    then have "0 < ?b" using 2(1) by (simp flip: b)
    note b = b this
    have m: "0 < m" using b lval_depth_child [of "fst (hd t)" "snd (hd t)" t] VTable.prems(3) n by (cases t) auto
    have "concat_ok ([Inr [91]] @ json_commas (map ?f [1..<?b + 1]) @ [Inr [93]]) = Inr bs"
      using VTable.prems(1) 2 by (simp add: json_table_def del: upt_Suc concat_ok.simps)
    then obtain e es where es: "map ?f [1..<?b + 1] = Inr e # map Inr es" "bs = [91] @ e @ concat (map (Cons 44) es) @ [93]"
      by (rule json_commas_Inr) (use b in \<open>simp del: upt_Suc\<close>)
    have len: "length (e # es) = ?b" using arg_cong [OF es(1), of length] by (simp del: upt_Suc)
    have nth: "?f (i + 1) = Inr ((e # es) ! i)" if "i < length (e # es)" for i
      using arg_cong [OF es(1), of "\<lambda>xs. xs ! i"] that len by (cases i) (simp_all del: upt_Suc)
    have good: "parses (json_value T m) ((e # es) ! i) (?g (i + 1)) \<and> json_start ((e # es) ! i)" if i: "i < length (e # es)" for i
    proof (cases "map_of t (VInt (int (i + 1)))")
      case None
      then have "(e # es) ! i = ascii ''null''" using nth [OF i] look by simp
      then show ?thesis using None look literal_parses(1) [of T "m - 1"] json_start_cases(2) m by simp
    next
      case (Some v)
      then have "json_encode T v = Inr ((e # es) ! i)" using nth [OF i] look by simp
      from elem [OF map_of_SomeD [OF Some] this] show ?thesis using Some look by simp
    qed
    obtain r rs where rs: "map ?g [1..<?b + 1] = r # rs" using b by (cases "map ?g [1..<?b + 1]") (simp_all del: upt_Suc)
    have "list_all2 (parses (json_value T m)) (e # es) (r # rs)"
    proof (rule list_all2_all_nthI)
      show "length (e # es) = length (r # rs)" using len arg_cong [OF rs, of length] by (simp del: upt_Suc)
      fix i assume i: "i < length (e # es)"
      then have "(r # rs) ! i = ?g (i + 1)" using arg_cong [OF rs, of "\<lambda>xs. xs ! i"] len by (simp del: upt_Suc)
      then show "parses (json_value T m) ((e # es) ! i) ((r # rs) ! i)" using good [OF i] by simp
    qed
    moreover have "json_start e" using good [of 0] by simp
    ultimately have "parses (json_value T n) bs (build_array T (r # rs) 1 [])"
      using array_parses by (simp only: n es(2) append.simps)
    then show ?thesis using 2 rs by (simp add: Let_def del: build_array.simps upt_Suc)
  next
    case 3
    let ?p = "\<lambda>(k, v). concat_ok [json_key k, Inr [58], v]"
    have "concat_ok ([Inr [123]] @ json_commas (map ?p ?enc) @ [Inr [125]]) = Inr bs"
      using VTable.prems(1) 3 by (simp add: json_table_def del: upt_Suc concat_ok.simps)
    then obtain e es where es: "map ?p ?enc = Inr e # map Inr es" "bs = [123] @ e @ concat (map (Cons 44) es) @ [125]"
      by (rule json_commas_Inr) (use 3 in simp)
    let ?q = "\<lambda>(k, v). (the (key_text k), projr (json_encode T v))"
    have parts: "e # es = map (\<lambda>(k, e). json_string k @ 58 # e) (map ?q t)"
      and enc: "list_all (\<lambda>(k, v). \<exists>e. json_encode T v = Inr e) t"
    proof -
      have p: "\<exists>x. json_encode T v = Inr x \<and> y = json_string (the (key_text k)) @ 58 # x" if "?p (k, json_encode T v) = Inr y" for k v y
        using that by (cases "key_text k"; cases "json_encode T v") (auto simp: json_key_def)
      have "map ?p ?enc = map Inr (e # es)" using es(1) by simp
      then have "e # es = map (\<lambda>(k, e). json_string k @ 58 # e) (map ?q t) \<and> list_all (\<lambda>(k, v). \<exists>e. json_encode T v = Inr e) t"
      proof (induction t arbitrary: e es)
        case (Cons kv t)
        obtain k v where kv: "kv = (k, v)" by (cases kv)
        from Cons.prems have hd: "?p (k, json_encode T v) = Inr e"
          and tl: "map ?p (map (\<lambda>(k, v). (k, json_encode T v)) t) = map Inr es" by (simp_all add: kv)
        have rest: "es = map (\<lambda>(k, e). json_string k @ 58 # e) (map ?q t) \<and> list_all (\<lambda>(k, v). \<exists>e. json_encode T v = Inr e) t"
        proof (cases es)
          case Nil
          then show ?thesis using tl by simp
        next
          case (Cons a list)
          then show ?thesis using Cons.IH tl by blast
        qed
        show ?case using p [OF hd] rest by (auto simp: kv)
      qed simp
      then show "e # es = map (\<lambda>(k, e). json_string k @ 58 # e) (map ?q t)"
        "list_all (\<lambda>(k, v). \<exists>e. json_encode T v = Inr e) t" by blast+
    qed
    have all: "list_all2 (\<lambda>(k, e) (k', r). k' = Inr (VStr k) \<and> parses (json_value T m) e r)
        (map ?q t) (map (\<lambda>(k, v). (Inr (VStr (the (key_text k))), v)) ?built)"
      using enc elem by (auto simp: list_all2_map1 list_all2_map2 list_all2_same list_all_iff)
    obtain kv t' where t: "t = kv # t'" using 3 by (cases t) auto
    have e: "e = (\<lambda>(k, e). json_string k @ 58 # e) (?q kv)" "es = map (\<lambda>(k, e). json_string k @ 58 # e) (map ?q t')"
      using parts by (simp_all add: t)
    from object_parses [OF all [unfolded t list.map]]
    have "parses (json_value T n) bs (build_map T (map (\<lambda>(k, v). (Inr (VStr (the (key_text k))), v)) ?built) [])"
      by (simp only: n es(2) e append.simps map_map comp_assoc t list.map)
    then show ?thesis using 3 by (simp add: Let_def)
  qed
next
  case (VNum x)
  then obtain m where n: "n = Suc m" by (cases n) simp_all
  have "bs = format_number x" "number_like (format_number x)" using VNum by (simp_all split: if_splits)
  then show ?case unfolding n json_built.simps by (simp only: number_parses)
next
  case (VInt i)
  then obtain m where n: "n = Suc m" by (cases n) simp_all
  have "parses (json_value T n) (dec_int i) (number_text (dec_int i))" unfolding n by (rule number_parses [OF number_like_dec_int])
  moreover have "bs = dec_int i" "i64_ok i" using VInt by simp_all
  moreover from this have "number_text (dec_int i) = Inr (VInt i)" by (simp only: number_text_dec_int)
  ultimately show ?case by (simp only: json_built.simps)
next
  case (VStr s)
  then obtain m where n: "n = Suc m" by (cases n) simp_all
  have "bs = json_string s" using VStr by simp
  then show ?case unfolding n by (simp only: json_built.simps string_parses)
next
  case VNil
  then obtain m where n: "n = Suc m" by (cases n) simp_all
  have "bs = ascii ''null''" using VNil by simp
  then show ?case unfolding n by (simp only: json_built.simps literal_parses)
next
  case (VBool b)
  then obtain m where n: "n = Suc m" by (cases n) simp_all
  have "bs = ascii (if b then ''true'' else ''false'')" using VBool by simp
  then show ?case unfolding n by (cases b) (simp_all only: json_built.simps literal_parses if_True if_False)
qed simp



section \<open>Decoding ends\<close>

definition json_ok :: "nat \<Rightarrow> lval dec \<Rightarrow> bool" where
  "json_ok n d \<longleftrightarrow> (\<forall>data. (\<forall>x left. d data = Some (Inr (x, left)) \<longrightarrow> length left < length data) \<and>
     (length data < n \<longrightarrow> d data \<noteq> None))"

lemma json_okD:
  "json_ok n d \<Longrightarrow> d data = Some (Inr (x, left)) \<Longrightarrow> length left < length data"
  "json_ok n d \<Longrightarrow> length data < n \<Longrightarrow> d data \<noteq> None"
  by (simp_all add: json_ok_def)

lemma skip_ws_le: "length (skip_ws data) \<le> length data"
  by (simp add: skip_ws_def length_dropWhile_le)

lemma skip_ws_shorter: "skip_ws data = c # left \<Longrightarrow> length left < length data"
  using skip_ws_le [of data] by simp

lemma string_body_shorter: "string_body data = Inr (out, left) \<Longrightarrow> length left < length data"
proof (induction data arbitrary: out rule: length_induct)
  case (1 data)
  have sub: "length left < length l" if "map_sum id (map_prod f id) (string_body l) = Inr (out, left)" "length l < length data" for f l
    using that "1.IH" by (cases "string_body l") auto
  obtain c l where data: "data = c # l" using "1.prems" by (cases data) (simp_all add: string_body.simps)
  consider "c = 34" | "c \<noteq> 34" "c \<noteq> 92" | "c = 92" by blast
  then show ?case
  proof cases
    case 1
    then show ?thesis using "1.prems" data by (simp add: string_body_simps)
  next
    case 2
    then have "map_sum id (map_prod (Cons c) id) (string_body l) = Inr (out, left)"
      using "1.prems" data by (simp add: string_body_simps)
    from sub [OF this] show ?thesis by (simp add: data)
  next
    case 3
    then obtain e l2 where l: "l = e # l2"
      using "1.prems" data by (cases l) (simp_all add: string_body.simps [of "92 # _"])
    show ?thesis
    proof (cases "simple_escape e")
      case (Some b)
      then have "map_sum id (map_prod (Cons b) id) (string_body l2) = Inr (out, left)"
        using "1.prems" 3 by (simp add: data l string_body_simps)
      from sub [OF this] show ?thesis by (simp add: data l)
    next
      case None
      then obtain out' l3 where u: "e = 117" "unicode_escape l2 = Inr (out', l3)"
        using "1.prems" 3 by (cases "e = 117"; cases "unicode_escape l2") (auto simp: data l string_body.simps [of "92 # _"])
      then have "map_sum id (map_prod (append out') id) (string_body l3) = Inr (out, left)"
        using "1.prems" 3 by (simp add: data l string_body_simps)
      from sub [OF this] show ?thesis using unicode_escape_shorter [OF u(2)] by (simp add: data l)
    qed
  qed
qed

lemma elements_ok:
  assumes "json_ok n d"
  shows "(\<forall>x left. json_elements T d rounds i t data = Some (Inr (x, left)) \<longrightarrow> length left < length data) \<and>
    (length data < rounds \<longrightarrow> length data < n \<longrightarrow> json_elements T d rounds i t data \<noteq> None)"
proof (induction rounds arbitrary: i t data)
  case (Suc rounds)
  show ?case
  proof (cases "d data")
    case None
    then show ?thesis using json_okD(2) [OF assms, of data] by auto
  next
    case (Some r)
    show ?thesis
    proof (cases r)
      case (Inl e)
      then show ?thesis using Some by simp
    next
      case (Inr vl)
      obtain v l where vl: "vl = (v, l)" by (cases vl)
      have l: "length l < length data" using json_okD(1) [OF assms] Some Inr vl by blast
      show ?thesis
      proof (cases "skip_ws l")
        case Nil
        then show ?thesis using Some Inr vl by (auto split: sum.splits)
      next
        case (Cons c l')
        then have "length l' < length data" using skip_ws_shorter [OF Cons] l by simp
        then show ?thesis using Some Inr vl Cons Suc.IH [of _ _ l'] by (fastforce split: sum.splits if_splits)
      qed
    qed
  qed
qed simp

lemma members_ok:
  assumes "json_ok n d"
  shows "(\<forall>x left. json_members T d rounds t data = Some (Inr (x, left)) \<longrightarrow> length left < length data) \<and>
    (length data < rounds \<longrightarrow> length data < n \<longrightarrow> json_members T d rounds t data \<noteq> None)"
proof (induction rounds arbitrary: t data)
  case (Suc rounds)
  show ?case
  proof (cases "\<exists>c l key l2 l3. skip_ws data = c # l \<and> c = 34 \<and> string_body l = Inr (key, l2) \<and> skip_ws l2 = 58 # l3")
    case False
    have "\<exists>e. json_members T d (Suc rounds) t data = Some (Inl e)"
    proof (cases "skip_ws data")
      case (Cons c l)
      show ?thesis
      proof (cases "c = 34 \<and> (\<exists>kl. string_body l = Inr kl)")
        case True
        then obtain key l2 where "string_body l = Inr (key, l2)" "c = 34" by fastforce
        then show ?thesis using False Cons by (cases "skip_ws l2") auto
      next
        case False
        then show ?thesis using Cons by (cases "string_body l") auto
      qed
    qed simp
    then show ?thesis by auto
  next
    case True
    then obtain l key l2 l3 where l: "skip_ws data = 34 # l" "string_body l = Inr (key, l2)" "skip_ws l2 = 58 # l3" by blast
    have l3: "length l3 < length data"
      using skip_ws_shorter [OF l(1)] string_body_shorter [OF l(2)] skip_ws_shorter [OF l(3)] by simp
    show ?thesis
    proof (cases "d l3")
      case None
      then show ?thesis using l l3 json_okD(2) [OF assms, of l3] by auto
    next
      case (Some r)
      show ?thesis
      proof (cases r)
        case (Inl e)
        then show ?thesis using Some l by simp
      next
        case (Inr vl)
        obtain v l4 where vl: "vl = (v, l4)" by (cases vl)
        have l4: "length l4 < length l3" using json_okD(1) [OF assms] Some Inr vl by blast
        show ?thesis
        proof (cases "skip_ws l4")
          case Nil
          then show ?thesis using Some Inr vl l by (auto split: sum.splits)
        next
          case (Cons c l5)
          then have "length l5 < length data" using skip_ws_shorter [OF Cons] l3 l4 by simp
          then show ?thesis using Some Inr vl Cons l Suc.IH [of _ l5] by (fastforce split: sum.splits if_splits)
        qed
      qed
    qed
  qed
qed simp

lemma json_number_ok:
  assumes "c = 45 \<or> is_digit c" and "json_number (c # l) = Some (Inr (x, left))"
  shows "length left \<le> length l"
proof -
  have "left = dropWhile number_char (c # l)"
    using assms(2) by (cases "number_text (takeWhile number_char (c # l))") (auto simp: json_number_def)
  moreover have "number_char c" using assms(1) by (auto simp: number_char_def)
  ultimately show ?thesis by (simp add: length_dropWhile_le)
qed

lemma json_number_total: "json_number data \<noteq> None"
  by (simp add: json_number_def)

lemma json_first_ok:
  assumes "json_ok n d"
  shows "(\<forall>x left. json_first T d c l = Some (Inr (x, left)) \<longrightarrow> length left \<le> length l) \<and>
    (length l < n \<longrightarrow> json_first T d c l \<noteq> None)"
proof -
  have ws: "length (tl (skip_ws l)) \<le> length l" "length (skip_ws l) \<le> length l" "length (skip_ws l) < Suc (length (skip_ws l))"
    using skip_ws_le [of l] by simp_all
  note e = elements_ok [OF assms, of T "Suc (length (skip_ws l))" 1 "[]" "skip_ws l"]
    members_ok [OF assms, of T "Suc (length (skip_ws l))" "[]" "skip_ws l"]
  consider "c = 123" | "c = 91" | "c = 34" | "c = 116" | "c = 102" | "c = 110"
    | "c = 45 \<or> is_digit c" | "c \<notin> {123, 91, 34, 116, 102, 110, 45}" "\<not> is_digit c" by blast
  then show ?thesis
  proof cases
    case 1
    then show ?thesis using e(2) ws by (auto simp: json_first_def Let_def simp del: json_members.simps)
  next
    case 2
    then show ?thesis using e(1) ws by (auto simp: json_first_def Let_def simp del: json_elements.simps)
  next
    case 3
    have "length left \<le> length l" if "string_body l = Inr (out, left)" for out left
      using string_body_shorter [OF that] by simp
    then show ?thesis using 3 by (cases "string_body l") (auto simp: json_first_def)
  next
    case 7
    then show ?thesis using json_number_ok [OF 7] json_number_total by (simp add: json_first_number [OF 7])
  qed (auto simp: json_first_def json_literal_def)
qed

lemma json_value_ok: "json_ok n (json_value T n)"
proof (induction n)
  case 0
  show ?case by (simp add: json_ok_def)
next
  case (Suc n)
  show ?case unfolding json_ok_def
  proof (intro allI conjI impI)
    fix data x left
    assume a: "json_value T (Suc n) data = Some (Inr (x, left))"
    then obtain c l where l: "skip_ws data = c # l" by (cases "skip_ws data") auto
    then have "length left \<le> length l" using a json_first_ok [OF Suc, of T c l] by simp
    then show "length left < length data" using skip_ws_shorter [OF l] by simp
  next
    fix data :: bytes
    assume a: "length data < Suc n"
    show "json_value T (Suc n) data \<noteq> None"
    proof (cases "skip_ws data")
      case (Cons c l)
      then have "length l < n" using skip_ws_shorter [OF Cons] a by simp
      then show ?thesis using Cons json_first_ok [OF Suc, of T c l] by simp
    qed simp
  qed
qed

text \<open>
  C38: \<open>cjson.decode\<close> and \<open>cmsgpack.unpack\<close> come to an end on every input, with a value or an error, if there is room for
  one nested call for every byte.\<close>

theorem script_decoders_end:
  assumes "length data < room"
  shows "json_decode T room data \<noteq> None \<and> mp_unpack T room data \<noteq> None"
proof -
  have "length (skip_ws data) < room" using skip_ws_le [of data] assms by simp
  then have "json_value T room (skip_ws data) \<noteq> None" by (rule json_okD(2) [OF json_value_ok])
  then show ?thesis using mp_unpack_enough [OF assms] by (simp add: json_decode_def)
qed

theorem script_decoders_end_witness:
  "json_decode plain_tables 3 [91, 49] \<noteq> None \<and> mp_unpack plain_tables 3 [91, 49] \<noteq> None"
  by (rule script_decoders_end) simp

text \<open>
  \<open>cjson.decode\<close> has no bound on its recursion: whatever stack there is, as many opening brackets call
  \<open>parse_value\<close> once too often.\<close>

theorem decode_exhausts_stack: "json_decode T room (replicate room 91) = None"
proof -
  have ws: "skip_ws (replicate n 91) = replicate n 91" for n by (cases n) (simp_all add: skip_ws_def)
  have "json_value T n (replicate n 91) = None" for n
  proof (induction n)
    case (Suc n)
    then show ?case by (cases n) (simp_all add: ws skip_ws_Cons json_first_def Let_def skip_ws_def)
  qed simp
  then show ?thesis by (simp add: json_decode_def ws)
qed

text \<open>What the escapes let pass: a sign among the digits, and anything behind a high surrogate.\<close>

lemma lenient_escapes:
  "unicode_escape (ascii ''+041'') = Inr ([65], [])"
  "unicode_escape (ascii ''d800'' @ [92, 117] @ ascii ''0041'') = Inr ([0xe2, 0x91, 0x81], [])"
  by code_simp+

end
