(* ===== verification/Luabit.thy ===== *)
theory Luabit
  imports Lua Runner
begin

text \<open>
  The \<open>bit\<close> library of scripts (src/commands/scripting/luabit.rs) on 32-bit words. An argument is the float the
  interpreter passes or, for a count, an \<open>i64\<close>.
\<close>

text \<open>\<open>tobit\<close>: through an \<open>i64\<close>, which saturates, to its low 32 bits. The results are read as signed.\<close>

definition tobit :: "f64 \<Rightarrow> u32" where
  "tobit x = word_of_int (f64_to_i64 x)"

definition bit_bnot :: "f64 \<Rightarrow> int" where
  "bit_bnot x = sint (NOT (tobit x))"

definition bit_fold :: "(u32 \<Rightarrow> u32 \<Rightarrow> u32) \<Rightarrow> u32 \<Rightarrow> f64 list \<Rightarrow> int" where
  "bit_fold f init xs = sint (foldl (\<lambda>acc x. f acc (tobit x)) init xs)"

definition bit_band :: "f64 list \<Rightarrow> int" where "bit_band = bit_fold (AND) (-1)"
definition bit_bor :: "f64 list \<Rightarrow> int" where "bit_bor = bit_fold (OR) 0"
definition bit_bxor :: "f64 list \<Rightarrow> int" where "bit_bxor = bit_fold (XOR) 0"

text \<open>\<open>n & 31\<close> of a signed count.\<close>

definition shift_count :: "int \<Rightarrow> nat" where
  "shift_count n = nat (n mod 32)"

definition bit_lshift :: "f64 \<Rightarrow> int \<Rightarrow> int" where
  "bit_lshift x n = sint (push_bit (shift_count n) (tobit x))"

definition bit_rshift :: "f64 \<Rightarrow> int \<Rightarrow> int" where
  "bit_rshift x n = sint (drop_bit (shift_count n) (tobit x))"

definition bit_arshift :: "f64 \<Rightarrow> int \<Rightarrow> int" where
  "bit_arshift x n = sint (signed_drop_bit (shift_count n) (tobit x))"

definition bit_rol :: "f64 \<Rightarrow> int \<Rightarrow> int" where
  "bit_rol x n = sint (word_rotl (shift_count n) (tobit x))"

definition bit_ror :: "f64 \<Rightarrow> int \<Rightarrow> int" where
  "bit_ror x n = sint (word_rotr (shift_count n) (tobit x))"

definition swap_bytes :: "u32 \<Rightarrow> u32" where
  "swap_bytes w =
     (let byte = (\<lambda>i. take_bit 8 (drop_bit (8 * i) w))
      in push_bit 24 (byte 0) OR push_bit 16 (byte 1) OR push_bit 8 (byte 2) OR byte 3)"

definition bit_bswap :: "f64 \<Rightarrow> int" where
  "bit_bswap x = sint (swap_bytes (tobit x))"

text \<open>\<open>tohex\<close>: the low digits, in capitals when the count is negative.\<close>

definition bit_tohex :: "f64 \<Rightarrow> int option \<Rightarrow> bytes" where
  "bit_tohex x n =
     (let digits = (case n of None \<Rightarrow> 8 | Some n \<Rightarrow> n);
          width = min (nat \<bar>digits\<bar>) 8;
          digit = (if digits < 0 then upper_hex else hex_digit)
      in drop (8 - width) (map (\<lambda>i. digit (ucast (drop_bit (4 * i) (tobit x) AND 15))) (rev [0..<8])))"

lemma tohex_length: "length (bit_tohex x n) = min (nat \<bar>case n of None \<Rightarrow> 8 | Some n \<Rightarrow> n\<bar>) 8"
  by (simp add: bit_tohex_def Let_def)

lemma bit_swap_bytes:
  "n < 32 \<Longrightarrow> bit (swap_bytes w) n =
    bit w (if n < 8 then n + 24 else if n < 16 then n + 8 else if n < 24 then n - 8 else n - 24)"
  by (auto simp: swap_bytes_def Let_def bit_simps add.commute not_less)

lemma swap_bytes_twice: "swap_bytes (swap_bytes w) = w"
proof (rule bit_word_eqI)
  fix n :: nat
  assume "n < LENGTH(32)"
  then consider "n < 8" | "8 \<le> n" "n < 16" | "16 \<le> n" "n < 24" | "24 \<le> n" "n < 32" by fastforce
  then show "bit (swap_bytes (swap_bytes w)) n = bit w n" 
  proof cases
    case 3
    then have "bit (swap_bytes (swap_bytes w)) n = bit (swap_bytes w) (n - 8)" by (subst bit_swap_bytes) auto
    also have "\<dots> = bit w n" using 3 by (subst bit_swap_bytes) auto
    finally show ?thesis .
  next
    case 4
    then have "bit (swap_bytes (swap_bytes w)) n = bit (swap_bytes w) (n - 24)" by (subst bit_swap_bytes) auto
    also have "\<dots> = bit w n" using 4 by (subst bit_swap_bytes) auto
    finally show ?thesis .
  qed (simp_all add: bit_swap_bytes)
qed

lemma rotate_back: "word_rotr n (word_rotl n (w :: u32)) = w" "word_rotl n (word_rotr n w) = w"
  by (simp_all add: word_rot_rl word_rot_lr)

lemma rotate_period: "bit_rol x (n + 32) = bit_rol x n" "bit_ror x (n + 32) = bit_ror x n"
  by (simp_all add: bit_rol_def bit_ror_def shift_count_def)

end
