(* ===== verification/Spec2Isabelle.thy ===== *)
theory Spec2Isabelle
  imports Transactions Fingerprint Persist Boot Reading Cjson Luabit
begin

text \<open>
  A verification library for meebis, an in-memory server that speaks the Redis protocol (src/src).

  The program. A connection task (src/src/main.rs) reads bytes, cuts them into requests
  (src/src/resp.rs) and hands each request to \<open>handle\<close> (src/src/commands/mod.rs). \<open>handle\<close> applies the
  authentication gate, subscribe mode and transactions, and sends everything else to \<open>execute_locked\<close>,
  a table from command names to the handlers of src/src/commands. The handlers work on one of the
  numbered databases (src/src/db.rs), in which every read first drops an expired entry. Connections
  meet in the shared state (src/src/server.rs): the keyspace behind one lock, the client registry, the
  pub/sub registry (src/src/pubsub.rs) and the script cache. A Lua script calls back into the same
  table. Snapshots of the keyspace in the RDB format (src/src/rdb) are loaded at boot and written by
  \<open>SAVE\<close>, and \<open>DEBUG RELOAD\<close> passes the keyspace through the codec.

  The theories, in the order of their imports.
  \<^item> Prelude: byte strings, the ASCII literals, association lists with in-place update, the collections
    \<open>live_simps\<close> and \<open>wf_intros\<close>, the words.
  \<^item> Text: UTF-8 validity, \<open>from_utf8_lossy\<close>, ASCII case, decimal printing and parsing of integers.
  \<^item> F64: IEEE doubles by sign and magnitude bits, the operations, parsing and printing the code uses.
  \<^item> Resp: resp.rs, the reply frames with their encoding in both protocol versions and the incremental
    parser of requests; round trip, chunking and incompleteness. Reading: the loops of main.rs that cut the
    requests off the buffer; they end, and give the same requests however the network cuts the stream.
  \<^item> Glob: \<open>glob_match\<close> of db.rs and the language of a pattern.
  \<^item> ZSet, Db: the sorted-set structure and the database of db.rs. The clock is an argument, read once per
    command; expiry is lazy. Db\_Spec gives the abstract view \<open>live\<close> (key to value and deadline), the
    invariant \<open>db_ok\<close> and the locale of the typed accessors; Fingerprint is about \<open>WATCH\<close> fingerprints.
  \<^item> Cmd and Cmd\_Hash, Cmd\_Set, Cmd\_List, Cmd\_String, Cmd\_Bit, Cmd\_Generic, Cmd\_Zset, Cmd\_Stream: the
    helpers of commands/mod.rs and one theory per command module, each with all its commands, what the
    important ones do to the live contents, and \<open>db_ok\<close> for all of them.
  \<^item> Pubsub: pubsub.rs; the locale \<open>subscription_table\<close> is interpreted for channels and for patterns.
  \<^item> Server, Admin: the shared and connection state, commands/clientcmd.rs and commands/admin.rs.
  \<^item> Sha1: sha1.rs against FIPS 180-4.
  \<^item> Lua: the conversions of commands/scripting/mod.rs and \<open>SCRIPT\<close>.
  \<^item> Msgpack, Cjson, Luabit: the libraries scripts are given, commands/scripting/cmsgpack.rs, cjson.rs, luabit.rs. What
    is encoded is decoded, and decoding ends.
  \<^item> Dispatch: \<open>execute_locked\<close> with its table, \<open>EVAL\<close> and the calls a script makes; Dispatch\_Inv shows the
    invariant for every entry of the table.
  \<^item> Handle: one request; Handle\_Inv shows the invariant for it.
  \<^item> System: the running server as a step relation, reachability, the invariant by rule induction, panics;
    System\_Props and Transactions: properties of whole runs and of sequences of requests; Liveness: every request
    is answered, and a blocked connection is released.
  \<^item> Rdb\_Codec, Rdb\_Cursor, Rdb\_Packed, Rdb\_Value, Rdb: the checksum and the decompressor, the cursor and its
    writing counterpart, the packed encodings (listpack, ziplist, intset), the value types with streams,
    and whole images: what the writer writes the reader reads back (\<open>reads\<close>, composed from the parts), and
    what the checksum detects.
  \<^item> Rdb\_File: \<open>load\<close> and \<open>save\<close> over a file system whose failures are arguments, and what main.rs does with the
    snapshot at boot. Persist: the codec inside the running server.
  \<^item> Calendar, Log: log.rs; the dates are those of the Gregorian calendar, and a line does not depend on the
    secrets it redacts.
  \<^item> Runner, Cli, Boot: runner.rs, the command line of main.rs, and the way from an accepted command line to the
    running server of System and back out of it (main.rs, unixsocket.rs, server.rs). What the operating
    system answers is the record \<open>boot_io\<close>; the events the supervisor of the child sees are a list.

  Conventions. An \<open>i64\<close> is an \<open>int\<close> with the wrap-around or the check of the code written out, an \<open>u64\<close> is a
  64-bit word, \<open>usize\<close> counts are naturals. A \<open>HashMap\<close> is an association list with distinct keys, in an
  order no property depends on; a \<open>HashSet\<close> a distinct list; a \<open>BTreeMap\<close> a list sorted by key. A handler
  maps arguments and database to reply and database; a panic is \<open>None\<close> or \<open>Panicked\<close>, and it poisons the
  lock it happens under. A step of the system is what one task does between two await points; the
  model also allows interleavings between pipelined requests that the scheduler does not produce, so
  what holds in all reachable states holds of the server. Parameters stand for code outside the
  repository: the readings of the clock and process facts, \<open>DefaultHasher\<close>, the Unicode lower-casing, the
  Lua interpreter (\<open>lua_impl\<close>: what a script does is the tree of its calls to \<open>redis.pcall\<close>) and what the
  operating system refuses (\<open>file_io\<close>). In the dispatch, saving and reloading are the functions \<open>env_save\<close> and
  \<open>env_reload\<close>; Persist instantiates the second by the codec. An image is shorter than \<open>2 ^ 64\<close> bytes and the
  strings of a stream shorter than 4 GiB, as the machine has it; the writer reads the clock once.
  The loops of the code recurse on data or have a measure. The two decoders of scripts take the number of
  nested calls the stack has room for, and running out of it is \<open>None\<close>: one call for every byte is
  enough (\<open>script_decoders_end\<close>), and no fixed number is (\<open>decode_exhausts_stack\<close>, \<open>unpack_exhausts_stack\<close>).

  The condition \<open>tame\<close> of the system invariant excludes \<open>HINCRBYFLOAT\<close> with an infinite increment, which
  leaves an empty hash behind (\<open>hincrbyfloat_leaves_empty_hash\<close>); everything else is covered.

  Not modelled. The calls into the runtime: sockets, the spawning of tasks, the registration of signal
  handlers, the removal of the socket file; and the text of \<open>--help\<close>. The script libraries are modelled by
  themselves: a script in \<open>lua_impl\<close> may compute anything, so what it calls them for is not part of its tree.
\<close>

end
